(* ===== verification/Xv6_Prelude.thy ===== *)
theory Xv6_Prelude
  imports Main "HOL-Library.Word"
begin

text \<open>
  The shared vocabulary of the development: the result type of kernel code, the byte and
  word types, little-endian access to byte arrays, the search loop over a table, and the
  generic lemmas the component theories use.

  Kernel code is written as functions from the machine state to a result. \<open>Ret x s\<close> is a
  return with value \<open>x\<close> in state \<open>s\<close>; \<open>Panic m\<close> is a call of \<^verbatim>\<open>panic(m)\<close>, which never
  returns; \<open>Hang\<close> is a loop that makes no progress while no other hart runs (spinning on
  a lock held elsewhere); \<open>Susp s\<close> is a switch to the scheduler out of \<^verbatim>\<open>sleep\<close>, with the
  state at the switch.
\<close>

unbundle bit_operations_syntax

section \<open>Results of kernel code\<close>

datatype ('s, 'a) res = Ret 'a 's | Panic string | Hang | Susp 's

primrec bnd :: "('s, 'a) res \<Rightarrow> ('a \<Rightarrow> 's \<Rightarrow> ('s, 'b) res) \<Rightarrow> ('s, 'b) res" where
  "bnd (Ret x s) f = f x s"
| "bnd (Panic m) f = Panic m"
| "bnd Hang f = Hang"
| "bnd (Susp s) f = Susp s"

definition seq :: "('s, 'a) res \<Rightarrow> ('s \<Rightarrow> ('s, 'b) res) \<Rightarrow> ('s, 'b) res" where
  "seq m f = bnd m (\<lambda>_. f)"

lemma seq_simps [simp]:
  "seq (Ret x s) f = f s" "seq (Panic m) f = Panic m" "seq Hang f = Hang"
  "seq (Susp s) f = Susp s"
  by (simp_all add: seq_def)

named_theorems ret_iff \<open>when a composed operation returns\<close>

lemma bnd_Ret [ret_iff]:
  "bnd m f = Ret y t \<longleftrightarrow> (\<exists>x s. m = Ret x s \<and> f x s = Ret y t)"
  by (cases m) auto

lemma seq_Ret [ret_iff]:
  "seq m f = Ret y t \<longleftrightarrow> (\<exists>x s. m = Ret x s \<and> f s = Ret y t)"
  by (cases m) auto

lemma if_Ret [ret_iff]:
  "(if b then m else n) = Ret y t \<longleftrightarrow> (b \<and> m = Ret y t) \<or> (\<not> b \<and> n = Ret y t)"
  by auto

lemma bnd_assoc: "bnd (bnd m f) g = bnd m (\<lambda>x s. bnd (f x s) g)"
  by (cases m) auto

lemma bnd_cong [fundef_cong]:
  "m = m' \<Longrightarrow> (\<And>x s. m' = Ret x s \<Longrightarrow> f x s = f' x s) \<Longrightarrow> bnd m f = bnd m' f'"
  by (cases m') auto

lemma seq_cong [fundef_cong]:
  "m = m' \<Longrightarrow> (\<And>x s. m' = Ret x s \<Longrightarrow> f s = f' s) \<Longrightarrow> seq m f = seq m' f'"
  by (cases m') auto

definition returns :: "('s, 'a) res \<Rightarrow> bool" where
  "returns m \<longleftrightarrow> (\<exists>x s. m = Ret x s)"

section \<open>Bytes, words and arrays\<close>

type_synonym byte = "8 word"
type_synonym uint16 = "16 word"
type_synonym uint = "32 word"
type_synonym uint64 = "64 word"

text \<open>
  An array of bytes is a function from indices; only the indices below the declared length
  are ever used. A pointer into memory is the index of its first byte.
\<close>

type_synonym bytes = "nat \<Rightarrow> byte"

primrec ldn :: "nat \<Rightarrow> bytes \<Rightarrow> nat \<Rightarrow> 'a::len word" where
  "ldn 0 m a = 0"
| "ldn (Suc k) m a = ucast (m a) OR push_bit 8 (ldn k m (Suc a))"

primrec stn :: "nat \<Rightarrow> 'a::len word \<Rightarrow> bytes \<Rightarrow> nat \<Rightarrow> bytes" where
  "stn 0 v m a = m"
| "stn (Suc k) v m a = (stn k (drop_bit 8 v) m (Suc a))(a := ucast v)"

definition ld16 :: "bytes \<Rightarrow> nat \<Rightarrow> uint16" where "ld16 = ldn 2"
definition ld32 :: "bytes \<Rightarrow> nat \<Rightarrow> uint" where "ld32 = ldn 4"
definition ld64 :: "bytes \<Rightarrow> nat \<Rightarrow> uint64" where "ld64 = ldn 8"
definition st16 :: "uint16 \<Rightarrow> bytes \<Rightarrow> nat \<Rightarrow> bytes" where "st16 = stn 2"
definition st32 :: "uint \<Rightarrow> bytes \<Rightarrow> nat \<Rightarrow> bytes" where "st32 = stn 4"
definition st64 :: "uint64 \<Rightarrow> bytes \<Rightarrow> nat \<Rightarrow> bytes" where "st64 = stn 8"

lemma stn_other: "b < a \<or> a + k \<le> b \<Longrightarrow> stn k v m a b = m b"
  by (induction k arbitrary: v a) auto

lemma stn_cong_below: "b < a \<Longrightarrow> stn k v m a b = m b"
  by (rule stn_other) simp

lemma ldn_cong:
  "(\<And>i. i < k \<Longrightarrow> m (a + i) = m' (a + i)) \<Longrightarrow> ldn k m a = (ldn k m' a :: 'a::len word)"
proof (induction k arbitrary: a)
  case 0
  then show ?case by simp
next
  case (Suc k)
  have "m a = m' a" using Suc.prems[of 0] by simp
  moreover have "ldn k m (Suc a) = (ldn k m' (Suc a) :: 'a word)"
  proof (rule Suc.IH)
    show "m (Suc a + i) = m' (Suc a + i)" if "i < k" for i
      using Suc.prems[of "Suc i"] that by simp
  qed
  ultimately show ?case by (simp only: ldn.simps)
qed

lemma ldn_stn_other:
  "a + k \<le> b \<or> b + j \<le> a \<Longrightarrow> ldn k (stn j v m b) a = ldn k m a"
  by (rule ldn_cong) (auto intro: stn_other)

lemma ldn_stn_same:
  fixes v :: "'a::len word"
  shows "ldn k (stn k v m a) a = take_bit (8 * k) v"
proof (induction k arbitrary: v a)
  case 0
  then show ?case by simp
next
  case (Suc k)
  have "ldn k ((stn k (drop_bit 8 v) m (Suc a))(a := ucast v)) (Suc a)
      = (ldn k (stn k (drop_bit 8 v) m (Suc a)) (Suc a) :: 'a word)"
    by (rule ldn_cong) auto
  then have "ldn (Suc k) (stn (Suc k) v m a) a
      = ucast (ucast v :: byte) OR push_bit 8 (take_bit (8 * k) (drop_bit 8 v))"
    by (simp add: Suc.IH)
  also have "\<dots> = take_bit (8 * Suc k) v"
    by (rule bit_word_eqI) (auto simp: bit_simps)
  finally show ?case .
qed

lemmas ldst_defs = ld16_def ld32_def ld64_def st16_def st32_def st64_def

lemma ld_st_same [simp]:
  "ld16 (st16 v m a) a = v" "ld32 (st32 w m a) a = w" "ld64 (st64 x m a) a = x"
  by (simp_all add: ldst_defs ldn_stn_same take_bit_word_eq_self)

lemma ld_st_other:
  "a + 2 \<le> b \<or> b + 2 \<le> a \<Longrightarrow> ld16 (st16 v m b) a = ld16 m a"
  "a + 4 \<le> b \<or> b + 4 \<le> a \<Longrightarrow> ld32 (st32 w m b) a = ld32 m a"
  "a + 8 \<le> b \<or> b + 8 \<le> a \<Longrightarrow> ld64 (st64 x m b) a = ld64 m a"
  by (simp_all add: ldst_defs ldn_stn_other)

lemma st64_other: "b < a \<or> a + 8 \<le> b \<Longrightarrow> st64 v m a b = m b"
  by (simp add: st64_def stn_other)

lemma st32_other: "b < a \<or> a + 4 \<le> b \<Longrightarrow> st32 v m a b = m b"
  by (simp add: st32_def stn_other)

lemma ld64_cong: "(\<And>i. i < 8 \<Longrightarrow> m (a + i) = m' (a + i)) \<Longrightarrow> ld64 m a = ld64 m' a"
  unfolding ld64_def by (rule ldn_cong)

lemma ld32_cong: "(\<And>i. i < 4 \<Longrightarrow> m (a + i) = m' (a + i)) \<Longrightarrow> ld32 m a = ld32 m' a"
  unfolding ld32_def by (rule ldn_cong)

lemma unat_of_nat64: "n < 2 ^ 64 \<Longrightarrow> unat (word_of_nat n :: uint64) = n"
  by (subst unat_of_nat) simp

lemma unat_of_nat32: "n < 2 ^ 32 \<Longrightarrow> unat (word_of_nat n :: uint) = n"
  by (subst unat_of_nat) simp

lemma unat_inj: "unat (a :: 'a::len word) = unat b \<longleftrightarrow> a = b"
  by (simp add: word_eq_iff_unsigned [where ?'a = nat])

lemma unat_add64: "unat (a :: uint64) + unat b < 2 ^ 64 \<Longrightarrow> unat (a + b) = unat a + unat b"
  by (simp add: unat_plus_if')

lemma unat_add32: "unat (a :: uint) + unat b < 2 ^ 32 \<Longrightarrow> unat (a + b) = unat a + unat b"
  by (simp add: unat_plus_if')

end
