(* ===== verification/Xv6_String.thy ===== *)
theory Xv6_String
  imports Xv6_Prelude
begin

text \<open>
  \<^verbatim>\<open>kernel/string.c\<close> and the string part of \<^verbatim>\<open>user/ulib.c\<close>. Memory is a byte array and a
  pointer is an index into it. A string that is only read is given as the bytes from its
  pointer onwards, and advancing the pointer shifts the function. Loops over a count are
  recursions on it; the loops that run up to a NUL may not stop, so \<open>strlen\<close> and its kin
  are partial functions whose value is \<open>None\<close> when there is no NUL.
\<close>

section \<open>kernel/string.c\<close>

abbreviation shift :: "bytes \<Rightarrow> bytes" where
  "shift p \<equiv> (\<lambda>i. p (Suc i))"

function memset_loop :: "nat \<Rightarrow> nat \<Rightarrow> nat \<Rightarrow> uint \<Rightarrow> bytes \<Rightarrow> bytes" where
  "memset_loop i n dst c m =
     (if i < n then memset_loop (Suc i) n dst c (m(dst + i := ucast c)) else m)"
  by pat_completeness auto
termination by (relation "measure (\<lambda>(i, n, _). n - i)") auto

declare memset_loop.simps [simp del]

definition memset :: "nat \<Rightarrow> uint \<Rightarrow> nat \<Rightarrow> bytes \<Rightarrow> bytes" where
  "memset dst c n m = memset_loop 0 n dst c m"

primrec memcmp :: "bytes \<Rightarrow> bytes \<Rightarrow> nat \<Rightarrow> int" where
  "memcmp s1 s2 0 = 0"
| "memcmp s1 s2 (Suc n) =
     (if s1 0 \<noteq> s2 0 then uint (s1 0) - uint (s2 0)
      else memcmp (shift s1) (shift s2) n)"

primrec memmove_down :: "nat \<Rightarrow> nat \<Rightarrow> nat \<Rightarrow> bytes \<Rightarrow> bytes" where
  "memmove_down 0 d s m = m"
| "memmove_down (Suc n) d s m = memmove_down n (d - 1) (s - 1) (m(d - 1 := m (s - 1)))"

primrec memmove_up :: "nat \<Rightarrow> nat \<Rightarrow> nat \<Rightarrow> bytes \<Rightarrow> bytes" where
  "memmove_up 0 d s m = m"
| "memmove_up (Suc n) d s m = memmove_up n (Suc d) (Suc s) (m(d := m s))"

definition memmove :: "nat \<Rightarrow> nat \<Rightarrow> nat \<Rightarrow> bytes \<Rightarrow> bytes" where
  "memmove d s n m =
     (if n = 0 then m
      else if s < d \<and> s + n > d then memmove_down n (d + n) (s + n) m
      else memmove_up n d s m)"

definition memcpy :: "nat \<Rightarrow> nat \<Rightarrow> nat \<Rightarrow> bytes \<Rightarrow> bytes" where
  "memcpy d s n m = memmove d s n m"

primrec strncmp :: "bytes \<Rightarrow> bytes \<Rightarrow> nat \<Rightarrow> int" where
  "strncmp p q 0 = 0"
| "strncmp p q (Suc n) =
     (if p 0 \<noteq> 0 \<and> p 0 = q 0 then strncmp (shift p) (shift q) n
      else uint (p 0) - uint (q 0))"

primrec strncpy_pad :: "nat \<Rightarrow> nat \<Rightarrow> bytes \<Rightarrow> bytes" where
  "strncpy_pad 0 s m = m"
| "strncpy_pad (Suc n) s m = strncpy_pad n (Suc s) (m(s := 0))"

primrec strncpy :: "nat \<Rightarrow> bytes \<Rightarrow> nat \<Rightarrow> bytes \<Rightarrow> bytes" where
  "strncpy s t 0 m = m"
| "strncpy s t (Suc n) m =
     (let m' = m(s := t 0) in
      if t 0 \<noteq> 0 then strncpy (Suc s) (shift t) n m' else strncpy_pad n (Suc s) m')"

primrec safestrcpy_loop :: "nat \<Rightarrow> nat \<Rightarrow> bytes \<Rightarrow> bytes \<Rightarrow> bytes" where
  "safestrcpy_loop 0 s t m = m(s := 0)"
| "safestrcpy_loop (Suc n) s t m =
     (let m' = m(s := t 0) in
      if t 0 \<noteq> 0 then safestrcpy_loop n (Suc s) (shift t) m' else m'(Suc s := 0))"

definition safestrcpy :: "nat \<Rightarrow> bytes \<Rightarrow> int \<Rightarrow> bytes \<Rightarrow> bytes" where
  "safestrcpy s t n m = (if n \<le> 0 then m else safestrcpy_loop (nat n - 1) s t m)"

partial_function (option) strlen_from :: "bytes \<Rightarrow> nat \<Rightarrow> nat option" where
  "strlen_from s n = (if s n \<noteq> 0 then strlen_from s (Suc n) else Some n)"

definition strlen :: "bytes \<Rightarrow> nat option" where
  "strlen s = strlen_from s 0"

section \<open>user/ulib.c\<close>

partial_function (option) strcpy :: "nat \<Rightarrow> bytes \<Rightarrow> bytes \<Rightarrow> bytes option" where
  "strcpy s t m =
     (let m' = m(s := t 0) in if t 0 \<noteq> 0 then strcpy (Suc s) (shift t) m' else Some m')"

partial_function (option) strcmp :: "bytes \<Rightarrow> bytes \<Rightarrow> int option" where
  "strcmp p q =
     (if p 0 \<noteq> 0 \<and> p 0 = q 0 then strcmp (shift p) (shift q)
      else Some (uint (p 0) - uint (q 0)))"

partial_function (option) strchr_from :: "bytes \<Rightarrow> byte \<Rightarrow> nat \<Rightarrow> nat option option" where
  "strchr_from s c i =
     (if s i \<noteq> 0 then (if s i = c then Some (Some i) else strchr_from s c (Suc i))
      else Some None)"

definition strchr :: "bytes \<Rightarrow> byte \<Rightarrow> nat option option" where
  "strchr s c = strchr_from s c 0"

partial_function (option) atoi_from :: "bytes \<Rightarrow> nat \<Rightarrow> uint \<Rightarrow> uint option" where
  "atoi_from s i n =
     (if 48 \<le> s i \<and> s i \<le> 57 then atoi_from s (Suc i) (n * 10 + ucast (s i) - 48)
      else Some n)"

definition atoi :: "bytes \<Rightarrow> uint option" where
  "atoi s = atoi_from s 0 0"

definition umemmove :: "nat \<Rightarrow> nat \<Rightarrow> int \<Rightarrow> bytes \<Rightarrow> bytes" where
  "umemmove dst src n m =
     (if dst < src then memmove_up (nat n) dst src m
      else memmove_down (nat n) (nat (int dst + n)) (nat (int src + n)) m)"

section \<open>Reference definitions\<close>

text \<open>The string at \<open>p\<close> cut off after \<open>n\<close> bytes, as a list without its NUL.\<close>

definition cstr :: "nat \<Rightarrow> bytes \<Rightarrow> byte list" where
  "cstr n p = takeWhile (\<lambda>c. c \<noteq> 0) (map p [0..<n])"

text \<open>The bytes from \<open>a\<close> on replaced by the first \<open>n\<close> bytes of \<open>src\<close>.\<close>

definition blit :: "nat \<Rightarrow> nat \<Rightarrow> bytes \<Rightarrow> bytes \<Rightarrow> bytes" where
  "blit a n src m = (\<lambda>x. if a \<le> x \<and> x < a + n then src (x - a) else m x)"

text \<open>The bytes of a string literal, followed by NULs.\<close>

definition str :: "string \<Rightarrow> bytes" where
  "str xs = (\<lambda>i. if i < length xs then of_char (xs ! i) else 0)"

section \<open>Lemmas\<close>

lemma blit_0 [simp]: "blit a 0 src m = m"
  by (auto simp: blit_def fun_eq_iff)

lemma blit_in [simp]: "i < n \<Longrightarrow> blit a n src m (a + i) = src i"
  by (simp add: blit_def)

lemma blit_out: "x < a \<or> a + n \<le> x \<Longrightarrow> blit a n src m x = m x"
  by (auto simp: blit_def)

lemma memset_loop_eq:
  "i \<le> n \<Longrightarrow> memset_loop i n dst c m = blit (dst + i) (n - i) (\<lambda>_. ucast c) m"
proof (induction i n dst c m rule: memset_loop.induct)
  case (1 i n dst c m)
  show ?case
  proof (cases "i < n")
    case True
    have "memset_loop i n dst c m = memset_loop (Suc i) n dst c (m(dst + i := ucast c))"
      using True by (subst memset_loop.simps) simp
    also have "\<dots> = blit (dst + Suc i) (n - Suc i) (\<lambda>_. ucast c) (m(dst + i := ucast c))"
      using 1 True by (simp add: fun_upd_def)
    also have "\<dots> = blit (dst + i) (n - i) (\<lambda>_. ucast c) m"
      using True by (auto simp: blit_def fun_eq_iff)
    finally show ?thesis .
  next
    case False
    with 1 show ?thesis by (subst memset_loop.simps) simp
  qed
qed

lemma memset_eq: "memset dst c n m = blit dst n (\<lambda>_. ucast c) m"
  by (simp add: memset_def memset_loop_eq)

lemma memmove_up_eq:
  "s \<ge> d \<or> s + n \<le> d \<Longrightarrow> memmove_up n d s m = blit d n (\<lambda>i. m (s + i)) m"
proof (induction n arbitrary: d s m)
  case 0
  then show ?case by simp
next
  case (Suc n)
  have "memmove_up n (Suc d) (Suc s) (m(d := m s))
      = blit (Suc d) n (\<lambda>i. (m(d := m s)) (Suc s + i)) (m(d := m s))"
    by (rule Suc.IH) (use Suc.prems in auto)
  also have "\<dots> = blit d (Suc n) (\<lambda>i. m (s + i)) m"
    using Suc.prems by (auto simp: blit_def fun_eq_iff Suc_diff_le intro!: arg_cong [of _ _ m])
  finally show ?case by simp
qed

lemma memmove_down_eq:
  "s \<le> d \<Longrightarrow> memmove_down n (d + n) (s + n) m = blit d n (\<lambda>i. m (s + i)) m"
proof (induction n arbitrary: m)
  case 0
  then show ?case by simp
next
  case (Suc n)
  have "memmove_down n (d + n) (s + n) (m(d + n := m (s + n)))
      = blit d n (\<lambda>i. (m(d + n := m (s + n))) (s + i)) (m(d + n := m (s + n)))"
    by (rule Suc.IH) (use Suc.prems in auto)
  also have "\<dots> = blit d (Suc n) (\<lambda>i. m (s + i)) m"
    using Suc.prems by (auto simp: blit_def fun_eq_iff less_Suc_eq)
  finally show ?case by simp
qed

lemma memmove_eq: "memmove d s n m = blit d n (\<lambda>i. m (s + i)) m"
  by (auto simp: memmove_def memmove_up_eq memmove_down_eq)

lemma cstr_0 [simp]: "cstr 0 p = []"
  by (simp add: cstr_def)

lemma cstr_Suc: "cstr (Suc n) p = (if p 0 = 0 then [] else p 0 # cstr n (shift p))"
proof -
  have "map p [0..<Suc n] = p 0 # map (shift p) [0..<n]"
    by (simp add: upt_conv_Cons map_Suc_upt [symmetric] comp_def del: upt_Suc)
  then show ?thesis by (simp add: cstr_def)
qed

lemma cstr_length: "length (cstr n p) \<le> n"
  using length_takeWhile_le [of _ "map p [0..<n]"] by (simp add: cstr_def)

lemma strncmp_iff: "strncmp p q n = 0 \<longleftrightarrow> cstr n p = cstr n q"
  by (induction n arbitrary: p q) (auto simp: cstr_Suc word_uint_eq_iff)

lemma safestrcpy_loop_frame:
  "x < s \<or> s + n < x \<Longrightarrow> safestrcpy_loop n s t m x = m x"
  by (induction n arbitrary: s t m) (auto simp: Let_def)

lemma safestrcpy_loop_cstr:
  "cstr (Suc n) (\<lambda>i. safestrcpy_loop n s t m (s + i)) = cstr n t"
proof (induction n arbitrary: s t m)
  case 0
  then show ?case by (simp add: cstr_Suc)
next
  case (Suc n)
  show ?case
  proof (cases "t 0 = 0")
    case True
    then show ?thesis by (simp add: cstr_Suc Let_def)
  next
    case False
    have "cstr (Suc n) (\<lambda>i. safestrcpy_loop n (Suc s) (shift t) (m(s := t 0)) (Suc s + i))
        = cstr n (shift t)"
      by (rule Suc.IH)
    moreover have "safestrcpy_loop n (Suc s) (shift t) (m(s := t 0)) s = t 0"
      by (simp add: safestrcpy_loop_frame)
    ultimately show ?thesis
      using False by (simp add: cstr_Suc [of "Suc n"] cstr_Suc [of n t] Let_def)
  qed
qed

lemma strlen_from_Least:
  assumes "s (n + d) = 0" and "\<And>j. j < d \<Longrightarrow> s (n + j) \<noteq> 0"
  shows "strlen_from s n = Some (n + d)"
  using assms
proof (induction d arbitrary: n)
  case 0
  then show ?case by (subst strlen_from.simps) simp
next
  case (Suc d)
  have "s n \<noteq> 0" using Suc.prems(2) [of 0] by simp
  moreover have "strlen_from s (Suc n) = Some (Suc n + d)"
  proof (rule Suc.IH)
    show "s (Suc n + d) = 0" using Suc.prems(1) by simp
    show "s (Suc n + j) \<noteq> 0" if "j < d" for j using Suc.prems(2) [of "Suc j"] that by simp
  qed
  ultimately show ?case by (subst strlen_from.simps) simp
qed

lemma strlen_eq:
  assumes "s k = 0"
  shows "strlen s = Some (LEAST k. s k = 0)"
  unfolding strlen_def
proof (rule strlen_from_Least [of s 0, simplified])
  show "s (LEAST k. s k = 0) = 0" using assms by (rule LeastI)
  show "s j \<noteq> 0" if "j < (LEAST k. s k = 0)" for j using that by (rule not_less_Least)
qed

section \<open>Properties\<close>

text \<open>
  C9. \<^verbatim>\<open>memmove\<close> copies the source as it was before the call, also when source and
  destination overlap in either direction, and changes nothing outside the destination.
\<close>

theorem memmove_overlap: "memmove d s n m = blit d n (\<lambda>i. m (s + i)) m"
  by (rule memmove_eq)

text \<open>
  \<^verbatim>\<open>strncmp\<close> returns 0 exactly when the two strings, each cut off at its NUL and at
  \<open>n\<close> bytes, are equal.
\<close>

theorem strncmp_zero: "strncmp p q n = 0 \<longleftrightarrow> cstr n p = cstr n q"
  by (rule strncmp_iff)

text \<open>
  \<^verbatim>\<open>safestrcpy\<close> with a positive size always leaves a NUL-terminated string in the
  destination, which is the source cut off after \<open>n - 1\<close> bytes, and writes only the
  \<open>n\<close> bytes of the destination.
\<close>

theorem safestrcpy_terminates:
  assumes "0 < n"
  shows "cstr (nat n) (\<lambda>i. safestrcpy s t n m (s + i)) = cstr (nat n - 1) t
       \<and> length (cstr (nat n) (\<lambda>i. safestrcpy s t n m (s + i))) < nat n
       \<and> (\<forall>x. x < s \<or> s + nat n \<le> x \<longrightarrow> safestrcpy s t n m x = m x)"
proof -
  obtain k where k: "nat n = Suc k" using assms by (cases "nat n") auto
  have "cstr (nat n) (\<lambda>i. safestrcpy s t n m (s + i)) = cstr (nat n - 1) t"
    using assms k by (simp add: safestrcpy_def safestrcpy_loop_cstr)
  moreover have "length (cstr (nat n - 1) t) < nat n"
    using cstr_length [of "nat n - 1" t] assms by linarith
  moreover have "safestrcpy s t n m x = m x" if "x < s \<or> s + nat n \<le> x" for x
    using that assms k by (auto simp: safestrcpy_def intro: safestrcpy_loop_frame)
  ultimately show ?thesis by simp
qed

theorem safestrcpy_terminates_witness:
  "(0::int) < 4 \<and> cstr 4 (\<lambda>i. safestrcpy 10 (str ''initcode'') 4 (\<lambda>_. 7) (10 + i)) = [105, 110, 105]"
proof -
  have "cstr 4 (\<lambda>i. safestrcpy 10 (str ''initcode'') 4 (\<lambda>_. 7) (10 + i)) = cstr 3 (str ''initcode'')"
    using safestrcpy_terminates [of 4 10 "str ''initcode''" "\<lambda>_. 7"] by simp
  also have "\<dots> = [105, 110, 105]"
    by (simp add: cstr_def str_def upt_conv_Cons)
  finally show ?thesis by simp
qed

end
