(* ===== verification/Xv6_Machine.thy ===== *)
theory Xv6_Machine
  imports Xv6_Prelude
begin

text \<open>
  The machine state every kernel component shares and the spin locks of
  \<^verbatim>\<open>kernel/spinlock.c\<close>: \<^verbatim>\<open>param.h\<close>, the structures of \<^verbatim>\<open>proc.h\<close>, \<^verbatim>\<open>spinlock.h\<close> and
  \<^verbatim>\<open>sleeplock.h\<close>, the interrupt flag and the per-hart state.

  The state is an extensible record: each later component adds its own fields, so an
  operation of this theory works in, and visibly leaves alone, every larger state. A
  pointer to a static object is its index (\<open>nat\<close>), a pointer that may be null an
  \<open>option\<close>; locks and sleep channels, which the code names by address, are named by
  constructors of \<open>lock_id\<close> and \<open>chan\<close>.
\<close>

section \<open>param.h\<close>

definition NPROC :: nat where "NPROC = 64"
definition NCPU :: nat where "NCPU = 8"
definition NOFILE :: nat where "NOFILE = 16"
definition NFILE :: nat where "NFILE = 100"
definition NINODE :: nat where "NINODE = 50"
definition NDEV :: nat where "NDEV = 10"
definition ROOTDEV :: uint where "ROOTDEV = 1"
definition MAXARG :: nat where "MAXARG = 32"
definition MAXOPBLOCKS :: nat where "MAXOPBLOCKS = 10"
definition LOGSIZE :: nat where "LOGSIZE = MAXOPBLOCKS * 3"
definition NBUF :: nat where "NBUF = MAXOPBLOCKS * 3"
definition FSSIZE :: nat where "FSSIZE = 2000"
definition MAXPATH :: nat where "MAXPATH = 128"

lemmas param_defs = NPROC_def NCPU_def NOFILE_def NFILE_def NINODE_def NDEV_def ROOTDEV_def
  MAXARG_def MAXOPBLOCKS_def LOGSIZE_def NBUF_def FSSIZE_def MAXPATH_def

section \<open>Locks and sleep channels\<close>

datatype sl_id = SL_buf nat | SL_inode nat

datatype lock_id =
    L_kmem | L_pid | L_wait | L_proc nat | L_ticks | L_bcache | L_log | L_itable
  | L_ftable | L_pipe uint64 | L_cons | L_uart_tx | L_pr | L_vdisk | L_sleep sl_id

datatype chan =
    Ch_proc nat | Ch_ticks | Ch_log | Ch_sl sl_id | Ch_nread uint64 | Ch_nwrite uint64
  | Ch_cons_r | Ch_uart_tx_r | Ch_buf nat | Ch_disk_free

record spinlock =
  locked :: bool
  lk_name :: string
  lk_cpu :: "nat option"

record sleeplock =
  sl_locked :: bool
  sl_name :: string
  sl_pid :: uint

section \<open>proc.h\<close>

record kcontext =
  cx_ra :: uint64
  cx_sp :: uint64
  cx_s0 :: uint64
  cx_s1 :: uint64
  cx_s2 :: uint64
  cx_s3 :: uint64
  cx_s4 :: uint64
  cx_s5 :: uint64
  cx_s6 :: uint64
  cx_s7 :: uint64
  cx_s8 :: uint64
  cx_s9 :: uint64
  cx_s10 :: uint64
  cx_s11 :: uint64

record cpu =
  cpu_proc :: "nat option"
  cpu_context :: kcontext
  noff :: int
  intena :: bool

record trapframe =
  kernel_satp :: uint64
  kernel_sp :: uint64
  kernel_trap :: uint64
  epc :: uint64
  kernel_hartid :: uint64
  tf_ra :: uint64
  tf_sp :: uint64
  tf_gp :: uint64
  tf_tp :: uint64
  tf_t0 :: uint64
  tf_t1 :: uint64
  tf_t2 :: uint64
  tf_s0 :: uint64
  tf_s1 :: uint64
  tf_a0 :: uint64
  tf_a1 :: uint64
  tf_a2 :: uint64
  tf_a3 :: uint64
  tf_a4 :: uint64
  tf_a5 :: uint64
  tf_a6 :: uint64
  tf_a7 :: uint64
  tf_s2 :: uint64
  tf_s3 :: uint64
  tf_s4 :: uint64
  tf_s5 :: uint64
  tf_s6 :: uint64
  tf_s7 :: uint64
  tf_s8 :: uint64
  tf_s9 :: uint64
  tf_s10 :: uint64
  tf_s11 :: uint64
  tf_t3 :: uint64
  tf_t4 :: uint64
  tf_t5 :: uint64
  tf_t6 :: uint64

datatype procstate = UNUSED | USED | SLEEPING | RUNNABLE | RUNNING | ZOMBIE

record proc =
  p_state :: procstate
  p_chan :: "chan option"
  p_killed :: uint
  p_xstate :: uint
  p_pid :: uint
  p_parent :: "nat option"
  p_kstack :: uint64
  p_sz :: uint64
  p_pagetable :: uint64
  p_trapframe :: uint64
  p_context :: kcontext
  p_ofile :: "nat \<Rightarrow> nat option"
  p_cwd :: "nat option"
  p_name :: bytes

section \<open>The machine state\<close>

text \<open>
  \<open>tp\<close> is the hart that runs, \<open>intr\<close> each hart's interrupt-enable bit (\<^verbatim>\<open>SSTATUS_SIE\<close>). \<open>klog\<close>
  collects the messages the kernel prints with \<^verbatim>\<open>printf\<close>, newest first.
\<close>

record mach =
  tp :: nat
  intr :: "nat \<Rightarrow> bool"
  cpus :: "nat \<Rightarrow> cpu"
  locks :: "lock_id \<Rightarrow> spinlock"
  slocks :: "sl_id \<Rightarrow> sleeplock"
  procs :: "nat \<Rightarrow> proc"
  initproc :: "nat option"
  nextpid :: uint
  ticks :: uint
  klog :: "string list"

text \<open>The state of cleared memory, with hart 0 running and interrupts enabled.\<close>

definition zero_context :: kcontext where
  "zero_context = \<lparr>cx_ra = 0, cx_sp = 0, cx_s0 = 0, cx_s1 = 0, cx_s2 = 0, cx_s3 = 0, cx_s4 = 0,
     cx_s5 = 0, cx_s6 = 0, cx_s7 = 0, cx_s8 = 0, cx_s9 = 0, cx_s10 = 0, cx_s11 = 0\<rparr>"

definition zero_cpu :: cpu where
  "zero_cpu = \<lparr>cpu_proc = None, cpu_context = zero_context, noff = 0, intena = False\<rparr>"

definition zero_proc :: proc where
  "zero_proc = \<lparr>p_state = UNUSED, p_chan = None, p_killed = 0, p_xstate = 0, p_pid = 0,
     p_parent = None, p_kstack = 0, p_sz = 0, p_pagetable = 0, p_trapframe = 0,
     p_context = zero_context, p_ofile = (\<lambda>_. None), p_cwd = None, p_name = (\<lambda>_. 0)\<rparr>"

definition boot_mach :: mach where
  "boot_mach = \<lparr>tp = 0, intr = (\<lambda>_. True), cpus = (\<lambda>_. zero_cpu),
     locks = (\<lambda>_. \<lparr>locked = False, lk_name = [], lk_cpu = None\<rparr>),
     slocks = (\<lambda>_. \<lparr>sl_locked = False, sl_name = [], sl_pid = 0\<rparr>),
     procs = (\<lambda>_. zero_proc), initproc = None, nextpid = 1, ticks = 0, klog = []\<rparr>"

definition kmsg :: "string \<Rightarrow> 'z mach_scheme \<Rightarrow> 'z mach_scheme" where
  "kmsg m s = s\<lparr>klog := m # klog s\<rparr>"

text \<open>A load or store through a null pointer traps in the kernel, and \<^verbatim>\<open>kerneltrap\<close> panics.\<close>

definition deref :: "'a option \<Rightarrow> ('a \<Rightarrow> ('s, 'b) res) \<Rightarrow> ('s, 'b) res" where
  "deref p f = (case p of None \<Rightarrow> Panic ''kerneltrap'' | Some x \<Rightarrow> f x)"

lemma deref_simps [simp]: "deref (Some x) f = f x" "deref None f = Panic ''kerneltrap''"
  by (simp_all add: deref_def)

lemma deref_Ret [ret_iff]: "deref p f = Ret y t \<longleftrightarrow> (\<exists>x. p = Some x \<and> f x = Ret y t)"
  by (cases p) auto

lemma deref_cong [fundef_cong]:
  "p = p' \<Longrightarrow> (\<And>x. p' = Some x \<Longrightarrow> f x = f' x) \<Longrightarrow> deref p f = deref p' f'"
  by (cases p') auto

section \<open>kernel/spinlock.c\<close>

definition cpuid :: "'z mach_scheme \<Rightarrow> nat" where
  "cpuid s = tp s"

definition mycpu :: "'z mach_scheme \<Rightarrow> nat" where
  "mycpu s = cpuid s"

definition intr_get :: "'z mach_scheme \<Rightarrow> bool" where
  "intr_get s = intr s (tp s)"

definition intr_on :: "'z mach_scheme \<Rightarrow> 'z mach_scheme" where
  "intr_on s = s\<lparr>intr := (intr s)(tp s := True)\<rparr>"

definition intr_off :: "'z mach_scheme \<Rightarrow> 'z mach_scheme" where
  "intr_off s = s\<lparr>intr := (intr s)(tp s := False)\<rparr>"

lemmas intr_defs = intr_get_def intr_on_def intr_off_def mycpu_def cpuid_def

definition initlock :: "lock_id \<Rightarrow> string \<Rightarrow> 'z mach_scheme \<Rightarrow> 'z mach_scheme" where
  "initlock lk name s =
     s\<lparr>locks := (locks s)(lk := (locks s lk)\<lparr>lk_name := name, locked := False, lk_cpu := None\<rparr>)\<rparr>"

definition push_off :: "'z mach_scheme \<Rightarrow> 'z mach_scheme" where
  "push_off s =
     (let old = intr_get s;
          s = intr_off s;
          c = cpus s (mycpu s);
          c = (if noff c = 0 then c\<lparr>intena := old\<rparr> else c)
      in s\<lparr>cpus := (cpus s)(mycpu s := c\<lparr>noff := noff c + 1\<rparr>)\<rparr>)"

definition pop_off :: "'z mach_scheme \<Rightarrow> ('z mach_scheme, unit) res" where
  "pop_off s =
     (let c = cpus s (mycpu s) in
      if intr_get s then Panic ''pop_off - interruptible''
      else if noff c < 1 then Panic ''pop_off''
      else let c = c\<lparr>noff := noff c - 1\<rparr>;
               s = s\<lparr>cpus := (cpus s)(mycpu s := c)\<rparr>
           in Ret () (if noff c = 0 \<and> intena c then intr_on s else s))"

definition holding :: "lock_id \<Rightarrow> 'z mach_scheme \<Rightarrow> bool" where
  "holding lk s \<longleftrightarrow> locked (locks s lk) \<and> lk_cpu (locks s lk) = Some (mycpu s)"

definition acquire :: "lock_id \<Rightarrow> 'z mach_scheme \<Rightarrow> ('z mach_scheme, unit) res" where
  "acquire lk s =
     (let s = push_off s in
      if holding lk s then Panic ''acquire''
      else if locked (locks s lk) then Hang
      else Ret () (s\<lparr>locks := (locks s)(lk := (locks s lk)\<lparr>locked := True, lk_cpu := Some (mycpu s)\<rparr>)\<rparr>))"

definition release :: "lock_id \<Rightarrow> 'z mach_scheme \<Rightarrow> ('z mach_scheme, unit) res" where
  "release lk s =
     (if \<not> holding lk s then Panic ''release''
      else pop_off (s\<lparr>locks := (locks s)(lk := (locks s lk)\<lparr>lk_cpu := None, locked := False\<rparr>)\<rparr>))"

text \<open>\<^verbatim>\<open>myproc\<close> of \<^verbatim>\<open>kernel/proc.c\<close>, which the lock code and every system call use.\<close>

definition myproc :: "'z mach_scheme \<Rightarrow> ('z mach_scheme, nat option) res" where
  "myproc s =
     (let s = push_off s;
          c = mycpu s;
          p = cpu_proc (cpus s c)
      in seq (pop_off s) (\<lambda>s. Ret p s))"

section \<open>Closed forms of lock operations\<close>

text \<open>
  \<open>acq lk s\<close> is the state after a successful \<open>acquire\<close>; \<open>touch s\<close> the state a matched
  \<open>push_off\<close>/\<open>pop_off\<close> pair leaves, which differs from \<open>s\<close> at most in the saved
  \<open>intena\<close> of an outermost pair.
\<close>

definition acq :: "lock_id \<Rightarrow> 'z mach_scheme \<Rightarrow> 'z mach_scheme" where
  "acq lk s = (push_off s)\<lparr>locks := (locks s)(lk := (locks s lk)\<lparr>locked := True, lk_cpu := Some (tp s)\<rparr>)\<rparr>"

definition touch :: "'z mach_scheme \<Rightarrow> 'z mach_scheme" where
  "touch s =
     (if noff (cpus s (tp s)) = 0
      then s\<lparr>cpus := (cpus s)(tp s := (cpus s (tp s))\<lparr>intena := intr s (tp s)\<rparr>)\<rparr> else s)"

definition lk_free :: "lock_id \<Rightarrow> 'z mach_scheme \<Rightarrow> bool" where
  "lk_free lk s \<longleftrightarrow> \<not> locked (locks s lk) \<and> lk_cpu (locks s lk) = None"

definition cpu_ok :: "'z mach_scheme \<Rightarrow> bool" where
  "cpu_ok s \<longleftrightarrow> noff (cpus s (tp s)) \<ge> 0 \<and> (noff (cpus s (tp s)) > 0 \<longrightarrow> \<not> intr s (tp s))"

named_theorems locksimp \<open>how the lock operations pass over the other fields\<close>

lemma spinlock_release_eq:
  "\<not> locked l \<Longrightarrow> lk_cpu l = None \<Longrightarrow> l\<lparr>locked := False, lk_cpu := None\<rparr> = l"
  by (cases l) simp

lemma spinlock_release_eq':
  "\<not> locked l \<Longrightarrow> lk_cpu l = None \<Longrightarrow> l\<lparr>lk_cpu := None, locked := False\<rparr> = l"
  by (cases l) simp

lemma push_off_sel [simp]:
  "tp (push_off s) = tp s" "locks (push_off s) = locks s" "slocks (push_off s) = slocks s"
  "procs (push_off s) = procs s" "initproc (push_off s) = initproc s"
  "nextpid (push_off s) = nextpid s" "ticks (push_off s) = ticks s"
  "klog (push_off s) = klog s" "intr (push_off s) = (intr s)(tp s := False)" "mach.more (push_off s) = mach.more s"
  by (simp_all add: push_off_def Let_def intr_defs)

lemma push_off_cpu [simp]:
  "cpu_proc (cpus (push_off s) c) = cpu_proc (cpus s c)"
  "noff (cpus (push_off s) c) = noff (cpus s c) + (if c = tp s then 1 else 0)"
  by (auto simp: push_off_def Let_def intr_defs)

lemma acq_sel [simp]:
  "tp (acq lk s) = tp s" "slocks (acq lk s) = slocks s"
  "procs (acq lk s) = procs s" "initproc (acq lk s) = initproc s"
  "nextpid (acq lk s) = nextpid s" "ticks (acq lk s) = ticks s"
  "klog (acq lk s) = klog s" "intr (acq lk s) = (intr s)(tp s := False)" "mach.more (acq lk s) = mach.more s"
  "locks (acq lk s) = (locks s)(lk := (locks s lk)\<lparr>locked := True, lk_cpu := Some (tp s)\<rparr>)"
  "cpus (acq lk s) = cpus (push_off s)"
  by (simp_all add: acq_def)

lemma touch_sel [simp]:
  "tp (touch s) = tp s" "slocks (touch s) = slocks s" "locks (touch s) = locks s"
  "procs (touch s) = procs s" "initproc (touch s) = initproc s"
  "nextpid (touch s) = nextpid s" "ticks (touch s) = ticks s"
  "klog (touch s) = klog s" "intr (touch s) = intr s" "mach.more (touch s) = mach.more s"
  "cpu_proc (cpus (touch s) c) = cpu_proc (cpus s c)"
  "noff (cpus (touch s) c) = noff (cpus s c)"
  by (simp_all add: touch_def)

lemma push_off_upd [locksimp]:
  "push_off (s\<lparr>slocks := a\<rparr>) = (push_off s)\<lparr>slocks := a\<rparr>"
  "push_off (s\<lparr>procs := b\<rparr>) = (push_off s)\<lparr>procs := b\<rparr>"
  "push_off (s\<lparr>initproc := c\<rparr>) = (push_off s)\<lparr>initproc := c\<rparr>"
  "push_off (s\<lparr>nextpid := d\<rparr>) = (push_off s)\<lparr>nextpid := d\<rparr>"
  "push_off (s\<lparr>ticks := e\<rparr>) = (push_off s)\<lparr>ticks := e\<rparr>"
  "push_off (s\<lparr>klog := f\<rparr>) = (push_off s)\<lparr>klog := f\<rparr>"
  "push_off (s\<lparr>locks := g\<rparr>) = (push_off s)\<lparr>locks := g\<rparr>"
  by (simp_all add: push_off_def Let_def intr_defs)

text \<open>Updates of other fields move inside \<open>acq\<close> and \<open>touch\<close>.\<close>

lemma acq_upd [locksimp]:
  "(acq lk s)\<lparr>slocks := a\<rparr> = acq lk (s\<lparr>slocks := a\<rparr>)"
  "(acq lk s)\<lparr>procs := b\<rparr> = acq lk (s\<lparr>procs := b\<rparr>)"
  "(acq lk s)\<lparr>initproc := c\<rparr> = acq lk (s\<lparr>initproc := c\<rparr>)"
  "(acq lk s)\<lparr>nextpid := d\<rparr> = acq lk (s\<lparr>nextpid := d\<rparr>)"
  "(acq lk s)\<lparr>ticks := e\<rparr> = acq lk (s\<lparr>ticks := e\<rparr>)"
  "(acq lk s)\<lparr>klog := f\<rparr> = acq lk (s\<lparr>klog := f\<rparr>)"
  by (simp_all add: acq_def push_off_upd)

lemma touch_upd [locksimp]:
  "(touch s)\<lparr>slocks := a\<rparr> = touch (s\<lparr>slocks := a\<rparr>)"
  "(touch s)\<lparr>procs := b\<rparr> = touch (s\<lparr>procs := b\<rparr>)"
  "(touch s)\<lparr>initproc := c\<rparr> = touch (s\<lparr>initproc := c\<rparr>)"
  "(touch s)\<lparr>nextpid := d\<rparr> = touch (s\<lparr>nextpid := d\<rparr>)"
  "(touch s)\<lparr>ticks := e\<rparr> = touch (s\<lparr>ticks := e\<rparr>)"
  "(touch s)\<lparr>klog := f\<rparr> = touch (s\<lparr>klog := f\<rparr>)"
  by (simp_all add: touch_def)

lemma touch_touch [simp]: "touch (touch s) = touch s"
  by (simp add: touch_def)

lemma cpu_ok_touch [simp]: "cpu_ok (touch s) \<longleftrightarrow> cpu_ok s"
  by (simp add: cpu_ok_def)

lemma cpu_ok_acq [simp]: "cpu_ok s \<Longrightarrow> cpu_ok (acq lk s)"
  by (simp add: cpu_ok_def)

lemma touch_acq [simp]: "cpu_ok s \<Longrightarrow> touch (acq lk s) = acq lk s"
  by (simp add: touch_def cpu_ok_def)

lemma acq_touch [simp]: "cpu_ok s \<Longrightarrow> acq lk (touch s) = acq lk s"
  by (auto simp: touch_def acq_def push_off_def Let_def intr_defs)

lemma lk_free_touch [simp]: "lk_free lk (touch s) \<longleftrightarrow> lk_free lk s"
  by (simp add: lk_free_def)

lemma lk_free_acq [simp]: "lk' \<noteq> lk \<Longrightarrow> lk_free lk' (acq lk s) \<longleftrightarrow> lk_free lk' s"
  by (simp add: lk_free_def)

lemma cpu_ok_upd [simp]:
  "cpu_ok (s\<lparr>slocks := a\<rparr>) \<longleftrightarrow> cpu_ok s" "cpu_ok (s\<lparr>procs := b\<rparr>) \<longleftrightarrow> cpu_ok s"
  "cpu_ok (s\<lparr>initproc := c\<rparr>) \<longleftrightarrow> cpu_ok s" "cpu_ok (s\<lparr>nextpid := d\<rparr>) \<longleftrightarrow> cpu_ok s"
  "cpu_ok (s\<lparr>ticks := e\<rparr>) \<longleftrightarrow> cpu_ok s" "cpu_ok (s\<lparr>klog := f\<rparr>) \<longleftrightarrow> cpu_ok s"
  by (simp_all add: cpu_ok_def)

lemma lk_free_upd [simp]:
  "lk_free lk (s\<lparr>slocks := a\<rparr>) \<longleftrightarrow> lk_free lk s" "lk_free lk (s\<lparr>procs := b\<rparr>) \<longleftrightarrow> lk_free lk s"
  "lk_free lk (s\<lparr>initproc := c\<rparr>) \<longleftrightarrow> lk_free lk s" "lk_free lk (s\<lparr>nextpid := d\<rparr>) \<longleftrightarrow> lk_free lk s"
  "lk_free lk (s\<lparr>ticks := e\<rparr>) \<longleftrightarrow> lk_free lk s" "lk_free lk (s\<lparr>klog := f\<rparr>) \<longleftrightarrow> lk_free lk s"
  by (simp_all add: lk_free_def)

text \<open>The three rewrites that run a critical section.\<close>

lemma acquire_free [simp]: "lk_free lk s \<Longrightarrow> acquire lk s = Ret () (acq lk s)"
  by (simp add: acquire_def acq_def lk_free_def holding_def mycpu_def cpuid_def)

lemma release_acq [simp]:
  assumes "lk_free lk s" and "cpu_ok s"
  shows "release lk (acq lk s) = Ret () (touch s)"
proof -
  have l: "(locks s lk)\<lparr>lk_cpu := None, locked := False\<rparr> = locks s lk"
    using assms(1) by (simp add: lk_free_def spinlock_release_eq')
  have h: "holding lk (acq lk s)"
    by (simp add: holding_def mycpu_def cpuid_def)
  have "(acq lk s)\<lparr>locks := (locks (acq lk s))(lk := (locks (acq lk s) lk)\<lparr>lk_cpu := None, locked := False\<rparr>)\<rparr>
      = push_off s"
    using l by (simp add: acq_def)
  with h have "release lk (acq lk s) = pop_off (push_off s)"
    by (simp add: release_def)
  also have "\<dots> = Ret () (touch s)"
    using assms(2)
    by (auto simp: pop_off_def push_off_def touch_def cpu_ok_def Let_def intr_defs fun_upd_idem)
  finally show ?thesis .
qed

lemma pop_push [simp]: "cpu_ok s \<Longrightarrow> pop_off (push_off s) = Ret () (touch s)"
  by (auto simp: pop_off_def push_off_def touch_def cpu_ok_def Let_def intr_defs fun_upd_idem)

lemma myproc_eq [simp]: "cpu_ok s \<Longrightarrow> myproc s = Ret (cpu_proc (cpus s (tp s))) (touch s)"
  by (simp add: myproc_def Let_def intr_defs)

end
