(* ===== verification/Xv6_Riscv.thy ===== *)
theory Xv6_Riscv
  imports Xv6_Prelude
begin

text \<open>
  The page, page-table-entry and status-register macros of \<^verbatim>\<open>kernel/riscv.h\<close> and the
  memory layout of \<^verbatim>\<open>kernel/memlayout.h\<close>, on 64-bit words with their wrap-around, and the
  bit-level facts the virtual-memory code relies on.
\<close>

section \<open>riscv.h\<close>

definition SSTATUS_SPP :: uint64 where "SSTATUS_SPP = push_bit 8 1"
definition SSTATUS_SPIE :: uint64 where "SSTATUS_SPIE = push_bit 5 1"
definition SSTATUS_SIE :: uint64 where "SSTATUS_SIE = push_bit 1 1"

definition SATP_SV39 :: uint64 where "SATP_SV39 = push_bit 60 8"
definition MAKE_SATP :: "uint64 \<Rightarrow> uint64" where
  "MAKE_SATP pagetable = SATP_SV39 OR drop_bit 12 pagetable"

definition PGSIZE :: uint64 where "PGSIZE = 4096"

definition PGROUNDUP :: "uint64 \<Rightarrow> uint64" where
  "PGROUNDUP sz = (sz + PGSIZE - 1) AND NOT (PGSIZE - 1)"

definition PGROUNDDOWN :: "uint64 \<Rightarrow> uint64" where
  "PGROUNDDOWN a = a AND NOT (PGSIZE - 1)"

definition PTE_V :: uint64 where "PTE_V = push_bit 0 1"
definition PTE_R :: uint64 where "PTE_R = push_bit 1 1"
definition PTE_W :: uint64 where "PTE_W = push_bit 2 1"
definition PTE_X :: uint64 where "PTE_X = push_bit 3 1"
definition PTE_U :: uint64 where "PTE_U = push_bit 4 1"

definition PA2PTE :: "uint64 \<Rightarrow> uint64" where
  "PA2PTE pa = push_bit 10 (drop_bit 12 pa)"

definition PTE2PA :: "uint64 \<Rightarrow> uint64" where
  "PTE2PA pte = push_bit 12 (drop_bit 10 pte)"

definition PTE_FLAGS :: "uint64 \<Rightarrow> uint64" where
  "PTE_FLAGS pte = pte AND 0x3FF"

definition PX :: "nat \<Rightarrow> uint64 \<Rightarrow> uint64" where
  "PX level va = drop_bit (12 + 9 * level) va AND 0x1FF"

definition MAXVA :: uint64 where "MAXVA = push_bit (9 + 9 + 9 + 12 - 1) 1"

section \<open>memlayout.h\<close>

definition UART0 :: uint64 where "UART0 = 0x10000000"
definition UART0_IRQ :: uint where "UART0_IRQ = 10"
definition VIRTIO0 :: uint64 where "VIRTIO0 = 0x10001000"
definition VIRTIO0_IRQ :: uint where "VIRTIO0_IRQ = 1"
definition PLIC :: uint64 where "PLIC = 0x0c000000"
definition KERNBASE :: uint64 where "KERNBASE = 0x80000000"
definition PHYSTOP :: uint64 where "PHYSTOP = KERNBASE + 128 * 1024 * 1024"
definition TRAMPOLINE :: uint64 where "TRAMPOLINE = MAXVA - PGSIZE"
definition KSTACK :: "nat \<Rightarrow> uint64" where
  "KSTACK p = TRAMPOLINE - (of_nat p + 1) * 2 * PGSIZE"
definition TRAPFRAME :: uint64 where "TRAPFRAME = TRAMPOLINE - PGSIZE"

lemmas pte_defs = PTE_V_def PTE_R_def PTE_W_def PTE_X_def PTE_U_def

section \<open>Rounding\<close>

lemma PGSIZE_unat [simp]: "unat PGSIZE = 4096"
  by (simp add: PGSIZE_def)

lemma not_mask12: "NOT (PGSIZE - 1) = NOT (mask 12)"
  by (simp add: PGSIZE_def mask_eq_exp_minus_1)

lemma and_not_mask: "a AND NOT (mask n) = push_bit n (drop_bit n (a :: 'a::len word))"
  by (rule bit_word_eqI) (auto simp: bit_simps)

lemma unat_push_drop: "unat (push_bit n (drop_bit n (a :: 'a::len word))) = unat a div 2 ^ n * 2 ^ n"
proof -
  have "unat a div 2 ^ n * 2 ^ n \<le> unat a"
    by (rule div_times_less_eq_dividend)
  then have lt: "unat a div 2 ^ n * 2 ^ n < 2 ^ LENGTH('a)"
    using unsigned_less [where w = a] by (rule le_less_trans)
  have "drop_bit n a = word_of_nat (unat (drop_bit n a))"
    by simp
  also have "\<dots> = word_of_nat (unat a div 2 ^ n)"
    unfolding unat_drop_bit_eq by (simp only: drop_bit_eq_div)
  finally have "push_bit n (drop_bit n a) = word_of_nat (unat a div 2 ^ n * 2 ^ n)"
    by (simp add: push_bit_eq_mult)
  then show ?thesis
    using lt by (simp only: unat_of_nat mod_less)
qed

lemma unat_PGROUNDDOWN: "unat (PGROUNDDOWN a) = unat a div 4096 * 4096"
  using unat_push_drop [of 12 a] by (simp add: PGROUNDDOWN_def not_mask12 and_not_mask)

lemma unat_PGROUNDUP:
  assumes "unat a \<le> 2 ^ 64 - 4096"
  shows "unat (PGROUNDUP a) = (unat a + 4095) div 4096 * 4096"
proof -
  have "unat (a + PGSIZE - 1) = unat a + 4095"
    using assms by (simp add: PGSIZE_def unat_word_ariths add_diff_eq [symmetric] unat_plus_if')
  then show ?thesis
    using unat_push_drop [of 12 "a + PGSIZE - 1"]
    by (simp add: PGROUNDUP_def not_mask12 and_not_mask)
qed

lemma unat_take_bit: "unat (take_bit n (a :: 'a::len word)) = unat a mod 2 ^ n"
  unfolding unsigned_take_bit_eq by (simp add: take_bit_eq_mod)

definition page_aligned :: "uint64 \<Rightarrow> bool" where
  "page_aligned a \<longleftrightarrow> unat a mod 4096 = 0"

lemma page_aligned_bits: "page_aligned a \<longleftrightarrow> (\<forall>i < 12. \<not> bit a i)"
proof -
  have "page_aligned a \<longleftrightarrow> take_bit 12 a = 0"
    using unat_take_bit [of 12 a] by (auto simp: page_aligned_def simp flip: unat_eq_0)
  also have "\<dots> \<longleftrightarrow> (\<forall>i < 12. \<not> bit a i)"
    by (auto simp: bit_eq_iff bit_take_bit_iff)
  finally show ?thesis .
qed

section \<open>Page-table entries\<close>

lemma PTE2PA_PA2PTE:
  assumes "page_aligned pa" and "flags < 0x400"
  shows "PTE2PA (PA2PTE pa OR flags) = pa"
proof -
  have f: "\<not> bit flags i" if "i \<ge> 10" for i
  proof -
    have "take_bit 10 flags = flags"
      using assms(2) by (simp add: take_bit_eq_mod word_mod_less_divisor word_less_nat_alt
          unat_mod word_eq_iff_unsigned [where ?'a = nat])
    then show ?thesis using that by (metis bit_take_bit_iff not_le)
  qed
  have lo: "12 \<le> n" if "bit pa n" for n
    using assms(1) that by (auto simp: page_aligned_bits intro: leI)
  show ?thesis
    using f lo
    by (intro bit_word_eqI) (force simp: PTE2PA_def PA2PTE_def bit_simps)
qed

lemma PTE_FLAGS_PA2PTE:
  assumes "flags < 0x400"
  shows "PTE_FLAGS (PA2PTE pa OR flags) = flags"
proof -
  have "take_bit 10 (PA2PTE pa OR flags) = take_bit 10 flags"
    by (rule bit_word_eqI) (auto simp: PA2PTE_def bit_simps)
  moreover have "take_bit 10 flags = flags"
    using assms by (simp add: take_bit_eq_mod word_mod_less_divisor word_less_nat_alt
          unat_mod word_eq_iff_unsigned [where ?'a = nat])
  ultimately show ?thesis
    by (simp add: PTE_FLAGS_def take_bit_eq_mask and.commute mask_eq_exp_minus_1)
qed

lemma PTE2PA_aligned: "page_aligned (PTE2PA pte)"
  by (simp add: page_aligned_bits PTE2PA_def bit_simps)

section \<open>Splitting a virtual address\<close>

lemma PX_take_bit: "PX level va = take_bit 9 (drop_bit (12 + 9 * level) va)"
  by (simp add: PX_def take_bit_eq_mask mask_eq_exp_minus_1)

lemma PX_less: "unat (PX level va) < 512"
  by (simp add: PX_take_bit unat_take_bit)

lemma va_split:
  assumes "va < MAXVA"
  shows "va = push_bit 30 (PX 2 va) OR push_bit 21 (PX 1 va) OR push_bit 12 (PX 0 va)
            OR take_bit 12 va"
proof -
  have hi: "\<not> bit va i" if "i \<ge> 38" for i
  proof -
    have "va < 2 ^ 38" using assms by (simp add: MAXVA_def push_bit_eq_mult)
    then have "take_bit 38 va = va"
      by (simp add: take_bit_eq_mod word_mod_less_divisor word_less_nat_alt
          unat_mod word_eq_iff_unsigned [where ?'a = nat])
    then show ?thesis using that by (metis bit_take_bit_iff not_le)
  qed
  show ?thesis
    by (rule bit_word_eqI) (use hi in \<open>auto simp: PX_take_bit bit_simps not_less intro: ccontr\<close>)
qed

end
