(* ===== verification/Xv6_Sched.thy ===== *)
theory Xv6_Sched
  imports Xv6_Machine Xv6_Riscv
begin

text \<open>
  The scheduling half of \<^verbatim>\<open>kernel/proc.c\<close> (process table set-up, \<^verbatim>\<open>sleep\<close>, \<^verbatim>\<open>wakeup\<close>,
  \<^verbatim>\<open>sched\<close>, \<^verbatim>\<open>yield\<close>, \<^verbatim>\<open>scheduler\<close>, \<^verbatim>\<open>kill\<close> and the process-listing helpers) and the
  sleep locks of \<^verbatim>\<open>kernel/sleeplock.c\<close>.

  A switch to the scheduler ends a run of kernel code with \<open>Susp\<close>; what the same thread
  does when it is switched back is a function of its own (\<open>sched_back\<close>, \<open>sleep_back\<close>,
  \<open>yield_back\<close>, \<open>scheduler_back\<close>). All callers of \<^verbatim>\<open>sleep\<close> test their condition in a
  loop, so a resumed thread continues with \<open>sleep_back\<close> and then at that loop.
\<close>

definition upd_proc :: "nat \<Rightarrow> (proc \<Rightarrow> proc) \<Rightarrow> 'z mach_scheme \<Rightarrow> 'z mach_scheme" where
  "upd_proc p f s = s\<lparr>procs := (procs s)(p := f (procs s p))\<rparr>"

definition upd_cpu :: "nat \<Rightarrow> (cpu \<Rightarrow> cpu) \<Rightarrow> 'z mach_scheme \<Rightarrow> 'z mach_scheme" where
  "upd_cpu c f s = s\<lparr>cpus := (cpus s)(c := f (cpus s c))\<rparr>"

section \<open>The process table\<close>

primrec procinit_loop :: "nat list \<Rightarrow> 'z mach_scheme \<Rightarrow> 'z mach_scheme" where
  "procinit_loop [] s = s"
| "procinit_loop (p # ps) s =
     (let s = initlock (L_proc p) ''proc'' s;
          s = upd_proc p (\<lambda>pr. pr\<lparr>p_state := UNUSED\<rparr>) s;
          s = upd_proc p (\<lambda>pr. pr\<lparr>p_kstack := KSTACK p\<rparr>) s
      in procinit_loop ps s)"

definition procinit :: "'z mach_scheme \<Rightarrow> 'z mach_scheme" where
  "procinit s =
     (let s = initlock L_pid ''nextpid'' s;
          s = initlock L_wait ''wait_lock'' s
      in procinit_loop [0..<NPROC] s)"

text \<open>\<^verbatim>\<open>name\<close> returns a pointer to the \<^verbatim>\<open>name\<close> array of a table entry, here its index.\<close>

primrec pname_loop :: "uint \<Rightarrow> nat list \<Rightarrow> 'z mach_scheme \<Rightarrow> ('z mach_scheme, nat option) res" where
  "pname_loop pid [] s = seq (release L_wait s) (\<lambda>s. Ret None s)"
| "pname_loop pid (pp # pps) s =
     (if p_pid (procs s pp) = pid then seq (release L_wait s) (\<lambda>s. Ret (Some pp) s)
      else pname_loop pid pps s)"

definition pname :: "uint \<Rightarrow> 'z mach_scheme \<Rightarrow> ('z mach_scheme, nat option) res" where
  "pname pid s = seq (acquire L_wait s) (pname_loop pid [0..<NPROC])"

definition procstate2str :: "procstate \<Rightarrow> string" where
  "procstate2str st =
     (case st of UNUSED \<Rightarrow> ''UNUSED'' | USED \<Rightarrow> ''USED'' | SLEEPING \<Rightarrow> ''SLEEPING''
      | RUNNABLE \<Rightarrow> ''RUNNABLE'' | RUNNING \<Rightarrow> ''RUNNING'' | ZOMBIE \<Rightarrow> ''ZOMBIE'')"

primrec pstate_loop :: "uint \<Rightarrow> nat list \<Rightarrow> 'z mach_scheme \<Rightarrow> ('z mach_scheme, string option) res" where
  "pstate_loop pid [] s = seq (release L_wait s) (\<lambda>s. Ret None s)"
| "pstate_loop pid (pp # pps) s =
     (if p_pid (procs s pp) = pid
      then seq (release L_wait s) (\<lambda>s. Ret (Some (procstate2str (p_state (procs s pp)))) s)
      else pstate_loop pid pps s)"

definition pstate :: "uint \<Rightarrow> 'z mach_scheme \<Rightarrow> ('z mach_scheme, string option) res" where
  "pstate pid s = seq (acquire L_wait s) (pstate_loop pid [0..<NPROC])"

definition allocpid :: "'z mach_scheme \<Rightarrow> ('z mach_scheme, uint) res" where
  "allocpid s =
     seq (acquire L_pid s) (\<lambda>s.
       let pid = nextpid s;
           s = s\<lparr>nextpid := nextpid s + 1\<rparr>
       in seq (release L_pid s) (\<lambda>s. Ret pid s))"

section \<open>Switching\<close>

definition sched :: "'z mach_scheme \<Rightarrow> ('z mach_scheme, unit) res" where
  "sched s =
     bnd (myproc s) (\<lambda>p s. deref p (\<lambda>p.
       if \<not> holding (L_proc p) s then Panic ''sched p->lock''
       else if noff (cpus s (mycpu s)) \<noteq> 1 then Panic ''sched locks''
       else if p_state (procs s p) = RUNNING then Panic ''sched running''
       else if intr_get s then Panic ''sched interruptible''
       else Susp s))"

text \<open>
  After the switch back, on whatever hart: \<^verbatim>\<open>sched\<close> restores the \<^verbatim>\<open>intena\<close> it kept on its
  stack.
\<close>

definition sched_back :: "bool \<Rightarrow> 'z mach_scheme \<Rightarrow> 'z mach_scheme" where
  "sched_back old s = upd_cpu (mycpu s) (\<lambda>c. c\<lparr>intena := old\<rparr>) s"

definition yield :: "'z mach_scheme \<Rightarrow> ('z mach_scheme, unit) res" where
  "yield s =
     bnd (myproc s) (\<lambda>p s. deref p (\<lambda>p.
       seq (acquire (L_proc p) s) (\<lambda>s.
         sched (upd_proc p (\<lambda>pr. pr\<lparr>p_state := RUNNABLE\<rparr>) s))))"

definition yield_back :: "nat \<Rightarrow> bool \<Rightarrow> 'z mach_scheme \<Rightarrow> ('z mach_scheme, unit) res" where
  "yield_back p old s = release (L_proc p) (sched_back old s)"

definition sleep :: "chan \<Rightarrow> lock_id \<Rightarrow> 'z mach_scheme \<Rightarrow> ('z mach_scheme, unit) res" where
  "sleep ch lk s =
     bnd (myproc s) (\<lambda>p s. deref p (\<lambda>p.
       seq (acquire (L_proc p) s) (\<lambda>s.
       seq (release lk s) (\<lambda>s.
         sched (upd_proc p (\<lambda>pr. pr\<lparr>p_chan := Some ch, p_state := SLEEPING\<rparr>) s)))))"

definition sleep_back :: "nat \<Rightarrow> bool \<Rightarrow> lock_id \<Rightarrow> 'z mach_scheme \<Rightarrow> ('z mach_scheme, unit) res" where
  "sleep_back p old lk s =
     (let s = sched_back old s;
          s = upd_proc p (\<lambda>pr. pr\<lparr>p_chan := None\<rparr>) s
      in seq (release (L_proc p) s) (acquire lk))"

text \<open>
  One pass of the scheduler over the table: \<open>Some p\<close> when it switches to \<open>p\<close>, whose lock it
  leaves held; \<open>None\<close> at the end of the table, from where it enables interrupts and starts
  again.
\<close>

primrec scheduler_pass :: "nat list \<Rightarrow> 'z mach_scheme \<Rightarrow> ('z mach_scheme, nat option) res" where
  "scheduler_pass [] s = Ret None (intr_on s)"
| "scheduler_pass (p # ps) s =
     seq (acquire (L_proc p) s) (\<lambda>s.
       if p_state (procs s p) = RUNNABLE
       then Ret (Some p) (upd_cpu (mycpu s) (\<lambda>c. c\<lparr>cpu_proc := Some p\<rparr>)
                            (upd_proc p (\<lambda>pr. pr\<lparr>p_state := RUNNING\<rparr>) s))
       else seq (release (L_proc p) s) (scheduler_pass ps))"

definition scheduler :: "'z mach_scheme \<Rightarrow> ('z mach_scheme, nat option) res" where
  "scheduler s =
     scheduler_pass [0..<NPROC] (intr_on (upd_cpu (mycpu s) (\<lambda>c. c\<lparr>cpu_proc := None\<rparr>) s))"

definition scheduler_back :: "nat \<Rightarrow> 'z mach_scheme \<Rightarrow> ('z mach_scheme, nat option) res" where
  "scheduler_back p s =
     (let s = upd_cpu (mycpu s) (\<lambda>c. c\<lparr>cpu_proc := None\<rparr>) s
      in seq (release (L_proc p) s) (scheduler_pass [Suc p..<NPROC]))"

section \<open>Waking and killing\<close>

primrec wakeup_loop :: "chan \<Rightarrow> nat list \<Rightarrow> 'z mach_scheme \<Rightarrow> ('z mach_scheme, unit) res" where
  "wakeup_loop ch [] s = Ret () s"
| "wakeup_loop ch (p # ps) s =
     bnd (myproc s) (\<lambda>me s.
       if me \<noteq> Some p
       then seq (acquire (L_proc p) s) (\<lambda>s.
              let s = (if p_state (procs s p) = SLEEPING \<and> p_chan (procs s p) = Some ch
                       then upd_proc p (\<lambda>pr. pr\<lparr>p_state := RUNNABLE\<rparr>) s else s)
              in seq (release (L_proc p) s) (wakeup_loop ch ps))
       else wakeup_loop ch ps s)"

definition wakeup :: "chan \<Rightarrow> 'z mach_scheme \<Rightarrow> ('z mach_scheme, unit) res" where
  "wakeup ch s = wakeup_loop ch [0..<NPROC] s"

primrec kill_loop :: "uint \<Rightarrow> nat list \<Rightarrow> 'z mach_scheme \<Rightarrow> ('z mach_scheme, int) res" where
  "kill_loop pid [] s = Ret (-1) s"
| "kill_loop pid (p # ps) s =
     seq (acquire (L_proc p) s) (\<lambda>s.
       if p_pid (procs s p) = pid
       then (let s = upd_proc p (\<lambda>pr. pr\<lparr>p_killed := 1\<rparr>) s;
                 s = (if p_state (procs s p) = SLEEPING
                      then upd_proc p (\<lambda>pr. pr\<lparr>p_state := RUNNABLE\<rparr>) s else s)
             in seq (release (L_proc p) s) (\<lambda>s. Ret 0 s))
       else seq (release (L_proc p) s) (kill_loop pid ps))"

definition kill :: "uint \<Rightarrow> 'z mach_scheme \<Rightarrow> ('z mach_scheme, int) res" where
  "kill pid s = kill_loop pid [0..<NPROC] s"

definition setkilled :: "nat \<Rightarrow> 'z mach_scheme \<Rightarrow> ('z mach_scheme, unit) res" where
  "setkilled p s =
     seq (acquire (L_proc p) s) (\<lambda>s.
       release (L_proc p) (upd_proc p (\<lambda>pr. pr\<lparr>p_killed := 1\<rparr>) s))"

definition killed :: "nat \<Rightarrow> 'z mach_scheme \<Rightarrow> ('z mach_scheme, uint) res" where
  "killed p s =
     seq (acquire (L_proc p) s) (\<lambda>s.
       let k = p_killed (procs s p)
       in seq (release (L_proc p) s) (\<lambda>s. Ret k s))"

section \<open>kernel/sleeplock.c\<close>

definition initsleeplock :: "sl_id \<Rightarrow> string \<Rightarrow> 'z mach_scheme \<Rightarrow> 'z mach_scheme" where
  "initsleeplock lk name s =
     (let s = initlock (L_sleep lk) ''sleep lock'' s
      in s\<lparr>slocks := (slocks s)(lk := (slocks s lk)\<lparr>sl_name := name, sl_locked := False, sl_pid := 0\<rparr>)\<rparr>)"

definition acquiresleep_loop :: "sl_id \<Rightarrow> 'z mach_scheme \<Rightarrow> ('z mach_scheme, unit) res" where
  "acquiresleep_loop lk s =
     (if sl_locked (slocks s lk) then sleep (Ch_sl lk) (L_sleep lk) s
      else bnd (myproc (s\<lparr>slocks := (slocks s)(lk := (slocks s lk)\<lparr>sl_locked := True\<rparr>)\<rparr>)) (\<lambda>p s.
             deref p (\<lambda>p.
               release (L_sleep lk)
                 (s\<lparr>slocks := (slocks s)(lk := (slocks s lk)\<lparr>sl_pid := p_pid (procs s p)\<rparr>)\<rparr>))))"

definition acquiresleep :: "sl_id \<Rightarrow> 'z mach_scheme \<Rightarrow> ('z mach_scheme, unit) res" where
  "acquiresleep lk s = seq (acquire (L_sleep lk) s) (acquiresleep_loop lk)"

definition releasesleep :: "sl_id \<Rightarrow> 'z mach_scheme \<Rightarrow> ('z mach_scheme, unit) res" where
  "releasesleep lk s =
     seq (acquire (L_sleep lk) s) (\<lambda>s.
       let s = s\<lparr>slocks := (slocks s)(lk := (slocks s lk)\<lparr>sl_locked := False, sl_pid := 0\<rparr>)\<rparr>
       in seq (wakeup (Ch_sl lk) s) (release (L_sleep lk)))"

definition holdingsleep :: "sl_id \<Rightarrow> 'z mach_scheme \<Rightarrow> ('z mach_scheme, bool) res" where
  "holdingsleep lk s =
     seq (acquire (L_sleep lk) s) (\<lambda>s.
     bnd (if sl_locked (slocks s lk)
          then bnd (myproc s) (\<lambda>p s. deref p (\<lambda>p.
                 Ret (sl_pid (slocks s lk) = p_pid (procs s p)) s))
          else Ret False s) (\<lambda>r s.
       seq (release (L_sleep lk) s) (\<lambda>s. Ret r s)))"

section \<open>Closed forms\<close>

lemma upd_proc_sel [simp]:
  "tp (upd_proc p f s) = tp s" "slocks (upd_proc p f s) = slocks s"
  "locks (upd_proc p f s) = locks s" "cpus (upd_proc p f s) = cpus s"
  "intr (upd_proc p f s) = intr s" "initproc (upd_proc p f s) = initproc s"
  "nextpid (upd_proc p f s) = nextpid s" "ticks (upd_proc p f s) = ticks s"
  "klog (upd_proc p f s) = klog s" "mach.more (upd_proc p f s) = mach.more s"
  "procs (upd_proc p f s) = (procs s)(p := f (procs s p))"
  by (simp_all add: upd_proc_def)

lemma upd_cpu_sel [simp]:
  "tp (upd_cpu c f s) = tp s" "slocks (upd_cpu c f s) = slocks s"
  "locks (upd_cpu c f s) = locks s" "procs (upd_cpu c f s) = procs s"
  "intr (upd_cpu c f s) = intr s" "initproc (upd_cpu c f s) = initproc s"
  "nextpid (upd_cpu c f s) = nextpid s" "ticks (upd_cpu c f s) = ticks s"
  "klog (upd_cpu c f s) = klog s" "mach.more (upd_cpu c f s) = mach.more s"
  "cpus (upd_cpu c f s) = (cpus s)(c := f (cpus s c))"
  by (simp_all add: upd_cpu_def)

lemma upd_proc_lock [simp]:
  "upd_proc p f (acq lk s) = acq lk (upd_proc p f s)"
  "upd_proc p f (touch s) = touch (upd_proc p f s)"
  "lk_free lk (upd_proc p f s) \<longleftrightarrow> lk_free lk s"
  "cpu_ok (upd_proc p f s) \<longleftrightarrow> cpu_ok s"
  by (simp_all add: upd_proc_def locksimp)

definition plocks_free :: "'z mach_scheme \<Rightarrow> bool" where
  "plocks_free s \<longleftrightarrow> (\<forall>p < NPROC. lk_free (L_proc p) s)"

lemma plocks_free_simps [simp]:
  "plocks_free (touch s) \<longleftrightarrow> plocks_free s"
  "plocks_free (upd_proc p f s) \<longleftrightarrow> plocks_free s"
  "plocks_free (s\<lparr>slocks := a\<rparr>) \<longleftrightarrow> plocks_free s"
  "plocks_free (s\<lparr>procs := b\<rparr>) \<longleftrightarrow> plocks_free s"
  by (auto simp: plocks_free_def)

lemma plocks_free_acq [simp]:
  assumes "\<And>p. lk \<noteq> L_proc p"
  shows "plocks_free (acq lk s) \<longleftrightarrow> plocks_free s"
  using assms [symmetric] by (simp add: plocks_free_def)

text \<open>What \<open>wakeup\<close> does to the process table.\<close>

definition wake :: "chan \<Rightarrow> nat option \<Rightarrow> nat set \<Rightarrow> (nat \<Rightarrow> proc) \<Rightarrow> nat \<Rightarrow> proc" where
  "wake ch me A prs = (\<lambda>p.
     if p \<in> A \<and> me \<noteq> Some p \<and> p_state (prs p) = SLEEPING \<and> p_chan (prs p) = Some ch
     then (prs p)\<lparr>p_state := RUNNABLE\<rparr> else prs p)"

lemma wake_empty [simp]: "wake ch me {} prs = prs"
  by (simp add: wake_def)

lemma wake_insert:
  "wake ch me (insert p A) prs =
     wake ch me A (if me \<noteq> Some p \<and> p_state (prs p) = SLEEPING \<and> p_chan (prs p) = Some ch
                   then prs(p := (prs p)\<lparr>p_state := RUNNABLE\<rparr>) else prs)"
  by (auto simp: wake_def fun_eq_iff)

lemma wake_none:
  "(\<And>p. p \<in> A \<Longrightarrow> p_state (prs p) = SLEEPING \<Longrightarrow> p_chan (prs p) \<noteq> Some ch) \<Longrightarrow>
   wake ch me A prs = prs"
  by (auto simp: wake_def fun_eq_iff)

lemma wake_fields [simp]:
  "p_chan (wake ch me A prs p) = p_chan (prs p)" "p_pid (wake ch me A prs p) = p_pid (prs p)"
  "p_parent (wake ch me A prs p) = p_parent (prs p)" "p_killed (wake ch me A prs p) = p_killed (prs p)"
  "p_sz (wake ch me A prs p) = p_sz (prs p)" "p_pagetable (wake ch me A prs p) = p_pagetable (prs p)"
  "p_trapframe (wake ch me A prs p) = p_trapframe (prs p)"
  "p_ofile (wake ch me A prs p) = p_ofile (prs p)" "p_cwd (wake ch me A prs p) = p_cwd (prs p)"
  "p_name (wake ch me A prs p) = p_name (prs p)" "p_xstate (wake ch me A prs p) = p_xstate (prs p)"
  by (simp_all add: wake_def)

lemma wakeup_loop_touched:
  assumes "cpu_ok s" and "\<And>p. p \<in> set ps \<Longrightarrow> cpu_proc (cpus s (tp s)) \<noteq> Some p \<Longrightarrow> lk_free (L_proc p) s"
  shows "wakeup_loop ch ps (touch s)
    = Ret () (touch (s\<lparr>procs := wake ch (cpu_proc (cpus s (tp s))) (set ps) (procs s)\<rparr>))"
  using assms
proof (induction ps arbitrary: s)
  case Nil
  then show ?case by simp
next
  case (Cons p ps)
  let ?me = "cpu_proc (cpus s (tp s))"
  let ?wakes = "p_state (procs s p) = SLEEPING \<and> p_chan (procs s p) = Some ch"
  let ?t = "if ?wakes then upd_proc p (\<lambda>pr. pr\<lparr>p_state := RUNNABLE\<rparr>) s else s"
  show ?case
  proof (cases "?me = Some p")
    case True
    have "wakeup_loop ch ps (touch s)
      = Ret () (touch (s\<lparr>procs := wake ch ?me (set ps) (procs s)\<rparr>))"
      by (rule Cons.IH) (use Cons.prems in auto)
    with True Cons.prems(1) show ?thesis by (simp add: wake_insert)
  next
    case False
    then have free: "lk_free (L_proc p) s" using Cons.prems(2) by simp
    have step: "wakeup_loop ch (p # ps) (touch s) = wakeup_loop ch ps (touch ?t)"
      using False free Cons.prems(1) by simp
    have "cpu_ok ?t" "cpus ?t = cpus s" "tp ?t = tp s" "lk_free (L_proc q) ?t = lk_free (L_proc q) s" for q
      using Cons.prems(1) by simp_all
    then have "wakeup_loop ch ps (touch ?t)
      = Ret () (touch (?t\<lparr>procs := wake ch ?me (set ps) (procs ?t)\<rparr>))"
      using Cons.IH [of ?t] Cons.prems(2) by simp
    also have "?t\<lparr>procs := wake ch ?me (set ps) (procs ?t)\<rparr>
        = s\<lparr>procs := wake ch ?me (set (p # ps)) (procs s)\<rparr>"
      using False by (simp add: wake_insert upd_proc_def)
    finally show ?thesis using step by simp
  qed
qed

lemma wakeup_loop_Cons_touch:
  "cpu_ok s \<Longrightarrow> wakeup_loop ch (p # ps) s = wakeup_loop ch (p # ps) (touch s)"
  by simp

lemma wakeup_eq:
  assumes "cpu_ok s" and "\<And>p. p < NPROC \<Longrightarrow> cpu_proc (cpus s (tp s)) \<noteq> Some p \<Longrightarrow> lk_free (L_proc p) s"
  shows "wakeup ch s
    = Ret () (touch (s\<lparr>procs := wake ch (cpu_proc (cpus s (tp s))) {0..<NPROC} (procs s)\<rparr>))"
proof -
  have "[0..<NPROC] = 0 # [1..<NPROC]"
    by (simp add: NPROC_def upt_conv_Cons)
  then have "wakeup ch s = wakeup_loop ch [0..<NPROC] (touch s)"
    unfolding wakeup_def using wakeup_loop_Cons_touch [OF assms(1)] by metis
  then show ?thesis
    using wakeup_loop_touched [of s "[0..<NPROC]" ch] assms by simp
qed

lemma wakeup_free [simp]:
  "cpu_ok s \<Longrightarrow> plocks_free s \<Longrightarrow> wakeup ch s
    = Ret () (touch (s\<lparr>procs := wake ch (cpu_proc (cpus s (tp s))) {0..<NPROC} (procs s)\<rparr>))"
  by (rule wakeup_eq) (auto simp: plocks_free_def)

lemma killed_eq [simp]:
  "cpu_ok s \<Longrightarrow> lk_free (L_proc p) s \<Longrightarrow> killed p s = Ret (p_killed (procs s p)) (touch s)"
  by (simp add: killed_def)

lemma setkilled_eq:
  "cpu_ok s \<Longrightarrow> lk_free (L_proc p) s \<Longrightarrow>
   setkilled p s = Ret () (touch (upd_proc p (\<lambda>pr. pr\<lparr>p_killed := 1\<rparr>) s))"
  by (simp add: setkilled_def)

lemma acquiresleep_eq:
  assumes "cpu_ok s" and "lk_free (L_sleep lk) s" and "\<not> sl_locked (slocks s lk)"
    and "cpu_proc (cpus s (tp s)) = Some p"
  shows "acquiresleep lk s = Ret () (touch (s\<lparr>slocks := (slocks s)(lk :=
           (slocks s lk)\<lparr>sl_locked := True, sl_pid := p_pid (procs s p)\<rparr>)\<rparr>))"
  using assms by (simp add: acquiresleep_def acquiresleep_loop_def locksimp)

lemma releasesleep_eq:
  assumes "cpu_ok s" and "lk_free (L_sleep lk) s" and "plocks_free s"
  shows "releasesleep lk s = Ret () (touch (s\<lparr>slocks := (slocks s)(lk :=
           (slocks s lk)\<lparr>sl_locked := False, sl_pid := 0\<rparr>),
           procs := wake (Ch_sl lk) (cpu_proc (cpus s (tp s))) {0..<NPROC} (procs s)\<rparr>))"
  using assms by (simp add: releasesleep_def locksimp)

lemma holdingsleep_eq:
  assumes "cpu_ok s" and "lk_free (L_sleep lk) s" and "cpu_proc (cpus s (tp s)) = Some p"
  shows "holdingsleep lk s =
    Ret (sl_locked (slocks s lk) \<and> sl_pid (slocks s lk) = p_pid (procs s p)) (touch s)"
  using assms by (simp add: holdingsleep_def)

section \<open>Switching, waking and lock hand-over\<close>

lemma release_under [simp]:
  assumes "lk \<noteq> lk'" and "lk_free lk s" and "cpu_ok s"
  shows "release lk (acq lk' (acq lk s)) = Ret () (acq lk' s)"
proof -
  have l: "(locks s lk)\<lparr>lk_cpu := None, locked := False\<rparr> = locks s lk"
    using assms(2) by (simp add: lk_free_def spinlock_release_eq')
  have "(locks s)(lk := locks s lk, lk' := x) = (locks s)(lk' := x)" for x
    by (simp add: fun_upd_def fun_eq_iff)
  with l assms(1,3) show ?thesis
    by (auto simp: release_def holding_def acq_def pop_off_def push_off_def Let_def intr_defs
        cpu_ok_def fun_upd_twist)
qed

lemma sched_susp:
  assumes "cpu_ok s" and "noff (cpus s (tp s)) = 0" and "cpu_proc (cpus s (tp s)) = Some p"
    and "p_state (procs s p) \<noteq> RUNNING"
  shows "sched (acq (L_proc p) s) = Susp (acq (L_proc p) s)"
  using assms by (simp add: sched_def holding_def intr_defs)

lemma sleep_susp:
  assumes "cpu_ok s" and "noff (cpus s (tp s)) = 0" and "cpu_proc (cpus s (tp s)) = Some p"
    and "lk_free lk s" and "lk_free (L_proc p) s" and "lk \<noteq> L_proc p"
  shows "sleep ch lk (acq lk s)
    = Susp (acq (L_proc p) (upd_proc p (\<lambda>pr. pr\<lparr>p_chan := Some ch, p_state := SLEEPING\<rparr>) s))"
  using assms sched_susp [of "upd_proc p (\<lambda>pr. pr\<lparr>p_chan := Some ch, p_state := SLEEPING\<rparr>) s" p]
  by (simp add: sleep_def)

lemma upd_cpu_proc_acq:
  "upd_cpu (tp s) (\<lambda>c. c\<lparr>cpu_proc := q\<rparr>) (acq lk s)
    = acq lk (upd_cpu (tp s) (\<lambda>c. c\<lparr>cpu_proc := q\<rparr>) s)"
  by (cases s; cases "cpus s (tp s)") (simp add: acq_def push_off_def upd_cpu_def Let_def intr_defs)

lemma scheduler_pass_eq:
  assumes "cpu_ok s" and "\<And>p. p \<in> set ps \<Longrightarrow> lk_free (L_proc p) s"
  shows "scheduler_pass ps (touch s) =
    (case List.find (\<lambda>p. p_state (procs s p) = RUNNABLE) ps of
       None \<Rightarrow> Ret None (intr_on (touch s))
     | Some p \<Rightarrow> Ret (Some p) (upd_cpu (tp s) (\<lambda>c. c\<lparr>cpu_proc := Some p\<rparr>)
                   (acq (L_proc p) (upd_proc p (\<lambda>pr. pr\<lparr>p_state := RUNNING\<rparr>) s))))"
  using assms by (induction ps) (auto simp: intr_defs)

section \<open>Properties of waking and scheduling\<close>

text \<open>
  C8. \<^verbatim>\<open>wakeup(chan)\<close>, called with no process lock held anywhere, makes exactly the
  processes other than the caller that sleep on \<^verbatim>\<open>chan\<close> runnable, changes no other process
  and no lock, and returns with every lock free again.
\<close>

theorem wakeup_exact:
  assumes "cpu_ok s" and "plocks_free s"
  shows "\<exists>t. wakeup ch s = Ret () t \<and> plocks_free t \<and> locks t = locks s \<and> intr t = intr s
    \<and> (\<forall>p. procs t p =
         (if p < NPROC \<and> cpu_proc (cpus s (tp s)) \<noteq> Some p
             \<and> p_state (procs s p) = SLEEPING \<and> p_chan (procs s p) = Some ch
          then (procs s p)\<lparr>p_state := RUNNABLE\<rparr> else procs s p))"
  using assms by (simp add: wake_def)

text \<open>
  A machine with two harts: process 1 runs on hart 0, process 2 sleeps on \<open>Ch_ticks\<close>.
\<close>

definition demo_mach :: mach where
  "demo_mach = boot_mach\<lparr>
     cpus := (\<lambda>_. zero_cpu)(0 := zero_cpu\<lparr>cpu_proc := Some 1\<rparr>),
     procs := (\<lambda>_. zero_proc)
       (1 := zero_proc\<lparr>p_state := RUNNING, p_pid := 1\<rparr>,
        2 := zero_proc\<lparr>p_state := SLEEPING, p_chan := Some Ch_ticks, p_pid := 2\<rparr>)\<rparr>"

lemma demo_mach_ok: "cpu_ok demo_mach" "lk_free lk demo_mach" "plocks_free demo_mach"
  by (simp_all add: cpu_ok_def demo_mach_def boot_mach_def zero_cpu_def lk_free_def plocks_free_def)

theorem wakeup_exact_witness:
  "\<exists>t. wakeup Ch_ticks demo_mach = Ret () t \<and> p_state (procs t 2) = RUNNABLE
     \<and> p_state (procs t 1) = RUNNING"
proof -
  obtain t where t: "wakeup Ch_ticks demo_mach = Ret () t"
    and p: "\<forall>p. procs t p =
         (if p < NPROC \<and> cpu_proc (cpus demo_mach (tp demo_mach)) \<noteq> Some p
             \<and> p_state (procs demo_mach p) = SLEEPING \<and> p_chan (procs demo_mach p) = Some Ch_ticks
          then (procs demo_mach p)\<lparr>p_state := RUNNABLE\<rparr> else procs demo_mach p)"
    using wakeup_exact [OF demo_mach_ok(1,3), of Ch_ticks] by blast
  have "p_state (procs t 2) = RUNNABLE" "p_state (procs t 1) = RUNNING"
    using p by (simp_all add: demo_mach_def boot_mach_def zero_cpu_def zero_proc_def NPROC_def)
  with t show ?thesis by blast
qed

text \<open>
  C7. The scheduler, entered with no process lock held, switches to the first \<^verbatim>\<open>RUNNABLE\<close>
  process of the table, which it marks \<^verbatim>\<open>RUNNING\<close> and records as this hart's process, and
  whose lock is the only one it still holds; if no process is runnable it switches to none,
  changes no process and keeps no lock.
\<close>

theorem scheduler_picks_runnable:
  assumes "cpu_ok s" and "noff (cpus s (tp s)) = 0" and "plocks_free s"
  shows "\<exists>t. scheduler s = Ret (List.find (\<lambda>p. p_state (procs s p) = RUNNABLE) [0..<NPROC]) t
    \<and> cpu_proc (cpus t (tp t)) = List.find (\<lambda>p. p_state (procs s p) = RUNNABLE) [0..<NPROC]
    \<and> (\<forall>q < NPROC. holding (L_proc q) t
          \<longleftrightarrow> List.find (\<lambda>p. p_state (procs s p) = RUNNABLE) [0..<NPROC] = Some q)
    \<and> procs t = (case List.find (\<lambda>p. p_state (procs s p) = RUNNABLE) [0..<NPROC] of
          None \<Rightarrow> procs s | Some p \<Rightarrow> (procs s)(p := (procs s p)\<lparr>p_state := RUNNING\<rparr>))"
proof -
  let ?f = "List.find (\<lambda>p. p_state (procs s p) = RUNNABLE) [0..<NPROC]"
  let ?b = "intr_on (upd_cpu (tp s) (\<lambda>c. c\<lparr>cpu_proc := None\<rparr>) s)"
  have b: "cpu_ok ?b" "\<And>p. p \<in> set [0..<NPROC] \<Longrightarrow> lk_free (L_proc p) ?b" "procs ?b = procs s" "tp ?b = tp s"
    using assms by (auto simp: cpu_ok_def plocks_free_def lk_free_def intr_defs)
  have "[0..<NPROC] = 0 # [1..<NPROC]" by (simp add: NPROC_def upt_conv_Cons)
  then have "scheduler s = scheduler_pass [0..<NPROC] (touch ?b)"
    using b(1,2) by (simp add: scheduler_def intr_defs)
  also have "\<dots> = (case ?f of None \<Rightarrow> Ret None (intr_on (touch ?b))
     | Some p \<Rightarrow> Ret (Some p) (upd_cpu (tp s) (\<lambda>c. c\<lparr>cpu_proc := Some p\<rparr>)
                   (acq (L_proc p) (upd_proc p (\<lambda>pr. pr\<lparr>p_state := RUNNING\<rparr>) ?b))))"
    by (subst scheduler_pass_eq [OF b(1,2)]) (simp_all only: b(3,4))
  finally have eq: "scheduler s = \<dots>" .
  have free: "\<not> locked (locks s (L_proc q))" if "q < NPROC" for q
    using assms(3) that by (simp add: plocks_free_def lk_free_def)
  show ?thesis
  proof (cases ?f)
    case None
    with eq free show ?thesis by (auto simp: holding_def intr_defs)
  next
    case (Some p)
    with eq free show ?thesis by (auto simp: holding_def intr_defs)
  qed
qed

theorem scheduler_picks_runnable_witness:
  "\<exists>t. scheduler (demo_mach\<lparr>tp := 1, procs := (procs demo_mach)(2 := zero_proc\<lparr>p_state := RUNNABLE\<rparr>)\<rparr>)
         = Ret (Some 2) t \<and> p_state (procs t 2) = RUNNING \<and> holding (L_proc 2) t"
proof -
  let ?s = "demo_mach\<lparr>tp := 1, procs := (procs demo_mach)(2 := zero_proc\<lparr>p_state := RUNNABLE\<rparr>)\<rparr>"
  have h: "cpu_ok ?s" "noff (cpus ?s (tp ?s)) = 0" "plocks_free ?s"
    by (simp_all add: cpu_ok_def plocks_free_def lk_free_def demo_mach_def boot_mach_def zero_cpu_def)
  have "List.find (\<lambda>p. p_state (procs ?s p) = RUNNABLE) [0..<NPROC] = Some 2"
    by (simp add: NPROC_def upt_conv_Cons demo_mach_def zero_proc_def)
  with scheduler_picks_runnable [OF h] show ?thesis by (auto simp: NPROC_def)
qed

end
