(* ===== verification/Xv6_Sleep.thy ===== *)
theory Xv6_Sleep
  imports Xv6_Sched
begin

text \<open>
  \<^verbatim>\<open>sleep\<close> and \<^verbatim>\<open>wakeup\<close> at the grain of single lock operations and stores, in any interleaving of
  any number of processes and of harts without a process. All use one condition, guarded by the lock
  \<^verbatim>\<open>lk\<close>, in the way of \<^verbatim>\<open>acquiresleep\<close>, \<^verbatim>\<open>piperead\<close>, \<^verbatim>\<open>begin_op\<close> and \<^verbatim>\<open>virtio_disk_rw\<close>: a process that needs
  it waits in \<open>while (!cond) sleep(chan, lk)\<close>, whoever establishes it calls \<^verbatim>\<open>wakeup(chan)\<close>, both
  with \<^verbatim>\<open>lk\<close> held. Acquiring a lock is one step, possible when it is free; that \<^verbatim>\<open>acquire\<close> behaves so
  is the subject of \<^verbatim>\<open>Xv6_Spinlock\<close>.
\<close>

text \<open>
  Where an agent is. \<open>S_\<close> are the lines of \<^verbatim>\<open>sleep\<close> and of the loop around it, \<open>W_\<close> those of
  \<^verbatim>\<open>wakeup\<close>, with the process that its loop has reached.
\<close>

datatype sl_pc =
    Idle | S_test | S_acqp | S_rel | S_chan | S_state | S_sched | S_asleep | S_back | S_relp | S_acq | S_done
  | W_set | W_scan nat | W_test nat | W_relp nat | W_rel

record sl_sys =
  z_pc :: "nat \<Rightarrow> sl_pc"
  z_lk :: "nat option"
  z_plock :: "nat \<Rightarrow> nat option"
  z_state :: "nat \<Rightarrow> procstate"
  z_chan :: "nat \<Rightarrow> bool"
  z_cond :: bool

definition sl_init :: sl_sys where
  "sl_init = \<lparr>z_pc = (\<lambda>_. Idle), z_lk = None, z_plock = (\<lambda>_. None), z_state = (\<lambda>_. RUNNING), z_chan = (\<lambda>_. False), z_cond = False\<rparr>"

definition sl_at :: "nat \<Rightarrow> sl_pc \<Rightarrow> sl_sys \<Rightarrow> sl_sys" where
  "sl_at a l s = s\<lparr>z_pc := (z_pc s)(a := l)\<rparr>"

definition take_lk :: "nat \<Rightarrow> sl_sys \<Rightarrow> sl_sys" where
  "take_lk a s = s\<lparr>z_lk := Some a\<rparr>"

definition drop_lk :: "sl_sys \<Rightarrow> sl_sys" where
  "drop_lk s = s\<lparr>z_lk := None\<rparr>"

definition take_p :: "nat \<Rightarrow> nat \<Rightarrow> sl_sys \<Rightarrow> sl_sys" where
  "take_p a p s = s\<lparr>z_plock := (z_plock s)(p := Some a)\<rparr>"

definition drop_p :: "nat \<Rightarrow> sl_sys \<Rightarrow> sl_sys" where
  "drop_p p s = s\<lparr>z_plock := (z_plock s)(p := None)\<rparr>"

definition set_state :: "nat \<Rightarrow> procstate \<Rightarrow> sl_sys \<Rightarrow> sl_sys" where
  "set_state p x s = s\<lparr>z_state := (z_state s)(p := x)\<rparr>"

definition set_chan :: "nat \<Rightarrow> bool \<Rightarrow> sl_sys \<Rightarrow> sl_sys" where
  "set_chan p x s = s\<lparr>z_chan := (z_chan s)(p := x)\<rparr>"

lemmas sl_defs = sl_at_def take_lk_def drop_lk_def take_p_def drop_p_def set_state_def set_chan_def

text \<open>
  The scheduler appears in two steps: it releases \<^verbatim>\<open>p->lock\<close> after \<^verbatim>\<open>sched\<close> has switched to it, and it
  takes the lock of a process that has become runnable, marks it \<^verbatim>\<open>RUNNING\<close> and switches to it.
\<close>

inductive sl_step :: "nat \<Rightarrow> sl_sys \<Rightarrow> sl_sys \<Rightarrow> bool" where
  wait_enter: "z_pc s p = Idle \<Longrightarrow> p < NPROC \<Longrightarrow> z_lk s = None \<Longrightarrow> sl_step p s (sl_at p S_test (take_lk p s))"
| wait_true: "z_pc s p = S_test \<Longrightarrow> z_cond s \<Longrightarrow> sl_step p s (sl_at p S_done s)"
| wait_false: "z_pc s p = S_test \<Longrightarrow> \<not> z_cond s \<Longrightarrow> sl_step p s (sl_at p S_acqp s)"
| sleep_acquire: "z_pc s p = S_acqp \<Longrightarrow> z_plock s p = None \<Longrightarrow> sl_step p s (sl_at p S_rel (take_p p p s))"
| sleep_release: "z_pc s p = S_rel \<Longrightarrow> sl_step p s (sl_at p S_chan (drop_lk s))"
| sleep_chan: "z_pc s p = S_chan \<Longrightarrow> sl_step p s (sl_at p S_state (set_chan p True s))"
| sleep_state: "z_pc s p = S_state \<Longrightarrow> sl_step p s (sl_at p S_sched (set_state p SLEEPING s))"
| sleep_sched: "z_pc s p = S_sched \<Longrightarrow> sl_step p s (sl_at p S_asleep (drop_p p s))"
| sched_run: "z_pc s p = S_asleep \<Longrightarrow> z_state s p = RUNNABLE \<Longrightarrow> z_plock s p = None \<Longrightarrow>
    sl_step p s (sl_at p S_back (set_state p RUNNING (take_p p p s)))"
| sleep_tidy: "z_pc s p = S_back \<Longrightarrow> sl_step p s (sl_at p S_relp (set_chan p False s))"
| sleep_relp: "z_pc s p = S_relp \<Longrightarrow> sl_step p s (sl_at p S_acq (drop_p p s))"
| sleep_acq: "z_pc s p = S_acq \<Longrightarrow> z_lk s = None \<Longrightarrow> sl_step p s (sl_at p S_test (take_lk p s))"
| wait_keep: "z_pc s p = S_done \<Longrightarrow> sl_step p s (sl_at p Idle (drop_lk s))"
| wait_consume: "z_pc s p = S_done \<Longrightarrow> sl_step p s (sl_at p Idle (drop_lk (s\<lparr>z_cond := False\<rparr>)))"
| wake_enter: "z_pc s a = Idle \<Longrightarrow> z_lk s = None \<Longrightarrow> sl_step a s (sl_at a W_set (take_lk a s))"
| wake_cond: "z_pc s a = W_set \<Longrightarrow> sl_step a s (sl_at a (W_scan 0) (s\<lparr>z_cond := True\<rparr>))"
| wake_self: "z_pc s a = W_scan k \<Longrightarrow> k < NPROC \<Longrightarrow> k = a \<Longrightarrow> sl_step a s (sl_at a (W_scan (Suc k)) s)"
| wake_acquire: "z_pc s a = W_scan k \<Longrightarrow> k < NPROC \<Longrightarrow> k \<noteq> a \<Longrightarrow> z_plock s k = None \<Longrightarrow>
    sl_step a s (sl_at a (W_test k) (take_p a k s))"
| wake_hit: "z_pc s a = W_test k \<Longrightarrow> z_state s k = SLEEPING \<Longrightarrow> z_chan s k \<Longrightarrow>
    sl_step a s (sl_at a (W_relp k) (set_state k RUNNABLE s))"
| wake_miss: "z_pc s a = W_test k \<Longrightarrow> \<not> (z_state s k = SLEEPING \<and> z_chan s k) \<Longrightarrow> sl_step a s (sl_at a (W_relp k) s)"
| wake_release: "z_pc s a = W_relp k \<Longrightarrow> sl_step a s (sl_at a (W_scan (Suc k)) (drop_p k s))"
| wake_end: "z_pc s a = W_scan k \<Longrightarrow> \<not> k < NPROC \<Longrightarrow> sl_step a s (sl_at a W_rel s)"
| wake_exit: "z_pc s a = W_rel \<Longrightarrow> sl_step a s (sl_at a Idle (drop_lk s))"

inductive sl_reach :: "sl_sys \<Rightarrow> bool" where
  sl_start: "sl_reach sl_init"
| sl_next: "sl_reach s \<Longrightarrow> sl_step a s t \<Longrightarrow> sl_reach t"

section \<open>The invariant\<close>

primrec holds_lk :: "sl_pc \<Rightarrow> bool" where
  "holds_lk Idle = False" | "holds_lk S_test = True" | "holds_lk S_acqp = True" | "holds_lk S_rel = True"
| "holds_lk S_chan = False" | "holds_lk S_state = False" | "holds_lk S_sched = False" | "holds_lk S_asleep = False"
| "holds_lk S_back = False" | "holds_lk S_relp = False" | "holds_lk S_acq = False" | "holds_lk S_done = True"
| "holds_lk W_set = True" | "holds_lk (W_scan k) = True" | "holds_lk (W_test k) = True" | "holds_lk (W_relp k) = True" | "holds_lk W_rel = True"

text \<open>The process lock that agent \<open>a\<close> holds there.\<close>

fun held_p :: "nat \<Rightarrow> sl_pc \<Rightarrow> nat option" where
  "held_p a S_rel = Some a" | "held_p a S_chan = Some a" | "held_p a S_state = Some a" | "held_p a S_sched = Some a"
| "held_p a S_back = Some a" | "held_p a S_relp = Some a" | "held_p a (W_test k) = Some k" | "held_p a (W_relp k) = Some k"
| "held_p a _ = None"

text \<open>A waker there has not passed process \<open>p\<close> yet.\<close>

fun pend :: "sl_pc \<Rightarrow> nat \<Rightarrow> bool" where
  "pend (W_scan k) p \<longleftrightarrow> k \<le> p" | "pend (W_test k) p \<longleftrightarrow> k \<le> p" | "pend (W_relp k) p \<longleftrightarrow> k < p" | "pend _ p \<longleftrightarrow> False"

definition sleeper :: "sl_pc \<Rightarrow> bool" where
  "sleeper l \<longleftrightarrow> l \<in> {S_test, S_acqp, S_rel, S_chan, S_state, S_sched, S_asleep, S_back, S_relp, S_acq, S_done}"

definition falling :: "sl_pc \<Rightarrow> bool" where
  "falling l \<longleftrightarrow> l \<in> {S_chan, S_state, S_sched}"

definition mutex_ok :: "sl_sys \<Rightarrow> bool" where
  "mutex_ok s \<longleftrightarrow> (\<forall>a. holds_lk (z_pc s a) \<longleftrightarrow> z_lk s = Some a) \<and> (\<forall>a k. held_p a (z_pc s a) = Some k \<longrightarrow> z_plock s k = Some a)"

definition place_ok :: "sl_sys \<Rightarrow> bool" where
  "place_ok s \<longleftrightarrow> (\<forall>p. sleeper (z_pc s p) \<longrightarrow> p < NPROC) \<and> (\<forall>p. z_state s p = SLEEPING \<longrightarrow> z_pc s p \<in> {S_sched, S_asleep} \<and> z_chan s p)
     \<and> (\<forall>p. z_pc s p \<in> {S_acqp, S_rel} \<longrightarrow> \<not> z_cond s) \<and> (\<forall>p. z_pc s p = S_sched \<longrightarrow> z_chan s p) \<and> (\<forall>p. z_pc s p = S_state \<longrightarrow> z_chan s p)"

definition wake_ok :: "sl_sys \<Rightarrow> bool" where
  "wake_ok s \<longleftrightarrow> (\<forall>p. (falling (z_pc s p) \<or> z_state s p = SLEEPING) \<and> z_cond s \<longrightarrow> (\<exists>w. z_lk s = Some w \<and> pend (z_pc s w) p))"

lemma mutexD: "mutex_ok s \<Longrightarrow> holds_lk (z_pc s a) \<Longrightarrow> z_lk s = Some a" "mutex_ok s \<Longrightarrow> held_p a (z_pc s a) = Some k \<Longrightarrow> z_plock s k = Some a"
  "mutex_ok s \<Longrightarrow> z_lk s = Some a \<Longrightarrow> holds_lk (z_pc s a)"
  by (auto simp: mutex_ok_def)

lemma pend_holds: "pend l p \<Longrightarrow> holds_lk l" by (cases l) auto

text \<open>Each step moves one agent, and takes and drops locks as its place says.\<close>

lemma sl_at_pc: "z_pc s' = z_pc s \<Longrightarrow> z_pc (sl_at a l s') = (z_pc s)(a := l)"
  by (simp add: sl_at_def)

lemma sl_step_move:
  assumes "sl_step a s t"
  shows "\<exists>l. z_pc t = (z_pc s)(a := l)
    \<and> (if holds_lk l = holds_lk (z_pc s a) then z_lk t = z_lk s
       else if holds_lk l then z_lk s = None \<and> z_lk t = Some a else z_lk t = None)
    \<and> (if held_p a l = held_p a (z_pc s a) then z_plock t = z_plock s
       else case held_p a l of Some k \<Rightarrow> held_p a (z_pc s a) = None \<and> z_plock s k = None \<and> z_plock t = (z_plock s)(k := Some a)
            | None \<Rightarrow> z_plock t = (z_plock s)(the (held_p a (z_pc s a)) := None))"
  using assms by induction (rule exI, rule conjI, rule sl_at_pc, simp add: sl_defs, simp add: sl_defs)+

lemma mutex_step:
  assumes "sl_step a s t" and "mutex_ok s"
  shows "mutex_ok t"
proof -
  have 1: "holds_lk (z_pc s a) \<longleftrightarrow> z_lk s = Some a" for a using assms(2) by (simp add: mutex_ok_def)
  have 2: "held_p a (z_pc s a) = Some k \<Longrightarrow> z_plock s k = Some a" for a k using assms(2) by (simp add: mutex_ok_def)
  obtain l where m: "z_pc t = (z_pc s)(a := l)"
    and lk: "if holds_lk l = holds_lk (z_pc s a) then z_lk t = z_lk s
       else if holds_lk l then z_lk s = None \<and> z_lk t = Some a else z_lk t = None"
    and pl: "if held_p a l = held_p a (z_pc s a) then z_plock t = z_plock s
       else case held_p a l of Some k \<Rightarrow> held_p a (z_pc s a) = None \<and> z_plock s k = None \<and> z_plock t = (z_plock s)(k := Some a)
            | None \<Rightarrow> z_plock t = (z_plock s)(the (held_p a (z_pc s a)) := None)"
    using sl_step_move [OF assms(1)] by blast
  have "holds_lk (z_pc t b) \<longleftrightarrow> z_lk t = Some b" for b
    using 1 [of b] 1 [of a] lk by (cases "b = a") (auto simp: m split: if_splits)
  moreover have "z_plock t k = Some b" if "held_p b (z_pc t b) = Some k" for b k
    using that 2 [of b k] 2 [of a "the (held_p a (z_pc s a))"] pl
    by (cases "b = a"; cases "held_p a l"; cases "held_p a (z_pc s a)") (auto simp: m split: if_splits)
  ultimately show ?thesis by (simp add: mutex_ok_def)
qed

lemma place_step:
  assumes "sl_step a s t" and "mutex_ok s" and "place_ok s"
  shows "place_ok t"
proof -
  have uniq: "holds_lk (z_pc s a) \<Longrightarrow> holds_lk (z_pc s p) \<Longrightarrow> p = a" for p
    using mutexD(1) [OF assms(2)] by (metis option.inject)
  have i: "sleeper (z_pc s p) \<Longrightarrow> p < NPROC" "z_state s p = SLEEPING \<Longrightarrow> (z_pc s p = S_sched \<or> z_pc s p = S_asleep) \<and> z_chan s p"
    "z_pc s p = S_acqp \<or> z_pc s p = S_rel \<Longrightarrow> \<not> z_cond s" "z_pc s p = S_sched \<or> z_pc s p = S_state \<Longrightarrow> z_chan s p" for p
    using assms(3) by (simp_all add: place_ok_def) blast+
  have "sleeper (z_pc t p) \<longrightarrow> p < NPROC" for p
    using assms(1) by cases (use i(1) [of p] i(1) [of a] in \<open>simp_all add: sl_defs sleeper_def\<close>)
  moreover have "z_state t p = SLEEPING \<longrightarrow> (z_pc t p = S_sched \<or> z_pc t p = S_asleep) \<and> z_chan t p" for p
    using assms(1) by cases (use i(2,4) [of p] in \<open>auto simp: sl_defs\<close>)
  moreover have "z_pc t p = S_acqp \<or> z_pc t p = S_rel \<longrightarrow> \<not> z_cond t" for p
  proof (cases "p = a")
    case True
    show ?thesis using assms(1) by cases (use True i(3) [of a] in \<open>simp_all add: sl_defs\<close>)
  next
    case False
    then have n: "\<not> (holds_lk (z_pc s a) \<and> holds_lk (z_pc s p))" using uniq by blast
    show ?thesis using assms(1) by cases (use n False i(3) [of p] in \<open>auto simp: sl_defs\<close>)
  qed
  moreover have "z_pc t p = S_sched \<or> z_pc t p = S_state \<longrightarrow> z_chan t p" for p
    using assms(1) by cases (use i(4) [of p] in \<open>auto simp: sl_defs\<close>)
  ultimately show ?thesis unfolding place_ok_def by blast
qed

lemma wake_step:
  assumes "sl_step a s t" and "mutex_ok s" and "place_ok s" and "wake_ok s"
  shows "wake_ok t"
proof -
  have i: "sleeper (z_pc s p) \<Longrightarrow> p < NPROC" "z_state s p = SLEEPING \<Longrightarrow> (z_pc s p = S_sched \<or> z_pc s p = S_asleep) \<and> z_chan s p"
    "z_pc s p = S_acqp \<or> z_pc s p = S_rel \<Longrightarrow> \<not> z_cond s" for p
    using assms(3) by (simp_all add: place_ok_def) blast+
  have "\<exists>w. z_lk t = Some w \<and> pend (z_pc t w) p" if f: "falling (z_pc t p) \<or> z_state t p = SLEEPING" and c: "z_cond t" for p
  proof -
    have old: "\<exists>w. z_lk s = Some w \<and> pend (z_pc s w) p" if "falling (z_pc s p) \<or> z_state s p = SLEEPING" "z_cond s"
      using assms(4) that unfolding wake_ok_def by blast
    have m: "holds_lk (z_pc s a) \<longleftrightarrow> z_lk s = Some a" using assms(2) by (simp add: mutex_ok_def)
    have q: "held_p a (z_pc s a) = Some p \<Longrightarrow> z_plock s p = Some a" "falling (z_pc s p) \<Longrightarrow> z_plock s p = Some p"
      using mutexD(2) [OF assms(2), of a p] mutexD(2) [OF assms(2), of p p] by (auto simp: falling_def)
    show ?thesis
    proof (cases "p = a")
      case True
      show ?thesis using assms(1) by cases (use True f c old i [of a] m q in \<open>auto simp: sl_defs falling_def sleeper_def split: if_splits\<close>)
    next
      case False
      have p: "falling (z_pc s p) \<or> z_state s p = SLEEPING" using assms(1) by cases (use False f in \<open>auto simp: sl_defs split: if_splits\<close>)
      show ?thesis
      proof (cases "z_cond s")
        case nc: False
        show ?thesis using assms(1) by cases (use nc c m in \<open>simp_all add: sl_defs\<close>)
      next
        case True
        then obtain w where w: "z_lk s = Some w" "pend (z_pc s w) p" using old p by blast
        show ?thesis
        proof (cases "w = a")
          case True
          have n: "p < NPROC" using p i(1,2) by (auto simp: falling_def sleeper_def)
          show ?thesis using assms(1) by cases (use True w n False f i(2) q in \<open>auto simp: sl_defs falling_def le_less split: if_splits\<close>)
        next
          case wa: False
          then have "\<not> holds_lk (z_pc s a)" using m w(1) by simp
          then show ?thesis using sl_step_move [OF assms(1)] w wa by (auto split: if_splits)
        qed
      qed
    qed
  qed
  then show ?thesis by (simp add: wake_ok_def)
qed

lemma sl_reach_inv: "sl_reach s \<Longrightarrow> mutex_ok s \<and> place_ok s \<and> wake_ok s"
proof (induction rule: sl_reach.induct)
  case sl_start
  show ?case by (simp add: sl_init_def mutex_ok_def place_ok_def wake_ok_def sleeper_def falling_def)
next
  case (sl_next s a t)
  then show ?case using mutex_step place_step wake_step by blast
qed

text \<open>
  C4. No wakeup is lost, in any interleaving: whenever a process is asleep although the condition it
  waits for holds, some waker is still inside \<^verbatim>\<open>wakeup\<close>, holding the condition lock, and has not passed
  that process yet. So once the wakers are done no process sleeps on a condition that holds.
\<close>

theorem sleep_wakeup_no_loss:
  assumes "sl_reach s" and "z_cond s" and "z_state s p = SLEEPING"
  shows "\<exists>w. z_lk s = Some w \<and> pend (z_pc s w) p"
  using sl_reach_inv [OF assms(1)] assms(2,3) unfolding wake_ok_def by blast

theorem sleep_wakeup_no_loss_witness:
  "\<exists>s. sl_reach s \<and> z_cond s \<and> z_state s 1 = SLEEPING \<and> (\<exists>w. z_lk s = Some w \<and> pend (z_pc s w) 1)"
proof -
  have n: "1 < NPROC" by (simp add: NPROC_def)
  let ?s1 = "sl_at 1 S_test (take_lk 1 sl_init)"
  let ?s2 = "sl_at 1 S_acqp ?s1"
  let ?s3 = "sl_at 1 S_rel (take_p 1 1 ?s2)"
  let ?s4 = "sl_at 1 S_chan (drop_lk ?s3)"
  let ?s5 = "sl_at 1 S_state (set_chan 1 True ?s4)"
  let ?s6 = "sl_at 1 S_sched (set_state 1 SLEEPING ?s5)"
  let ?s7 = "sl_at 1 S_asleep (drop_p 1 ?s6)"
  let ?s8 = "sl_at NPROC W_set (take_lk NPROC ?s7)"
  let ?s = "sl_at NPROC (W_scan 0) (?s8\<lparr>z_cond := True\<rparr>)"
  have "sl_reach ?s1" by (rule sl_next [OF sl_start wait_enter]) (use n in \<open>simp_all add: sl_init_def\<close>)
  then have "sl_reach ?s2" by (rule sl_next [OF _ wait_false]) (simp_all add: sl_defs sl_init_def)
  then have "sl_reach ?s3" by (rule sl_next [OF _ sleep_acquire]) (simp_all add: sl_defs sl_init_def)
  then have "sl_reach ?s4" by (rule sl_next [OF _ sleep_release]) (simp add: sl_defs)
  then have "sl_reach ?s5" by (rule sl_next [OF _ sleep_chan]) (simp add: sl_defs)
  then have "sl_reach ?s6" by (rule sl_next [OF _ sleep_state]) (simp add: sl_defs)
  then have "sl_reach ?s7" by (rule sl_next [OF _ sleep_sched]) (simp add: sl_defs)
  then have "sl_reach ?s8" by (rule sl_next [OF _ wake_enter]) (simp_all add: sl_defs sl_init_def NPROC_def)
  then have "sl_reach ?s" by (rule sl_next [OF _ wake_cond]) (simp add: sl_defs)
  moreover have "z_cond ?s" "z_state ?s 1 = SLEEPING" by (simp_all add: sl_defs)
  ultimately show ?thesis using sleep_wakeup_no_loss by blast
qed

end
