(* ===== verification/Xv6_Spinlock.thy ===== *)
theory Xv6_Spinlock
  imports Xv6_Machine
begin

text \<open>
  \<^verbatim>\<open>acquire\<close> and \<^verbatim>\<open>release\<close> at the grain of single memory accesses. Any number of harts run
  the two functions on one lock, in any interleaving; \<^verbatim>\<open>holding\<close> reads \<^verbatim>\<open>lk->locked\<close> and
  \<^verbatim>\<open>lk->cpu\<close> in two separate accesses, and only the atomic swap tests and sets the lock.
  The step relation has one rule per access; \<open>Panicked\<close> is the result of either panic.
\<close>

datatype spin_pc =
    Outside | A_locked | A_cpu | A_swap | A_setcpu
  | Inside | R_locked | R_cpu | R_clear | R_unlock | Panicked

record spin_sys =
  spc :: "nat \<Rightarrow> spin_pc"
  word_locked :: bool
  word_cpu :: "nat option"

definition spin_init :: spin_sys where
  "spin_init = \<lparr>spc = (\<lambda>_. Outside), word_locked = False, word_cpu = None\<rparr>"

definition at_pc :: "nat \<Rightarrow> spin_pc \<Rightarrow> spin_sys \<Rightarrow> spin_sys" where
  "at_pc h l s = s\<lparr>spc := (spc s)(h := l)\<rparr>"

inductive spin_step :: "spin_sys \<Rightarrow> spin_sys \<Rightarrow> bool" where
  acq_call: "spc s h = Outside \<Longrightarrow> spin_step s (at_pc h A_locked s)"
| acq_holding1_no: "spc s h = A_locked \<Longrightarrow> \<not> word_locked s \<Longrightarrow> spin_step s (at_pc h A_swap s)"
| acq_holding1_yes: "spc s h = A_locked \<Longrightarrow> word_locked s \<Longrightarrow> spin_step s (at_pc h A_cpu s)"
| acq_holding2_no: "spc s h = A_cpu \<Longrightarrow> word_cpu s \<noteq> Some h \<Longrightarrow> spin_step s (at_pc h A_swap s)"
| acq_holding2_yes: "spc s h = A_cpu \<Longrightarrow> word_cpu s = Some h \<Longrightarrow> spin_step s (at_pc h Panicked s)"
| acq_swap_busy: "spc s h = A_swap \<Longrightarrow> word_locked s \<Longrightarrow> spin_step s (s\<lparr>word_locked := True\<rparr>)"
| acq_swap_got: "spc s h = A_swap \<Longrightarrow> \<not> word_locked s \<Longrightarrow>
     spin_step s (at_pc h A_setcpu (s\<lparr>word_locked := True\<rparr>))"
| acq_setcpu: "spc s h = A_setcpu \<Longrightarrow> spin_step s (at_pc h Inside (s\<lparr>word_cpu := Some h\<rparr>))"
| rel_call: "spc s h = Inside \<Longrightarrow> spin_step s (at_pc h R_locked s)"
| rel_holding1_no: "spc s h = R_locked \<Longrightarrow> \<not> word_locked s \<Longrightarrow> spin_step s (at_pc h Panicked s)"
| rel_holding1_yes: "spc s h = R_locked \<Longrightarrow> word_locked s \<Longrightarrow> spin_step s (at_pc h R_cpu s)"
| rel_holding2_no: "spc s h = R_cpu \<Longrightarrow> word_cpu s \<noteq> Some h \<Longrightarrow> spin_step s (at_pc h Panicked s)"
| rel_holding2_yes: "spc s h = R_cpu \<Longrightarrow> word_cpu s = Some h \<Longrightarrow> spin_step s (at_pc h R_clear s)"
| rel_clear: "spc s h = R_clear \<Longrightarrow> spin_step s (at_pc h R_unlock (s\<lparr>word_cpu := None\<rparr>))"
| rel_unlock: "spc s h = R_unlock \<Longrightarrow> spin_step s (at_pc h Outside (s\<lparr>word_locked := False\<rparr>))"

inductive spin_reach :: "spin_sys \<Rightarrow> bool" where
  spin_start: "spin_reach spin_init"
| spin_next: "spin_reach s \<Longrightarrow> spin_step s t \<Longrightarrow> spin_reach t"

text \<open>The hart has won the swap and has not yet written the unlock.\<close>

definition owns :: "spin_pc \<Rightarrow> bool" where
  "owns l \<longleftrightarrow> l \<in> {A_setcpu, Inside, R_locked, R_cpu, R_clear, R_unlock}"

definition records :: "spin_pc \<Rightarrow> bool" where
  "records l \<longleftrightarrow> l \<in> {Inside, R_locked, R_cpu, R_clear}"

definition spin_inv :: "spin_sys \<Rightarrow> bool" where
  "spin_inv s \<longleftrightarrow>
     (\<forall>h h'. owns (spc s h) \<and> owns (spc s h') \<longrightarrow> h = h') \<and>
     (word_locked s \<longleftrightarrow> (\<exists>h. owns (spc s h))) \<and>
     (\<forall>h. word_cpu s = Some h \<longleftrightarrow> records (spc s h)) \<and>
     (\<forall>h. spc s h \<noteq> Panicked)"

lemma at_pc_sel [simp]:
  "spc (at_pc h l s) = (spc s)(h := l)" "word_locked (at_pc h l s) = word_locked s"
  "word_cpu (at_pc h l s) = word_cpu s"
  by (simp_all add: at_pc_def)

lemma spin_inv_init: "spin_inv spin_init"
  by (simp add: spin_inv_def spin_init_def owns_def records_def)

text \<open>
  A hart moves between two places that agree on \<open>owns\<close> and \<open>records\<close>: nothing else of
  the invariant can change.
\<close>

lemma spin_inv_move:
  assumes "spin_inv s" and "owns l \<longleftrightarrow> owns (spc s h)" and "records l \<longleftrightarrow> records (spc s h)"
    and "l \<noteq> Panicked"
  shows "spin_inv (at_pc h l s)"
proof -
  have "owns (spc (at_pc h l s) i) = owns (spc s i)"
    "records (spc (at_pc h l s) i) = records (spc s i)" for i
    using assms(2,3) by simp_all
  moreover have "spc (at_pc h l s) i \<noteq> Panicked" for i
    using assms(1,4) by (simp add: spin_inv_def)
  ultimately show ?thesis
    using assms(1) unfolding spin_inv_def by simp
qed

text \<open>A step of the only owner: the words must agree with its new place.\<close>

lemma spin_inv_sole:
  assumes others: "\<And>i. i \<noteq> h \<Longrightarrow> \<not> owns (spc s i)" and "\<And>i. i \<noteq> h \<Longrightarrow> spc s i \<noteq> Panicked"
    and "l \<noteq> Panicked" and lck: "word_locked s \<longleftrightarrow> owns l"
    and cpu: "word_cpu s = (if records l then Some h else None)"
  shows "spin_inv (at_pc h l s)"
proof -
  have rec: "\<not> records (spc s i)" if "i \<noteq> h" for i
    using others [OF that] by (auto simp: owns_def records_def)
  have own_h: "i = h" if "owns (((spc s)(h := l)) i)" for i
    using others that by (cases "i = h") auto
  have rec_h: "word_cpu s = Some i \<longleftrightarrow> records (((spc s)(h := l)) i)" for i
    using rec cpu by (cases "i = h") auto
  have lck_h: "word_locked s \<longleftrightarrow> (\<exists>i. owns (((spc s)(h := l)) i))"
    using own_h lck by (metis fun_upd_same)
  show ?thesis
    unfolding spin_inv_def at_pc_sel
    using own_h rec_h lck_h assms(2,3) by (metis fun_upd_apply)
qed

lemma spin_inv_owner:
  "spin_inv s \<Longrightarrow> owns (spc s h) \<Longrightarrow> i \<noteq> h \<Longrightarrow> \<not> owns (spc s i)"
  by (metis spin_inv_def)

lemma spin_inv_no_panic: "spin_inv s \<Longrightarrow> spc s i \<noteq> Panicked"
  by (simp add: spin_inv_def)

lemma spin_inv_owner_step:
  assumes "spin_inv s" and "owns (spc s h)" and "spc t = spc s" and "l \<noteq> Panicked"
    and "word_locked t \<longleftrightarrow> owns l" and "word_cpu t = (if records l then Some h else None)"
  shows "spin_inv (at_pc h l t)"
proof (rule spin_inv_sole)
  show "\<not> owns (spc t i)" if "i \<noteq> h" for i
    using spin_inv_owner [OF assms(1,2) that] assms(3) by simp
  show "spc t i \<noteq> Panicked" for i
    using spin_inv_no_panic [OF assms(1)] assms(3) by simp
qed (use assms(4-6) in simp_all)

lemma spin_inv_locked: "spin_inv s \<Longrightarrow> word_locked s \<longleftrightarrow> (\<exists>h. owns (spc s h))"
  by (simp add: spin_inv_def)

lemma spin_inv_cpu: "spin_inv s \<Longrightarrow> word_cpu s = Some h \<longleftrightarrow> records (spc s h)"
  by (simp add: spin_inv_def)

lemma records_owns: "records l \<Longrightarrow> owns l"
  by (auto simp: owns_def records_def)

lemma spin_step_inv: "spin_step s t \<Longrightarrow> spin_inv s \<Longrightarrow> spin_inv t"
proof (induction rule: spin_step.induct)
  case (acq_call s h)
  then show ?case by (intro spin_inv_move) (simp_all add: owns_def records_def)
next
  case (acq_holding1_no s h)
  then show ?case by (intro spin_inv_move) (simp_all add: owns_def records_def)
next
  case (acq_holding1_yes s h)
  then show ?case by (intro spin_inv_move) (simp_all add: owns_def records_def)
next
  case (acq_holding2_no s h)
  then show ?case by (intro spin_inv_move) (simp_all add: owns_def records_def)
next
  case (acq_holding2_yes s h)
  then have "records (spc s h)" by (simp add: spin_inv_cpu)
  with acq_holding2_yes show ?case by (simp add: records_def)
next
  case (acq_swap_busy s h)
  then show ?case by (simp add: spin_inv_def)
next
  case (acq_swap_got s h)
  then have free: "\<not> owns (spc s i)" for i by (simp add: spin_inv_locked)
  then have "word_cpu s = None"
    using acq_swap_got(3) by (metis not_None_eq records_owns spin_inv_cpu)
  with free acq_swap_got show ?case
    by (intro spin_inv_sole) (simp_all add: spin_inv_no_panic owns_def records_def)
next
  case (acq_setcpu s h)
  then have own: "owns (spc s h)" by (simp add: owns_def)
  then have "word_locked s" using acq_setcpu(2) spin_inv_locked by blast
  with acq_setcpu(1) show ?case
    by (intro spin_inv_owner_step [OF acq_setcpu(2) own]) (simp_all add: owns_def records_def)
next
  case (rel_call s h)
  then show ?case by (intro spin_inv_move) (simp_all add: owns_def records_def)
next
  case (rel_holding1_no s h)
  then have "owns (spc s h)" by (simp add: owns_def)
  then have "word_locked s" using rel_holding1_no(3) spin_inv_locked by blast
  with rel_holding1_no show ?case by simp
next
  case (rel_holding1_yes s h)
  then show ?case by (intro spin_inv_move) (simp_all add: owns_def records_def)
next
  case (rel_holding2_no s h)
  then have "records (spc s h)" by (simp add: records_def)
  with rel_holding2_no show ?case by (simp add: spin_inv_cpu)
next
  case (rel_holding2_yes s h)
  then show ?case by (intro spin_inv_move) (simp_all add: owns_def records_def)
next
  case (rel_clear s h)
  then have own: "owns (spc s h)" by (simp add: owns_def)
  then have "word_locked s" using rel_clear(2) spin_inv_locked by blast
  with rel_clear(1) show ?case
    by (intro spin_inv_owner_step [OF rel_clear(2) own]) (simp_all add: owns_def records_def)
next
  case (rel_unlock s h)
  then have own: "owns (spc s h)" by (simp add: owns_def)
  have "word_cpu s = None"
  proof (cases "word_cpu s")
    case (Some i)
    then have "records (spc s i)" using rel_unlock(2) by (simp add: spin_inv_cpu)
    then have "i = h"
      using spin_inv_owner [OF rel_unlock(2) own, of i] by (auto simp: records_owns)
    with \<open>records (spc s i)\<close> rel_unlock(1) show ?thesis by (simp add: records_def)
  qed
  with rel_unlock(1) show ?case
    by (intro spin_inv_owner_step [OF rel_unlock(2) own]) (simp_all add: owns_def records_def)
qed

lemma spin_reach_inv: "spin_reach s \<Longrightarrow> spin_inv s"
  by (induction rule: spin_reach.induct) (auto intro: spin_inv_init spin_step_inv)

text \<open>
  C6. In every reachable interleaving of harts running \<^verbatim>\<open>acquire\<close> and \<^verbatim>\<open>release\<close>, at most one
  hart is between its winning swap and its unlocking store, \<^verbatim>\<open>lk->cpu\<close> names that hart
  while it is inside, and neither the \<^verbatim>\<open>panic("acquire")\<close> nor the \<^verbatim>\<open>panic("release")\<close>
  branch is ever taken, although \<^verbatim>\<open>holding\<close> reads the lock without synchronisation.
\<close>

theorem spinlock_mutual_exclusion:
  assumes "spin_reach s"
  shows "(owns (spc s h) \<and> owns (spc s h') \<longrightarrow> h = h')
       \<and> (spc s h = Inside \<longrightarrow> word_locked s \<and> word_cpu s = Some h)
       \<and> spc s h \<noteq> Panicked"
proof -
  have inv: "spin_inv s" using assms by (rule spin_reach_inv)
  have "owns Inside" "records Inside" by (simp_all add: owns_def records_def)
  with inv show ?thesis
    by (metis spin_inv_owner spin_inv_locked spin_inv_cpu spin_inv_no_panic)
qed

text \<open>A run of two harts: hart 0 is inside while hart 1 spins.\<close>

definition spin_run :: spin_sys where
  "spin_run = \<lparr>spc = (\<lambda>_. Outside)(0 := Inside, 1 := A_swap), word_locked = True, word_cpu = Some 0\<rparr>"

lemma spin_run_reach: "spin_reach spin_run"
proof -
  let ?s1 = "at_pc 0 A_locked spin_init"
  let ?s2 = "at_pc 0 A_swap ?s1"
  let ?s3 = "at_pc 0 A_setcpu (?s2\<lparr>word_locked := True\<rparr>)"
  let ?s4 = "at_pc 0 Inside (?s3\<lparr>word_cpu := Some 0\<rparr>)"
  let ?s5 = "at_pc 1 A_locked ?s4"
  let ?s6 = "at_pc 1 A_cpu ?s5"
  let ?s7 = "at_pc 1 A_swap ?s6"
  have "spin_reach ?s1"
    by (rule spin_next [OF spin_start acq_call]) (simp add: spin_init_def)
  then have "spin_reach ?s2"
    by (rule spin_next [OF _ acq_holding1_no]) (simp_all add: spin_init_def)
  then have "spin_reach ?s3"
    by (rule spin_next [OF _ acq_swap_got]) (simp_all add: spin_init_def)
  then have "spin_reach ?s4" by (rule spin_next [OF _ acq_setcpu]) simp
  then have "spin_reach ?s5" by (rule spin_next [OF _ acq_call]) (simp add: spin_init_def)
  then have "spin_reach ?s6" by (rule spin_next [OF _ acq_holding1_yes]) simp_all
  then have "spin_reach ?s7" by (rule spin_next [OF _ acq_holding2_no]) simp_all
  moreover have "?s7 = spin_run"
    by (auto simp: spin_run_def spin_init_def at_pc_def fun_eq_iff)
  ultimately show ?thesis by simp
qed

theorem spinlock_mutual_exclusion_witness:
  "spin_reach spin_run \<and> owns (spc spin_run 0) \<and> word_cpu spin_run = Some 0
   \<and> \<not> owns (spc spin_run 1) \<and> spc spin_run 1 \<noteq> Panicked"
  using spinlock_mutual_exclusion [OF spin_run_reach, of 0 1] spin_run_reach
  by (auto simp: spin_run_def owns_def)

section \<open>Nesting of push\_off and pop\_off\<close>

primrec pop_offs :: "nat \<Rightarrow> 'z mach_scheme \<Rightarrow> ('z mach_scheme, unit) res" where
  "pop_offs 0 s = Ret () s"
| "pop_offs (Suc n) s = seq (pop_off s) (pop_offs n)"

lemma push_offs_noff: "noff (cpus ((push_off ^^ n) s) (tp s)) = noff (cpus s (tp s)) + int n"
  and push_offs_tp: "tp ((push_off ^^ n) s) = tp s"
  by (induction n) auto

lemma push_offs_ok: "cpu_ok s \<Longrightarrow> cpu_ok ((push_off ^^ n) s)"
  by (induction n) (auto simp: cpu_ok_def)

lemma pop_push_offs:
  "cpu_ok s \<Longrightarrow> pop_offs n ((push_off ^^ n) s) = Ret () (if n = 0 then s else touch s)"
proof (induction n)
  case 0
  then show ?case by simp
next
  case (Suc n)
  have "touch ((push_off ^^ n) s) = (push_off ^^ n) s" if "n \<noteq> 0"
    using that Suc.prems push_offs_noff [of n s] push_offs_tp [of n s]
    by (auto simp: touch_def cpu_ok_def)
  then show ?case
    using Suc push_offs_ok [OF Suc.prems, of n] by (cases "n = 0") simp_all
qed

text \<open>
  \<^verbatim>\<open>push_off\<close> and \<^verbatim>\<open>pop_off\<close> are matched: \<open>n\<close> calls of \<^verbatim>\<open>push_off\<close> followed by \<open>n\<close> calls of
  \<^verbatim>\<open>pop_off\<close> return without a panic, give every hart's interrupt flag and nesting depth
  back, and in between (\<open>n > 0\<close>) interrupts are off.
\<close>

theorem push_pop_off_nest:
  assumes "cpu_ok s"
  shows "(\<exists>t. pop_offs n ((push_off ^^ n) s) = Ret () t \<and> intr t = intr s
           \<and> (\<forall>c. noff (cpus t c) = noff (cpus s c)) \<and> locks t = locks s)
       \<and> (n > 0 \<longrightarrow> \<not> intr_get ((push_off ^^ n) s))"
proof
  show "\<exists>t. pop_offs n ((push_off ^^ n) s) = Ret () t \<and> intr t = intr s
           \<and> (\<forall>c. noff (cpus t c) = noff (cpus s c)) \<and> locks t = locks s"
    using pop_push_offs [OF assms, of n] by (cases "n = 0") simp_all
  show "n > 0 \<longrightarrow> \<not> intr_get ((push_off ^^ n) s)"
    by (cases n) (simp_all add: intr_get_def)
qed

theorem push_pop_off_nest_witness:
  "cpu_ok boot_mach \<and> (\<exists>t. pop_offs 3 ((push_off ^^ 3) boot_mach) = Ret () t \<and> intr t = intr boot_mach)
   \<and> \<not> intr_get ((push_off ^^ 3) boot_mach)"
proof -
  have ok: "cpu_ok boot_mach" by (simp add: cpu_ok_def boot_mach_def zero_cpu_def)
  have "(0::nat) < 3" by simp
  then show ?thesis using push_pop_off_nest [OF ok, of 3] ok by blast
qed

end
