(* ===== verification/Xv6_Kalloc.thy ===== *)
theory Xv6_Kalloc
  imports Xv6_Sched Xv6_String
begin

text \<open>
  The physical page allocator of \<^verbatim>\<open>kernel/kalloc.c\<close>. Physical memory is one byte array
  indexed by the physical address; the free list is threaded through the first eight bytes of
  the free pages themselves, as \<^verbatim>\<open>struct run\<close> does. \<open>kend\<close>, \<open>etext\<close> and \<open>trampoline\<close> are
  the addresses the linker script gives the symbols of these names.
\<close>

record kst = mach +
  mem :: bytes
  freelist :: uint64
  kend :: uint64
  etext :: uint64
  trampoline :: uint64
  kernel_pagetable :: uint64

definition kfree :: "uint64 \<Rightarrow> 'z kst_scheme \<Rightarrow> ('z kst_scheme, unit) res" where
  "kfree pa s =
     (if pa mod PGSIZE \<noteq> 0 \<or> pa < kend s \<or> pa \<ge> PHYSTOP then Panic ''kfree''
      else let s = s\<lparr>mem := memset (unat pa) 1 (unat PGSIZE) (mem s)\<rparr> in
      seq (acquire L_kmem s) (\<lambda>s.
      let s = s\<lparr>mem := st64 (freelist s) (mem s) (unat pa)\<rparr>;
          s = s\<lparr>freelist := pa\<rparr>
      in release L_kmem s))"

text \<open>The loop of \<^verbatim>\<open>freerange\<close>. A page at which \<^verbatim>\<open>kfree\<close> returns lies below \<^verbatim>\<open>PHYSTOP\<close>.\<close>

lemma kfree_Ret_less: "kfree pa s = Ret x t \<Longrightarrow> pa < PHYSTOP"
  by (auto simp: kfree_def split: if_splits)

lemma PHYSTOP_unat: "unat PHYSTOP = 0x88000000"
  by (simp add: PHYSTOP_def KERNBASE_def)

function freerange_loop :: "uint64 \<Rightarrow> uint64 \<Rightarrow> 'z kst_scheme \<Rightarrow> ('z kst_scheme, unit) res" where
  "freerange_loop p pa_end s =
     (if p + PGSIZE \<le> pa_end then seq (kfree p s) (freerange_loop (p + PGSIZE) pa_end)
      else Ret () s)"
  by pat_completeness auto
termination
proof (relation "measure (\<lambda>(p, pa_end, s). unat PHYSTOP - unat p)")
  fix p pa_end x and s t :: "'z kst_scheme"
  assume "kfree p s = Ret x t"
  then have "unat p < unat PHYSTOP" by (simp add: kfree_Ret_less flip: word_less_nat_alt)
  moreover then have "unat (p + PGSIZE) = unat p + 4096"
    by (simp add: PHYSTOP_unat unat_plus_if')
  ultimately show "((p + PGSIZE, pa_end, t), p, pa_end, s) \<in> measure (\<lambda>(p, pa_end, s). unat PHYSTOP - unat p)"
    by simp
qed simp

declare freerange_loop.simps [simp del]

definition freerange :: "uint64 \<Rightarrow> uint64 \<Rightarrow> 'z kst_scheme \<Rightarrow> ('z kst_scheme, unit) res" where
  "freerange pa_start pa_end s = freerange_loop (PGROUNDUP pa_start) pa_end s"

definition kinit :: "'z kst_scheme \<Rightarrow> ('z kst_scheme, unit) res" where
  "kinit s = freerange (kend s) PHYSTOP (initlock L_kmem ''kmem'' s)"

definition kalloc :: "'z kst_scheme \<Rightarrow> ('z kst_scheme, uint64) res" where
  "kalloc s =
     seq (acquire L_kmem s) (\<lambda>s.
     let r = freelist s;
         s = (if r \<noteq> 0 then s\<lparr>freelist := ld64 (mem s) (unat r)\<rparr> else s)
     in seq (release L_kmem s) (\<lambda>s.
        let s = (if r \<noteq> 0 then s\<lparr>mem := memset (unat r) 5 (unat PGSIZE) (mem s)\<rparr> else s)
        in Ret r s))"

section \<open>The new fields and the lock operations\<close>

lemma kst_sel [simp]:
  "mem (push_off s) = mem s" "freelist (push_off s) = freelist s" "kend (push_off s) = kend s"
  "etext (push_off s) = etext s" "trampoline (push_off s) = trampoline s"
  "kernel_pagetable (push_off s) = kernel_pagetable s"
  "mem (acq lk s) = mem s" "freelist (acq lk s) = freelist s" "kend (acq lk s) = kend s"
  "etext (acq lk s) = etext s" "trampoline (acq lk s) = trampoline s"
  "kernel_pagetable (acq lk s) = kernel_pagetable s"
  "mem (touch s) = mem s" "freelist (touch s) = freelist s" "kend (touch s) = kend s"
  "etext (touch s) = etext s" "trampoline (touch s) = trampoline s"
  "kernel_pagetable (touch s) = kernel_pagetable s"
  by (simp_all add: acq_def touch_def push_off_def Let_def intr_defs)

lemma kst_upd [locksimp]:
  "(acq lk s)\<lparr>mem := a\<rparr> = acq lk (s\<lparr>mem := a\<rparr>)"
  "(acq lk s)\<lparr>freelist := b\<rparr> = acq lk (s\<lparr>freelist := b\<rparr>)"
  "(acq lk s)\<lparr>kernel_pagetable := c\<rparr> = acq lk (s\<lparr>kernel_pagetable := c\<rparr>)"
  "(touch s)\<lparr>mem := a\<rparr> = touch (s\<lparr>mem := a\<rparr>)"
  "(touch s)\<lparr>freelist := b\<rparr> = touch (s\<lparr>freelist := b\<rparr>)"
  "(touch s)\<lparr>kernel_pagetable := c\<rparr> = touch (s\<lparr>kernel_pagetable := c\<rparr>)"
  by (simp_all add: acq_def touch_def push_off_def Let_def intr_defs)

lemma kst_ok [simp]:
  "cpu_ok (s\<lparr>mem := a\<rparr>) \<longleftrightarrow> cpu_ok s" "cpu_ok (s\<lparr>freelist := b\<rparr>) \<longleftrightarrow> cpu_ok s"
  "cpu_ok (s\<lparr>kernel_pagetable := c\<rparr>) \<longleftrightarrow> cpu_ok s"
  "lk_free lk (s\<lparr>mem := a\<rparr>) \<longleftrightarrow> lk_free lk s" "lk_free lk (s\<lparr>freelist := b\<rparr>) \<longleftrightarrow> lk_free lk s"
  "lk_free lk (s\<lparr>kernel_pagetable := c\<rparr>) \<longleftrightarrow> lk_free lk s"
  "plocks_free (s\<lparr>mem := a\<rparr>) \<longleftrightarrow> plocks_free s" "plocks_free (s\<lparr>freelist := b\<rparr>) \<longleftrightarrow> plocks_free s"
  by (simp_all add: cpu_ok_def lk_free_def plocks_free_def)

section \<open>The free list\<close>

primrec flist :: "bytes \<Rightarrow> uint64 \<Rightarrow> uint64 list \<Rightarrow> bool" where
  "flist m r [] \<longleftrightarrow> r = 0"
| "flist m r (p # ps) \<longleftrightarrow> r = p \<and> r \<noteq> 0 \<and> flist m (ld64 m (unat p)) ps"

definition page_ok :: "'z kst_scheme \<Rightarrow> uint64 \<Rightarrow> bool" where
  "page_ok s p \<longleftrightarrow> page_aligned p \<and> kend s \<le> p \<and> p < PHYSTOP"

text \<open>The allocator's invariant: \<open>ps\<close> are the free pages, in the order of the list.\<close>

definition kinv :: "uint64 list \<Rightarrow> 'z kst_scheme \<Rightarrow> bool" where
  "kinv ps s \<longleftrightarrow> flist (mem s) (freelist s) ps \<and> distinct ps \<and> (\<forall>p \<in> set ps. page_ok s p) \<and> 0 < kend s"

lemma page_mod: "p mod PGSIZE = 0 \<longleftrightarrow> page_aligned p"
  by (simp add: page_aligned_def PGSIZE_def unat_mod flip: unat_eq_0)

lemma page_disjoint:
  assumes "page_aligned p" and "page_aligned q" and "p \<noteq> q"
  shows "unat p + 4096 \<le> unat q \<or> unat q + 4096 \<le> unat p"
proof -
  obtain i j where "unat p = 4096 * i" "unat q = 4096 * j"
    using assms(1,2) by (auto simp: page_aligned_def elim!: dvdE simp flip: dvd_eq_mod_eq_0)
  moreover have "unat p \<noteq> unat q" using assms(3) by (simp add: unat_inj)
  ultimately show ?thesis by (cases "i < j") auto
qed

lemma flist_cong:
  "flist m r ps \<Longrightarrow> (\<And>p i. p \<in> set ps \<Longrightarrow> i < 8 \<Longrightarrow> m' (unat p + i) = m (unat p + i)) \<Longrightarrow> flist m' r ps"
proof (induction ps arbitrary: r)
  case Nil
  then show ?case by simp
next
  case (Cons p ps)
  then have "ld64 m' (unat p) = ld64 m (unat p)" by (intro ld64_cong) simp
  with Cons show ?case by auto
qed

lemma flist_det: "flist m r ps \<Longrightarrow> flist m r qs \<Longrightarrow> ps = qs"
proof (induction ps arbitrary: r qs)
  case Nil
  then show ?case by (cases qs) auto
next
  case (Cons p ps)
  then show ?case by (cases qs) auto
qed

lemma page_outside:
  assumes "page_aligned p" "page_aligned q" "p \<noteq> q" "i < 4096"
  shows "unat q + i < unat p \<or> unat p + 4096 \<le> unat q + i"
  using page_disjoint [OF assms(1-3)] assms(4) by auto

lemma flist_blit:
  assumes "flist m r ps" and "page_aligned p" and "p \<notin> set ps" and "\<forall>q \<in> set ps. page_aligned q"
  shows "flist (blit (unat p) 4096 f m) r ps"
proof (rule flist_cong [OF assms(1)])
  fix q i assume "q \<in> set ps" "i < (8::nat)"
  then show "blit (unat p) 4096 f m (unat q + i) = m (unat q + i)"
    using page_outside [of p q i] assms by (intro blit_out) auto
qed

lemma flist_st64:
  assumes "flist m r ps" and "page_aligned p" and "p \<notin> set ps" and "\<forall>q \<in> set ps. page_aligned q"
  shows "flist (st64 v m (unat p)) r ps"
proof (rule flist_cong [OF assms(1)])
  fix q i assume "q \<in> set ps" "i < (8::nat)"
  moreover from this have "p \<noteq> q" using assms(3) by blast
  ultimately show "st64 v m (unat p) (unat q + i) = m (unat q + i)"
    using page_outside [of p q i] assms(2,4) by (intro st64_other) auto
qed

lemma kinv_upd [simp]:
  "kinv ps (touch s) \<longleftrightarrow> kinv ps s" "kinv ps (acq lk s) \<longleftrightarrow> kinv ps s"
  "kinv ps (s\<lparr>procs := a\<rparr>) \<longleftrightarrow> kinv ps s" "kinv ps (s\<lparr>kernel_pagetable := b\<rparr>) \<longleftrightarrow> kinv ps s"
  "kinv ps (s\<lparr>locks := c\<rparr>) \<longleftrightarrow> kinv ps s"
  "page_ok (touch s) = page_ok s" "page_ok (acq lk s) = page_ok s"
  "page_ok (s\<lparr>mem := m\<rparr>) = page_ok s" "page_ok (s\<lparr>freelist := f\<rparr>) = page_ok s"
  "page_ok (s\<lparr>procs := a\<rparr>) = page_ok s"
  by (simp_all add: kinv_def page_ok_def fun_eq_iff)

section \<open>What the operations do\<close>

abbreviation fill :: "uint64 \<Rightarrow> byte \<Rightarrow> bytes \<Rightarrow> bytes" where
  "fill p c m \<equiv> blit (unat p) 4096 (\<lambda>_. c) m"

lemma kalloc_eq:
  assumes "cpu_ok s" and "lk_free L_kmem s"
  shows "kalloc s = (if freelist s = 0 then Ret 0 (touch s)
     else Ret (freelist s) (touch (s\<lparr>freelist := ld64 (mem s) (unat (freelist s)),
                                     mem := fill (freelist s) 5 (mem s)\<rparr>)))"
  using assms by (simp add: kalloc_def memset_eq locksimp Let_def)

lemma kalloc_empty:
  assumes "cpu_ok s" and "lk_free L_kmem s" and "kinv [] s"
  shows "kalloc s = Ret 0 (touch s)"
  using assms by (simp add: kalloc_eq kinv_def)

lemma kalloc_page:
  assumes "cpu_ok s" and "lk_free L_kmem s" and "kinv (p # ps) s"
  shows "kalloc s = Ret p (touch (s\<lparr>freelist := ld64 (mem s) (unat p), mem := fill p 5 (mem s)\<rparr>))"
    and "kinv ps (s\<lparr>freelist := ld64 (mem s) (unat p), mem := fill p 5 (mem s)\<rparr>)"
proof -
  from assms(3) show "kalloc s = Ret p (touch (s\<lparr>freelist := ld64 (mem s) (unat p), mem := fill p 5 (mem s)\<rparr>))"
    by (auto simp: kalloc_eq [OF assms(1,2)] kinv_def)
  have "flist (fill p 5 (mem s)) (ld64 (mem s) (unat p)) ps"
    using assms(3) by (intro flist_blit) (auto simp: kinv_def page_ok_def)
  then show "kinv ps (s\<lparr>freelist := ld64 (mem s) (unat p), mem := fill p 5 (mem s)\<rparr>)"
    using assms(3) by (simp add: kinv_def page_ok_def)
qed

lemma kfree_eq:
  assumes "cpu_ok s" and "lk_free L_kmem s"
  shows "kfree pa s = (if page_ok s pa
     then Ret () (touch (s\<lparr>mem := st64 (freelist s) (fill pa 1 (mem s)) (unat pa), freelist := pa\<rparr>))
     else Panic ''kfree'')"
  using assms by (auto simp: kfree_def memset_eq locksimp page_ok_def page_mod not_le not_less)

lemma kfree_kinv:
  assumes "kinv ps s" and "page_ok s pa" and "pa \<notin> set ps"
  shows "kinv (pa # ps) (s\<lparr>mem := st64 (freelist s) (fill pa 1 (mem s)) (unat pa), freelist := pa\<rparr>)"
proof -
  let ?m = "st64 (freelist s) (fill pa 1 (mem s)) (unat pa)"
  have al: "page_aligned pa" "\<forall>q \<in> set ps. page_aligned q"
    using assms by (auto simp: kinv_def page_ok_def)
  have "flist ?m (freelist s) ps"
    using assms(1,3) al by (intro flist_st64 flist_blit) (auto simp: kinv_def)
  moreover have "pa \<noteq> 0" using assms(1,2) by (auto simp: kinv_def page_ok_def)
  ultimately show ?thesis using assms by (simp add: kinv_def page_ok_def)
qed

text \<open>The pages from \<open>p\<close> up to the end address, as \<^verbatim>\<open>freerange\<close> visits them.\<close>

definition page_range :: "nat \<Rightarrow> nat \<Rightarrow> uint64 list" where
  "page_range a b = map (\<lambda>i. word_of_nat (4096 * i)) [a..<b]"

lemma page_range_ok:
  assumes "q \<in> set (page_range a b)" and "4096 * b \<le> unat PHYSTOP"
  shows "page_aligned q" "4096 * a \<le> unat q" "q < PHYSTOP"
proof -
  obtain i where i: "q = word_of_nat (4096 * i)" "a \<le> i" "i < b"
    using assms(1) by (auto simp: page_range_def)
  have "4096 * i < 2 ^ 64" using i assms(2) by (simp add: PHYSTOP_unat)
  then have u: "unat q = 4096 * i" unfolding i(1) by (rule unat_of_nat64)
  show "page_aligned q" "4096 * a \<le> unat q" "q < PHYSTOP"
    using u i(2,3) assms(2) by (simp_all add: page_aligned_def word_less_nat_alt)
qed

lemma page_range_distinct: "4096 * b \<le> unat PHYSTOP \<Longrightarrow> distinct (page_range a b)"
proof -
  assume b: "4096 * b \<le> unat PHYSTOP"
  have "inj_on (\<lambda>i. word_of_nat (4096 * i) :: uint64) {a..<b}"
  proof (rule inj_onI)
    fix i j assume "i \<in> {a..<b}" "j \<in> {a..<b}" and eq: "(word_of_nat (4096 * i) :: uint64) = word_of_nat (4096 * j)"
    then have "4096 * i < 2 ^ 64" "4096 * j < 2 ^ 64" using b by (auto simp: PHYSTOP_unat)
    moreover have "unat (word_of_nat (4096 * i) :: uint64) = unat (word_of_nat (4096 * j) :: uint64)"
      using eq by (rule arg_cong)
    ultimately show "i = j" by (simp only: unat_of_nat64)
  qed
  then show ?thesis by (simp add: page_range_def distinct_map)
qed

lemma freerange_loop_kinv:
  assumes "cpu_ok s" and "lk_free L_kmem s" and "kinv ps s" and "4096 * b = unat e" and "e \<le> PHYSTOP"
    and "a \<le> b" and "unat (kend s) \<le> 4096 * a" and "set ps \<inter> set (page_range a b) = {}"
  shows "\<exists>t. freerange_loop (word_of_nat (4096 * a)) e s = Ret () t
    \<and> kinv (rev (page_range a b) @ ps) t \<and> cpu_ok t \<and> lk_free L_kmem t \<and> kend t = kend s"
  using assms
proof (induction "b - a" arbitrary: a s ps)
  case 0
  then have ab: "a = b" by simp
  have e: "unat e \<le> 0x88000000" using \<open>e \<le> PHYSTOP\<close> by (simp add: word_le_nat_alt PHYSTOP_unat)
  have "word_of_nat (4096 * a) = e" using 0 ab by simp
  moreover have "\<not> e + PGSIZE \<le> e"
    using e by (simp add: word_le_nat_alt unat_plus_if')
  ultimately show ?case
    using 0 ab by (subst freerange_loop.simps) (simp add: page_range_def)
next
  case (Suc n)
  let ?p = "word_of_nat (4096 * a) :: uint64"
  have e: "unat e \<le> 0x88000000" using \<open>e \<le> PHYSTOP\<close> by (simp add: word_le_nat_alt PHYSTOP_unat)
  have ab: "a < b" using Suc.hyps(2) by simp
  then have "4096 * a < 2 ^ 64" using e Suc.prems(4) by simp
  then have u: "unat ?p = 4096 * a" by (rule unat_of_nat64)
  have next_p: "?p + PGSIZE = word_of_nat (4096 * Suc a)" by (simp add: PGSIZE_def)
  have le: "?p + PGSIZE \<le> e"
    using u ab Suc.prems(4) e by (simp add: word_le_nat_alt unat_plus_if')
  have ok: "page_ok s ?p"
    using u ab Suc.prems(4,7) e
    by (simp add: page_ok_def page_aligned_def word_le_nat_alt word_less_nat_alt PHYSTOP_unat)
  have cons: "page_range a b = ?p # page_range (Suc a) b"
    using ab by (simp add: page_range_def upt_conv_Cons)
  let ?t = "s\<lparr>mem := st64 (freelist s) (fill ?p 1 (mem s)) (unat ?p), freelist := ?p\<rparr>"
  have "kinv (?p # ps) ?t"
    using kfree_kinv [OF Suc.prems(3) ok] Suc.prems(8) cons by simp
  moreover have "set (?p # ps) \<inter> set (page_range (Suc a) b) = {}"
  proof -
    have "4096 * b \<le> unat PHYSTOP" using Suc.prems(4) e by (simp add: PHYSTOP_unat)
    then have "distinct (?p # page_range (Suc a) b)"
      using page_range_distinct [of b a] cons by simp
    then show ?thesis using Suc.prems(8) cons by auto
  qed
  ultimately have "\<exists>t. freerange_loop (word_of_nat (4096 * Suc a)) e (touch ?t) = Ret () t
    \<and> kinv (rev (page_range (Suc a) b) @ ?p # ps) t \<and> cpu_ok t \<and> lk_free L_kmem t \<and> kend t = kend (touch ?t)"
    using Suc.prems ab Suc.hyps(2) by (intro Suc.hyps(1)) simp_all
  moreover have "freerange_loop ?p e s = freerange_loop (word_of_nat (4096 * Suc a)) e (touch ?t)"
  proof -
    have "freerange_loop ?p e s = seq (kfree ?p s) (freerange_loop (?p + PGSIZE) e)"
      by (subst freerange_loop.simps) (simp only: le if_True)
    then show ?thesis unfolding next_p kfree_eq [OF Suc.prems(1,2)] using ok by simp
  qed
  ultimately show ?case using cons by simp
qed

lemma kinit_eq:
  assumes "cpu_ok s" and "freelist s = 0" and "0 < kend s" and "kend s \<le> PHYSTOP"
  shows "\<exists>t. kinit s = Ret () t \<and> cpu_ok t \<and> lk_free L_kmem t \<and> kend t = kend s
    \<and> kinv (rev (page_range ((unat (kend s) + 4095) div 4096) (unat PHYSTOP div 4096))) t"
proof -
  let ?a = "(unat (kend s) + 4095) div 4096" and ?b = "unat PHYSTOP div 4096"
  let ?s = "initlock L_kmem ''kmem'' s"
  have k: "unat (kend s) \<le> 0x88000000" using assms(4) by (simp add: word_le_nat_alt PHYSTOP_unat)
  have "word_of_nat (unat (PGROUNDUP (kend s))) = (word_of_nat (4096 * ?a) :: uint64)"
    using k by (subst unat_PGROUNDUP) (simp_all add: mult.commute)
  then have st: "PGROUNDUP (kend s) = word_of_nat (4096 * ?a)" by simp
  have "\<exists>t. freerange_loop (word_of_nat (4096 * ?a)) PHYSTOP ?s = Ret () t
    \<and> kinv (rev (page_range ?a ?b) @ []) t \<and> cpu_ok t \<and> lk_free L_kmem t \<and> kend t = kend ?s"
  proof (rule freerange_loop_kinv)
    show "?a \<le> ?b" using k unfolding PHYSTOP_unat by simp
    show "unat (kend ?s) \<le> 4096 * ?a" by (simp add: initlock_def)
  qed (use assms in \<open>simp_all add: initlock_def cpu_ok_def lk_free_def kinv_def PHYSTOP_unat\<close>)
  then show ?thesis by (auto simp: kinit_def freerange_def st initlock_def)
qed

section \<open>The allocator's contract\<close>

text \<open>
  What the users of the allocator rely on: a pool of distinct nonzero pages, from which
  \<open>alloc\<close> takes one until there is none, and to which \<open>free\<close> gives back a page that is
  not in it.
\<close>

primrec alloc_many :: "('s \<Rightarrow> ('s, uint64) res) \<Rightarrow> nat \<Rightarrow> 's \<Rightarrow> ('s, uint64 list) res" where
  "alloc_many alloc 0 s = Ret [] s"
| "alloc_many alloc (Suc n) s =
     bnd (alloc s) (\<lambda>p s. bnd (alloc_many alloc n s) (\<lambda>ps s. Ret (p # ps) s))"

locale page_allocator =
  fixes ready :: "'s \<Rightarrow> bool"
    and pool :: "uint64 list \<Rightarrow> 's \<Rightarrow> bool"
    and valid :: "'s \<Rightarrow> uint64 \<Rightarrow> bool"
    and alloc :: "'s \<Rightarrow> ('s, uint64) res"
    and free :: "uint64 \<Rightarrow> 's \<Rightarrow> ('s, unit) res"
  assumes pool_distinct: "pool ps s \<Longrightarrow> distinct ps \<and> 0 \<notin> set ps"
    and pool_valid: "pool ps s \<Longrightarrow> p \<in> set ps \<Longrightarrow> valid s p"
    and alloc_none: "ready s \<Longrightarrow> pool [] s \<Longrightarrow> \<exists>t. alloc s = Ret 0 t \<and> ready t \<and> pool [] t"
    and alloc_some: "ready s \<Longrightarrow> pool (p # ps) s \<Longrightarrow>
      \<exists>t. alloc s = Ret p t \<and> ready t \<and> pool ps t \<and> valid t = valid s"
    and free_page: "ready s \<Longrightarrow> pool ps s \<Longrightarrow> valid s p \<Longrightarrow> p \<notin> set ps \<Longrightarrow>
      \<exists>t. free p s = Ret () t \<and> ready t \<and> pool (p # ps) t \<and> valid t = valid s"
begin

lemma many:
  "ready s \<Longrightarrow> pool ps s \<Longrightarrow> n \<le> length ps \<Longrightarrow>
   \<exists>t. alloc_many alloc n s = Ret (take n ps) t \<and> ready t \<and> pool (drop n ps) t \<and> valid t = valid s"
proof (induction n arbitrary: s ps)
  case 0
  then show ?case by simp
next
  case (Suc n)
  then obtain p qs where ps: "ps = p # qs" by (cases ps) auto
  obtain t where t: "alloc s = Ret p t" "ready t" "pool qs t" "valid t = valid s"
    using alloc_some Suc.prems ps by blast
  obtain u where "alloc_many alloc n t = Ret (take n qs) u" "ready u" "pool (drop n qs) u" "valid u = valid t"
    using Suc.IH [OF t(2,3)] Suc.prems(3) ps by auto
  with t ps show ?case by simp
qed

lemma alloc_free:
  assumes "ready s" and "pool (p # ps) s"
  shows "\<exists>t u. alloc s = Ret p t \<and> free p t = Ret () u \<and> ready u \<and> pool (p # ps) u"
proof -
  obtain t where t: "alloc s = Ret p t" "ready t" "pool ps t" "valid t = valid s"
    using alloc_some assms by blast
  have "valid t p" using pool_valid [OF assms(2)] t(4) by simp
  moreover have "p \<notin> set ps" using pool_distinct [OF assms(2)] by simp
  ultimately show ?thesis using t free_page by blast
qed

end

definition kmem_ready :: "'z kst_scheme \<Rightarrow> bool" where
  "kmem_ready s \<longleftrightarrow> cpu_ok s \<and> lk_free L_kmem s"

interpretation kalloc_impl: page_allocator kmem_ready kinv page_ok kalloc kfree
proof
  fix s :: "'z kst_scheme" and p ps
  show "kinv ps s \<Longrightarrow> distinct ps \<and> 0 \<notin> set ps"
    by (auto simp: kinv_def page_ok_def)
  show "kinv ps s \<Longrightarrow> p \<in> set ps \<Longrightarrow> page_ok s p"
    by (simp add: kinv_def)
  show "kmem_ready s \<Longrightarrow> kinv [] s \<Longrightarrow> \<exists>t. kalloc s = Ret 0 t \<and> kmem_ready t \<and> kinv [] t"
    by (simp add: kmem_ready_def kalloc_empty)
  show "kmem_ready s \<Longrightarrow> kinv (p # ps) s \<Longrightarrow>
      \<exists>t. kalloc s = Ret p t \<and> kmem_ready t \<and> kinv ps t \<and> page_ok t = page_ok s"
    using kalloc_page [of s p ps] by (simp add: kmem_ready_def)
  show "kmem_ready s \<Longrightarrow> kinv ps s \<Longrightarrow> page_ok s p \<Longrightarrow> p \<notin> set ps \<Longrightarrow>
      \<exists>t. kfree p s = Ret () t \<and> kmem_ready t \<and> kinv (p # ps) t \<and> page_ok t = page_ok s"
    using kfree_kinv [of ps s p] by (simp add: kmem_ready_def kfree_eq)
qed

section \<open>Properties\<close>

text \<open>A small machine: the kernel ends three pages below the top of memory.\<close>

definition demo_kst :: kst where
  "demo_kst = mach.extend boot_mach
     \<lparr>mem = (\<lambda>_. 0), freelist = 0, kend = PHYSTOP - 3 * PGSIZE, etext = 0, trampoline = 0, kernel_pagetable = 0\<rparr>"

lemma demo_kst_ok: "cpu_ok demo_kst" "lk_free lk demo_kst" "freelist demo_kst = 0" "0 < kend demo_kst"
    "kend demo_kst \<le> PHYSTOP" "unat (kend demo_kst) = 0x88000000 - 3 * 4096" "kinv [] demo_kst"
  by (simp_all add: demo_kst_def mach.defs boot_mach_def cpu_ok_def lk_free_def zero_cpu_def PHYSTOP_def
      KERNBASE_def PGSIZE_def kinv_def)

text \<open>
  C12. \<^verbatim>\<open>kinit\<close> returns, and afterwards the free list holds exactly the pages from the first
  page boundary after the kernel up to \<^verbatim>\<open>PHYSTOP\<close>, each once.
\<close>

theorem kinit_frees_all:
  assumes "cpu_ok s" and "freelist s = 0" and "0 < kend s" and "kend s \<le> PHYSTOP"
  shows "\<exists>t ps. kinit s = Ret () t \<and> kinv ps t \<and> lk_free L_kmem t
    \<and> set ps = {p. page_aligned p \<and> kend s \<le> p \<and> p < PHYSTOP}"
proof -
  let ?a = "(unat (kend s) + 4095) div 4096" and ?b = "unat PHYSTOP div 4096"
  have b: "4096 * ?b = unat PHYSTOP" by (simp add: PHYSTOP_unat)
  have "set (page_range ?a ?b) = {p. page_aligned p \<and> kend s \<le> p \<and> p < PHYSTOP}"
  proof (intro equalityI subsetI CollectI)
    fix p assume "p \<in> set (page_range ?a ?b)"
    from page_range_ok [OF this] b have "page_aligned p" "4096 * ?a \<le> unat p" "p < PHYSTOP" by simp_all
    moreover have "unat (kend s) \<le> 4096 * ?a" by simp
    ultimately show "page_aligned p \<and> kend s \<le> p \<and> p < PHYSTOP" by (simp add: word_le_nat_alt)
  next
    fix p assume "p \<in> {p. page_aligned p \<and> kend s \<le> p \<and> p < PHYSTOP}"
    then have al: "unat p mod 4096 = 0" and r: "unat (kend s) \<le> unat p" "unat p < unat PHYSTOP"
      by (simp_all add: page_aligned_def word_le_nat_alt word_less_nat_alt)
    from al obtain k where k: "unat p = 4096 * k" by (auto elim!: dvdE simp flip: dvd_eq_mod_eq_0)
    have "p = word_of_nat (4096 * k)" unfolding k [symmetric] by simp
    moreover have "?a \<le> k" "k < ?b" using r k b by simp_all
    ultimately show "p \<in> set (page_range ?a ?b)" by (simp add: page_range_def)
  qed
  moreover obtain t where "kinit s = Ret () t" "lk_free L_kmem t" "kinv (rev (page_range ?a ?b)) t"
    using kinit_eq [OF assms] by blast
  ultimately show ?thesis by (intro exI [of _ t] exI [of _ "rev (page_range ?a ?b)"] conjI) (simp_all only: set_rev)
qed

theorem kinit_frees_all_witness:
  "\<exists>t ps. kinit demo_kst = Ret () t \<and> kinv ps t \<and> PHYSTOP - PGSIZE \<in> set ps"
proof -
  obtain t ps where "kinit demo_kst = Ret () t" "kinv ps t"
    "set ps = {p. page_aligned p \<and> kend demo_kst \<le> p \<and> p < PHYSTOP}"
    using kinit_frees_all [OF demo_kst_ok(1,3-5)] by blast
  moreover have "page_aligned (PHYSTOP - PGSIZE)" "kend demo_kst \<le> PHYSTOP - PGSIZE" "PHYSTOP - PGSIZE < PHYSTOP"
    by (simp_all add: demo_kst_def mach.defs PHYSTOP_def KERNBASE_def PGSIZE_def page_aligned_def)
  ultimately show ?thesis by blast
qed

text \<open>
  C13. \<^verbatim>\<open>kfree\<close> panics on an address that is not page aligned or not in the allocatable range.
  For a page that is not free it pushes the page on the free list, writes nothing outside that
  page, and leaves the allocator's lock free; the next \<^verbatim>\<open>kalloc\<close> returns this page, filled
  with 5s, and restores the list.
\<close>

theorem kfree_then_kalloc:
  assumes "cpu_ok s" and "lk_free L_kmem s" and "kinv ps s" and "pa \<notin> set ps"
  shows "(\<not> (page_aligned pa \<and> kend s \<le> pa \<and> pa < PHYSTOP) \<longrightarrow> kfree pa s = Panic ''kfree'')
    \<and> (page_aligned pa \<and> kend s \<le> pa \<and> pa < PHYSTOP \<longrightarrow>
        (\<exists>t u. kfree pa s = Ret () t \<and> kinv (pa # ps) t \<and> lk_free L_kmem t
           \<and> (\<forall>a. a < unat pa \<or> unat pa + 4096 \<le> a \<longrightarrow> mem t a = mem s a)
           \<and> kalloc t = Ret pa u \<and> kinv ps u \<and> (\<forall>i < 4096. mem u (unat pa + i) = 5)
           \<and> (\<forall>a. a < unat pa \<or> unat pa + 4096 \<le> a \<longrightarrow> mem u a = mem s a)))"
proof (intro conjI impI)
  assume "\<not> (page_aligned pa \<and> kend s \<le> pa \<and> pa < PHYSTOP)"
  then show "kfree pa s = Panic ''kfree''" by (simp add: kfree_eq [OF assms(1,2)] page_ok_def)
next
  assume "page_aligned pa \<and> kend s \<le> pa \<and> pa < PHYSTOP"
  then have ok: "page_ok s pa" by (simp add: page_ok_def)
  obtain t where t: "kfree pa s = Ret () t" "kinv (pa # ps) t" "cpu_ok t" "lk_free L_kmem t"
      "mem t = st64 (freelist s) (fill pa 1 (mem s)) (unat pa)"
    using ok assms kfree_kinv [OF assms(3) ok assms(4)] by (simp add: kfree_eq)
  obtain u where u: "kalloc t = Ret pa u" "kinv ps u" "mem u = fill pa 5 (mem t)"
    using kalloc_page [OF t(3,4,2)] by simp
  have fr: "mem t a = mem s a" if "a < unat pa \<or> unat pa + 4096 \<le> a" for a
    using that by (auto simp: t(5) st64_other blit_out)
  have fr': "mem u a = mem s a" if "a < unat pa \<or> unat pa + 4096 \<le> a" for a
    using fr [OF that] that by (simp add: u(3) blit_out)
  show "\<exists>t u. kfree pa s = Ret () t \<and> kinv (pa # ps) t \<and> lk_free L_kmem t
           \<and> (\<forall>a. a < unat pa \<or> unat pa + 4096 \<le> a \<longrightarrow> mem t a = mem s a)
           \<and> kalloc t = Ret pa u \<and> kinv ps u \<and> (\<forall>i < 4096. mem u (unat pa + i) = 5)
           \<and> (\<forall>a. a < unat pa \<or> unat pa + 4096 \<le> a \<longrightarrow> mem u a = mem s a)"
  proof (intro exI conjI allI impI)
    show "mem u (unat pa + i) = 5" if "i < 4096" for i using that by (simp add: u(3))
  qed (fact t u fr fr')+
qed

theorem kfree_then_kalloc_witness:
  "kfree 1 demo_kst = Panic ''kfree''
   \<and> (\<exists>t u. kfree (PHYSTOP - PGSIZE) demo_kst = Ret () t \<and> kalloc t = Ret (PHYSTOP - PGSIZE) u \<and> kinv [] u)"
proof
  have "\<not> page_aligned 1" by (simp add: page_aligned_def)
  then show "kfree 1 demo_kst = Panic ''kfree''"
    using kfree_then_kalloc [OF demo_kst_ok(1,2,7), of 1] by simp
  have "page_aligned (PHYSTOP - PGSIZE)" "kend demo_kst \<le> PHYSTOP - PGSIZE" "PHYSTOP - PGSIZE < PHYSTOP"
    by (simp_all add: demo_kst_def mach.defs PHYSTOP_def KERNBASE_def PGSIZE_def page_aligned_def)
  then show "\<exists>t u. kfree (PHYSTOP - PGSIZE) demo_kst = Ret () t \<and> kalloc t = Ret (PHYSTOP - PGSIZE) u \<and> kinv [] u"
    using kfree_then_kalloc [OF demo_kst_ok(1,2,7), of "PHYSTOP - PGSIZE"] by auto
qed

text \<open>
  C14. Successive calls of \<^verbatim>\<open>kalloc\<close> hand out pairwise different pages, none of them null and
  none of them still on the free list, as long as the list is not exhausted; on an exhausted
  list \<^verbatim>\<open>kalloc\<close> returns 0.
\<close>

theorem kalloc_distinct:
  assumes "kmem_ready s" and "kinv ps s"
  shows "(n \<le> length ps \<longrightarrow> (\<exists>qs t rest. alloc_many kalloc n s = Ret qs t \<and> kinv rest t
       \<and> length qs = n \<and> distinct (qs @ rest) \<and> 0 \<notin> set qs \<and> set (qs @ rest) = set ps))
    \<and> (ps = [] \<longrightarrow> (\<exists>t. kalloc s = Ret 0 t))"
proof (intro conjI impI)
  assume n: "n \<le> length ps"
  obtain t where t: "alloc_many kalloc n s = Ret (take n ps) t" "kinv (drop n ps) t"
    using kalloc_impl.many [OF assms n] by blast
  show "\<exists>qs t rest. alloc_many kalloc n s = Ret qs t \<and> kinv rest t
       \<and> length qs = n \<and> distinct (qs @ rest) \<and> 0 \<notin> set qs \<and> set (qs @ rest) = set ps"
    using t n kalloc_impl.pool_distinct [OF assms(2)]
    by (intro exI [of _ "take n ps"] exI [of _ t] exI [of _ "drop n ps"])
      (auto simp del: set_append dest: in_set_takeD)
next
  assume "ps = []"
  then show "\<exists>t. kalloc s = Ret 0 t" using kalloc_impl.alloc_none assms by blast
qed

theorem kalloc_distinct_witness:
  "\<exists>s qs t. kfree (PHYSTOP - PGSIZE) demo_kst = Ret () s \<and> alloc_many kalloc 1 s = Ret qs t
     \<and> length qs = 1 \<and> 0 \<notin> set qs"
proof -
  have "page_ok demo_kst (PHYSTOP - PGSIZE)"
    by (simp add: page_ok_def demo_kst_def mach.defs PHYSTOP_def KERNBASE_def PGSIZE_def page_aligned_def)
  then obtain s where s: "kfree (PHYSTOP - PGSIZE) demo_kst = Ret () s" "kmem_ready s" "kinv [PHYSTOP - PGSIZE] s"
    using kalloc_impl.free_page [of demo_kst "[]"] demo_kst_ok by (auto simp: kmem_ready_def)
  have "1 \<le> length [PHYSTOP - PGSIZE]" by simp
  with s(1) kalloc_distinct [OF s(2,3), of 1] show ?thesis by blast
qed

end
