(* ===== verification/Xv6_Vm.thy ===== *)
theory Xv6_Vm
  imports Xv6_Kalloc
begin

text \<open>
  Page tables and user memory: \<^verbatim>\<open>kernel/vm.c\<close>. A page table is the physical address of its root
  page; entries are read and written in physical memory. A null pointer is the address 0, as in
  the source. A kernel buffer that a copy function reads or writes is passed as a byte array.

  The loops over addresses end because \<open>walk\<close> panics at \<^verbatim>\<open>MAXVA\<close>.
\<close>

abbreviation pte_at :: "'z kst_scheme \<Rightarrow> uint64 \<Rightarrow> uint64" where
  "pte_at s a \<equiv> ld64 (mem s) (unat a)"

abbreviation set_pte :: "uint64 \<Rightarrow> uint64 \<Rightarrow> 'z kst_scheme \<Rightarrow> 'z kst_scheme" where
  "set_pte a v s \<equiv> s\<lparr>mem := st64 v (mem s) (unat a)\<rparr>"

abbreviation zero_page :: "uint64 \<Rightarrow> 'z kst_scheme \<Rightarrow> 'z kst_scheme" where
  "zero_page p s \<equiv> s\<lparr>mem := memset (unat p) 0 (unat PGSIZE) (mem s)\<rparr>"

section \<open>Walking and mapping\<close>

primrec walk_loop :: "nat \<Rightarrow> uint64 \<Rightarrow> uint64 \<Rightarrow> bool \<Rightarrow> 'z kst_scheme \<Rightarrow> ('z kst_scheme, uint64) res" where
  "walk_loop 0 pagetable va alloc s = Ret (pagetable + 8 * PX 0 va) s"
| "walk_loop (Suc l) pagetable va alloc s =
     (let pte = pagetable + 8 * PX (Suc l) va in
      if pte_at s pte AND PTE_V \<noteq> 0
      then walk_loop l (PTE2PA (pte_at s pte)) va alloc s
      else if \<not> alloc then Ret 0 s
      else bnd (kalloc s) (\<lambda>pagetable s.
        if pagetable = 0 then Ret 0 s
        else let s = zero_page pagetable s;
                 s = set_pte pte (PA2PTE pagetable OR PTE_V) s
             in walk_loop l pagetable va alloc s))"

definition walk :: "uint64 \<Rightarrow> uint64 \<Rightarrow> bool \<Rightarrow> 'z kst_scheme \<Rightarrow> ('z kst_scheme, uint64) res" where
  "walk pagetable va alloc s =
     (if va \<ge> MAXVA then Panic ''walk'' else walk_loop 2 pagetable va alloc s)"

definition walkaddr :: "uint64 \<Rightarrow> uint64 \<Rightarrow> 'z kst_scheme \<Rightarrow> ('z kst_scheme, uint64) res" where
  "walkaddr pagetable va s =
     (if va \<ge> MAXVA then Ret 0 s
      else bnd (walk pagetable va False s) (\<lambda>pte s.
        if pte = 0 then Ret 0 s
        else if pte_at s pte AND PTE_V = 0 then Ret 0 s
        else if pte_at s pte AND PTE_U = 0 then Ret 0 s
        else Ret (PTE2PA (pte_at s pte)) s))"

lemma walk_Ret_less: "walk pt va alloc s = Ret x t \<Longrightarrow> va < MAXVA"
  by (auto simp: walk_def split: if_splits)

lemma MAXVA_unat: "unat MAXVA = 2 ^ 38"
  by (simp add: MAXVA_def push_bit_eq_mult)

lemma unat_next_page: "a < MAXVA \<Longrightarrow> unat (a + PGSIZE) = unat a + 4096"
  by (simp add: word_less_nat_alt MAXVA_unat unat_plus_if')

text \<open>The loop of \<^verbatim>\<open>mappages\<close> from page \<open>a\<close> to page \<open>lastpg\<close>.\<close>

function mappages_loop ::
  "uint64 \<Rightarrow> uint64 \<Rightarrow> uint64 \<Rightarrow> uint64 \<Rightarrow> uint64 \<Rightarrow> 'z kst_scheme \<Rightarrow> ('z kst_scheme, int) res" where
  "mappages_loop pagetable a lastpg pa perm s =
     bnd (walk pagetable a True s) (\<lambda>pte s.
       if pte = 0 then Ret (-1) s
       else if pte_at s pte AND PTE_V \<noteq> 0 then Panic ''mappages: remap''
       else let s = set_pte pte (PA2PTE pa OR perm OR PTE_V) s in
            if a = lastpg then Ret 0 s
            else mappages_loop pagetable (a + PGSIZE) lastpg (pa + PGSIZE) perm s)"
  by pat_completeness auto
termination
proof (relation "measure (\<lambda>(pt, a, lastpg, pa, perm, s). unat MAXVA - unat a)")
  fix pt a lastpg pa perm pte x and s t u :: "'z kst_scheme"
  assume "walk pt a True s = Ret pte t"
  then have "a < MAXVA" by (rule walk_Ret_less)
  then show "((pt, a + PGSIZE, lastpg, pa + PGSIZE, perm, u), pt, a, lastpg, pa, perm, s)
    \<in> measure (\<lambda>(pt, a, lastpg, pa, perm, s). unat MAXVA - unat a)"
    using unat_next_page [of a] by (simp add: word_less_nat_alt)
qed simp

declare mappages_loop.simps [simp del]

definition mappages ::
  "uint64 \<Rightarrow> uint64 \<Rightarrow> uint64 \<Rightarrow> uint64 \<Rightarrow> uint64 \<Rightarrow> 'z kst_scheme \<Rightarrow> ('z kst_scheme, int) res" where
  "mappages pagetable va sz pa perm s =
     (if sz = 0 then Panic ''mappages: size''
      else mappages_loop pagetable (PGROUNDDOWN va) (PGROUNDDOWN (va + sz - 1)) pa perm s)"

lemma mappages_loop_Ret_less: "mappages_loop pt a lastpg pa perm s = Ret x t \<Longrightarrow> a < MAXVA"
  by (subst (asm) mappages_loop.simps) (auto simp: ret_iff dest: walk_Ret_less)

definition kvmmap ::
  "uint64 \<Rightarrow> uint64 \<Rightarrow> uint64 \<Rightarrow> uint64 \<Rightarrow> uint64 \<Rightarrow> 'z kst_scheme \<Rightarrow> ('z kst_scheme, unit) res" where
  "kvmmap kpgtbl va pa sz perm s =
     bnd (mappages kpgtbl va sz pa perm s) (\<lambda>r s. if r \<noteq> 0 then Panic ''kvmmap'' else Ret () s)"

text \<open>\<^verbatim>\<open>proc_mapstacks\<close> of \<^verbatim>\<open>kernel/proc.c\<close>: one page of kernel stack for each process slot.\<close>

primrec proc_mapstacks_loop :: "nat list \<Rightarrow> uint64 \<Rightarrow> 'z kst_scheme \<Rightarrow> ('z kst_scheme, unit) res" where
  "proc_mapstacks_loop [] kpgtbl s = Ret () s"
| "proc_mapstacks_loop (i # is) kpgtbl s =
     bnd (kalloc s) (\<lambda>pa s.
       if pa = 0 then Panic ''kalloc''
       else seq (kvmmap kpgtbl (KSTACK i) pa PGSIZE (PTE_R OR PTE_W) s) (proc_mapstacks_loop is kpgtbl))"

definition proc_mapstacks :: "uint64 \<Rightarrow> 'z kst_scheme \<Rightarrow> ('z kst_scheme, unit) res" where
  "proc_mapstacks kpgtbl s = proc_mapstacks_loop [0..<NPROC] kpgtbl s"

definition kvmmake :: "'z kst_scheme \<Rightarrow> ('z kst_scheme, uint64) res" where
  "kvmmake s =
     bnd (kalloc s) (\<lambda>kpgtbl s.
     let s = zero_page kpgtbl s in
     seq (kvmmap kpgtbl UART0 UART0 PGSIZE (PTE_R OR PTE_W) s) (\<lambda>s.
     seq (kvmmap kpgtbl VIRTIO0 VIRTIO0 PGSIZE (PTE_R OR PTE_W) s) (\<lambda>s.
     seq (kvmmap kpgtbl PLIC PLIC 0x400000 (PTE_R OR PTE_W) s) (\<lambda>s.
     seq (kvmmap kpgtbl KERNBASE KERNBASE (etext s - KERNBASE) (PTE_R OR PTE_X) s) (\<lambda>s.
     seq (kvmmap kpgtbl (etext s) (etext s) (PHYSTOP - etext s) (PTE_R OR PTE_W) s) (\<lambda>s.
     seq (kvmmap kpgtbl TRAMPOLINE (trampoline s) PGSIZE (PTE_R OR PTE_X) s) (\<lambda>s.
     seq (proc_mapstacks kpgtbl s) (\<lambda>s.
     Ret kpgtbl s))))))))"

definition kvminit :: "'z kst_scheme \<Rightarrow> ('z kst_scheme, unit) res" where
  "kvminit s = bnd (kvmmake s) (\<lambda>kpgtbl s. Ret () (s\<lparr>kernel_pagetable := kpgtbl\<rparr>))"

section \<open>User address spaces\<close>

text \<open>The loop of \<^verbatim>\<open>uvmunmap\<close>: \<open>stop\<close> is \<^verbatim>\<open>va + npages*PGSIZE\<close>.\<close>

function uvmunmap_loop :: "uint64 \<Rightarrow> uint64 \<Rightarrow> uint64 \<Rightarrow> bool \<Rightarrow> 'z kst_scheme \<Rightarrow> ('z kst_scheme, unit) res" where
  "uvmunmap_loop pagetable a stop do_free s =
     (if a < stop then
        bnd (walk pagetable a False s) (\<lambda>pte s.
        if pte = 0 then Panic ''uvmunmap: walk''
        else if pte_at s pte AND PTE_V = 0 then Panic ''uvmunmap: not mapped''
        else if PTE_FLAGS (pte_at s pte) = PTE_V then Panic ''uvmunmap: not a leaf''
        else seq (if do_free then kfree (PTE2PA (pte_at s pte)) s else Ret () s) (\<lambda>s.
        let s = set_pte pte 0 s in
        uvmunmap_loop pagetable (a + PGSIZE) stop do_free s))
      else Ret () s)"
  by pat_completeness auto
termination
proof (relation "measure (\<lambda>(pt, a, stop, f, s). unat MAXVA - unat a)")
  fix pt a stop f pte and s t u :: "'z kst_scheme"
  assume "walk pt a False s = Ret pte t"
  then have "a < MAXVA" by (rule walk_Ret_less)
  then show "((pt, a + PGSIZE, stop, f, u), pt, a, stop, f, s)
    \<in> measure (\<lambda>(pt, a, stop, f, s). unat MAXVA - unat a)"
    using unat_next_page [of a] by (simp add: word_less_nat_alt)
qed simp

declare uvmunmap_loop.simps [simp del]

definition uvmunmap :: "uint64 \<Rightarrow> uint64 \<Rightarrow> uint64 \<Rightarrow> bool \<Rightarrow> 'z kst_scheme \<Rightarrow> ('z kst_scheme, unit) res" where
  "uvmunmap pagetable va npages do_free s =
     (if va mod PGSIZE \<noteq> 0 then Panic ''uvmunmap: not aligned''
      else uvmunmap_loop pagetable va (va + npages * PGSIZE) do_free s)"

definition uvmcreate :: "'z kst_scheme \<Rightarrow> ('z kst_scheme, uint64) res" where
  "uvmcreate s =
     bnd (kalloc s) (\<lambda>pagetable s.
       if pagetable = 0 then Ret 0 s else Ret pagetable (zero_page pagetable s))"

definition uvmfirst :: "uint64 \<Rightarrow> bytes \<Rightarrow> uint \<Rightarrow> 'z kst_scheme \<Rightarrow> ('z kst_scheme, unit) res" where
  "uvmfirst pagetable src sz s =
     (if unat sz \<ge> unat PGSIZE then Panic ''uvmfirst: more than a page''
      else bnd (kalloc s) (\<lambda>m s.
      let s = zero_page m s in
      seq (mappages pagetable 0 PGSIZE m (PTE_W OR PTE_R OR PTE_X OR PTE_U) s) (\<lambda>s.
      Ret () (s\<lparr>mem := blit (unat m) (unat sz) src (mem s)\<rparr>))))"

definition uvmdealloc :: "uint64 \<Rightarrow> uint64 \<Rightarrow> uint64 \<Rightarrow> 'z kst_scheme \<Rightarrow> ('z kst_scheme, uint64) res" where
  "uvmdealloc pagetable oldsz newsz s =
     (if newsz \<ge> oldsz then Ret oldsz s
      else seq (if PGROUNDUP newsz < PGROUNDUP oldsz
                then let npages = scast (ucast ((PGROUNDUP oldsz - PGROUNDUP newsz) div PGSIZE) :: uint)
                     in uvmunmap pagetable (PGROUNDUP newsz) npages True s
                else Ret () s) (\<lambda>s.
           Ret newsz s))"

function uvmalloc_loop ::
  "uint64 \<Rightarrow> uint64 \<Rightarrow> uint64 \<Rightarrow> uint64 \<Rightarrow> uint64 \<Rightarrow> 'z kst_scheme \<Rightarrow> ('z kst_scheme, uint64) res" where
  "uvmalloc_loop pagetable a oldsz newsz xperm s =
     (if a < newsz then
        bnd (kalloc s) (\<lambda>m s.
        if m = 0 then seq (uvmdealloc pagetable a oldsz s) (\<lambda>s. Ret 0 s)
        else let s = zero_page m s in
        bnd (mappages pagetable a PGSIZE m (PTE_R OR PTE_U OR xperm) s) (\<lambda>r s.
        if r \<noteq> 0 then seq (kfree m s) (\<lambda>s. seq (uvmdealloc pagetable a oldsz s) (\<lambda>s. Ret 0 s))
        else uvmalloc_loop pagetable (a + PGSIZE) oldsz newsz xperm s))
      else Ret newsz s)"
  by pat_completeness auto
termination
proof (relation "measure (\<lambda>(pt, a, oldsz, newsz, xperm, s). unat newsz - unat a)")
  fix pt a oldsz newsz xperm m r n and s t u v :: "'z kst_scheme"
  assume lt: "a < newsz" and "mappages pt a PGSIZE m n t = Ret r u"
  then have "PGROUNDDOWN a < MAXVA" by (auto simp: mappages_def split: if_splits dest: mappages_loop_Ret_less)
  then have "unat a div 4096 * 4096 < 2 ^ 38"
    by (simp add: word_less_nat_alt unat_PGROUNDDOWN MAXVA_unat)
  then have "unat a < 2 ^ 39" by auto
  then have "unat (a + PGSIZE) = unat a + 4096" by (simp add: unat_plus_if')
  with lt show "((pt, a + PGSIZE, oldsz, newsz, xperm, v), pt, a, oldsz, newsz, xperm, s)
    \<in> measure (\<lambda>(pt, a, oldsz, newsz, xperm, s). unat newsz - unat a)"
    by (simp add: word_less_nat_alt)
qed simp

declare uvmalloc_loop.simps [simp del]

definition uvmalloc :: "uint64 \<Rightarrow> uint64 \<Rightarrow> uint64 \<Rightarrow> uint64 \<Rightarrow> 'z kst_scheme \<Rightarrow> ('z kst_scheme, uint64) res" where
  "uvmalloc pagetable oldsz newsz xperm s =
     (if newsz < oldsz then Ret oldsz s
      else let oldsz = PGROUNDUP oldsz in uvmalloc_loop pagetable oldsz oldsz newsz xperm s)"

text \<open>
  \<^verbatim>\<open>freewalk\<close> recurses into the lower-level tables. The first argument bounds the depth: the
  three levels of Sv39 need depth 3, and a deeper structure, which is no Sv39 table, runs out of
  it with \<open>Hang\<close>.
\<close>

primrec freewalk_loop ::
  "(uint64 \<Rightarrow> 'z kst_scheme \<Rightarrow> ('z kst_scheme, unit) res) \<Rightarrow> nat list \<Rightarrow> uint64 \<Rightarrow> 'z kst_scheme
     \<Rightarrow> ('z kst_scheme, unit) res" where
  "freewalk_loop rec [] pagetable s = Ret () s"
| "freewalk_loop rec (i # is) pagetable s =
     (let pte = pte_at s (pagetable + 8 * of_nat i) in
      if pte AND PTE_V \<noteq> 0 \<and> pte AND (PTE_R OR PTE_W OR PTE_X) = 0
      then seq (rec (PTE2PA pte) s) (\<lambda>s.
           let s = set_pte (pagetable + 8 * of_nat i) 0 s in freewalk_loop rec is pagetable s)
      else if pte AND PTE_V \<noteq> 0 then Panic ''freewalk: leaf''
      else freewalk_loop rec is pagetable s)"

primrec freewalk :: "nat \<Rightarrow> uint64 \<Rightarrow> 'z kst_scheme \<Rightarrow> ('z kst_scheme, unit) res" where
  "freewalk 0 pagetable s = Hang"
| "freewalk (Suc d) pagetable s =
     seq (freewalk_loop (freewalk d) [0..<512] pagetable s) (\<lambda>s. kfree pagetable s)"

definition uvmfree :: "uint64 \<Rightarrow> uint64 \<Rightarrow> 'z kst_scheme \<Rightarrow> ('z kst_scheme, unit) res" where
  "uvmfree pagetable sz s =
     seq (if sz > 0 then uvmunmap pagetable 0 (PGROUNDUP sz div PGSIZE) True s else Ret () s) (\<lambda>s.
     freewalk 3 pagetable s)"

function uvmcopy_loop ::
  "uint64 \<Rightarrow> uint64 \<Rightarrow> uint64 \<Rightarrow> uint64 \<Rightarrow> 'z kst_scheme \<Rightarrow> ('z kst_scheme, int) res" where
  "uvmcopy_loop old new i sz s =
     (if i < sz then
        bnd (walk old i False s) (\<lambda>pte s.
        if pte = 0 then Panic ''uvmcopy: pte should exist''
        else if pte_at s pte AND PTE_V = 0 then Panic ''uvmcopy: page not present''
        else let pa = PTE2PA (pte_at s pte); flags = PTE_FLAGS (pte_at s pte) in
        bnd (kalloc s) (\<lambda>m s.
        if m = 0 then seq (uvmunmap new 0 (i div PGSIZE) True s) (\<lambda>s. Ret (-1) s)
        else let s = s\<lparr>mem := memmove (unat m) (unat pa) (unat PGSIZE) (mem s)\<rparr> in
        bnd (mappages new i PGSIZE m flags s) (\<lambda>r s.
        if r \<noteq> 0 then seq (kfree m s) (\<lambda>s. seq (uvmunmap new 0 (i div PGSIZE) True s) (\<lambda>s. Ret (-1) s))
        else uvmcopy_loop old new (i + PGSIZE) sz s)))
      else Ret 0 s)"
  by pat_completeness auto
termination
proof (relation "measure (\<lambda>(old, new, i, sz, s). unat MAXVA - unat i)")
  fix old new i sz pte and s t u :: "'z kst_scheme"
  assume "walk old i False s = Ret pte t"
  then have "i < MAXVA" by (rule walk_Ret_less)
  then show "((old, new, i + PGSIZE, sz, u), old, new, i, sz, s)
    \<in> measure (\<lambda>(old, new, i, sz, s). unat MAXVA - unat i)"
    using unat_next_page [of i] by (simp add: word_less_nat_alt)
qed simp

declare uvmcopy_loop.simps [simp del]

definition uvmcopy :: "uint64 \<Rightarrow> uint64 \<Rightarrow> uint64 \<Rightarrow> 'z kst_scheme \<Rightarrow> ('z kst_scheme, int) res" where
  "uvmcopy old new sz s = uvmcopy_loop old new 0 sz s"

definition uvmclear :: "uint64 \<Rightarrow> uint64 \<Rightarrow> 'z kst_scheme \<Rightarrow> ('z kst_scheme, unit) res" where
  "uvmclear pagetable va s =
     bnd (walk pagetable va False s) (\<lambda>pte s.
       if pte = 0 then Panic ''uvmclear''
       else Ret () (set_pte pte (pte_at s pte AND NOT PTE_U) s))"

section \<open>Copying between kernel and user memory\<close>

text \<open>
  The number of bytes one pass of a copy loop moves: up to the end of the page, or all of the
  remaining length.
\<close>

definition chunk :: "uint64 \<Rightarrow> uint64 \<Rightarrow> uint64" where
  "chunk va len = (let n = PGSIZE - (va - PGROUNDDOWN va) in if n > len then len else n)"

lemma page_offset: "unat (va - PGROUNDDOWN va) = unat va mod 4096"
proof -
  have le: "PGROUNDDOWN va \<le> va" by (simp add: word_le_nat_alt unat_PGROUNDDOWN)
  have "unat (va - PGROUNDDOWN va) = unat va - unat va div 4096 * 4096"
    using unat_sub [OF le] by (simp add: unat_PGROUNDDOWN)
  then show ?thesis by (simp add: minus_div_mult_eq_mod)
qed

lemma unat_chunk: "unat (chunk va len) = min (4096 - unat va mod 4096) (unat len)"
proof -
  have "va - PGROUNDDOWN va \<le> PGSIZE"
    by (simp add: word_le_nat_alt page_offset less_imp_le)
  then have "unat (PGSIZE - (va - PGROUNDDOWN va)) = 4096 - unat va mod 4096"
    by (subst unat_sub) (simp_all add: page_offset)
  then show ?thesis by (simp add: chunk_def Let_def word_less_nat_alt)
qed

lemma chunk_le: "chunk va len \<le> len"
  by (simp add: word_le_nat_alt unat_chunk)

lemma chunk_pos: "len > 0 \<Longrightarrow> unat (chunk va len) > 0"
  by (simp add: unat_chunk word_less_nat_alt)

lemma unat_chunk_rest: "unat (len - chunk va len) = unat len - unat (chunk va len)"
  by (rule unat_sub) (rule chunk_le)

function copyout :: "uint64 \<Rightarrow> uint64 \<Rightarrow> bytes \<Rightarrow> uint64 \<Rightarrow> 'z kst_scheme \<Rightarrow> ('z kst_scheme, int) res" where
  "copyout pagetable dstva src len s =
     (if len > 0 then
        let va0 = PGROUNDDOWN dstva in
        bnd (walkaddr pagetable va0 s) (\<lambda>pa0 s.
        if pa0 = 0 then Ret (-1) s
        else let n = chunk dstva len;
                 s = s\<lparr>mem := blit (unat (pa0 + (dstva - va0))) (unat n) src (mem s)\<rparr>
             in copyout pagetable (va0 + PGSIZE) (\<lambda>i. src (unat n + i)) (len - n) s)
      else Ret 0 s)"
  by pat_completeness auto
termination
  by (relation "measure (\<lambda>(pt, va, src, len, s). unat len)")
    (auto simp: unat_chunk_rest chunk_pos word_less_nat_alt [of 0])

declare copyout.simps [simp del]

text \<open>\<open>d\<close> is the kernel object that holds the destination, \<open>dst\<close> the offset in it.\<close>

function copyin ::
  "uint64 \<Rightarrow> bytes \<Rightarrow> nat \<Rightarrow> uint64 \<Rightarrow> uint64 \<Rightarrow> 'z kst_scheme \<Rightarrow> ('z kst_scheme, int \<times> bytes) res" where
  "copyin pagetable d dst srcva len s =
     (if len > 0 then
        let va0 = PGROUNDDOWN srcva in
        bnd (walkaddr pagetable va0 s) (\<lambda>pa0 s.
        if pa0 = 0 then Ret (-1, d) s
        else let n = chunk srcva len;
                 d = blit dst (unat n) (\<lambda>i. mem s (unat (pa0 + (srcva - va0)) + i)) d
             in copyin pagetable d (dst + unat n) (va0 + PGSIZE) (len - n) s)
      else Ret (0, d) s)"
  by pat_completeness auto
termination
  by (relation "measure (\<lambda>(pt, d, dst, va, len, s). unat len)")
    (auto simp: unat_chunk_rest chunk_pos word_less_nat_alt [of 0])

declare copyin.simps [simp del]

text \<open>The inner loop of \<^verbatim>\<open>copyinstr\<close>: \<open>n\<close> bytes of one page; also returns \<^verbatim>\<open>got_null\<close>.\<close>

primrec copyinstr_page :: "nat \<Rightarrow> bytes \<Rightarrow> nat \<Rightarrow> bytes \<Rightarrow> nat \<Rightarrow> bool \<times> bytes" where
  "copyinstr_page 0 m p d dst = (False, d)"
| "copyinstr_page (Suc n) m p d dst =
     (if m p = 0 then (True, d(dst := 0))
      else copyinstr_page n m (Suc p) (d(dst := m p)) (Suc dst))"

function copyinstr ::
  "uint64 \<Rightarrow> bytes \<Rightarrow> nat \<Rightarrow> uint64 \<Rightarrow> uint64 \<Rightarrow> 'z kst_scheme \<Rightarrow> ('z kst_scheme, int \<times> bytes) res" where
  "copyinstr pagetable d dst srcva mx s =
     (if mx > 0 then
        let va0 = PGROUNDDOWN srcva in
        bnd (walkaddr pagetable va0 s) (\<lambda>pa0 s.
        if pa0 = 0 then Ret (-1, d) s
        else let n = chunk srcva mx in
          (case copyinstr_page (unat n) (mem s) (unat (pa0 + (srcva - va0))) d dst of
             (True, d) \<Rightarrow> Ret (0, d) s
           | (False, d) \<Rightarrow> copyinstr pagetable d (dst + unat n) (va0 + PGSIZE) (mx - n) s))
      else Ret (-1, d) s)"
  by pat_completeness auto
termination
  by (relation "measure (\<lambda>(pt, d, dst, va, len, s). unat len)")
    (auto simp: unat_chunk_rest chunk_pos word_less_nat_alt [of 0])

declare copyinstr.simps [simp del]

end
