(* ===== verification/Xv6_Pagetable.thy ===== *)
theory Xv6_Pagetable
  imports Xv6_Vm
begin

text \<open>
  The meaning of page tables. A table of level \<open>l\<close> rooted at page \<open>pt\<close> is a tree of pages in
  physical memory; \<open>ptev\<close> reads off the leaf entry it holds for a virtual address, 0 where a
  lower-level table is missing. The lemmas show that \<open>walk\<close> and \<open>mappages\<close> implement lookup and
  update of this map, whatever page-table pages they allocate on the way.
\<close>

section \<open>Tables as trees of pages\<close>

definition ent :: "bytes \<Rightarrow> uint64 \<Rightarrow> nat \<Rightarrow> uint64" where
  "ent m pt i = ld64 m (unat pt + 8 * i)"

definition pvalid :: "uint64 \<Rightarrow> bool" where
  "pvalid e \<longleftrightarrow> e AND PTE_V \<noteq> 0"

abbreviation px :: "nat \<Rightarrow> uint64 \<Rightarrow> nat" where
  "px l va \<equiv> unat (PX l va)"

primrec leaf :: "bytes \<Rightarrow> nat \<Rightarrow> uint64 \<Rightarrow> uint64 \<Rightarrow> uint64 option" where
  "leaf m 0 pt va = Some (pt + 8 * PX 0 va)"
| "leaf m (Suc l) pt va =
     (let e = ent m pt (px (Suc l) va) in if pvalid e then leaf m l (PTE2PA e) va else None)"

primrec ptev :: "bytes \<Rightarrow> nat \<Rightarrow> uint64 \<Rightarrow> uint64 \<Rightarrow> uint64" where
  "ptev m 0 pt va = ent m pt (px 0 va)"
| "ptev m (Suc l) pt va =
     (let e = ent m pt (px (Suc l) va) in if pvalid e then ptev m l (PTE2PA e) va else 0)"

text \<open>The pages of the tree, and that it is one: no page occurs twice.\<close>

primrec tpages :: "bytes \<Rightarrow> nat \<Rightarrow> uint64 \<Rightarrow> uint64 set" where
  "tpages m 0 pt = {pt}"
| "tpages m (Suc l) pt =
     insert pt (\<Union>i \<in> {i. i < 512 \<and> pvalid (ent m pt i)}. tpages m l (PTE2PA (ent m pt i)))"

primrec ptwf :: "bytes \<Rightarrow> nat \<Rightarrow> uint64 \<Rightarrow> bool" where
  "ptwf m 0 pt \<longleftrightarrow> page_aligned pt \<and> pt \<noteq> 0"
| "ptwf m (Suc l) pt \<longleftrightarrow> page_aligned pt \<and> pt \<noteq> 0
     \<and> (\<forall>i < 512. pvalid (ent m pt i) \<longrightarrow>
          ptwf m l (PTE2PA (ent m pt i)) \<and> pt \<notin> tpages m l (PTE2PA (ent m pt i)))
     \<and> (\<forall>i < 512. \<forall>j < 512. i \<noteq> j \<longrightarrow> pvalid (ent m pt i) \<longrightarrow> pvalid (ent m pt j) \<longrightarrow>
          tpages m l (PTE2PA (ent m pt i)) \<inter> tpages m l (PTE2PA (ent m pt j)) = {})"

text \<open>\<open>m'\<close> agrees with \<open>m\<close> on the pages in \<open>P\<close>, and everywhere but on the pages in \<open>P\<close>.\<close>

definition agree_on :: "uint64 set \<Rightarrow> bytes \<Rightarrow> bytes \<Rightarrow> bool" where
  "agree_on P m m' \<longleftrightarrow> (\<forall>p \<in> P. \<forall>i < 4096. m' (unat p + i) = m (unat p + i))"

definition agree_off :: "uint64 set \<Rightarrow> bytes \<Rightarrow> bytes \<Rightarrow> bool" where
  "agree_off P m m' \<longleftrightarrow> (\<forall>a. (\<forall>p \<in> P. a < unat p \<or> unat p + 4096 \<le> a) \<longrightarrow> m' a = m a)"

lemma agree_off_refl [simp]: "agree_off P m m"
  by (simp add: agree_off_def)

lemma agree_off_trans: "agree_off P m m' \<Longrightarrow> agree_off Q m' m'' \<Longrightarrow> agree_off (P \<union> Q) m m''"
  by (simp add: agree_off_def)

lemma agree_off_mono: "agree_off P m m' \<Longrightarrow> P \<subseteq> Q \<Longrightarrow> agree_off Q m m'"
  by (auto simp: agree_off_def)

lemma agree_off_on:
  assumes "agree_off P m m'" and "P \<inter> Q = {}" and "\<forall>p \<in> P \<union> Q. page_aligned p"
  shows "agree_on Q m m'"
  unfolding agree_on_def
proof (intro ballI allI impI)
  fix q i assume q: "q \<in> Q" and i: "i < (4096::nat)"
  have "\<forall>p \<in> P. unat q + i < unat p \<or> unat p + 4096 \<le> unat q + i"
    using q i assms(2,3) page_outside [of _ q i] by blast
  then show "m' (unat q + i) = m (unat q + i)" using assms(1) by (simp add: agree_off_def)
qed

lemma agree_on_mono: "agree_on Q m m' \<Longrightarrow> P \<subseteq> Q \<Longrightarrow> agree_on P m m'"
  by (auto simp: agree_on_def)

lemma agree_on_sym: "agree_on P m m' \<Longrightarrow> agree_on P m' m"
  by (simp add: agree_on_def)

lemma ent_cong: "agree_on {pt} m m' \<Longrightarrow> i < 512 \<Longrightarrow> ent m' pt i = ent m pt i"
  unfolding ent_def by (rule ld64_cong) (simp add: agree_on_def add.assoc)

lemma root_in_tpages [simp]: "pt \<in> tpages m l pt"
  by (cases l) simp_all

lemma tpages_child:
  "i < 512 \<Longrightarrow> pvalid (ent m pt i) \<Longrightarrow> tpages m l (PTE2PA (ent m pt i)) \<subseteq> tpages m (Suc l) pt"
  by auto

lemma ptwf_root: "ptwf m l pt \<Longrightarrow> page_aligned pt \<and> pt \<noteq> 0"
  by (cases l) simp_all

lemma ptwf_child:
  "ptwf m (Suc l) pt \<Longrightarrow> i < 512 \<Longrightarrow> pvalid (ent m pt i) \<Longrightarrow>
   ptwf m l (PTE2PA (ent m pt i)) \<and> pt \<notin> tpages m l (PTE2PA (ent m pt i))"
  by simp

lemma ptwf_disjoint:
  "ptwf m (Suc l) pt \<Longrightarrow> i < 512 \<Longrightarrow> j < 512 \<Longrightarrow> i \<noteq> j \<Longrightarrow> pvalid (ent m pt i) \<Longrightarrow> pvalid (ent m pt j) \<Longrightarrow>
   tpages m l (PTE2PA (ent m pt i)) \<inter> tpages m l (PTE2PA (ent m pt j)) = {}"
  by simp

lemma tpages_aligned: "ptwf m l pt \<Longrightarrow> p \<in> tpages m l pt \<Longrightarrow> page_aligned p \<and> p \<noteq> 0"
proof (induction l arbitrary: pt)
  case 0
  then show ?case by simp
next
  case (Suc l)
  then show ?case by auto
qed

text \<open>A tree is determined by the contents of its pages.\<close>

lemma tree_cong:
  assumes "agree_on (tpages m l pt) m m'"
  shows "tpages m' l pt = tpages m l pt \<and> ptwf m' l pt = ptwf m l pt
    \<and> leaf m' l pt va = leaf m l pt va \<and> ptev m' l pt va = ptev m l pt va"
  using assms
proof (induction l arbitrary: pt)
  case 0
  then show ?case by (simp add: ent_cong PX_less)
next
  case (Suc l)
  have e: "ent m' pt i = ent m pt i" if "i < 512" for i
    by (rule ent_cong [OF _ that]) (rule agree_on_mono [OF Suc.prems], simp)
  have c: "tpages m' l (PTE2PA (ent m pt i)) = tpages m l (PTE2PA (ent m pt i))
      \<and> ptwf m' l (PTE2PA (ent m pt i)) = ptwf m l (PTE2PA (ent m pt i))
      \<and> leaf m' l (PTE2PA (ent m pt i)) va = leaf m l (PTE2PA (ent m pt i)) va
      \<and> ptev m' l (PTE2PA (ent m pt i)) va = ptev m l (PTE2PA (ent m pt i)) va"
    if "i < 512" "pvalid (ent m pt i)" for i
    by (rule Suc.IH) (rule agree_on_mono [OF Suc.prems tpages_child [OF that]])
  have "tpages m' (Suc l) pt = tpages m (Suc l) pt"
    using e c by auto
  moreover have "ptwf m' (Suc l) pt = ptwf m (Suc l) pt"
    using e c by simp
  moreover have "leaf m' (Suc l) pt va = leaf m (Suc l) pt va" "ptev m' (Suc l) pt va = ptev m (Suc l) pt va"
    using e c PX_less [of "Suc l" va] by (auto simp: Let_def)
  ultimately show ?case by blast
qed

section \<open>Changing one subtree\<close>

text \<open>
  A change of memory that stays inside the subtree below entry \<open>i\<close> and new pages \<open>P\<close>, and
  leaves that subtree a tree, leaves the whole a tree and all other subtrees as they were.
\<close>

lemma subtree_change:
  assumes wf: "ptwf m (Suc l) pt" and i: "i < 512" "pvalid (ent m pt i)"
    and sub: "ptwf m' l (PTE2PA (ent m pt i))"
      "tpages m' l (PTE2PA (ent m pt i)) \<subseteq> tpages m l (PTE2PA (ent m pt i)) \<union> P"
    and P: "P \<inter> tpages m (Suc l) pt = {}" "\<forall>p \<in> P. page_aligned p"
    and off: "agree_off (tpages m l (PTE2PA (ent m pt i)) \<union> P) m m'"
  shows "ptwf m' (Suc l) pt" and "tpages m' (Suc l) pt \<subseteq> tpages m (Suc l) pt \<union> P"
    and "\<And>j. j < 512 \<Longrightarrow> ent m' pt j = ent m pt j"
    and "\<And>va. px (Suc l) va \<noteq> i \<Longrightarrow> ptev m' (Suc l) pt va = ptev m (Suc l) pt va"
    and "\<And>va. px (Suc l) va \<noteq> i \<Longrightarrow> leaf m' (Suc l) pt va = leaf m (Suc l) pt va"
proof -
  let ?c = "\<lambda>j. PTE2PA (ent m pt j)"
  let ?T = "tpages m l (?c i)"
  have al: "\<forall>p \<in> ?T \<union> P. page_aligned p"
    using tpages_aligned ptwf_child [OF wf i] P(2) by blast
  have root: "pt \<notin> ?T \<union> P" using ptwf_child [OF wf i] P(1) by auto
  have "agree_on {pt} m m'"
    by (rule agree_off_on [OF off]) (use root al ptwf_root [OF wf] in auto)
  then show e: "\<And>j. j < 512 \<Longrightarrow> ent m' pt j = ent m pt j" by (rule ent_cong)
  have other: "agree_on (tpages m l (?c j)) m m'" if "j < 512" "j \<noteq> i" "pvalid (ent m pt j)" for j
  proof (rule agree_off_on [OF off])
    have "?T \<inter> tpages m l (?c j) = {}"
      using ptwf_disjoint [OF wf i(1) that(1) that(2)[symmetric] i(2) that(3)] .
    moreover have "P \<inter> tpages m l (?c j) = {}"
      using P(1) tpages_child [OF that(1,3)] by blast
    ultimately show "(?T \<union> P) \<inter> tpages m l (?c j) = {}" by blast
    show "\<forall>p \<in> (?T \<union> P) \<union> tpages m l (?c j). page_aligned p"
      using al tpages_aligned ptwf_child [OF wf that(1,3)] by blast
  qed
  note cong = tree_cong [OF other]
  have sub_j: "tpages m' l (?c j) \<subseteq> tpages m l (?c j) \<union> (if j = i then P else {})"
    if "j < 512" "pvalid (ent m pt j)" for j
    using cong [OF that(1) _ that(2)] sub(2) by (cases "j = i") auto
  show "tpages m' (Suc l) pt \<subseteq> tpages m (Suc l) pt \<union> P"
  proof
    fix p assume "p \<in> tpages m' (Suc l) pt"
    then consider "p = pt" | j where "j < 512" "pvalid (ent m pt j)" "p \<in> tpages m' l (?c j)"
      using e by auto
    then show "p \<in> tpages m (Suc l) pt \<union> P"
    proof cases
      case 1
      then show ?thesis by simp
    next
      case 2
      then have "p \<in> tpages m l (?c j) \<union> P" using sub_j [OF 2(1,2)] by (auto split: if_splits)
      then show ?thesis using tpages_child [OF 2(1,2), of l] by blast
    qed
  qed
  have wf_j: "ptwf m' l (?c j) \<and> pt \<notin> tpages m' l (?c j)" if j: "j < 512" "pvalid (ent m pt j)" for j
    using ptwf_child [OF wf j] sub_j [OF j] cong [OF j(1) _ j(2)] sub(1) root by (cases "j = i") auto
  have dis: "tpages m' l (?c j) \<inter> tpages m' l (?c k) = {}"
    if "j < 512" "k < 512" "j \<noteq> k" "pvalid (ent m pt j)" "pvalid (ent m pt k)" for j k
    using sub_j [OF that(1,4)] sub_j [OF that(2,5)] ptwf_disjoint [OF wf that] P(1)
      tpages_child [OF that(1,4), of l] tpages_child [OF that(2,5), of l] that(3)
    by (auto split: if_splits) blast+
  show "ptwf m' (Suc l) pt"
    using ptwf_root [OF wf] wf_j dis e by simp
  show "ptev m' (Suc l) pt va = ptev m (Suc l) pt va" "leaf m' (Suc l) pt va = leaf m (Suc l) pt va"
    if "px (Suc l) va \<noteq> i" for va
    using e [OF PX_less] cong [OF PX_less that] by (auto simp: Let_def)
qed

section \<open>Writing a leaf entry\<close>

lemma page_aligned_top: "page_aligned p \<Longrightarrow> unat p \<le> 2 ^ 64 - 4096"
proof -
  assume "page_aligned p"
  then obtain k where k: "unat p = 4096 * k"
    by (auto simp: page_aligned_def elim!: dvdE simp flip: dvd_eq_mod_eq_0)
  have "unat p < 2 ^ 64" using unsigned_less [where w = p] by simp
  with k show ?thesis by simp
qed

lemma unat_slot: "page_aligned pt \<Longrightarrow> unat (pt + 8 * PX l va) = unat pt + 8 * px l va"
proof -
  assume "page_aligned pt"
  then have pt: "unat pt \<le> 2 ^ 64 - 4096" by (rule page_aligned_top)
  have "unat (8 * PX l va) = 8 * px l va"
    using PX_less [of l va] by (simp add: unat_word_ariths)
  with pt show ?thesis using PX_less [of l va] by (simp add: unat_plus_if')
qed

lemma leaf_Some:
  assumes "ptwf m l pt" and "leaf m l pt va = Some a"
  shows "\<exists>p \<in> tpages m l pt. \<exists>i < 512. unat a = unat p + 8 * i \<and> ptev m l pt va = ent m p i \<and> a \<noteq> 0"
  using assms
proof (induction l arbitrary: pt)
  case 0
  then have "unat a = unat pt + 8 * px 0 va" using unat_slot by auto
  moreover have "unat pt \<noteq> 0" using 0 by (simp add: unat_eq_0)
  ultimately show ?case using PX_less [of 0 va] by auto
next
  case (Suc l)
  let ?e = "ent m pt (px (Suc l) va)"
  have v: "pvalid ?e" and lf: "leaf m l (PTE2PA ?e) va = Some a"
    using Suc.prems(2) by (auto simp: Let_def split: if_splits)
  obtain p i where "p \<in> tpages m l (PTE2PA ?e)" "i < 512" "unat a = unat p + 8 * i"
      "ptev m l (PTE2PA ?e) va = ent m p i" "a \<noteq> 0"
    using Suc.IH [OF _ lf] ptwf_child [OF Suc.prems(1) PX_less v] by blast
  moreover then have "p \<in> tpages m (Suc l) pt" using tpages_child [OF PX_less v] by blast
  ultimately show ?case using v by (auto simp: Let_def)
qed

lemma leaf_None: "leaf m l pt va = None \<Longrightarrow> ptev m l pt va = 0"
  by (induction l arbitrary: pt) (auto simp: Let_def split: if_splits)

lemma ptev_leaf: "ptwf m l pt \<Longrightarrow> leaf m l pt va = Some a \<Longrightarrow> ptev m l pt va = ld64 m (unat a) \<and> a \<noteq> 0"
  using leaf_Some [of m l pt va a] by (auto simp: ent_def)

lemma st64_agree_off: "i < 512 \<Longrightarrow> agree_off {p} m (st64 v m (unat p + 8 * i))"
  by (auto simp: agree_off_def intro!: st64_other)

text \<open>Two addresses have the same leaf entry if they agree on the indices of every level.\<close>

definition same_px :: "nat \<Rightarrow> uint64 \<Rightarrow> uint64 \<Rightarrow> bool" where
  "same_px l va va' \<longleftrightarrow> (\<forall>k \<le> l. px k va = px k va')"

lemma set_leaf:
  assumes "ptwf m l pt" and "leaf m l pt va = Some a"
  shows "ptwf (st64 v m (unat a)) l pt \<and> tpages (st64 v m (unat a)) l pt \<subseteq> tpages m l pt
    \<and> agree_off (tpages m l pt) m (st64 v m (unat a))
    \<and> (\<forall>va'. ptev (st64 v m (unat a)) l pt va' = (if same_px l va' va then v else ptev m l pt va'))"
  using assms
proof (induction l arbitrary: pt)
  case 0
  let ?m = "st64 v m (unat a)"
  have a: "unat a = unat pt + 8 * px 0 va" using 0 unat_slot by auto
  have "agree_off {pt} m ?m" using st64_agree_off PX_less by (simp add: a)
  moreover have "ptev ?m 0 pt va' = (if same_px 0 va' va then v else ptev m 0 pt va')" for va'
  proof (cases "px 0 va' = px 0 va")
    case True
    then show ?thesis by (simp add: same_px_def ent_def a)
  next
    case False
    then have "8 * px 0 va' + 8 \<le> 8 * px 0 va \<or> 8 * px 0 va + 8 \<le> 8 * px 0 va'"
      by (cases "px 0 va' < px 0 va") auto
    moreover have "\<not> same_px 0 va' va" using False by (auto simp: same_px_def)
    ultimately show ?thesis by (simp add: ent_def a ld_st_other)
  qed
  ultimately show ?case using 0 by simp
next
  case (Suc l)
  let ?m = "st64 v m (unat a)" and ?i = "px (Suc l) va"
  let ?c = "PTE2PA (ent m pt ?i)"
  have pv: "pvalid (ent m pt ?i)" and lf: "leaf m l ?c va = Some a"
    using Suc.prems(2) by (auto simp: Let_def split: if_splits)
  have wfc: "ptwf m l ?c" using ptwf_child [OF Suc.prems(1) PX_less pv] by blast
  note ih = Suc.IH [OF wfc lf]
  have ch: "ptwf ?m (Suc l) pt" "tpages ?m (Suc l) pt \<subseteq> tpages m (Suc l) pt \<union> {}"
    "\<And>j. j < 512 \<Longrightarrow> ent ?m pt j = ent m pt j"
    "\<And>va'. px (Suc l) va' \<noteq> ?i \<Longrightarrow> ptev ?m (Suc l) pt va' = ptev m (Suc l) pt va'"
    by (rule subtree_change [OF Suc.prems(1) PX_less pv, where P = "{}"]; use ih in simp)+
  have off: "agree_off (tpages m (Suc l) pt) m ?m"
    using ih tpages_child [OF PX_less pv] by (blast intro: agree_off_mono)
  have "ptev ?m (Suc l) pt va' = (if same_px (Suc l) va' va then v else ptev m (Suc l) pt va')" for va'
  proof (cases "px (Suc l) va' = ?i")
    case True
    then have "ptev ?m (Suc l) pt va' = ptev ?m l ?c va'"
      using ch(3) [OF PX_less] pv by (simp add: Let_def)
    also have "\<dots> = (if same_px l va' va then v else ptev m l ?c va')" using ih by blast
    finally show ?thesis using True pv by (auto simp: same_px_def le_Suc_eq Let_def)
  next
    case False
    then have "\<not> same_px (Suc l) va' va" by (auto simp: same_px_def)
    with ch(4) [OF False] show ?thesis by simp
  qed
  with ch(1,2) off show ?case by blast
qed

section \<open>Adding a table\<close>

lemma zero_table:
  assumes "\<And>i. i < 512 \<Longrightarrow> ent m p i = 0" and "page_aligned p" and "p \<noteq> 0"
  shows "ptwf m l p \<and> tpages m l p = {p} \<and> ptev m l p va = 0"
  using assms PX_less [of l va] by (cases l) (auto simp: pvalid_def Let_def)

lemma ent_fill: "i < 512 \<Longrightarrow> ent (fill p 0 m) p i = 0"
proof -
  assume "i < 512"
  then have "ent (fill p 0 m) p i = ld64 (\<lambda>_. 0) (unat p + 8 * i)"
    unfolding ent_def by (intro ld64_cong) (simp add: blit_def)
  also have "\<dots> = 0" by (simp add: ld64_def numeral_eq_Suc)
  finally show ?thesis .
qed

lemma PTE_V_less: "PTE_V < 0x400" "pvalid (PA2PTE p OR PTE_V)" "pvalid (x OR y OR PTE_V)"
proof -
  show "PTE_V < 0x400" by (simp add: PTE_V_def)
  have "bit (z AND PTE_V) 0" if "bit z 0" for z using that by (simp add: PTE_V_def bit_simps)
  moreover have "bit (PA2PTE p OR PTE_V) 0" "bit (x OR y OR PTE_V) 0" by (simp_all add: PTE_V_def bit_simps)
  ultimately show "pvalid (PA2PTE p OR PTE_V)" "pvalid (x OR y OR PTE_V)"
    unfolding pvalid_def by (metis bit_0_eq zero_neq_one bot_apply bot_bool_def)+
qed

text \<open>A missing table is added: a zeroed page \<open>p\<close> outside the tree, entered at index \<open>i\<close>.\<close>

lemma add_table:
  assumes wf: "ptwf m (Suc l) pt" and i: "i < 512" "\<not> pvalid (ent m pt i)"
    and p: "p \<notin> tpages m (Suc l) pt" "page_aligned p" "p \<noteq> 0"
    and m': "m' = st64 (PA2PTE p OR PTE_V) (fill p 0 m) (unat pt + 8 * i)"
  shows "ent m' pt i = PA2PTE p OR PTE_V" and "PTE2PA (ent m' pt i) = p"
    and "ptwf m' (Suc l) pt" and "tpages m' (Suc l) pt = insert p (tpages m (Suc l) pt)"
    and "ptev m' (Suc l) pt va = ptev m (Suc l) pt va"
    and "agree_off {p, pt} m m'"
proof -
  have al: "page_aligned pt" using ptwf_root [OF wf] by blast
  have pt: "pt \<noteq> p" using p(1) by auto
  show ei: "ent m' pt i = PA2PTE p OR PTE_V" by (simp add: ent_def m')
  then show pi: "PTE2PA (ent m' pt i) = p" using PTE2PA_PA2PTE p(2) PTE_V_less by simp
  have ej: "ent m' pt j = ent m pt j" if "j < 512" "j \<noteq> i" for j
  proof -
    have "8 * j + 8 \<le> 8 * i \<or> 8 * i + 8 \<le> 8 * j" using that(2) by (cases "j < i") auto
    then have "ent m' pt j = ent (fill p 0 m) pt j" by (simp add: ent_def m' ld_st_other)
    also have "\<dots> = ent m pt j"
      by (rule ent_cong [OF _ that(1)], rule agree_off_on [of "{p}"])
        (use pt al p(2) in \<open>auto simp: agree_off_def blit_out\<close>)
    finally show ?thesis .
  qed
  show off: "agree_off {p, pt} m m'"
    using i(1) by (auto simp: agree_off_def m' blit_out st64_other)
  have ep: "ent m' p j = 0" if "j < 512" for j
  proof -
    have "ent m' p j = ent (fill p 0 m) p j"
      unfolding m' by (rule ent_cong [OF _ that], rule agree_off_on [OF st64_agree_off [OF i(1)]])
        (use pt al p(2) in auto)
    then show ?thesis using ent_fill [OF that] by simp
  qed
  note zt = zero_table [OF ep p(2,3)]
  have ch: "agree_on (tpages m l (PTE2PA (ent m pt j))) m m'" if j: "j < 512" "pvalid (ent m pt j)" for j
  proof (rule agree_off_on [OF off])
    show "{p, pt} \<inter> tpages m l (PTE2PA (ent m pt j)) = {}"
      using ptwf_child [OF wf j] p(1) tpages_child [OF j, of l] by blast
    show "\<forall>q \<in> {p, pt} \<union> tpages m l (PTE2PA (ent m pt j)). page_aligned q"
      using al p(2) tpages_aligned ptwf_child [OF wf j] by blast
  qed
  note cong = tree_cong [OF ch]
  have vj: "pvalid (ent m' pt j) \<longleftrightarrow> j = i \<or> pvalid (ent m pt j)" if "j < 512" for j
    using ej [OF that] ei PTE_V_less(2) i(2) by (cases "j = i") auto
  have tj: "tpages m' l (PTE2PA (ent m' pt j)) = (if j = i then {p} else tpages m l (PTE2PA (ent m pt j)))"
    if "j < 512" "pvalid (ent m' pt j)" for j
    using that ej vj pi zt cong by (cases "j = i") auto
  show "tpages m' (Suc l) pt = insert p (tpages m (Suc l) pt)"
  proof -
    have "(\<Union>j \<in> {j. j < 512 \<and> pvalid (ent m' pt j)}. tpages m' l (PTE2PA (ent m' pt j)))
      = insert p (\<Union>j \<in> {j. j < 512 \<and> pvalid (ent m pt j)}. tpages m l (PTE2PA (ent m pt j)))"
      using tj vj i by (auto split: if_splits)
    then show ?thesis by auto
  qed
  have wj: "ptwf m' l (PTE2PA (ent m' pt j)) \<and> pt \<notin> tpages m' l (PTE2PA (ent m' pt j))"
    if j: "j < 512" "pvalid (ent m' pt j)" for j
  proof (cases "j = i")
    case True
    then show ?thesis using pi zt pt by simp
  next
    case False
    then have "pvalid (ent m pt j)" using vj j by blast
    then show ?thesis using ptwf_child [OF wf j(1)] cong [OF j(1)] tj [OF j] ej [OF j(1) False] False by simp
  qed
  have dj: "tpages m' l (PTE2PA (ent m' pt j)) \<inter> tpages m' l (PTE2PA (ent m' pt k)) = {}"
    if "j < 512" "k < 512" "j \<noteq> k" "pvalid (ent m' pt j)" "pvalid (ent m' pt k)" for j k
  proof -
    have "p \<notin> tpages m l (PTE2PA (ent m pt j))" if "j < 512" "pvalid (ent m pt j)" for j
      using p(1) tpages_child [OF that, of l] by blast
    then show ?thesis
      using tj [OF that(1,4)] tj [OF that(2,5)] vj that ptwf_disjoint [OF wf that(1-3)] by auto
  qed
  show "ptwf m' (Suc l) pt" using ptwf_root [OF wf] wj dj by simp
  show "ptev m' (Suc l) pt va = ptev m (Suc l) pt va"
  proof (cases "px (Suc l) va = i")
    case True
    then show ?thesis using ei pi zt PTE_V_less(2) i(2) by (simp add: Let_def)
  next
    case False
    then show ?thesis using ej [OF PX_less False] cong [OF PX_less] by (auto simp: Let_def)
  qed
qed

declare ptwf.simps(2) [simp del] tpages.simps(2) [simp del]

section \<open>The frame of memory operations\<close>

text \<open>\<open>t\<close> differs from \<open>s\<close> only in memory and the free list (and in a saved \<open>intena\<close>).\<close>

definition kframe :: "'z kst_scheme \<Rightarrow> 'z kst_scheme \<Rightarrow> bool" where
  "kframe s t \<longleftrightarrow> (\<exists>m f. touch t = touch (s\<lparr>mem := m, freelist := f\<rparr>))"

lemma kframe_refl [simp]: "kframe s s"
  unfolding kframe_def by (rule exI [of _ "mem s"], rule exI [of _ "freelist s"]) simp

lemma kframe_upd [simp]:
  "kframe s (s\<lparr>mem := m\<rparr>)" "kframe s (s\<lparr>mem := m, freelist := f\<rparr>)" "kframe s (s\<lparr>freelist := f, mem := m\<rparr>)"
  "kframe s (touch t) \<longleftrightarrow> kframe s t"
proof -
  show "kframe s (s\<lparr>mem := m\<rparr>)"
    unfolding kframe_def by (rule exI [of _ m], rule exI [of _ "freelist s"]) simp
  show *: "kframe s (s\<lparr>mem := m, freelist := f\<rparr>)"
    unfolding kframe_def by (rule exI [of _ m], rule exI [of _ f]) simp
  have "s\<lparr>freelist := f, mem := m\<rparr> = s\<lparr>mem := m, freelist := f\<rparr>" by simp
  with * show "kframe s (s\<lparr>freelist := f, mem := m\<rparr>)" by (simp only:)
  show "kframe s (touch t) \<longleftrightarrow> kframe s t"
    unfolding kframe_def by simp
qed

lemma kframe_trans [trans]:
  assumes "kframe s t" and "kframe t u"
  shows "kframe s u"
proof -
  obtain m f where t: "touch t = touch (s\<lparr>mem := m, freelist := f\<rparr>)" using assms(1) by (auto simp: kframe_def)
  obtain m' f' where "touch u = touch (t\<lparr>mem := m', freelist := f'\<rparr>)" using assms(2) by (auto simp: kframe_def)
  also have "\<dots> = (touch t)\<lparr>mem := m', freelist := f'\<rparr>" by (simp add: locksimp)
  also have "\<dots> = touch (s\<lparr>mem := m', freelist := f'\<rparr>)" unfolding t by (simp add: locksimp)
  finally show ?thesis by (auto simp: kframe_def)
qed

lemma kframe_eqs:
  fixes s t :: "'z kst_scheme"
  assumes "kframe s t"
  shows "cpu_ok t \<longleftrightarrow> cpu_ok s" "lk_free lk t \<longleftrightarrow> lk_free lk s" "procs t = procs s" "kend t = kend s"
    "page_ok t = page_ok s" "tp t = tp s" "locks t = locks s" "slocks t = slocks s"
    "cpu_proc (cpus t c) = cpu_proc (cpus s c)" "etext t = etext s" "trampoline t = trampoline s"
    "kst.more t = kst.more s" "klog t = klog s" "kernel_pagetable t = kernel_pagetable s"
    "initproc t = initproc s" "nextpid t = nextpid s" "ticks t = ticks s"
proof -
  obtain m f where t: "touch t = touch (s\<lparr>mem := m, freelist := f\<rparr>)" using assms by (auto simp: kframe_def)
  have *: "g (touch t) = g (touch (s\<lparr>mem := m, freelist := f\<rparr>))" for g :: "'z kst_scheme \<Rightarrow> 'y"
    by (simp add: t)
  show "cpu_ok t \<longleftrightarrow> cpu_ok s" using * [of cpu_ok] by simp
  show "lk_free lk t \<longleftrightarrow> lk_free lk s" using * [of "lk_free lk"] by simp
  show "procs t = procs s" using * [of procs] by simp
  show "kend t = kend s" using * [of kend] by simp
  then show "page_ok t = page_ok s" by (simp add: page_ok_def fun_eq_iff)
  show "tp t = tp s" using * [of tp] by simp
  show "locks t = locks s" using * [of locks] by simp
  show "slocks t = slocks s" using * [of slocks] by simp
  show "cpu_proc (cpus t c) = cpu_proc (cpus s c)" using * [of "\<lambda>s. cpu_proc (cpus s c)"] by simp
  show "etext t = etext s" "trampoline t = trampoline s" using * [of etext] * [of trampoline] by simp_all
  show "klog t = klog s" using * [of klog] by simp
  show "kernel_pagetable t = kernel_pagetable s" using * [of kernel_pagetable] by simp
  show "initproc t = initproc s" "nextpid t = nextpid s" "ticks t = ticks s"
    using * [of initproc] * [of nextpid] * [of ticks] by simp_all
  show "kst.more t = kst.more s" using * [of kst.more] by (simp add: touch_def split: if_splits)
qed

section \<open>What \<open>walk\<close> does\<close>

lemma walk_loop_lookup:
  assumes "ptwf (mem s) l pt"
  shows "walk_loop l pt va False s = Ret (case leaf (mem s) l pt va of None \<Rightarrow> 0 | Some a \<Rightarrow> a) s"
  using assms
proof (induction l arbitrary: pt)
  case 0
  then show ?case by simp
next
  case (Suc l)
  let ?e = "ent (mem s) pt (px (Suc l) va)"
  have e: "pte_at s (pt + 8 * PX (Suc l) va) = ?e"
    using unat_slot ptwf_root [OF Suc.prems] by (simp add: ent_def)
  show ?case
  proof (cases "pvalid ?e")
    case True
    then show ?thesis
      using e Suc.IH ptwf_child [OF Suc.prems PX_less True] by (simp add: pvalid_def Let_def)
  next
    case False
    then show ?thesis using e by (simp add: pvalid_def Let_def)
  qed
qed

text \<open>The facts a memory operation on the table \<open>pt\<close> starts from.\<close>

definition vm_ok :: "uint64 list \<Rightarrow> nat \<Rightarrow> uint64 \<Rightarrow> 'z kst_scheme \<Rightarrow> bool" where
  "vm_ok ps l pt s \<longleftrightarrow> cpu_ok s \<and> lk_free L_kmem s \<and> kinv ps s \<and> ptwf (mem s) l pt
     \<and> tpages (mem s) l pt \<inter> set ps = {}"

text \<open>What \<open>walk\<close> with \<open>alloc\<close> guarantees.\<close>

definition walk_post :: "uint64 list \<Rightarrow> nat \<Rightarrow> uint64 \<Rightarrow> uint64 \<Rightarrow> uint64 \<Rightarrow> 'z kst_scheme \<Rightarrow> 'z kst_scheme \<Rightarrow> bool" where
  "walk_post ps l pt va r s t \<longleftrightarrow> (\<exists>us rest. ps = us @ rest \<and> vm_ok rest l pt t \<and> kframe s t
     \<and> tpages (mem t) l pt \<subseteq> tpages (mem s) l pt \<union> set us
     \<and> agree_off (tpages (mem s) l pt \<union> set us) (mem s) (mem t)
     \<and> (\<forall>va'. ptev (mem t) l pt va' = ptev (mem s) l pt va')
     \<and> (if r = 0 then rest = [] else leaf (mem t) l pt va = Some r))"

lemma kinv_aligned: "kinv ps s \<Longrightarrow> p \<in> set ps \<Longrightarrow> page_aligned p \<and> p \<noteq> 0"
  by (auto simp: kinv_def page_ok_def)

lemma walk_post_valid:
  assumes ok: "vm_ok ps (Suc l) pt s" and v: "pvalid (ent (mem s) pt (px (Suc l) va))"
    and post: "walk_post ps l (PTE2PA (ent (mem s) pt (px (Suc l) va))) va r s t"
  shows "walk_post ps (Suc l) pt va r s t"
proof -
  let ?i = "px (Suc l) va" and ?m = "mem s" and ?m' = "mem t"
  let ?c = "PTE2PA (ent ?m pt ?i)"
  obtain us rest where ps: "ps = us @ rest" and okc: "vm_ok rest l ?c t" and fr: "kframe s t"
    and sub: "tpages ?m' l ?c \<subseteq> tpages ?m l ?c \<union> set us"
    and off: "agree_off (tpages ?m l ?c \<union> set us) ?m ?m'"
    and ev: "\<forall>va'. ptev ?m' l ?c va' = ptev ?m l ?c va'"
    and r: "if r = 0 then rest = [] else leaf ?m' l ?c va = Some r"
    using post by (auto simp: walk_post_def)
  have wf: "ptwf ?m (Suc l) pt" and dis: "tpages ?m (Suc l) pt \<inter> set ps = {}" and kv: "kinv ps s"
    using ok by (auto simp: vm_ok_def)
  have P: "set us \<inter> tpages ?m (Suc l) pt = {}" "\<forall>p \<in> set us. page_aligned p"
    using dis ps kinv_aligned [OF kv] by auto
  have wfc: "ptwf ?m' l ?c" using okc by (simp add: vm_ok_def)
  note ch = subtree_change [OF wf PX_less v wfc sub P off]
  have "distinct ps" using kv by (simp add: kinv_def)
  then have "tpages ?m' (Suc l) pt \<inter> set rest = {}" using ch(2) dis ps by auto
  then have "vm_ok rest (Suc l) pt t" using okc ch(1) by (simp add: vm_ok_def)
  moreover have "agree_off (tpages ?m (Suc l) pt \<union> set us) ?m ?m'"
    using off tpages_child [OF PX_less v, of l] by (blast intro: agree_off_mono)
  moreover have "ptev ?m' (Suc l) pt va' = ptev ?m (Suc l) pt va'" for va'
  proof (cases "px (Suc l) va' = ?i")
    case True
    then show ?thesis using ch(3) [OF PX_less] ev v by (simp add: Let_def)
  next
    case False
    then show ?thesis by (rule ch(4))
  qed
  moreover have "if r = 0 then rest = [] else leaf ?m' (Suc l) pt va = Some r"
    using r ch(3) [OF PX_less] v by (auto simp: Let_def)
  ultimately show ?thesis using ps fr ch(2) unfolding walk_post_def by blast
qed

lemma kinv_agree:
  assumes "kinv ps s" and "agree_off P (mem s) m" and "P \<inter> set ps = {}" and "\<forall>p \<in> P. page_aligned p"
  shows "kinv ps (s\<lparr>mem := m\<rparr>)"
proof -
  have "\<forall>p \<in> P \<union> set ps. page_aligned p" using assms(4) kinv_aligned [OF assms(1)] by blast
  then have "agree_on (set ps) (mem s) m" by (rule agree_off_on [OF assms(2,3)])
  then have "flist m (freelist s) ps"
    using assms(1) by (auto simp: kinv_def agree_on_def intro: flist_cong)
  then show ?thesis using assms(1) by (simp add: kinv_def page_ok_def)
qed

lemma blit_blit [simp]: "blit a n f (blit a n g m) = blit a n f m"
  by (auto simp: blit_def)

lemma walk_step_alloc:
  assumes ok: "vm_ok (p # qs) (Suc l) pt s" and i: "i < 512" "\<not> pvalid (ent (mem s) pt i)"
    and s2: "s2 = (touch (s\<lparr>freelist := ld64 (mem s) (unat p), mem := fill p 5 (mem s)\<rparr>))
               \<lparr>mem := st64 (PA2PTE p OR PTE_V) (fill p 0 (mem s)) (unat pt + 8 * i)\<rparr>"
  shows "vm_ok qs (Suc l) pt s2" and "kframe s s2" and "pvalid (ent (mem s2) pt i)"
    and "PTE2PA (ent (mem s2) pt i) = p"
    and "tpages (mem s2) (Suc l) pt = insert p (tpages (mem s) (Suc l) pt)"
    and "ptev (mem s2) (Suc l) pt va = ptev (mem s) (Suc l) pt va"
    and "agree_off {p, pt} (mem s) (mem s2)"
proof -
  let ?m' = "st64 (PA2PTE p OR PTE_V) (fill p 0 (mem s)) (unat pt + 8 * i)"
  let ?s1 = "s\<lparr>freelist := ld64 (mem s) (unat p), mem := fill p 5 (mem s)\<rparr>"
  have kv: "kinv (p # qs) s" and wf: "ptwf (mem s) (Suc l) pt" and c: "cpu_ok s" and f: "lk_free L_kmem s"
    and dis: "tpages (mem s) (Suc l) pt \<inter> set (p # qs) = {}"
    using ok by (auto simp: vm_ok_def)
  have p: "p \<notin> tpages (mem s) (Suc l) pt" "page_aligned p" "p \<noteq> 0"
    using dis kinv_aligned [OF kv, of p] by auto
  have m: "mem s2 = ?m'" by (simp add: s2)
  note add = add_table [OF wf i p m]
  show "PTE2PA (ent (mem s2) pt i) = p" "ptev (mem s2) (Suc l) pt va = ptev (mem s) (Suc l) pt va"
    "tpages (mem s2) (Suc l) pt = insert p (tpages (mem s) (Suc l) pt)" "agree_off {p, pt} (mem s) (mem s2)"
    using add by blast+
  show "pvalid (ent (mem s2) pt i)" using add(1) PTE_V_less(2) by simp
  show "kframe s s2" unfolding s2 by (rule kframe_trans [of _ "touch ?s1"]) simp_all
  have pt: "page_aligned pt" "pt \<notin> set qs"
    using ptwf_root [OF wf] dis root_in_tpages [of pt "mem s" "Suc l"] unfolding list.set by blast+
  have dq: "p \<notin> set qs" using kv by (simp add: kinv_def)
  have "kinv qs (touch ?s1)" using kalloc_page(2) [OF c f kv] by simp
  then have "kinv qs s2"
    unfolding s2
  proof (rule kinv_agree [where P = "{p, pt}"])
    show "agree_off {p, pt} (mem (touch ?s1)) ?m'"
      using i(1) by (auto simp: agree_off_def blit_out st64_other)
  qed (use pt dq p in auto)
  moreover have "cpu_ok s2" "lk_free L_kmem s2" using c f by (simp_all add: s2)
  moreover have "tpages (mem s2) (Suc l) pt \<inter> set qs = {}" using add(4) dis dq by auto
  ultimately show "vm_ok qs (Suc l) pt s2" using add(3) by (simp add: vm_ok_def)
qed

lemma walk_loop_alloc:
  fixes s :: "'z kst_scheme"
  shows "vm_ok ps l pt s \<Longrightarrow> \<exists>r t. walk_loop l pt va True s = Ret r t \<and> walk_post ps l pt va r s t"
proof (induction l arbitrary: pt s ps)
  case 0
  then have "page_aligned pt" "unat pt \<noteq> 0" by (auto simp: vm_ok_def unat_eq_0)
  then have "pt + 8 * PX 0 va \<noteq> 0" using unat_slot [of pt 0 va] by (auto simp flip: unat_eq_0)
  moreover have "\<exists>us rest. ps = us @ rest \<and> vm_ok rest 0 pt s \<and> us = []" using 0 by simp
  ultimately show ?case by (auto simp: walk_post_def)
next
  case (Suc l)
  let ?i = "px (Suc l) va"
  have wf: "ptwf (mem s) (Suc l) pt" and kv: "kinv ps s" and c: "cpu_ok s" and f: "lk_free L_kmem s"
    using Suc.prems by (auto simp: vm_ok_def)
  have slot: "unat (pt + 8 * PX (Suc l) va) = unat pt + 8 * ?i" using unat_slot ptwf_root [OF wf] by blast
  have valid: "\<exists>r t. walk_loop (Suc l) pt va True u = Ret r t \<and> walk_post qs (Suc l) pt va r u t"
    if ok: "vm_ok qs (Suc l) pt u" and v: "pvalid (ent (mem u) pt ?i)" for u :: "'z kst_scheme" and qs
  proof -
    have "vm_ok qs l (PTE2PA (ent (mem u) pt ?i)) u"
      using ok ptwf_child [OF _ PX_less v] tpages_child [OF PX_less v, of l] unfolding vm_ok_def by blast
    from Suc.IH [OF this] obtain r t where
      "walk_loop l (PTE2PA (ent (mem u) pt ?i)) va True u = Ret r t"
      "walk_post qs l (PTE2PA (ent (mem u) pt ?i)) va r u t" by blast
    moreover have "pte_at u (pt + 8 * PX (Suc l) va) = ent (mem u) pt ?i" by (simp add: slot ent_def)
    ultimately show ?thesis using walk_post_valid [OF ok v] v by (auto simp: Let_def pvalid_def)
  qed
  show ?case
  proof (cases "pvalid (ent (mem s) pt ?i)")
    case True
    then show ?thesis by (rule valid [OF Suc.prems])
  next
    case False
    have e: "pte_at s (pt + 8 * PX (Suc l) va) AND PTE_V = 0"
      using False by (simp add: slot ent_def pvalid_def)
    show ?thesis
    proof (cases ps)
      case Nil
      then have "kalloc s = Ret 0 (touch s)" using kalloc_empty c f kv by blast
      then have "walk_loop (Suc l) pt va True s = Ret 0 (touch s)" using e by (simp add: Let_def)
      moreover have "walk_post ps (Suc l) pt va 0 s (touch s)"
        using Suc.prems Nil by (auto simp: walk_post_def vm_ok_def)
      ultimately show ?thesis by blast
    next
      case (Cons p qs)
      let ?s2 = "(touch (s\<lparr>freelist := ld64 (mem s) (unat p), mem := fill p 5 (mem s)\<rparr>))
               \<lparr>mem := st64 (PA2PTE p OR PTE_V) (fill p 0 (mem s)) (unat pt + 8 * ?i)\<rparr>"
      note step = walk_step_alloc [OF Suc.prems [unfolded Cons] PX_less False refl]
      obtain r t where w: "walk_loop (Suc l) pt va True ?s2 = Ret r t" and post: "walk_post qs (Suc l) pt va r ?s2 t"
        using valid [OF step(1,3)] by blast
      have p0: "p \<noteq> 0" using kinv_aligned [OF kv] Cons by simp
      have "pte_at ?s2 (pt + 8 * PX (Suc l) va) = ent (mem ?s2) pt ?i" by (simp only: slot ent_def)
      then have "walk_loop (Suc l) pt va True ?s2 = walk_loop l p va True ?s2"
        using step(3,4) by (simp only: walk_loop.simps Let_def pvalid_def if_True) simp
      moreover have "walk_loop (Suc l) pt va True s = walk_loop l p va True ?s2"
        using e p0 kalloc_page(1) [OF c f kv [unfolded Cons]]
        by (simp add: Let_def memset_eq slot)
      ultimately have "walk_loop (Suc l) pt va True s = Ret r t" using w by simp
      moreover have "walk_post ps (Suc l) pt va r s t"
      proof -
        obtain us rest where qs: "qs = us @ rest" and ok: "vm_ok rest (Suc l) pt t" and fr: "kframe ?s2 t"
          and sub: "tpages (mem t) (Suc l) pt \<subseteq> tpages (mem ?s2) (Suc l) pt \<union> set us"
          and off: "agree_off (tpages (mem ?s2) (Suc l) pt \<union> set us) (mem ?s2) (mem t)"
          and ev: "\<forall>va'. ptev (mem t) (Suc l) pt va' = ptev (mem ?s2) (Suc l) pt va'"
          and r: "if r = 0 then rest = [] else leaf (mem t) (Suc l) pt va = Some r"
          using post unfolding walk_post_def by blast
        have "ps = (p # us) @ rest" using Cons qs by simp
        moreover have "kframe s t" by (rule kframe_trans [OF step(2) fr])
        moreover have "tpages (mem t) (Suc l) pt \<subseteq> tpages (mem s) (Suc l) pt \<union> set (p # us)"
          using sub unfolding step(5) by auto
        moreover have "agree_off (tpages (mem s) (Suc l) pt \<union> set (p # us)) (mem s) (mem t)"
        proof (rule agree_off_mono [OF agree_off_trans [OF step(7) off]])
          show "{p, pt} \<union> (tpages (mem ?s2) (Suc l) pt \<union> set us) \<subseteq> tpages (mem s) (Suc l) pt \<union> set (p # us)"
            unfolding step(5) by auto
        qed
        moreover have "\<forall>va'. ptev (mem t) (Suc l) pt va' = ptev (mem s) (Suc l) pt va'"
          using ev step(6) by simp
        ultimately show ?thesis using ok r unfolding walk_post_def by blast
      qed
      ultimately show ?thesis by blast
    qed
  qed
qed

section \<open>What \<open>mappages\<close> does\<close>

lemma drop12_eq: "unat (drop_bit 12 va) = unat (va :: uint64) div 4096"
  unfolding unat_drop_bit_eq by (simp add: drop_bit_eq_div)

lemma same_px_iff:
  assumes "va < MAXVA" and "va' < MAXVA"
  shows "same_px 2 va va' \<longleftrightarrow> unat va div 4096 = unat va' div 4096"
proof
  have pg: "drop_bit 12 w = push_bit 18 (PX 2 w) OR push_bit 9 (PX 1 w) OR PX 0 w" if "w < MAXVA" for w
  proof -
    have "drop_bit 12 w = drop_bit 12 (push_bit 30 (PX 2 w) OR push_bit 21 (PX 1 w) OR push_bit 12 (PX 0 w)
            OR take_bit 12 w)"
      using va_split [OF that] by simp
    also have "\<dots> = push_bit 18 (PX 2 w) OR push_bit 9 (PX 1 w) OR PX 0 w"
      by (rule bit_word_eqI) (auto simp: PX_take_bit bit_simps)
    finally show ?thesis .
  qed
  assume "same_px 2 va va'"
  then have "PX 2 va = PX 2 va'" "PX 1 va = PX 1 va'" "PX 0 va = PX 0 va'"
    by (simp_all add: same_px_def unat_inj)
  then have "drop_bit 12 va = drop_bit 12 va'" using pg assms by simp
  then show "unat va div 4096 = unat va' div 4096" by (simp flip: drop12_eq)
next
  assume "unat va div 4096 = unat va' div 4096"
  then have d: "drop_bit 12 va = drop_bit 12 va'" by (simp add: unat_inj flip: drop12_eq)
  have "drop_bit (12 + 9 * k) w = drop_bit (9 * k) (drop_bit 12 w)" for k and w :: uint64
    by (simp add: add.commute)
  then have "PX k va = PX k va'" for k unfolding PX_take_bit using d by metis
  then show "same_px 2 va va'" by (simp add: same_px_def)
qed

text \<open>What an operation on the table \<open>pt\<close> leaves: it has used the pages \<open>us\<close> of the free list.\<close>

definition vm_step :: "uint64 list \<Rightarrow> uint64 list \<Rightarrow> uint64 \<Rightarrow> 'z kst_scheme \<Rightarrow> 'z kst_scheme \<Rightarrow> bool" where
  "vm_step us rest pt s t \<longleftrightarrow> vm_ok rest 2 pt t \<and> kframe s t
     \<and> tpages (mem t) 2 pt \<subseteq> tpages (mem s) 2 pt \<union> set us
     \<and> agree_off (tpages (mem s) 2 pt \<union> set us) (mem s) (mem t)"

lemma vm_step_trans:
  assumes "vm_step us rest pt s t" and "vm_step vs rest' pt t u"
  shows "vm_step (us @ vs) rest' pt s u"
proof -
  have "agree_off (tpages (mem s) 2 pt \<union> set us \<union> (tpages (mem t) 2 pt \<union> set vs)) (mem s) (mem u)"
    using assms agree_off_trans by (auto simp: vm_step_def)
  then have "agree_off (tpages (mem s) 2 pt \<union> set (us @ vs)) (mem s) (mem u)"
    by (rule agree_off_mono) (use assms in \<open>auto simp: vm_step_def\<close>)
  then show ?thesis using assms by (auto simp: vm_step_def intro: kframe_trans)
qed

lemma set_pte_step:
  assumes ok: "vm_ok ps 2 pt s" and lf: "leaf (mem s) 2 pt va = Some r"
  shows "vm_step [] ps pt s (set_pte r v s)"
    and "ptev (mem (set_pte r v s)) 2 pt va' = (if same_px 2 va' va then v else ptev (mem s) 2 pt va')"
proof -
  have wf: "ptwf (mem s) 2 pt" and kv: "kinv ps s" and d: "tpages (mem s) 2 pt \<inter> set ps = {}"
    using ok by (auto simp: vm_ok_def)
  note sl = set_leaf [OF wf lf, of v]
  have "kinv ps (set_pte r v s)"
    by (rule kinv_agree [OF kv _ d]) (use sl tpages_aligned [OF wf] in blast)+
  then show "vm_step [] ps pt s (set_pte r v s)"
    using ok sl d by (auto simp: vm_step_def vm_ok_def)
  show "ptev (mem (set_pte r v s)) 2 pt va' = (if same_px 2 va' va then v else ptev (mem s) 2 pt va')"
    using sl by simp
qed

lemma walk_alloc_step:
  assumes "vm_ok ps 2 pt s" and "va < MAXVA"
  obtains r t us rest where "walk pt va True s = Ret r t" and "ps = us @ rest" and "vm_step us rest pt s t"
    and "\<And>va'. ptev (mem t) 2 pt va' = ptev (mem s) 2 pt va'"
    and "r = 0 \<Longrightarrow> rest = []" and "r \<noteq> 0 \<Longrightarrow> leaf (mem t) 2 pt va = Some r"
proof -
  obtain r t where w: "walk_loop 2 pt va True s = Ret r t" "walk_post ps 2 pt va r s t"
    using walk_loop_alloc [OF assms(1)] by blast
  then obtain us rest where u: "ps = us @ rest" "vm_ok rest 2 pt t" "kframe s t"
     "tpages (mem t) 2 pt \<subseteq> tpages (mem s) 2 pt \<union> set us"
     "agree_off (tpages (mem s) 2 pt \<union> set us) (mem s) (mem t)"
     "\<forall>va'. ptev (mem t) 2 pt va' = ptev (mem s) 2 pt va'"
     "if r = 0 then rest = [] else leaf (mem t) 2 pt va = Some r"
    unfolding walk_post_def by blast
  have "walk pt va True s = Ret r t" using w assms(2) by (simp add: walk_def)
  moreover have "vm_step us rest pt s t" using u(2-5) unfolding vm_step_def by blast
  ultimately show ?thesis using that u(1,6,7) by (auto split: if_splits)
qed

lemma mappages_one:
  fixes s :: "'z kst_scheme"
  assumes "vm_ok ps 2 pt s" and "a < MAXVA" and "\<not> pvalid (ptev (mem s) 2 pt a)"
  obtains (fail) t where "mappages_loop pt a lastpg pa perm s = Ret (-1) t" and "vm_step ps [] pt s t"
      and "\<And>va. ptev (mem t) 2 pt va = ptev (mem s) 2 pt va"
  | (ok) t us rest where "mappages_loop pt a lastpg pa perm s =
        (if a = lastpg then Ret 0 t else mappages_loop pt (a + PGSIZE) lastpg (pa + PGSIZE) perm t)"
      and "ps = us @ rest" and "vm_step us rest pt s t"
      and "\<And>va. ptev (mem t) 2 pt va =
        (if same_px 2 va a then PA2PTE pa OR perm OR PTE_V else ptev (mem s) 2 pt va)"
proof -
  obtain r t us rest where w: "walk pt a True s = Ret r t" and ps: "ps = us @ rest"
    and st: "vm_step us rest pt s t" and ev: "\<And>va'. ptev (mem t) 2 pt va' = ptev (mem s) 2 pt va'"
    and r: "r = 0 \<Longrightarrow> rest = []" "r \<noteq> 0 \<Longrightarrow> leaf (mem t) 2 pt a = Some r"
    using walk_alloc_step [OF assms(1,2)] by blast
  show ?thesis
  proof (cases "r = 0")
    case True
    then have "mappages_loop pt a lastpg pa perm s = Ret (-1) t"
      using w by (subst mappages_loop.simps) simp
    then show ?thesis using fail st ev ps r(1) True by simp
  next
    case False
    let ?v = "PA2PTE pa OR perm OR PTE_V"
    have ok': "vm_ok rest 2 pt t" using st by (simp add: vm_step_def)
    have "pte_at t r = ptev (mem t) 2 pt a"
      using ptev_leaf r(2) [OF False] ok' by (simp add: vm_ok_def)
    then have nv: "pte_at t r AND PTE_V = 0" using ev assms(3) by (simp add: pvalid_def)
    have eq: "mappages_loop pt a lastpg pa perm s =
        (if a = lastpg then Ret 0 (set_pte r ?v t)
         else mappages_loop pt (a + PGSIZE) lastpg (pa + PGSIZE) perm (set_pte r ?v t))"
      using w False nv by (subst mappages_loop.simps) (simp add: Let_def)
    note sp = set_pte_step [OF ok' r(2) [OF False], of ?v]
    have "vm_step us rest pt s (set_pte r ?v t)"
      using vm_step_trans [OF st sp(1)] by simp
    with eq ps show ?thesis
      by (rule ok) (use sp(2) ev in simp)
  qed
qed

lemma page_of:
  assumes "page_aligned a"
  shows "unat (va :: uint64) div 4096 = unat a div 4096 \<longleftrightarrow> unat a \<le> unat va \<and> unat va < unat a + 4096"
proof -
  obtain k where "unat a = 4096 * k"
    using assms by (auto simp: page_aligned_def elim!: dvdE simp flip: dvd_eq_mod_eq_0)
  then show ?thesis by auto
qed

lemma mappages_loop_spec:
  fixes s :: "'z kst_scheme"
  assumes "vm_ok ps 2 pt s" and "page_aligned a" and "unat a + 4096 * n < 2 ^ 38"
    and "lastpg = a + word_of_nat (4096 * n)"
    and "\<And>va. va < MAXVA \<Longrightarrow> unat a \<le> unat va \<Longrightarrow> unat va < unat a + 4096 * Suc n \<Longrightarrow>
           \<not> pvalid (ptev (mem s) 2 pt va)"
  shows "\<exists>r t us rest. mappages_loop pt a lastpg pa perm s = Ret r t \<and> ps = us @ rest \<and> vm_step us rest pt s t
    \<and> (r = 0 \<or> r = -1 \<and> rest = [])
    \<and> (\<forall>va < MAXVA. \<not> (unat a \<le> unat va \<and> unat va < unat a + 4096 * Suc n) \<longrightarrow>
          ptev (mem t) 2 pt va = ptev (mem s) 2 pt va)
    \<and> (r = 0 \<longrightarrow> (\<forall>va < MAXVA. unat a \<le> unat va \<and> unat va < unat a + 4096 * Suc n \<longrightarrow>
          ptev (mem t) 2 pt va = PA2PTE (pa + word_of_nat ((unat va - unat a) div 4096 * 4096)) OR perm OR PTE_V))"
  using assms
proof (induction n arbitrary: a pa s ps)
  case 0
  have a: "a < MAXVA" using 0(3) by (simp add: word_less_nat_alt MAXVA_unat)
  have nv: "\<not> pvalid (ptev (mem s) 2 pt a)" using 0(5) [OF a] by simp
  have in_pg: "same_px 2 va a \<longleftrightarrow> unat a \<le> unat va \<and> unat va < unat a + 4096" if "va < MAXVA" for va
    using same_px_iff [OF that a] page_of [OF 0(2)] by simp
  from 0(1) a nv show ?case
  proof (cases rule: mappages_one [where lastpg = lastpg and pa = pa and perm = perm])
    case (fail t)
    then show ?thesis by (intro exI [of _ "-1"] exI [of _ t] exI [of _ ps] exI [of _ "[]"]) simp
  next
    case (ok t us rest)
    then show ?thesis using 0(4) in_pg
      by (intro exI [of _ 0] exI [of _ t] exI [of _ us] exI [of _ rest]) auto
  qed
next
  case (Suc n)
  have a: "a < MAXVA" using Suc.prems(3) by (simp add: word_less_nat_alt MAXVA_unat)
  have nv: "\<not> pvalid (ptev (mem s) 2 pt a)" using Suc.prems(5) [OF a] by simp
  have in_pg: "same_px 2 va a \<longleftrightarrow> unat a \<le> unat va \<and> unat va < unat a + 4096" if "va < MAXVA" for va
    using same_px_iff [OF that a] page_of [OF Suc.prems(2)] by simp
  have na: "unat (a + PGSIZE) = unat a + 4096" by (rule unat_next_page [OF a])
  have neq: "a \<noteq> lastpg"
  proof
    assume "a = lastpg"
    then have "word_of_nat (4096 * Suc n) = (0 :: uint64)" using Suc.prems(4) by simp
    then have "unat (word_of_nat (4096 * Suc n) :: uint64) = 0" by simp
    then show False using Suc.prems(3) unat_of_nat64 [of "4096 * Suc n"] by simp
  qed
  from Suc.prems(1) a nv show ?case
  proof (cases rule: mappages_one [where lastpg = lastpg and pa = pa and perm = perm])
    case (fail t)
    then show ?thesis by (intro exI [of _ "-1"] exI [of _ t] exI [of _ ps] exI [of _ "[]"]) simp
  next
    case (ok t us rest)
    have vt: "vm_ok rest 2 pt t" using ok(3) by (simp add: vm_step_def)
    have "\<exists>r u vs rest'. mappages_loop pt (a + PGSIZE) lastpg (pa + PGSIZE) perm t = Ret r u
      \<and> rest = vs @ rest' \<and> vm_step vs rest' pt t u \<and> (r = 0 \<or> r = -1 \<and> rest' = [])
      \<and> (\<forall>va < MAXVA. \<not> (unat (a + PGSIZE) \<le> unat va \<and> unat va < unat (a + PGSIZE) + 4096 * Suc n) \<longrightarrow>
          ptev (mem u) 2 pt va = ptev (mem t) 2 pt va)
      \<and> (r = 0 \<longrightarrow> (\<forall>va < MAXVA. unat (a + PGSIZE) \<le> unat va \<and> unat va < unat (a + PGSIZE) + 4096 * Suc n \<longrightarrow>
          ptev (mem u) 2 pt va = PA2PTE (pa + PGSIZE + word_of_nat ((unat va - unat (a + PGSIZE)) div 4096 * 4096)) OR perm OR PTE_V))"
    proof (rule Suc.IH [OF vt])
      show "page_aligned (a + PGSIZE)" using Suc.prems(2) na by (simp add: page_aligned_def)
      show "unat (a + PGSIZE) + 4096 * n < 2 ^ 38" using Suc.prems(3) na by simp
      show "lastpg = a + PGSIZE + word_of_nat (4096 * n)" using Suc.prems(4) by (simp add: PGSIZE_def)
      show "\<not> pvalid (ptev (mem t) 2 pt va)"
        if "va < MAXVA" "unat (a + PGSIZE) \<le> unat va" "unat va < unat (a + PGSIZE) + 4096 * Suc n" for va
        using ok(4) [of va] in_pg [OF that(1)] Suc.prems(5) [OF that(1)] that na by simp
    qed
    then obtain r u vs rest' where u: "mappages_loop pt (a + PGSIZE) lastpg (pa + PGSIZE) perm t = Ret r u"
      "rest = vs @ rest'" "vm_step vs rest' pt t u" "r = 0 \<or> r = -1 \<and> rest' = []"
      "\<And>va. va < MAXVA \<Longrightarrow> \<not> (unat a + 4096 \<le> unat va \<and> unat va < unat a + 4096 + 4096 * Suc n) \<Longrightarrow>
          ptev (mem u) 2 pt va = ptev (mem t) 2 pt va"
      "\<And>va. r = 0 \<Longrightarrow> va < MAXVA \<Longrightarrow> unat a + 4096 \<le> unat va \<Longrightarrow> unat va < unat a + 4096 + 4096 * Suc n \<Longrightarrow>
          ptev (mem u) 2 pt va = PA2PTE (pa + PGSIZE + word_of_nat ((unat va - (unat a + 4096)) div 4096 * 4096)) OR perm OR PTE_V"
      unfolding na by blast
    have "mappages_loop pt a lastpg pa perm s = Ret r u" using ok(1) u(1) neq by simp
    moreover have "ps = (us @ vs) @ rest'" using ok(2) u(2) by simp
    moreover have "vm_step (us @ vs) rest' pt s u" by (rule vm_step_trans [OF ok(3) u(3)])
    moreover have "ptev (mem u) 2 pt va = ptev (mem s) 2 pt va"
      if "va < MAXVA" "\<not> (unat a \<le> unat va \<and> unat va < unat a + 4096 * Suc (Suc n))" for va
      using u(5) [OF that(1)] ok(4) [of va] in_pg [OF that(1)] that(2) by auto
    moreover have "ptev (mem u) 2 pt va = PA2PTE (pa + word_of_nat ((unat va - unat a) div 4096 * 4096)) OR perm OR PTE_V"
      if "r = 0" "va < MAXVA" "unat a \<le> unat va" "unat va < unat a + 4096 * Suc (Suc n)" for va
    proof (cases "unat va < unat a + 4096")
      case True
      then show ?thesis using u(5) [OF that(2)] ok(4) [of va] in_pg [OF that(2)] that(3) by simp
    next
      case False
      then obtain d where d: "unat va = unat a + 4096 + d" using le_Suc_ex [of "unat a + 4096" "unat va"] by auto
      have "(4096 + d) div 4096 = Suc (d div 4096)" by simp
      then show ?thesis using u(6) [OF that(1,2)] that(4) d by (simp add: PGSIZE_def add.assoc)
    qed
    ultimately show ?thesis using u(4)
      by (intro exI [of _ r] exI [of _ u] exI [of _ "us @ vs"] exI [of _ rest']) blast
  qed
qed

end
