(* ===== verification/Xv6_Copy.thy ===== *)
theory Xv6_Copy
  imports Xv6_Pagetable
begin

text \<open>
  User memory as the kernel's copy functions see it: a partial map from user addresses to
  physical addresses, given by the page table. \<open>copyin\<close> reads exactly this memory, \<open>copyout\<close>
  writes it, and both fail when a page of the range is not mapped for the user.
\<close>

section \<open>Translation of user addresses\<close>

definition upa :: "bytes \<Rightarrow> uint64 \<Rightarrow> uint64 \<Rightarrow> uint64" where
  "upa m pt va =
     (if va \<ge> MAXVA then 0
      else let e = ptev m 2 pt va in
           if e AND PTE_V = 0 \<or> e AND PTE_U = 0 then 0 else PTE2PA e)"

text \<open>The page of a byte address, and the physical address of the byte.\<close>

abbreviation pageof :: "nat \<Rightarrow> uint64" where
  "pageof a \<equiv> word_of_nat (a div 4096 * 4096)"

definition uaddr :: "bytes \<Rightarrow> uint64 \<Rightarrow> nat \<Rightarrow> nat" where
  "uaddr m pt a = unat (upa m pt (pageof a)) + a mod 4096"

definition umapped :: "bytes \<Rightarrow> uint64 \<Rightarrow> nat \<Rightarrow> nat \<Rightarrow> bool" where
  "umapped m pt a n \<longleftrightarrow> (\<forall>i < n. upa m pt (pageof (a + i)) \<noteq> 0)"

lemma walkaddr_eq:
  assumes "ptwf (mem s) 2 pt"
  shows "walkaddr pt va s = Ret (upa (mem s) pt va) s"
proof (cases "va \<ge> MAXVA")
  case True
  then show ?thesis by (simp add: walkaddr_def upa_def)
next
  case False
  then have w: "walk pt va False s = Ret (case leaf (mem s) 2 pt va of None \<Rightarrow> 0 | Some a \<Rightarrow> a) s"
    using walk_loop_lookup [OF assms] by (simp add: walk_def)
  show ?thesis
  proof (cases "leaf (mem s) 2 pt va")
    case None
    then show ?thesis using w False leaf_None [OF None] by (simp add: walkaddr_def upa_def)
  next
    case (Some a)
    then show ?thesis using w False ptev_leaf [OF assms Some] by (simp add: walkaddr_def upa_def Let_def)
  qed
qed

lemma upa_aligned: "page_aligned (upa m pt va)"
  by (simp add: upa_def Let_def PTE2PA_aligned) (simp add: page_aligned_def)

lemma upa_off:
  "unat (upa m pt va0 + (va - PGROUNDDOWN va)) = unat (upa m pt va0) + unat va mod 4096"
proof -
  have "unat (upa m pt va0) \<le> 0xfffffffffffff000" using page_aligned_top [OF upa_aligned, of m pt va0] by simp
  moreover have "unat va mod 4096 < 4096" by simp
  ultimately have "unat (upa m pt va0) + unat (va - PGROUNDDOWN va) < 2 ^ 64"
    unfolding page_offset by simp
  from unat_add64 [OF this] show ?thesis unfolding page_offset .
qed

lemma pageof_unat: "pageof (unat va) = PGROUNDDOWN va"
proof -
  have "pageof (unat va) = word_of_nat (unat (PGROUNDDOWN va))" by (simp only: unat_PGROUNDDOWN)
  then show ?thesis by simp
qed

lemma upa_less: "upa m pt va \<noteq> 0 \<Longrightarrow> va < MAXVA"
  by (auto simp: upa_def split: if_splits)

lemma umapped_bound:
  assumes "umapped m pt (unat (va :: uint64)) n" and "n > 0"
  shows "unat va + n \<le> 2 ^ 38"
proof (rule ccontr)
  assume neg: "\<not> unat va + n \<le> 2 ^ 38"
  define i where "i = (if unat va < 2 ^ 38 then 2 ^ 38 - unat va else 0)"
  have va: "unat va < 2 ^ 64" using unsigned_less [where w = va] by simp
  have i: "i < n" "2 ^ 38 \<le> unat va + i" "unat va + i < 2 ^ 64"
    using neg assms(2) va by (auto simp: i_def)
  then have lt: "(unat va + i) div 4096 * 4096 < 2 ^ 64" by simp
  have "upa m pt (pageof (unat va + i)) \<noteq> 0" using assms(1) i(1) by (simp add: umapped_def)
  then have "pageof (unat va + i) < MAXVA" by (rule upa_less)
  then have "unat (pageof (unat va + i)) < unat MAXVA" by (simp only: word_less_nat_alt)
  then have "(unat va + i) div 4096 * 4096 < 2 ^ 38"
    unfolding unat_of_nat64 [OF lt] MAXVA_unat .
  moreover have "2 ^ 38 div 4096 * 4096 \<le> (unat va + i) div 4096 * 4096"
    using i(2) by (intro mult_le_mono div_le_mono) simp_all
  ultimately show False by simp
qed

text \<open>One pass of a copy loop handles the rest of the page.\<close>

lemma page_add:
  fixes a i :: nat
  assumes "i < 4096 - a mod 4096"
  shows "(a + i) div 4096 = a div 4096" "(a + i) mod 4096 = a mod 4096 + i"
proof -
  have "a + i = (a mod 4096 + i) + 4096 * (a div 4096)" using mult_div_mod_eq [of 4096 a] by linarith
  moreover have "a mod 4096 + i < 4096" using assms by linarith
  ultimately show "(a + i) div 4096 = a div 4096" "(a + i) mod 4096 = a mod 4096 + i"
    by (simp_all only: div_mult_self2 mod_mult_self2 div_less mod_less)
qed

lemma same_page:
  assumes "i < unat (chunk va len)"
  shows "(unat va + i) div 4096 = unat va div 4096" "(unat va + i) mod 4096 = unat va mod 4096 + i"
  using assms page_add [of i "unat va"] by (simp_all add: unat_chunk)

lemma next_page:
  assumes "upa m pt (PGROUNDDOWN va) \<noteq> 0" and "len - chunk va len > 0"
  shows "unat (PGROUNDDOWN va + PGSIZE) = unat va + unat (chunk va len)"
proof -
  have "unat len - unat (chunk va len) > 0" using assms(2) by (simp add: word_less_nat_alt unat_chunk_rest)
  then have nn: "unat (chunk va len) = 4096 - unat va mod 4096" by (auto simp: unat_chunk)
  have "unat (PGROUNDDOWN va + PGSIZE) = unat va div 4096 * 4096 + 4096"
    using unat_next_page [OF upa_less [OF assms(1)]] by (simp only: unat_PGROUNDDOWN)
  moreover have "unat va div 4096 * 4096 + unat va mod 4096 = unat va" by simp
  moreover have "unat va mod 4096 < 4096" by simp
  ultimately show ?thesis unfolding nn by linarith
qed

lemma umapped_step:
  assumes "len > 0"
  shows "umapped m pt (unat va) (unat len) \<longleftrightarrow>
    upa m pt (PGROUNDDOWN va) \<noteq> 0
    \<and> umapped m pt (unat (PGROUNDDOWN va + PGSIZE)) (unat (len - chunk va len))"
    (is "?l \<longleftrightarrow> ?p \<and> ?r")
proof -
  let ?n = "unat (chunk va len)"
  have n: "0 < ?n" using chunk_pos assms by (simp add: word_less_nat_alt)
  have first: "?p" if ?l
    using that n unat_chunk_rest [of len va] pageof_unat [of va] chunk_le [of va len]
    by (auto simp: umapped_def word_le_nat_alt dest!: spec [of _ 0])
  have rest: "umapped m pt (unat va) (unat len) \<longleftrightarrow>
      umapped m pt (unat (PGROUNDDOWN va + PGSIZE)) (unat (len - chunk va len))" if p: ?p
  proof (cases "unat len \<le> 4096 - unat va mod 4096")
    case True
    then have "?n = unat len" by (simp add: unat_chunk)
    then have r: "unat (len - chunk va len) = 0" by (simp add: unat_chunk_rest)
    have "upa m pt (pageof (unat va + i)) \<noteq> 0" if "i < unat len" for i
      using same_page [of i va len] that \<open>?n = unat len\<close> p pageof_unat [of va] by simp
    then show ?thesis by (simp add: umapped_def r)
  next
    case False
    then have nn: "?n = 4096 - unat va mod 4096" by (simp add: unat_chunk)
    have "len - chunk va len > 0" using False nn by (simp add: word_less_nat_alt unat_chunk_rest)
    then have next_pg: "unat (PGROUNDDOWN va + PGSIZE) = unat va + ?n" by (rule next_page [OF p])
    have "(\<forall>i < unat len. upa m pt (pageof (unat va + i)) \<noteq> 0)
      \<longleftrightarrow> (\<forall>i < unat len - ?n. upa m pt (pageof (unat va + ?n + i)) \<noteq> 0)" (is "?a = ?b")
    proof
      assume ?a
      then show ?b by (auto simp: add.assoc)
    next
      assume b: ?b
      show ?a
      proof (intro allI impI)
        fix i assume i: "i < unat len"
        show "upa m pt (pageof (unat va + i)) \<noteq> 0"
        proof (cases "i < ?n")
          case True
          then show ?thesis using same_page [OF True] p pageof_unat [of va] by simp
        next
          case False
          then show ?thesis using b i by (auto dest: spec [of _ "i - ?n"])
        qed
      qed
    qed
    then show ?thesis by (simp add: umapped_def next_pg unat_chunk_rest)
  qed
  show ?thesis using first rest by blast
qed

section \<open>\<open>copyin\<close>\<close>

lemma blit_append: "blit (a + n) k (\<lambda>i. f (n + i)) (blit a n f m) = blit a (n + k) f m"
  by (auto simp: blit_def fun_eq_iff intro!: arg_cong [of _ _ f])

lemma blit_cong: "n = n' \<Longrightarrow> (\<And>i. i < n' \<Longrightarrow> f i = g i) \<Longrightarrow> blit a n f m = blit a n' g m"
  by (auto simp: blit_def fun_eq_iff)

lemma uaddr_chunk:
  assumes "i < unat (chunk va len)"
  shows "uaddr m pt (unat va + i) = unat (upa m pt (PGROUNDDOWN va) + (va - PGROUNDDOWN va)) + i"
  using same_page [OF assms] pageof_unat [of va] by (simp add: uaddr_def upa_off)

lemma copyin_mapped:
  assumes "ptwf (mem s) 2 pt" and "umapped (mem s) pt (unat va) (unat len)"
  shows "copyin pt d dst va len s
    = Ret (0, blit dst (unat len) (\<lambda>i. mem s (uaddr (mem s) pt (unat va + i))) d) s"
  using assms
proof (induction pt d dst va len s rule: copyin.induct)
  case (1 pt d dst va len s)
  show ?case
  proof (cases "len > 0")
    case False
    then show ?thesis by (subst copyin.simps) (simp add: word_less_nat_alt)
  next
    case True
    let ?n = "chunk va len" and ?va0 = "PGROUNDDOWN va"
    let ?pa = "upa (mem s) pt ?va0" and ?f = "\<lambda>i. mem s (uaddr (mem s) pt (unat va + i))"
    have m: "?pa \<noteq> 0" "umapped (mem s) pt (unat (?va0 + PGSIZE)) (unat (len - ?n))"
      using 1(3) umapped_step [OF True] by blast+
    let ?d = "blit dst (unat ?n) (\<lambda>i. mem s (unat (?pa + (va - ?va0)) + i)) d"
    have d: "?d = blit dst (unat ?n) ?f d"
      by (rule blit_cong) (simp_all add: uaddr_chunk)
    have "copyin pt d dst va len s = copyin pt ?d (dst + unat ?n) (?va0 + PGSIZE) (len - ?n) s"
      using True m(1) by (subst copyin.simps) (simp add: walkaddr_eq [OF 1(2)] Let_def)
    also have "\<dots> = Ret (0, blit (dst + unat ?n) (unat (len - ?n))
        (\<lambda>i. mem s (uaddr (mem s) pt (unat (?va0 + PGSIZE) + i))) ?d) s"
      by (rule 1(1) [OF True refl walkaddr_eq [OF 1(2)] m(1) refl refl 1(2) m(2)])
    also have "blit (dst + unat ?n) (unat (len - ?n))
        (\<lambda>i. mem s (uaddr (mem s) pt (unat (?va0 + PGSIZE) + i))) ?d
      = blit (dst + unat ?n) (unat (len - ?n)) (\<lambda>i. ?f (unat ?n + i)) (blit dst (unat ?n) ?f d)"
    proof (cases "len - ?n > 0")
      case True
      then show ?thesis using next_page [OF m(1) True] d by (simp add: add.assoc)
    next
      case False
      then show ?thesis using d by (simp add: word_less_nat_alt)
    qed
    also have "\<dots> = blit dst (unat ?n + unat (len - ?n)) ?f d"
      by (rule blit_append)
    also have "unat ?n + unat (len - ?n) = unat len"
      using chunk_le [of va len] by (simp add: unat_chunk_rest word_le_nat_alt)
    finally show ?thesis .
  qed
qed

lemma copyin_unmapped:
  assumes "ptwf (mem s) 2 pt" and "\<not> umapped (mem s) pt (unat va) (unat len)"
  shows "\<exists>d'. copyin pt d dst va len s = Ret (-1, d') s"
  using assms
proof (induction pt d dst va len s rule: copyin.induct)
  case (1 pt d dst va len s)
  have True: "len > 0"
  proof (rule ccontr)
    assume "\<not> len > 0"
    then show False using 1(3) by (simp add: umapped_def word_less_nat_alt)
  qed
  let ?n = "chunk va len" and ?va0 = "PGROUNDDOWN va"
  let ?pa = "upa (mem s) pt ?va0"
  let ?d = "blit dst (unat ?n) (\<lambda>i. mem s (unat (?pa + (va - ?va0)) + i)) d"
  show ?case
  proof (cases "?pa = 0")
    case nomap: True
    then show ?thesis using True by (subst copyin.simps) (simp add: walkaddr_eq [OF 1(2)] Let_def)
  next
    case False
    have u: "\<not> umapped (mem s) pt (unat (?va0 + PGSIZE)) (unat (len - ?n))"
      using 1(3) umapped_step [OF True] False by blast
    have "copyin pt d dst va len s = copyin pt ?d (dst + unat ?n) (?va0 + PGSIZE) (len - ?n) s"
      using True False by (subst copyin.simps) (simp add: walkaddr_eq [OF 1(2)] Let_def)
    with 1(1) [OF True refl walkaddr_eq [OF 1(2)] False refl refl 1(2) u] show ?thesis by simp
  qed
qed

section \<open>\<open>copyout\<close>\<close>

text \<open>
  A user address space: no user page is a page of the table, and no physical page is mapped at
  two user pages.
\<close>

definition user_ok :: "bytes \<Rightarrow> uint64 \<Rightarrow> bool" where
  "user_ok m pt \<longleftrightarrow> (\<forall>va. upa m pt va \<noteq> 0 \<longrightarrow> upa m pt va \<notin> tpages m 2 pt)
     \<and> (\<forall>va va'. page_aligned va \<longrightarrow> page_aligned va' \<longrightarrow> upa m pt va \<noteq> 0 \<longrightarrow> upa m pt va = upa m pt va' \<longrightarrow> va = va')"

lemma upa_cong: "agree_on (tpages m 2 pt) m m' \<Longrightarrow> upa m' pt va = upa m pt va"
  using tree_cong [of m 2 pt m'] by (simp add: upa_def)

lemma user_ok_cong:
  assumes "agree_on (tpages m 2 pt) m m'"
  shows "user_ok m' pt \<longleftrightarrow> user_ok m pt" and "umapped m' pt = umapped m pt" and "uaddr m' pt = uaddr m pt"
  using tree_cong [OF assms] upa_cong [OF assms] by (simp_all add: user_ok_def umapped_def uaddr_def fun_eq_iff)

lemma unat_pageof: "a < 2 ^ 64 \<Longrightarrow> unat (pageof a) = a div 4096 * 4096"
  by (rule unat_of_nat64) (rule le_less_trans [OF div_times_less_eq_dividend])

lemma pageof_aligned: "a < 2 ^ 64 \<Longrightarrow> page_aligned (pageof a)"
  unfolding page_aligned_def by (simp only: unat_pageof) simp

lemma pageof_eq: "a < 2 ^ 64 \<Longrightarrow> b < 2 ^ 64 \<Longrightarrow> pageof a = pageof b \<longleftrightarrow> a div 4096 = b div 4096"
proof -
  assume "a < 2 ^ 64" "b < 2 ^ 64"
  moreover have "pageof a = pageof b \<longleftrightarrow> unat (pageof a) = unat (pageof b)" by (simp only: unat_inj)
  ultimately show ?thesis by (simp only: unat_pageof) simp
qed

lemma uaddr_outside:
  assumes "user_ok m pt" and "upa m pt (pageof a) \<noteq> 0" and "upa m pt (pageof b) \<noteq> 0"
    and "a < 2 ^ 64" and "b < 2 ^ 64" and "a div 4096 \<noteq> b div 4096"
  shows "uaddr m pt a < unat (upa m pt (pageof b)) \<or> unat (upa m pt (pageof b)) + 4096 \<le> uaddr m pt a"
proof -
  have "pageof a \<noteq> pageof b" using pageof_eq [OF assms(4,5)] assms(6) by simp
  then have "upa m pt (pageof a) \<noteq> upa m pt (pageof b)"
    using assms(1,2) pageof_aligned [OF assms(4)] pageof_aligned [OF assms(5)] by (auto simp: user_ok_def)
  then have "upa m pt (pageof b) \<noteq> upa m pt (pageof a)" by simp
  from page_outside [OF upa_aligned upa_aligned this, of "a mod 4096"] show ?thesis
    by (simp add: uaddr_def)
qed

text \<open>The effect of writing the bytes of one chunk.\<close>

lemma write_chunk:
  assumes "ptwf m 2 pt" and "user_ok m pt" and "upa m pt (PGROUNDDOWN va) \<noteq> 0"
    and "m' = blit (unat (upa m pt (PGROUNDDOWN va) + (va - PGROUNDDOWN va))) (unat (chunk va len)) src m"
  shows "agree_on (tpages m 2 pt) m m'"
    and "agree_off {upa m pt (PGROUNDDOWN va)} m m'"
    and "\<And>a. a < 2 ^ 64 \<Longrightarrow> upa m pt (pageof a) \<noteq> 0 \<Longrightarrow>
      m' (uaddr m pt a) = (if unat va \<le> a \<and> a < unat va + unat (chunk va len) then src (a - unat va)
                           else m (uaddr m pt a))"
proof -
  let ?pa = "upa m pt (PGROUNDDOWN va)" and ?n = "unat (chunk va len)"
  have base: "unat (?pa + (va - PGROUNDDOWN va)) = unat ?pa + unat va mod 4096" by (rule upa_off)
  have n: "?n \<le> 4096 - unat va mod 4096" by (simp add: unat_chunk)
  have md: "unat va mod 4096 < 4096" by simp
  show off: "agree_off {?pa} m m'"
    using n md by (auto simp: agree_off_def assms(4) base intro!: blit_out)
  show "agree_on (tpages m 2 pt) m m'"
  proof (rule agree_off_on [OF off])
    show "{?pa} \<inter> tpages m 2 pt = {}" using assms(2,3) by (simp add: user_ok_def)
    show "\<forall>p \<in> {?pa} \<union> tpages m 2 pt. page_aligned p"
      using upa_aligned tpages_aligned [OF assms(1)] by auto
  qed
  fix a assume a: "a < 2 ^ 64" "upa m pt (pageof a) \<noteq> 0"
  have va: "unat va < 2 ^ 64" using unsigned_less [where w = va] by simp
  show "m' (uaddr m pt a) = (if unat va \<le> a \<and> a < unat va + ?n then src (a - unat va) else m (uaddr m pt a))"
  proof (cases "a div 4096 = unat va div 4096")
    case True
    have u: "uaddr m pt a = unat ?pa + a mod 4096"
      using True pageof_unat [of va] by (simp add: uaddr_def)
    have "a = a div 4096 * 4096 + a mod 4096" "unat va = unat va div 4096 * 4096 + unat va mod 4096"
      by simp_all
    then have "unat va \<le> a \<longleftrightarrow> unat va mod 4096 \<le> a mod 4096"
      "a < unat va + ?n \<longleftrightarrow> a mod 4096 < unat va mod 4096 + ?n"
      "a - unat va = a mod 4096 - unat va mod 4096"
      using True by linarith+
    then show ?thesis by (auto simp: assms(4) base u blit_def)
  next
    case False
    have "\<not> (unat va \<le> a \<and> a < unat va + ?n)"
    proof
      assume a': "unat va \<le> a \<and> a < unat va + ?n"
      then have "a - unat va < ?n" by linarith
      from same_page(1) [OF this] a' False show False by simp
    qed
    moreover have "m' (uaddr m pt a) = m (uaddr m pt a)"
      using uaddr_outside [OF assms(2) a(2) _ a(1) va False] pageof_unat [of va] assms(3) off
      by (auto simp: agree_off_def)
    ultimately show ?thesis by auto
  qed
qed

lemma copyout_mapped:
  assumes "ptwf (mem s) 2 pt" and "user_ok (mem s) pt" and "umapped (mem s) pt (unat va) (unat len)"
  shows "\<exists>m'. copyout pt va src len s = Ret 0 (s\<lparr>mem := m'\<rparr>)
    \<and> agree_on (tpages (mem s) 2 pt) (mem s) m'
    \<and> agree_off {upa (mem s) pt (pageof (unat va + i)) | i. i < unat len} (mem s) m'
    \<and> (\<forall>a < 2 ^ 64. upa (mem s) pt (pageof a) \<noteq> 0 \<longrightarrow>
         m' (uaddr (mem s) pt a) =
           (if unat va \<le> a \<and> a < unat va + unat len then src (a - unat va) else mem s (uaddr (mem s) pt a)))"
  using assms
proof (induction pt va src len s rule: copyout.induct)
  case (1 pt va src len s)
  show ?case
  proof (cases "len > 0")
    case False
    then have "copyout pt va src len s = Ret 0 (s\<lparr>mem := mem s\<rparr>)" by (subst copyout.simps) simp
    moreover have "unat len = 0" using False by (simp add: word_less_nat_alt)
    ultimately show ?thesis by (intro exI [of _ "mem s"]) (auto simp: agree_on_def)
  next
    case True
    let ?n = "chunk va len" and ?va0 = "PGROUNDDOWN va" and ?m = "mem s"
    let ?pa = "upa ?m pt ?va0"
    let ?m1 = "blit (unat (?pa + (va - ?va0))) (unat ?n) src ?m"
    let ?src = "\<lambda>i. src (unat ?n + i)"
    have mp: "?pa \<noteq> 0" "umapped ?m pt (unat (?va0 + PGSIZE)) (unat (len - ?n))"
      using 1(4) umapped_step [OF True] by blast+
    have n: "0 < unat ?n" "unat ?n \<le> unat len" using chunk_pos [OF True] chunk_le [of va len] by (simp_all add: word_le_nat_alt)
    have wc: "agree_on (tpages ?m 2 pt) ?m ?m1" "agree_off {?pa} ?m ?m1"
      "\<And>a. a < 2 ^ 64 \<Longrightarrow> upa ?m pt (pageof a) \<noteq> 0 \<Longrightarrow>
      ?m1 (uaddr ?m pt a) = (if unat va \<le> a \<and> a < unat va + unat ?n then src (a - unat va) else ?m (uaddr ?m pt a))"
      using write_chunk [OF 1(2,3) mp(1) refl] by blast+
    note cg = tree_cong [OF wc(1)] user_ok_cong [OF wc(1)]
    let ?s1 = "s\<lparr>mem := ?m1\<rparr>"
    have step: "copyout pt va src len s = copyout pt (?va0 + PGSIZE) ?src (len - ?n) ?s1"
      using True mp(1) by (subst copyout.simps) (simp add: walkaddr_eq [OF 1(2)] Let_def)
    have "\<exists>m'. copyout pt (?va0 + PGSIZE) ?src (len - ?n) ?s1 = Ret 0 (?s1\<lparr>mem := m'\<rparr>)
      \<and> agree_on (tpages (mem ?s1) 2 pt) (mem ?s1) m'
      \<and> agree_off {upa (mem ?s1) pt (pageof (unat (?va0 + PGSIZE) + i)) | i. i < unat (len - ?n)} (mem ?s1) m'
      \<and> (\<forall>a < 2 ^ 64. upa (mem ?s1) pt (pageof a) \<noteq> 0 \<longrightarrow>
         m' (uaddr (mem ?s1) pt a) =
           (if unat (?va0 + PGSIZE) \<le> a \<and> a < unat (?va0 + PGSIZE) + unat (len - ?n)
            then ?src (a - unat (?va0 + PGSIZE)) else mem ?s1 (uaddr (mem ?s1) pt a)))"
    proof (rule 1(1) [OF True refl walkaddr_eq [OF 1(2)] mp(1) refl refl])
      show "ptwf (mem ?s1) 2 pt" using cg 1(2) by simp
      show "user_ok (mem ?s1) pt" using cg 1(3) by simp
      show "umapped (mem ?s1) pt (unat (?va0 + PGSIZE)) (unat (len - ?n))" using cg mp(2) by simp
    qed
    then obtain m' where m': "copyout pt (?va0 + PGSIZE) ?src (len - ?n) ?s1 = Ret 0 (?s1\<lparr>mem := m'\<rparr>)"
      "agree_on (tpages ?m 2 pt) ?m1 m'"
      "agree_off {upa ?m pt (pageof (unat (?va0 + PGSIZE) + i)) | i. i < unat (len - ?n)} ?m1 m'"
      "\<And>a. a < 2 ^ 64 \<Longrightarrow> upa ?m pt (pageof a) \<noteq> 0 \<Longrightarrow> m' (uaddr ?m pt a) =
           (if unat (?va0 + PGSIZE) \<le> a \<and> a < unat (?va0 + PGSIZE) + unat (len - ?n)
            then ?src (a - unat (?va0 + PGSIZE)) else ?m1 (uaddr ?m pt a))"
      using cg upa_cong [OF wc(1)] by auto
    have rest: "unat (len - ?n) = unat len - unat ?n" by (rule unat_chunk_rest)
    have np: "unat len > unat ?n \<Longrightarrow> unat (?va0 + PGSIZE) = unat va + unat ?n"
      using next_page [OF mp(1)] rest by (simp add: word_less_nat_alt)
    have pg: "?pa \<in> {upa ?m pt (pageof (unat va + i)) | i. i < unat len}"
      using True pageof_unat [of va] by (auto simp: word_less_nat_alt intro!: exI [of _ 0])
    have "{upa ?m pt (pageof (unat (?va0 + PGSIZE) + i)) | i. i < unat (len - ?n)}
        \<subseteq> {upa ?m pt (pageof (unat va + i)) | i. i < unat len}"
    proof (clarify)
      fix i assume "i < unat (len - ?n)"
      then have "unat (?va0 + PGSIZE) + i = unat va + (unat ?n + i)" "unat ?n + i < unat len"
        using np rest by simp_all
      then show "\<exists>j. upa ?m pt (pageof (unat (?va0 + PGSIZE) + i)) = upa ?m pt (pageof (unat va + j)) \<and> j < unat len"
        by metis
    qed
    then have off: "agree_off {upa ?m pt (pageof (unat va + i)) | i. i < unat len} ?m m'"
      using pg by (intro agree_off_mono [OF agree_off_trans [OF wc(2) m'(3)]]) blast
    have on: "agree_on (tpages ?m 2 pt) ?m m'" using wc(1) m'(2) by (simp add: agree_on_def)
    have val: "m' (uaddr ?m pt a) =
      (if unat va \<le> a \<and> a < unat va + unat len then src (a - unat va) else ?m (uaddr ?m pt a))"
      if a: "a < 2 ^ 64" "upa ?m pt (pageof a) \<noteq> 0" for a
    proof (cases "unat len > unat ?n")
      case True
      then show ?thesis using m'(4) [OF a] wc(3) [OF a] np [OF True] rest n by auto
    next
      case False
      then have "unat len = unat ?n" using n(2) by simp
      then show ?thesis using m'(4) [OF a] wc(3) [OF a] rest by auto
    qed
    show ?thesis using step m'(1) on off val by (intro exI [of _ m']) simp
  qed
qed

lemma copyout_unmapped:
  assumes "ptwf (mem s) 2 pt" and "user_ok (mem s) pt" and "\<not> umapped (mem s) pt (unat va) (unat len)"
  shows "\<exists>m'. copyout pt va src len s = Ret (-1) (s\<lparr>mem := m'\<rparr>)"
  using assms
proof (induction pt va src len s rule: copyout.induct)
  case (1 pt va src len s)
  have True: "len > 0"
  proof (rule ccontr)
    assume "\<not> len > 0"
    then show False using 1(4) by (simp add: umapped_def word_less_nat_alt)
  qed
  let ?n = "chunk va len" and ?va0 = "PGROUNDDOWN va" and ?m = "mem s"
  let ?pa = "upa ?m pt ?va0"
  let ?m1 = "blit (unat (?pa + (va - ?va0))) (unat ?n) src ?m"
  show ?case
  proof (cases "?pa = 0")
    case nomap: True
    then have "copyout pt va src len s = Ret (-1) (s\<lparr>mem := mem s\<rparr>)"
      using True by (subst copyout.simps) (simp add: walkaddr_eq [OF 1(2)] Let_def)
    then show ?thesis by blast
  next
    case False
    have u: "\<not> umapped ?m pt (unat (?va0 + PGSIZE)) (unat (len - ?n))"
      using 1(4) umapped_step [OF True] False by blast
    have wc: "agree_on (tpages ?m 2 pt) ?m ?m1" by (rule write_chunk(1) [OF 1(2,3) False refl])
    note cg = tree_cong [OF wc] user_ok_cong [OF wc]
    let ?s1 = "s\<lparr>mem := ?m1\<rparr>"
    have step: "copyout pt va src len s = copyout pt (?va0 + PGSIZE) (\<lambda>i. src (unat ?n + i)) (len - ?n) ?s1"
      using True False by (subst copyout.simps) (simp add: walkaddr_eq [OF 1(2)] Let_def)
    have "\<exists>m'. copyout pt (?va0 + PGSIZE) (\<lambda>i. src (unat ?n + i)) (len - ?n) ?s1 = Ret (-1) (?s1\<lparr>mem := m'\<rparr>)"
    proof (rule 1(1) [OF True refl walkaddr_eq [OF 1(2)] False refl refl])
      show "ptwf (mem ?s1) 2 pt" using cg 1(2) by simp
      show "user_ok (mem ?s1) pt" using cg 1(3) by simp
      show "\<not> umapped (mem ?s1) pt (unat (?va0 + PGSIZE)) (unat (len - ?n))" using cg u by simp
    qed
    then show ?thesis using step by auto
  qed
qed

section \<open>What a copy leaves\<close>

text \<open>The memory as the process with root table \<open>pt\<close> sees it.\<close>

definition uview :: "bytes \<Rightarrow> uint64 \<Rightarrow> bytes" where
  "uview m pt a = m (uaddr m pt a)"

text \<open>What a \<^verbatim>\<open>copyout\<close> that succeeds leaves.\<close>

definition wrote :: "uint64 \<Rightarrow> nat \<Rightarrow> nat \<Rightarrow> bytes \<Rightarrow> bytes \<Rightarrow> bytes \<Rightarrow> bool" where
  "wrote pt a n f m m' \<longleftrightarrow> agree_on (tpages m 2 pt) m m' \<and> agree_off {upa m pt (pageof (a + i)) | i. i < n} m m'
     \<and> (\<forall>b < 2 ^ 64. upa m pt (pageof b) \<noteq> 0 \<longrightarrow> uview m' pt b = (if a \<le> b \<and> b < a + n then f (b - a) else uview m pt b))"

lemma wrote_space: "wrote pt a n f m m' \<Longrightarrow> ptwf m 2 pt \<Longrightarrow> user_ok m pt \<Longrightarrow>
  ptwf m' 2 pt \<and> user_ok m' pt \<and> umapped m' pt = umapped m pt \<and> upa m' pt = upa m pt \<and> tpages m' 2 pt = tpages m 2 pt"
  unfolding wrote_def using tree_cong [of m 2 pt m'] user_ok_cong [of m pt m'] upa_cong [of m pt m'] by (auto simp: fun_eq_iff)

lemma copyout_wrote:
  assumes "ptwf (mem s) 2 pt" and "user_ok (mem s) pt" and "umapped (mem s) pt (unat va) (unat len)"
  shows "\<exists>m'. copyout pt va src len s = Ret 0 (s\<lparr>mem := m'\<rparr>) \<and> wrote pt (unat va) (unat len) src (mem s) m'"
proof -
  obtain m' where m: "copyout pt va src len s = Ret 0 (s\<lparr>mem := m'\<rparr>)" "agree_on (tpages (mem s) 2 pt) (mem s) m'"
    "agree_off {upa (mem s) pt (pageof (unat va + i)) | i. i < unat len} (mem s) m'"
    "\<forall>a < 2 ^ 64. upa (mem s) pt (pageof a) \<noteq> 0 \<longrightarrow> m' (uaddr (mem s) pt a) =
       (if unat va \<le> a \<and> a < unat va + unat len then src (a - unat va) else mem s (uaddr (mem s) pt a))"
    using copyout_mapped [OF assms] by blast
  have "uview m' pt a = m' (uaddr (mem s) pt a)" for a using user_ok_cong(3) [OF m(2)] by (simp add: uview_def)
  then have "wrote pt (unat va) (unat len) src (mem s) m'" unfolding wrote_def using m(2-4) by (simp add: uview_def)
  then show ?thesis using m(1) by blast
qed

lemma wrote_append:
  assumes "wrote pt a n f m m1" and "wrote pt (a + n) k g m1 m2" and "ptwf m 2 pt" and "user_ok m pt"
  shows "wrote pt a (n + k) (\<lambda>i. if i < n then f i else g (i - n)) m m2"
proof -
  note S = wrote_space [OF assms(1,3,4)]
  have on: "agree_on (tpages m 2 pt) m m2" using assms(1,2) S by (auto simp: wrote_def agree_on_def)
  have "{upa m pt (pageof (a + n + i)) | i. i < k} \<subseteq> {upa m pt (pageof (a + i)) | i. i < n + k}"
  proof
    fix x assume "x \<in> {upa m pt (pageof (a + n + i)) | i. i < k}"
    then obtain i where "i < k" "x = upa m pt (pageof (a + (n + i)))" by (auto simp: add.assoc)
    then show "x \<in> {upa m pt (pageof (a + i)) | i. i < n + k}" by (intro CollectI exI [of _ "n + i"]) simp
  qed
  then have o2: "agree_off {upa m pt (pageof (a + i)) | i. i < n + k} m1 m2" using assms(2) S by (auto simp: wrote_def intro: agree_off_mono)
  have o1: "agree_off {upa m pt (pageof (a + i)) | i. i < n + k} m m1"
    using assms(1) by (auto simp: wrote_def elim!: agree_off_mono)
  have off: "agree_off {upa m pt (pageof (a + i)) | i. i < n + k} m m2" using agree_off_trans [OF o1 o2] by simp
  have "uview m2 pt b = (if a \<le> b \<and> b < a + (n + k) then if b - a < n then f (b - a) else g (b - a - n) else uview m pt b)"
    if "b < 2 ^ 64" "upa m pt (pageof b) \<noteq> 0" for b
    using assms(1,2) S that unfolding wrote_def by (auto simp: diff_diff_add add.commute)
  then show ?thesis unfolding wrote_def using on off by blast
qed

lemma wrote_none: "wrote pt a 0 f m m"
  by (auto simp: wrote_def agree_on_def)

lemma umapped_at:
  assumes "umapped m pt (unat (va :: uint64)) n" and "i < n"
  shows "unat (va + of_nat i) = unat va + i" "umapped m pt (unat (va + of_nat i)) 1"
proof -
  have "unat va + n \<le> 2 ^ 38" using umapped_bound [OF assms(1)] assms(2) by simp
  then have "unat va + i < 2 ^ 64" using assms(2) by simp
  moreover from this have "unat (of_nat i :: uint64) = i" by (intro unat_of_nat64) simp
  ultimately show e: "unat (va + of_nat i) = unat va + i" using unat_add64 [of va "of_nat i"] by simp
  show "umapped m pt (unat (va + of_nat i)) 1" unfolding e using assms by (simp add: umapped_def)
qed

lemma umapped_sub:
  assumes "umapped m pt a n" and "a \<le> b" and "b + k \<le> a + n"
  shows "umapped m pt b k"
proof -
  have "upa m pt (pageof (b + i)) \<noteq> 0" if "i < k" for i
  proof -
    have "b + i = a + (b - a + i)" "b - a + i < n" using assms(2,3) that by simp_all
    then show ?thesis using assms(1) unfolding umapped_def by metis
  qed
  then show ?thesis unfolding umapped_def by blast
qed

section \<open>A new address space\<close>

lemma uvmcreate_vm_ok:
  assumes "cpu_ok s" and "lk_free L_kmem s" and "kinv (p # ps) s"
  shows "\<exists>t. uvmcreate s = Ret p t \<and> vm_ok ps 2 p t \<and> kframe s t \<and> (\<forall>va. ptev (mem t) 2 p va = 0)
    \<and> tpages (mem t) 2 p = {p}"
proof -
  let ?s1 = "s\<lparr>freelist := ld64 (mem s) (unat p), mem := fill p 5 (mem s)\<rparr>"
  let ?t = "(touch ?s1)\<lparr>mem := fill p 0 (mem s)\<rparr>"
  note ka = kalloc_page [OF assms]
  have p: "page_aligned p" "p \<noteq> 0" "p \<notin> set ps" using assms(3) by (auto simp: kinv_def page_ok_def)
  have "uvmcreate s = Ret p ?t" using ka(1) p(2) by (simp add: uvmcreate_def memset_eq)
  moreover have "kinv ps ?t"
  proof (rule kinv_agree [where P = "{p}"])
    show "kinv ps (touch ?s1)" using ka(2) by simp
    show "agree_off {p} (mem (touch ?s1)) (fill p 0 (mem s))" by (auto simp: agree_off_def blit_out)
  qed (use p in auto)
  moreover have zt: "ptwf (mem ?t) 2 p \<and> tpages (mem ?t) 2 p = {p} \<and> ptev (mem ?t) 2 p va = 0" for va
    by (rule zero_table) (use p ent_fill in auto)
  moreover have "kframe s ?t" by (rule kframe_trans [of _ "touch ?s1"]) simp_all
  ultimately show ?thesis using assms(1,2) p(3) by (intro exI [of _ ?t]) (auto simp: vm_ok_def)
qed

text \<open>A machine after \<^verbatim>\<open>kinit\<close> and \<^verbatim>\<open>uvmcreate\<close>, for concrete runs.\<close>

lemma demo_space:
  "\<exists>s p ps t. kinit demo_kst = Ret () s \<and> uvmcreate s = Ret p t \<and> vm_ok ps 2 p t \<and> (\<forall>va. ptev (mem t) 2 p va = 0)"
proof -
  obtain s where s: "kinit demo_kst = Ret () s" "cpu_ok s" "lk_free L_kmem s"
    "kinv (rev (page_range ((unat (kend demo_kst) + 4095) div 4096) (unat PHYSTOP div 4096))) s"
    using kinit_eq [OF demo_kst_ok(1,3-5)] by blast
  have "rev (page_range ((unat (kend demo_kst) + 4095) div 4096) (unat PHYSTOP div 4096)) \<noteq> []"
    unfolding demo_kst_ok(6) PHYSTOP_unat by (simp add: page_range_def)
  then obtain p ps where "rev (page_range ((unat (kend demo_kst) + 4095) div 4096) (unat PHYSTOP div 4096)) = p # ps"
    by (meson neq_Nil_conv)
  with s uvmcreate_vm_ok [OF s(2,3), of p ps] show ?thesis by metis
qed

section \<open>Properties\<close>

text \<open>
  C2. \<^verbatim>\<open>mappages\<close> on a well-formed page table, over a range of unmapped pages below
  \<^verbatim>\<open>MAXVA\<close>, returns 0 or, only when the free list is used up, -1. Outside the range no
  translation changes, whatever tables were allocated; when it returns 0, every page of the range
  is mapped to the page of \<open>pa\<close> at the same distance, with the given permissions. The table
  stays a tree of pages disjoint from the free list.
\<close>

theorem mappages_maps:
  assumes "vm_ok ps 2 pt s" and "sz > 0" and "unat va + unat sz \<le> 2 ^ 38"
    and "\<And>w. w < MAXVA \<Longrightarrow> unat va div 4096 \<le> unat w div 4096 \<Longrightarrow>
           unat w div 4096 \<le> (unat va + unat sz - 1) div 4096 \<Longrightarrow> ptev (mem s) 2 pt w AND PTE_V = 0"
  shows "\<exists>r t rest. mappages pt va sz pa perm s = Ret r t \<and> vm_ok rest 2 pt t \<and> (r = 0 \<or> r = -1 \<and> rest = [])
    \<and> (\<forall>w < MAXVA. \<not> (unat va div 4096 \<le> unat w div 4096 \<and> unat w div 4096 \<le> (unat va + unat sz - 1) div 4096) \<longrightarrow>
         ptev (mem t) 2 pt w = ptev (mem s) 2 pt w)
    \<and> (r = 0 \<longrightarrow> (\<forall>w < MAXVA.
         unat va div 4096 \<le> unat w div 4096 \<and> unat w div 4096 \<le> (unat va + unat sz - 1) div 4096 \<longrightarrow>
         ptev (mem t) 2 pt w = PA2PTE (pa + word_of_nat ((unat w div 4096 - unat va div 4096) * 4096)) OR perm OR PTE_V))"
proof -
  define k where "k = unat va div 4096"
  define n where "n = (unat va + unat sz - 1) div 4096 - k"
  have sz: "unat sz > 0" using assms(2) by (simp add: word_less_nat_alt)
  have ua: "unat (PGROUNDDOWN va) = k * 4096" by (simp add: unat_PGROUNDDOWN k_def)
  have al: "page_aligned (PGROUNDDOWN va)" using ua by (simp add: page_aligned_def)
  have kl: "k \<le> (unat va + unat sz - 1) div 4096" unfolding k_def using sz by (intro div_le_mono) simp
  then have n: "(unat va + unat sz - 1) div 4096 = k + n" by (simp add: n_def)
  have "unat (va + sz - 1) = unat va + unat sz - 1"
  proof -
    have s: "unat (va + sz) = unat va + unat sz" using assms(3) by (intro unat_add64) simp
    then have "1 \<le> va + sz" using sz by (simp add: word_le_nat_alt)
    from unat_sub [OF this] s show ?thesis by simp
  qed
  then have ul: "unat (PGROUNDDOWN (va + sz - 1)) = (k + n) * 4096" by (simp only: unat_PGROUNDDOWN n)
  have bound: "(k + n) * 4096 < 2 ^ 38"
  proof -
    have "(k + n) * 4096 \<le> unat va + unat sz - 1" unfolding n [symmetric] by (rule div_times_less_eq_dividend)
    also have "\<dots> < 2 ^ 38" using assms(3) sz by simp
    finally show ?thesis .
  qed
  have last: "PGROUNDDOWN (va + sz - 1) = PGROUNDDOWN va + word_of_nat (4096 * n)"
  proof -
    have "unat (word_of_nat (4096 * n) :: uint64) = 4096 * n" using bound by (intro unat_of_nat64) simp
    then have "unat (PGROUNDDOWN va + word_of_nat (4096 * n)) = (k + n) * 4096"
      using ua bound by (subst unat_add64) simp_all
    then show ?thesis using ul by (simp only: flip: unat_inj)
  qed
  have rng: "unat (PGROUNDDOWN va) \<le> unat w \<and> unat w < unat (PGROUNDDOWN va) + 4096 * Suc n
      \<longleftrightarrow> k \<le> unat w div 4096 \<and> unat w div 4096 \<le> k + n" for w :: uint64
    unfolding ua by (auto simp: less_eq_div_iff_mult_less_eq div_less_iff_less_mult simp flip: less_Suc_eq_le)
  have off: "(unat w - unat (PGROUNDDOWN va)) div 4096 = unat w div 4096 - k" for w :: uint64
    unfolding ua by (cases "k * 4096 \<le> unat w") (auto simp: le_div_geq div_mult_self3 elim!: le_Suc_ex)
  have "\<exists>r t us rest. mappages_loop pt (PGROUNDDOWN va) (PGROUNDDOWN (va + sz - 1)) pa perm s = Ret r t
    \<and> ps = us @ rest \<and> vm_step us rest pt s t \<and> (r = 0 \<or> r = -1 \<and> rest = [])
    \<and> (\<forall>w < MAXVA. \<not> (unat (PGROUNDDOWN va) \<le> unat w \<and> unat w < unat (PGROUNDDOWN va) + 4096 * Suc n) \<longrightarrow>
          ptev (mem t) 2 pt w = ptev (mem s) 2 pt w)
    \<and> (r = 0 \<longrightarrow> (\<forall>w < MAXVA. unat (PGROUNDDOWN va) \<le> unat w \<and> unat w < unat (PGROUNDDOWN va) + 4096 * Suc n \<longrightarrow>
          ptev (mem t) 2 pt w = PA2PTE (pa + word_of_nat ((unat w - unat (PGROUNDDOWN va)) div 4096 * 4096)) OR perm OR PTE_V))"
  proof (rule mappages_loop_spec [OF assms(1) al _ last])
    show "unat (PGROUNDDOWN va) + 4096 * n < 2 ^ 38" using bound ua by simp
    show "\<not> pvalid (ptev (mem s) 2 pt w)"
      if "w < MAXVA" "unat (PGROUNDDOWN va) \<le> unat w" "unat w < unat (PGROUNDDOWN va) + 4096 * Suc n" for w
      using assms(4) [OF that(1)] rng [of w] that(2,3) unfolding n k_def pvalid_def by blast
  qed
  then obtain r t us rest where R:
    "mappages_loop pt (PGROUNDDOWN va) (PGROUNDDOWN (va + sz - 1)) pa perm s = Ret r t"
    "vm_step us rest pt s t" "r = 0 \<or> r = -1 \<and> rest = []"
    "\<forall>w < MAXVA. \<not> (k \<le> unat w div 4096 \<and> unat w div 4096 \<le> k + n) \<longrightarrow> ptev (mem t) 2 pt w = ptev (mem s) 2 pt w"
    "r = 0 \<longrightarrow> (\<forall>w < MAXVA. k \<le> unat w div 4096 \<and> unat w div 4096 \<le> k + n \<longrightarrow>
          ptev (mem t) 2 pt w = PA2PTE (pa + word_of_nat ((unat w div 4096 - k) * 4096)) OR perm OR PTE_V)"
    unfolding rng off by blast
  have "mappages pt va sz pa perm s = Ret r t" using R(1) assms(2) by (simp add: mappages_def)
  moreover have "vm_ok rest 2 pt t" using R(2) by (simp add: vm_step_def)
  ultimately show ?thesis using R(3-5) unfolding n k_def by blast
qed

theorem mappages_maps_witness:
  "\<exists>s pt t r u. kinit demo_kst = Ret () s \<and> uvmcreate s = Ret pt t
     \<and> mappages pt 0 PGSIZE 0x87000000 (PTE_R OR PTE_U) t = Ret r u
     \<and> (r = - 1 \<or> r = 0 \<and> ptev (mem u) 2 pt 5 = PA2PTE 0x87000000 OR (PTE_R OR PTE_U) OR PTE_V) \<and> ptev (mem u) 2 pt 0x1000 = 0"
proof -
  obtain s pt ps t where s: "kinit demo_kst = Ret () s" "uvmcreate s = Ret pt t" "vm_ok ps 2 pt t"
    "\<forall>va. ptev (mem t) 2 pt va = 0"
    using demo_space by blast
  have h: "PGSIZE > 0" "unat (0 :: uint64) + unat PGSIZE \<le> 2 ^ 38"
    "\<And>w. ptev (mem t) 2 pt w AND PTE_V = 0"
    using s(4) by (simp_all add: PGSIZE_def)
  have v: "(5 :: uint64) < MAXVA" "(0x1000 :: uint64) < MAXVA" by (simp_all add: MAXVA_def)
  obtain r u where u: "mappages pt 0 PGSIZE 0x87000000 (PTE_R OR PTE_U) t = Ret r u" "r = 0 \<or> r = - 1"
    "ptev (mem u) 2 pt 0x1000 = ptev (mem t) 2 pt 0x1000" "r = 0 \<Longrightarrow> ptev (mem u) 2 pt 5 = PA2PTE 0x87000000 OR (PTE_R OR PTE_U) OR PTE_V"
    using mappages_maps [OF s(3) h(1,2) h(3), of "0x87000000" "PTE_R OR PTE_U"] v by (auto simp: PGSIZE_def)
  show ?thesis
    by (intro exI conjI, rule s(1), rule s(2), rule u(1)) (use u(2-4) s(4) in auto)
qed

text \<open>
  C3. On a well-formed address space, \<^verbatim>\<open>copyout\<close> and \<^verbatim>\<open>copyin\<close> succeed exactly when every page
  of the range is mapped for the user. Then \<^verbatim>\<open>copyin\<close> reads back exactly the bytes that
  \<^verbatim>\<open>copyout\<close> wrote, across page boundaries, and no user byte outside the range has changed.
\<close>

theorem copyout_copyin_roundtrip:
  assumes "ptwf (mem s) 2 pt" and "user_ok (mem s) pt"
  shows "(umapped (mem s) pt (unat va) (unat len) \<longrightarrow>
      (\<exists>t. copyout pt va src len s = Ret 0 t
         \<and> (\<forall>d. copyin pt d 0 va len t = Ret (0, blit 0 (unat len) src d) t)
         \<and> (\<forall>a < 2 ^ 64. upa (mem s) pt (pageof a) \<noteq> 0 \<longrightarrow> \<not> (unat va \<le> a \<and> a < unat va + unat len) \<longrightarrow>
              mem t (uaddr (mem s) pt a) = mem s (uaddr (mem s) pt a))))
    \<and> (\<not> umapped (mem s) pt (unat va) (unat len) \<longrightarrow>
      (\<exists>t. copyout pt va src len s = Ret (-1) t) \<and> (\<forall>d. \<exists>d'. copyin pt d 0 va len s = Ret (-1, d') s))"
proof (intro conjI impI)
  assume u: "umapped (mem s) pt (unat va) (unat len)"
  then obtain m' where m': "copyout pt va src len s = Ret 0 (s\<lparr>mem := m'\<rparr>)"
    "agree_on (tpages (mem s) 2 pt) (mem s) m'"
    "\<forall>a < 2 ^ 64. upa (mem s) pt (pageof a) \<noteq> 0 \<longrightarrow> m' (uaddr (mem s) pt a) =
           (if unat va \<le> a \<and> a < unat va + unat len then src (a - unat va) else mem s (uaddr (mem s) pt a))"
    using copyout_mapped [OF assms u] by blast
  note cg = tree_cong [OF m'(2)] user_ok_cong [OF m'(2)]
  have "copyin pt d 0 va len (s\<lparr>mem := m'\<rparr>) = Ret (0, blit 0 (unat len) src d) (s\<lparr>mem := m'\<rparr>)" for d
  proof -
    have "copyin pt d 0 va len (s\<lparr>mem := m'\<rparr>)
      = Ret (0, blit 0 (unat len) (\<lambda>i. m' (uaddr m' pt (unat va + i))) d) (s\<lparr>mem := m'\<rparr>)"
      using copyin_mapped [of "s\<lparr>mem := m'\<rparr>" pt va len d 0] cg assms u by simp
    also have "blit 0 (unat len) (\<lambda>i. m' (uaddr m' pt (unat va + i))) d = blit 0 (unat len) src d"
    proof (rule blit_cong [OF refl])
      fix i assume i: "i < unat len"
      then have "unat va + unat len \<le> 2 ^ 38" using umapped_bound [OF u] by simp
      then have "unat va + i < 2 ^ 64" using i by simp
      moreover have "upa (mem s) pt (pageof (unat va + i)) \<noteq> 0" using u i by (simp add: umapped_def)
      ultimately have "m' (uaddr (mem s) pt (unat va + i)) = src i" using m'(3) i by simp
      then show "m' (uaddr m' pt (unat va + i)) = src i" using cg by simp
    qed
    finally show ?thesis .
  qed
  with m' show "\<exists>t. copyout pt va src len s = Ret 0 t
         \<and> (\<forall>d. copyin pt d 0 va len t = Ret (0, blit 0 (unat len) src d) t)
         \<and> (\<forall>a < 2 ^ 64. upa (mem s) pt (pageof a) \<noteq> 0 \<longrightarrow> \<not> (unat va \<le> a \<and> a < unat va + unat len) \<longrightarrow>
              mem t (uaddr (mem s) pt a) = mem s (uaddr (mem s) pt a))"
    by (intro exI [of _ "s\<lparr>mem := m'\<rparr>"]) auto
next
  assume u: "\<not> umapped (mem s) pt (unat va) (unat len)"
  show "\<exists>t. copyout pt va src len s = Ret (-1) t" using copyout_unmapped [OF assms u] by blast
  show "\<forall>d. \<exists>d'. copyin pt d 0 va len s = Ret (-1, d') s" using copyin_unmapped [OF assms(1) u] by blast
qed

text \<open>
  One user page: root table at \<open>0x1000\<close>, second level at \<open>0x2000\<close>, third at \<open>0x3000\<close>, and the
  page \<open>0x4000\<close> mapped readable at user address 0, not writable.
\<close>

definition demo_mem :: bytes where
  "demo_mem = st64 (PA2PTE 0x4000 OR PTE_R OR PTE_U OR PTE_V)
     (st64 (PA2PTE 0x3000 OR PTE_V) (st64 (PA2PTE 0x2000 OR PTE_V) (\<lambda>_. 0) 0x1000) 0x2000) 0x3000"

definition demo_ust :: kst where
  "demo_ust = demo_kst\<lparr>mem := demo_mem\<rparr>"

lemma demo_ent:
  assumes "i < 512"
  shows "ent demo_mem 0x1000 i = (if i = 0 then 0x801 else 0)"
    and "ent demo_mem 0x2000 i = (if i = 0 then 0xc01 else 0)"
    and "ent demo_mem 0x3000 i = (if i = 0 then 0x1013 else 0)"
proof -
  have z: "ld64 (\<lambda>_. 0) a = 0" for a by (simp add: ld64_def numeral_eq_Suc)
  show "ent demo_mem 0x1000 i = (if i = 0 then 0x801 else 0)"
    "ent demo_mem 0x2000 i = (if i = 0 then 0xc01 else 0)"
    "ent demo_mem 0x3000 i = (if i = 0 then 0x1013 else 0)"
    using assms by (cases i; simp add: ent_def demo_mem_def ld_st_other z PA2PTE_def pte_defs)+
qed

lemma demo_tree: "ptwf demo_mem 2 0x1000" "tpages demo_mem 2 0x1000 = {0x1000, 0x2000, 0x3000}"
    "ptev demo_mem 2 0x1000 va = (if px 2 va = 0 \<and> px 1 va = 0 \<and> px 0 va = 0 then 0x1013 else 0)"
proof -
  have pv: "pvalid 0x801" "pvalid 0xc01" "\<not> pvalid 0" "PTE2PA 0x801 = 0x2000" "PTE2PA 0xc01 = 0x3000"
    by (simp_all add: pvalid_def PTE2PA_def pte_defs)
  have al: "page_aligned 0x1000" "page_aligned 0x2000" "page_aligned 0x3000"
    by (simp_all add: page_aligned_def)
  have v1: "pvalid (ent demo_mem 0x1000 i) \<longleftrightarrow> i = 0" "pvalid (ent demo_mem 0x2000 i) \<longleftrightarrow> i = 0" if "i < 512" for i
    using that pv by (simp_all add: demo_ent)
  have v: "{i. i < 512 \<and> pvalid (ent demo_mem 0x1000 i)} = {0}" "{i. i < 512 \<and> pvalid (ent demo_mem 0x2000 i)} = {0}"
    using v1 by auto
  have c: "PTE2PA (ent demo_mem 0x1000 0) = 0x2000" "PTE2PA (ent demo_mem 0x2000 0) = 0x3000"
    using pv by (simp_all add: demo_ent)
  have t1: "tpages demo_mem 1 0x2000 = {0x2000, 0x3000}"
    unfolding One_nat_def tpages.simps v by (simp add: c)
  have w1: "ptwf demo_mem 1 0x2000"
    unfolding One_nat_def ptwf.simps using v1(2) c al by auto
  show "tpages demo_mem 2 0x1000 = {0x1000, 0x2000, 0x3000}"
    unfolding numeral_2_eq_2 tpages.simps(2) [of _ "Suc 0"] v using t1 by (simp add: c)
  show "ptwf demo_mem 2 0x1000"
    unfolding numeral_2_eq_2 ptwf.simps(2) [of _ "Suc 0"] using v1(1) c t1 w1 al by auto
  show "ptev demo_mem 2 0x1000 va = (if px 2 va = 0 \<and> px 1 va = 0 \<and> px 0 va = 0 then 0x1013 else 0)"
    using v1 pv PX_less [of 2 va] PX_less [of 1 va] PX_less [of 0 va]
    by (auto simp: numeral_2_eq_2 demo_ent Let_def)
qed

lemma demo_upa: "upa demo_mem 0x1000 va = (if va < MAXVA \<and> unat va div 4096 = 0 then 0x4000 else 0)"
proof (cases "va < MAXVA")
  case True
  have "(px 2 va = 0 \<and> px 1 va = 0 \<and> px 0 va = 0) \<longleftrightarrow> same_px 2 va 0"
    by (auto simp: same_px_def PX_take_bit le_Suc_eq numeral_2_eq_2)
  also have "\<dots> \<longleftrightarrow> unat va div 4096 = 0"
    using same_px_iff [OF True, of 0] by (simp add: MAXVA_def)
  finally have "ptev demo_mem 2 0x1000 va = (if unat va div 4096 = 0 then 0x1013 else 0)"
    using demo_tree(3) [of va] by (simp only:)
  moreover have "(0x1013 :: uint64) AND PTE_V \<noteq> 0" "(0x1013 :: uint64) AND PTE_U \<noteq> 0" "PTE2PA 0x1013 = 0x4000"
    by (simp_all add: pte_defs PTE2PA_def)
  ultimately show ?thesis using True by (simp add: upa_def not_le)
next
  case False
  then show ?thesis by (simp add: upa_def not_less)
qed

lemma demo_user: "user_ok demo_mem 0x1000" "umapped demo_mem 0x1000 0 4096"
proof -
  have "va = 0" if "page_aligned va" "unat va div 4096 = 0" for va
    using that by (simp add: page_aligned_def flip: unat_eq_0)
  then show "user_ok demo_mem 0x1000"
    unfolding user_ok_def demo_tree(2) demo_upa by (auto split: if_splits)
  show "umapped demo_mem 0x1000 0 4096"
    by (simp add: umapped_def demo_upa MAXVA_def)
qed

theorem copyout_copyin_roundtrip_witness:
  "\<exists>t. copyout 0x1000 10 (\<lambda>i. of_nat i) 3 demo_ust = Ret 0 t
     \<and> copyin 0x1000 (\<lambda>_. 0) 0 10 3 t = Ret (0, blit 0 3 (\<lambda>i. of_nat i) (\<lambda>_. 0)) t"
proof -
  have m: "mem demo_ust = demo_mem" by (simp add: demo_ust_def)
  have "umapped demo_mem 0x1000 (unat (10 :: uint64)) (unat (3 :: uint64))"
    using demo_user(2) by (simp add: umapped_def demo_upa MAXVA_def)
  moreover have "unat (3 :: uint64) = 3" by simp
  ultimately show ?thesis
    using copyout_copyin_roundtrip [of demo_ust "0x1000" 10 3 "\<lambda>i. of_nat i"] demo_tree(1) demo_user(1)
    unfolding m by (simp only:) blast
qed

text \<open>
  C15. \<^verbatim>\<open>copyout\<close> does not check \<^verbatim>\<open>PTE_W\<close>: a byte written to a user page that is mapped without
  write permission is stored all the same, and the call reports success.
\<close>

theorem copyout_ignores_PTE_W:
  assumes "ptwf (mem s) 2 pt" and "user_ok (mem s) pt" and "va < MAXVA"
    and "ptev (mem s) 2 pt (PGROUNDDOWN va) AND PTE_V \<noteq> 0" and "ptev (mem s) 2 pt (PGROUNDDOWN va) AND PTE_U \<noteq> 0"
    and "PTE2PA (ptev (mem s) 2 pt (PGROUNDDOWN va)) \<noteq> 0"
    and "ptev (mem s) 2 pt (PGROUNDDOWN va) AND PTE_W = 0"
  shows "\<exists>t. copyout pt va (\<lambda>_. b) 1 s = Ret 0 t \<and> mem t (uaddr (mem s) pt (unat va)) = b"
proof -
  have "unat (PGROUNDDOWN va) \<le> unat va" unfolding unat_PGROUNDDOWN by (rule div_times_less_eq_dividend)
  then have "PGROUNDDOWN va < MAXVA" using assms(3) by (simp add: word_less_nat_alt)
  then have u: "upa (mem s) pt (pageof (unat va)) \<noteq> 0"
    unfolding pageof_unat using assms(4-6) by (simp add: upa_def Let_def not_le)
  then have um: "umapped (mem s) pt (unat va) (unat (1 :: uint64))" by (simp add: umapped_def)
  have "unat va < 2 ^ 64" using assms(3) by (simp add: word_less_nat_alt MAXVA_unat)
  with copyout_mapped [OF assms(1,2) um, of "\<lambda>_. b"] u show ?thesis by auto
qed

theorem copyout_ignores_PTE_W_witness:
  "\<exists>t. copyout 0x1000 5 (\<lambda>_. 7) 1 demo_ust = Ret 0 t \<and> mem t 0x4005 = 7
     \<and> ptev (mem demo_ust) 2 0x1000 0 AND PTE_W = 0"
proof -
  have m: "mem demo_ust = demo_mem" by (simp add: demo_ust_def)
  have pg: "PGROUNDDOWN 5 = 0" by (simp add: PGROUNDDOWN_def PGSIZE_def)
  have e: "ptev demo_mem 2 0x1000 0 = 0x1013" using demo_tree(3) [of 0] by (simp add: PX_take_bit)
  have ua: "uaddr demo_mem 0x1000 (unat (5 :: uint64)) = 0x4005" by (simp add: uaddr_def demo_upa MAXVA_def)
  have "\<exists>t. copyout 0x1000 5 (\<lambda>_. 7) 1 demo_ust = Ret 0 t \<and> mem t (uaddr (mem demo_ust) 0x1000 (unat (5 :: uint64))) = 7"
    by (rule copyout_ignores_PTE_W)
      (simp_all add: m pg e demo_tree(1) demo_user(1) MAXVA_def pte_defs PTE2PA_def)
  then show ?thesis unfolding m ua e by (simp add: pte_defs)
qed

end
