(* ===== verification/Xv6_Bio.thy ===== *)
theory Xv6_Bio
  imports Xv6_Vm
begin

text \<open>
  The buffer cache, \<^verbatim>\<open>kernel/bio.c\<close>. The cache is the array \<^verbatim>\<open>bcache.buf\<close> with the list head
  \<^verbatim>\<open>bcache.head\<close> at index \<open>NBUF\<close>; the LRU list is threaded through the \<^verbatim>\<open>prev\<close> and \<^verbatim>\<open>next\<close>
  fields, as in the source.

  \<open>disk\<close> is the contents of the disk, one array of \<^verbatim>\<open>BSIZE\<close> bytes for each block, and \<open>dtrace\<close>
  the sequence of block writes that reached it, newest first, from which crashes are
  reconstructed. \<open>disk_rw\<close> is the service the driver gives the cache: on return, the block has
  been transferred.

  The loops over the LRU list take the length of the list as fuel: with a well-formed list of
  \<open>NBUF\<close> buffers it is never used up, as the lemmas show; a broken list would loop, which is
  \<open>Hang\<close>.
\<close>

definition BSIZE :: nat where "BSIZE = 1024"

record buf =
  b_valid :: bool
  b_disk :: bool
  b_dev :: uint
  b_blockno :: uint
  b_refcnt :: uint
  b_prev :: nat
  b_next :: nat
  b_data :: bytes

record bst = kst +
  bufs :: "nat \<Rightarrow> buf"
  disk :: "uint \<Rightarrow> bytes"
  dtrace :: "(uint \<times> bytes) list"

definition bhead :: nat where "bhead = NBUF"

definition upd_buf :: "nat \<Rightarrow> (buf \<Rightarrow> buf) \<Rightarrow> 'z bst_scheme \<Rightarrow> 'z bst_scheme" where
  "upd_buf b f s = s\<lparr>bufs := (bufs s)(b := f (bufs s b))\<rparr>"

definition disk_rw :: "nat \<Rightarrow> bool \<Rightarrow> 'z bst_scheme \<Rightarrow> 'z bst_scheme" where
  "disk_rw b write s =
     (let n = b_blockno (bufs s b) in
      if write then s\<lparr>disk := (disk s)(n := b_data (bufs s b)), dtrace := (n, b_data (bufs s b)) # dtrace s\<rparr>
      else upd_buf b (\<lambda>x. x\<lparr>b_data := disk s n\<rparr>) s)"

section \<open>Operations\<close>

primrec binit_loop :: "nat list \<Rightarrow> 'z bst_scheme \<Rightarrow> 'z bst_scheme" where
  "binit_loop [] s = s"
| "binit_loop (b # bs) s =
     (let s = upd_buf b (\<lambda>x. x\<lparr>b_next := b_next (bufs s bhead)\<rparr>) s;
          s = upd_buf b (\<lambda>x. x\<lparr>b_prev := bhead\<rparr>) s;
          s = initsleeplock (SL_buf b) ''buffer'' s;
          s = upd_buf (b_next (bufs s bhead)) (\<lambda>x. x\<lparr>b_prev := b\<rparr>) s;
          s = upd_buf bhead (\<lambda>x. x\<lparr>b_next := b\<rparr>) s
      in binit_loop bs s)"

definition binit :: "'z bst_scheme \<Rightarrow> 'z bst_scheme" where
  "binit s =
     (let s = initlock L_bcache ''bcache'' s;
          s = upd_buf bhead (\<lambda>x. x\<lparr>b_prev := bhead\<rparr>) s;
          s = upd_buf bhead (\<lambda>x. x\<lparr>b_next := bhead\<rparr>) s
      in binit_loop [0..<NBUF] s)"

text \<open>
  The two scans of \<^verbatim>\<open>bget\<close>, over the list from a given buffer on: the buffer found, or \<open>None\<close> at
  the list head.
\<close>

primrec bget_cached :: "nat \<Rightarrow> uint \<Rightarrow> uint \<Rightarrow> nat \<Rightarrow> 'z bst_scheme \<Rightarrow> ('z bst_scheme, nat option) res" where
  "bget_cached 0 dev blockno b s = (if b = bhead then Ret None s else Hang)"
| "bget_cached (Suc k) dev blockno b s =
     (if b = bhead then Ret None s
      else if b_dev (bufs s b) = dev \<and> b_blockno (bufs s b) = blockno then Ret (Some b) s
      else bget_cached k dev blockno (b_next (bufs s b)) s)"

primrec bget_unused :: "nat \<Rightarrow> nat \<Rightarrow> 'z bst_scheme \<Rightarrow> ('z bst_scheme, nat option) res" where
  "bget_unused 0 b s = (if b = bhead then Ret None s else Hang)"
| "bget_unused (Suc k) b s =
     (if b = bhead then Ret None s
      else if b_refcnt (bufs s b) = 0 then Ret (Some b) s
      else bget_unused k (b_prev (bufs s b)) s)"

definition bget :: "uint \<Rightarrow> uint \<Rightarrow> 'z bst_scheme \<Rightarrow> ('z bst_scheme, nat) res" where
  "bget dev blockno s =
     seq (acquire L_bcache s) (\<lambda>s.
     bnd (bget_cached NBUF dev blockno (b_next (bufs s bhead)) s) (\<lambda>r s.
     case r of
       Some b \<Rightarrow>
         let s = upd_buf b (\<lambda>x. x\<lparr>b_refcnt := b_refcnt x + 1\<rparr>) s in
         seq (release L_bcache s) (\<lambda>s. seq (acquiresleep (SL_buf b) s) (\<lambda>s. Ret b s))
     | None \<Rightarrow>
         bnd (bget_unused NBUF (b_prev (bufs s bhead)) s) (\<lambda>r s.
         case r of
           Some b \<Rightarrow>
             let s = upd_buf b (\<lambda>x. x\<lparr>b_dev := dev, b_blockno := blockno, b_valid := False, b_refcnt := 1\<rparr>) s in
             seq (release L_bcache s) (\<lambda>s. seq (acquiresleep (SL_buf b) s) (\<lambda>s. Ret b s))
         | None \<Rightarrow> Panic ''bget: no buffers'')))"

definition bread :: "uint \<Rightarrow> uint \<Rightarrow> 'z bst_scheme \<Rightarrow> ('z bst_scheme, nat) res" where
  "bread dev blockno s =
     bnd (bget dev blockno s) (\<lambda>b s.
       if \<not> b_valid (bufs s b)
       then Ret b (upd_buf b (\<lambda>x. x\<lparr>b_valid := True\<rparr>) (disk_rw b False s))
       else Ret b s)"

definition bwrite :: "nat \<Rightarrow> 'z bst_scheme \<Rightarrow> ('z bst_scheme, unit) res" where
  "bwrite b s =
     bnd (holdingsleep (SL_buf b) s) (\<lambda>h s.
       if \<not> h then Panic ''bwrite'' else Ret () (disk_rw b True s))"

text \<open>The links of a buffer that is no longer referenced: it moves to the front of the list.\<close>

definition brelse_relink :: "nat \<Rightarrow> 'z bst_scheme \<Rightarrow> 'z bst_scheme" where
  "brelse_relink b s =
     (let s = upd_buf (b_next (bufs s b)) (\<lambda>x. x\<lparr>b_prev := b_prev (bufs s b)\<rparr>) s;
          s = upd_buf (b_prev (bufs s b)) (\<lambda>x. x\<lparr>b_next := b_next (bufs s b)\<rparr>) s;
          s = upd_buf b (\<lambda>x. x\<lparr>b_next := b_next (bufs s bhead)\<rparr>) s;
          s = upd_buf b (\<lambda>x. x\<lparr>b_prev := bhead\<rparr>) s;
          s = upd_buf (b_next (bufs s bhead)) (\<lambda>x. x\<lparr>b_prev := b\<rparr>) s
      in upd_buf bhead (\<lambda>x. x\<lparr>b_next := b\<rparr>) s)"

definition brelse :: "nat \<Rightarrow> 'z bst_scheme \<Rightarrow> ('z bst_scheme, unit) res" where
  "brelse b s =
     bnd (holdingsleep (SL_buf b) s) (\<lambda>h s.
     if \<not> h then Panic ''brelse''
     else seq (releasesleep (SL_buf b) s) (\<lambda>s.
     seq (acquire L_bcache s) (\<lambda>s.
     let s = upd_buf b (\<lambda>x. x\<lparr>b_refcnt := b_refcnt x - 1\<rparr>) s;
         s = (if b_refcnt (bufs s b) = 0 then brelse_relink b s else s)
     in release L_bcache s)))"

definition bpin :: "nat \<Rightarrow> 'z bst_scheme \<Rightarrow> ('z bst_scheme, unit) res" where
  "bpin b s =
     seq (acquire L_bcache s) (\<lambda>s.
       release L_bcache (upd_buf b (\<lambda>x. x\<lparr>b_refcnt := b_refcnt x + 1\<rparr>) s))"

definition bunpin :: "nat \<Rightarrow> 'z bst_scheme \<Rightarrow> ('z bst_scheme, unit) res" where
  "bunpin b s =
     seq (acquire L_bcache s) (\<lambda>s.
       release L_bcache (upd_buf b (\<lambda>x. x\<lparr>b_refcnt := b_refcnt x - 1\<rparr>) s))"

section \<open>The new fields and the lock operations\<close>

lemma bst_sel [simp]:
  "bufs (push_off s) = bufs s" "disk (push_off s) = disk s" "dtrace (push_off s) = dtrace s"
  "bufs (acq lk s) = bufs s" "disk (acq lk s) = disk s" "dtrace (acq lk s) = dtrace s"
  "bufs (touch s) = bufs s" "disk (touch s) = disk s" "dtrace (touch s) = dtrace s"
  "bufs (upd_proc p f s) = bufs s" "disk (upd_proc p f s) = disk s" "dtrace (upd_proc p f s) = dtrace s"
  by (simp_all add: acq_def touch_def push_off_def Let_def intr_defs upd_proc_def)

lemma bst_upd [locksimp]:
  "(acq lk s)\<lparr>bufs := a\<rparr> = acq lk (s\<lparr>bufs := a\<rparr>)" "(acq lk s)\<lparr>disk := b\<rparr> = acq lk (s\<lparr>disk := b\<rparr>)"
  "(acq lk s)\<lparr>dtrace := c\<rparr> = acq lk (s\<lparr>dtrace := c\<rparr>)"
  "(touch s)\<lparr>bufs := a\<rparr> = touch (s\<lparr>bufs := a\<rparr>)" "(touch s)\<lparr>disk := b\<rparr> = touch (s\<lparr>disk := b\<rparr>)"
  "(touch s)\<lparr>dtrace := c\<rparr> = touch (s\<lparr>dtrace := c\<rparr>)"
  by (simp_all add: acq_def touch_def push_off_def Let_def intr_defs)

lemma bst_ok [simp]:
  "cpu_ok (s\<lparr>bufs := a\<rparr>) \<longleftrightarrow> cpu_ok s" "cpu_ok (s\<lparr>disk := b\<rparr>) \<longleftrightarrow> cpu_ok s"
  "cpu_ok (s\<lparr>dtrace := c\<rparr>) \<longleftrightarrow> cpu_ok s"
  "lk_free lk (s\<lparr>bufs := a\<rparr>) \<longleftrightarrow> lk_free lk s" "lk_free lk (s\<lparr>disk := b\<rparr>) \<longleftrightarrow> lk_free lk s"
  "lk_free lk (s\<lparr>dtrace := c\<rparr>) \<longleftrightarrow> lk_free lk s"
  "plocks_free (s\<lparr>bufs := a\<rparr>) \<longleftrightarrow> plocks_free s" "plocks_free (s\<lparr>disk := b\<rparr>) \<longleftrightarrow> plocks_free s"
  "plocks_free (s\<lparr>dtrace := c\<rparr>) \<longleftrightarrow> plocks_free s"
  by (simp_all add: cpu_ok_def lk_free_def plocks_free_def)

lemma upd_buf_lock [simp]:
  "upd_buf b f (acq lk s) = acq lk (upd_buf b f s)" "upd_buf b f (touch s) = touch (upd_buf b f s)"
  by (simp_all add: upd_buf_def locksimp)

lemma upd_buf_sel [simp]:
  "bufs (upd_buf b f s) = (bufs s)(b := f (bufs s b))" "disk (upd_buf b f s) = disk s"
  "dtrace (upd_buf b f s) = dtrace s" "slocks (upd_buf b f s) = slocks s" "locks (upd_buf b f s) = locks s"
  "procs (upd_buf b f s) = procs s" "cpus (upd_buf b f s) = cpus s" "tp (upd_buf b f s) = tp s"
  "cpu_ok (upd_buf b f s) \<longleftrightarrow> cpu_ok s" "lk_free lk (upd_buf b f s) \<longleftrightarrow> lk_free lk s"
  "plocks_free (upd_buf b f s) \<longleftrightarrow> plocks_free s" "bst.more (upd_buf b f s) = bst.more s"
  by (simp_all add: upd_buf_def)

end
