(* ===== verification/Xv6_Bcache.thy ===== *)
theory Xv6_Bcache
  imports Xv6_Bio
begin

text \<open>
  Correctness of the buffer cache: the LRU list is a permutation of the buffers with consistent
  links in both directions, a block is cached at most once, and \<open>bread\<close> returns the current
  contents of the block, from the cache if it is there and from the disk otherwise.
\<close>

section \<open>Doubly linked segments\<close>

text \<open>The links from node \<open>a\<close> through \<open>xs\<close> to node \<open>b\<close>.\<close>

primrec seg :: "(nat \<Rightarrow> buf) \<Rightarrow> nat \<Rightarrow> nat list \<Rightarrow> nat \<Rightarrow> bool" where
  "seg B a [] b \<longleftrightarrow> b_next (B a) = b \<and> b_prev (B b) = a"
| "seg B a (x # xs) b \<longleftrightarrow> b_next (B a) = x \<and> b_prev (B x) = a \<and> seg B x xs b"

definition lru :: "nat list \<Rightarrow> (nat \<Rightarrow> buf) \<Rightarrow> bool" where
  "lru xs B \<longleftrightarrow> seg B bhead xs bhead \<and> distinct (bhead # xs)"

lemma seg_append: "seg B a (xs @ x # ys) b \<longleftrightarrow> seg B a xs x \<and> seg B x ys b"
  by (induction xs arbitrary: a) auto

lemma seg_cong:
  assumes "b_next (B' a) = b_next (B a)" and "b_prev (B' b) = b_prev (B b)"
    and "\<And>x. x \<in> set xs \<Longrightarrow> b_next (B' x) = b_next (B x) \<and> b_prev (B' x) = b_prev (B x)"
  shows "seg B' a xs b = seg B a xs b"
  using assms by (induction xs arbitrary: a) auto

lemma lru_cong:
  assumes "\<And>x. b_next (B' x) = b_next (B x) \<and> b_prev (B' x) = b_prev (B x)"
  shows "lru xs B' = lru xs B"
  unfolding lru_def using seg_cong [of B' bhead B bhead xs] assms by simp

text \<open>Insertion after the head.\<close>

definition link_front :: "nat \<Rightarrow> (nat \<Rightarrow> buf) \<Rightarrow> nat \<Rightarrow> buf" where
  "link_front b B =
     (let B = B(b := (B b)\<lparr>b_next := b_next (B bhead)\<rparr>);
          B = B(b := (B b)\<lparr>b_prev := bhead\<rparr>);
          n = b_next (B bhead);
          B = B(n := (B n)\<lparr>b_prev := b\<rparr>)
      in B(bhead := (B bhead)\<lparr>b_next := b\<rparr>))"

definition unlink :: "nat \<Rightarrow> (nat \<Rightarrow> buf) \<Rightarrow> nat \<Rightarrow> buf" where
  "unlink b B =
     (let n = b_next (B b); B = B(n := (B n)\<lparr>b_prev := b_prev (B b)\<rparr>); p = b_prev (B b)
      in B(p := (B p)\<lparr>b_next := b_next (B b)\<rparr>))"

lemma seg_hd: "seg B a xs b \<Longrightarrow> b_next (B a) = hd (xs @ [b])"
  by (cases xs) auto

lemma lru_link_front:
  assumes "lru xs B" and "b \<notin> set xs" and "b \<noteq> bhead"
  shows "lru (b # xs) (link_front b B)"
proof -
  let ?B = "link_front b B"
  have sg: "seg B bhead xs bhead" and d: "distinct (bhead # xs)" using assms(1) by (simp_all add: lru_def)
  have "seg ?B b xs bhead"
  proof (cases xs)
    case Nil
    then show ?thesis using sg assms(3) by (auto simp: link_front_def Let_def)
  next
    case (Cons x ys)
    have x: "x \<noteq> bhead" "x \<noteq> b" "bhead \<notin> set ys" "b \<notin> set ys" "x \<notin> set ys"
      and nx: "b_next (B bhead) = x" and sx: "seg B x ys bhead"
      using sg d assms(2) Cons by auto
    have "b_next (?B z) = b_next (B z) \<and> b_prev (?B z) = b_prev (B z)" if "z \<in> set ys" for z
      using that x nx assms(3) by (auto simp: link_front_def Let_def)
    moreover have "b_next (?B x) = b_next (B x)" "b_prev (?B bhead) = b_prev (B bhead)"
      using x nx assms(3) by (auto simp: link_front_def Let_def)
    ultimately have "seg ?B x ys bhead" using sx by (subst seg_cong [of _ _ B]) auto
    then show ?thesis using Cons x nx assms(3) by (auto simp: link_front_def Let_def)
  qed
  moreover have "b_next (?B bhead) = b" "b_prev (?B b) = bhead"
    using assms(3) seg_hd [OF sg] assms(2) by (cases xs; auto simp: link_front_def Let_def)+
  ultimately show ?thesis using d assms(2,3) by (simp add: lru_def)
qed

lemma seg_last: "seg B a xs b \<Longrightarrow> b_prev (B b) = last (a # xs)"
  by (induction xs arbitrary: a) auto

lemma seg_snoc: "seg B a (xs @ [x]) b \<longleftrightarrow> seg B a xs x \<and> b_next (B x) = b \<and> b_prev (B b) = x"
  using seg_append [of B a xs x "[]" b] by simp

lemma lru_unlink:
  assumes "lru (us @ b # vs) B"
  shows "lru (us @ vs) (unlink b B)"
proof -
  let ?B = "unlink b B"
  have su: "seg B bhead us b" and sv: "seg B b vs bhead" and d: "distinct (bhead # us @ b # vs)"
    using assms by (simp_all add: lru_def seg_append)
  define p where "p = last (bhead # us)"
  define n where "n = hd (vs @ [bhead])"
  have p: "b_prev (B b) = p" using seg_last [OF su] by (simp add: p_def)
  have n: "b_next (B b) = n" using seg_hd [OF sv] by (simp add: n_def)
  have pb: "p \<noteq> b" "p = bhead \<or> p \<in> set us" using d by (auto simp: p_def)
  have nb: "n \<noteq> b" "n = bhead \<or> n \<in> set vs" using d by (cases vs; auto simp: n_def)+
  have nx: "b_next (?B z) = (if z = p then n else b_next (B z))"
    and pv: "b_prev (?B z) = (if z = n then p else b_prev (B z))" for z
    using p n pb nb by (auto simp: unlink_def Let_def)
  have mid: "b_next (?B p) = n" "b_prev (?B n) = p" by (simp_all add: nx pv)
  have left: "seg ?B bhead ws p" if us: "us = ws @ [p]" for ws
  proof -
    have "seg B bhead ws p" using su us by (simp add: seg_snoc)
    moreover have "p \<noteq> bhead" "p \<notin> set ws" "n \<notin> set ws" "n \<noteq> p" using d us nb(2) by auto
    ultimately show ?thesis using nx pv by (subst seg_cong [of _ _ B]) auto
  qed
  have right: "vs \<noteq> [] \<Longrightarrow> seg ?B n (tl vs) bhead"
  proof -
    assume ne: "vs \<noteq> []"
    then obtain ws where vs: "vs = n # ws" by (cases vs) (auto simp: n_def)
    then have "seg B n ws bhead" using sv by simp
    moreover have "n \<noteq> bhead" "n \<notin> set ws" "p \<notin> set ws" "p \<noteq> n" using d vs pb(2) by auto
    ultimately show ?thesis using nx pv vs by (subst seg_cong [of _ _ B]) auto
  qed
  have "seg ?B bhead (us @ vs) bhead"
  proof (cases us rule: rev_cases)
    case Nil
    then have "p = bhead" by (simp add: p_def)
    then show ?thesis using Nil right mid by (cases vs) (auto simp: n_def)
  next
    case (snoc us' x)
    then have x: "x = p" by (simp add: p_def)
    have l: "seg ?B bhead us' p" using left snoc x by simp
    show ?thesis
    proof (cases vs)
      case vs: Nil
      then have "n = bhead" by (simp add: n_def)
      then show ?thesis using snoc x l mid vs by (simp add: seg_snoc)
    next
      case (Cons y ws)
      then have "y = n" by (simp add: n_def)
      then show ?thesis using snoc x l mid right Cons by (simp add: seg_append)
    qed
  qed
  then show ?thesis using d by (simp add: lru_def)
qed

lemma lru_move_front:
  assumes "lru xs B" and "b \<in> set xs"
  shows "lru (b # remove1 b xs) (link_front b (unlink b B))"
proof -
  obtain us vs where xs: "xs = us @ b # vs" "b \<notin> set us" using split_list_first [OF assms(2)] by blast
  have d: "distinct (bhead # xs)" using assms(1) by (simp add: lru_def)
  have r: "remove1 b xs = us @ vs" using xs by (simp add: remove1_append)
  show ?thesis unfolding r
    by (rule lru_link_front [OF lru_unlink]) (use assms(1) xs d in auto)
qed

section \<open>The scans of \<open>bget\<close>\<close>

lemma bget_cached_seg:
  "seg (bufs s) a ys bhead \<Longrightarrow> bhead \<notin> set ys \<Longrightarrow> length ys \<le> k \<Longrightarrow>
   bget_cached k dev b (hd (ys @ [bhead])) s
     = Ret (List.find (\<lambda>i. b_dev (bufs s i) = dev \<and> b_blockno (bufs s i) = b) ys) s"
proof (induction ys arbitrary: a k)
  case Nil
  then show ?case by (cases k) simp_all
next
  case (Cons y ys)
  obtain k' where k: "k = Suc k'" using Cons.prems(3) by (cases k) auto
  have "bget_cached k' dev b (hd (ys @ [bhead])) s
     = Ret (List.find (\<lambda>i. b_dev (bufs s i) = dev \<and> b_blockno (bufs s i) = b) ys) s"
    by (rule Cons.IH [of y]) (use Cons.prems k in auto)
  moreover have "b_next (bufs s y) = hd (ys @ [bhead])"
    using Cons.prems(1) seg_hd by auto
  ultimately show ?case using Cons.prems(2) k by simp
qed

lemma bget_unused_seg:
  "seg (bufs s) bhead ys b \<Longrightarrow> bhead \<notin> set ys \<Longrightarrow> length ys \<le> k \<Longrightarrow>
   bget_unused k (last (bhead # ys)) s = Ret (List.find (\<lambda>i. b_refcnt (bufs s i) = 0) (rev ys)) s"
proof (induction ys arbitrary: b k rule: rev_induct)
  case Nil
  then show ?case by (cases k) simp_all
next
  case (snoc y ys)
  obtain k' where k: "k = Suc k'" using snoc.prems(3) by (cases k) auto
  have sg: "seg (bufs s) bhead ys y" using snoc.prems(1) by (simp add: seg_snoc)
  have "bget_unused k' (last (bhead # ys)) s = Ret (List.find (\<lambda>i. b_refcnt (bufs s i) = 0) (rev ys)) s"
    by (rule snoc.IH [OF sg]) (use snoc.prems k in auto)
  moreover have "b_prev (bufs s y) = last (bhead # ys)" by (rule seg_last [OF sg])
  ultimately show ?case using snoc.prems(2) k by simp
qed

lemma find_SomeD: "List.find P xs = Some x \<Longrightarrow> x \<in> set xs \<and> P x"
  by (induction xs) (auto split: if_splits)

lemma find_NoneD: "List.find P xs = None \<Longrightarrow> x \<in> set xs \<Longrightarrow> \<not> P x"
  by (auto simp: find_None_iff)

lemma find_unique:
  assumes "set xs = set ys" and "\<And>i j. i \<in> set ys \<Longrightarrow> j \<in> set ys \<Longrightarrow> P i \<Longrightarrow> P j \<Longrightarrow> i = j"
  shows "List.find P xs = List.find P ys"
proof (cases "List.find P ys")
  case None
  then have "\<not> (\<exists>x. x \<in> set xs \<and> P x)" using assms(1) find_NoneD [OF None] by blast
  then have "List.find P xs = None" unfolding find_None_iff .
  then show ?thesis using None by simp
next
  case (Some y)
  note y = find_SomeD [OF Some]
  then have "List.find P xs \<noteq> None" using assms(1) find_NoneD by metis
  then obtain x where x: "List.find P xs = Some x" by blast
  then show ?thesis using find_SomeD [OF x] Some y assms by auto
qed

section \<open>The invariant of the cache\<close>

text \<open>No spin lock is held on any hart, and a process runs on this one.\<close>

definition quiet :: "'z mach_scheme \<Rightarrow> bool" where
  "quiet s \<longleftrightarrow> cpu_ok s \<and> (\<forall>lk. lk_free lk s) \<and> cpu_proc (cpus s (tp s)) \<noteq> None"

definition mypid :: "'z mach_scheme \<Rightarrow> uint" where
  "mypid s = p_pid (procs s (the (cpu_proc (cpus s (tp s)))))"

text \<open>
  \<open>binv H s\<close>: the cache is consistent, and \<open>H\<close> is the set of buffers the current process has
  locked. A buffer nobody references holds what the disk holds.
\<close>

definition binv :: "nat set \<Rightarrow> 'z bst_scheme \<Rightarrow> bool" where
  "binv H s \<longleftrightarrow> quiet s \<and> H \<subseteq> {..<NBUF}
     \<and> (\<exists>xs. lru xs (bufs s) \<and> set xs = {..<NBUF})
     \<and> (\<forall>i < NBUF. \<forall>j < NBUF. b_dev (bufs s i) = ROOTDEV \<longrightarrow> b_dev (bufs s j) = ROOTDEV \<longrightarrow>
          b_blockno (bufs s i) = b_blockno (bufs s j) \<longrightarrow> i = j)
     \<and> (\<forall>i < NBUF. b_valid (bufs s i) \<longrightarrow> b_dev (bufs s i) = ROOTDEV)
     \<and> (\<forall>i < NBUF. sl_locked (slocks s (SL_buf i)) \<longleftrightarrow> i \<in> H)
     \<and> (\<forall>i \<in> H. sl_pid (slocks s (SL_buf i)) = mypid s \<and> b_refcnt (bufs s i) \<noteq> 0)
     \<and> (\<forall>i < NBUF. b_refcnt (bufs s i) = 0 \<longrightarrow> b_valid (bufs s i) \<longrightarrow>
          b_data (bufs s i) = disk s (b_blockno (bufs s i)))"

text \<open>The buffer of a block, and the block's current contents.\<close>

definition lookup :: "uint \<Rightarrow> 'z bst_scheme \<Rightarrow> nat option" where
  "lookup b s = List.find (\<lambda>i. b_dev (bufs s i) = ROOTDEV \<and> b_blockno (bufs s i) = b) [0..<NBUF]"

definition block_of :: "uint \<Rightarrow> 'z bst_scheme \<Rightarrow> bytes" where
  "block_of b s = (case lookup b s of
     Some i \<Rightarrow> if b_valid (bufs s i) then b_data (bufs s i) else disk s b | None \<Rightarrow> disk s b)"

text \<open>What cache operations leave alone.\<close>

definition bframe :: "'z bst_scheme \<Rightarrow> 'z bst_scheme \<Rightarrow> bool" where
  "bframe s t \<longleftrightarrow> (\<exists>B L P d tr. touch t = touch (s\<lparr>bufs := B, slocks := L, procs := P, disk := d, dtrace := tr\<rparr>)
     \<and> (\<forall>p. \<exists>st. P p = (procs s p)\<lparr>p_state := st\<rparr>)
     \<and> (\<forall>i. L (SL_inode i) = slocks s (SL_inode i)))"

lemma NBUF_eq: "NBUF = 30"
  by (simp add: NBUF_def MAXOPBLOCKS_def)

lemma lookup_Some: "lookup b s = Some i \<Longrightarrow> i < NBUF \<and> b_dev (bufs s i) = ROOTDEV \<and> b_blockno (bufs s i) = b"
  by (auto simp: lookup_def dest!: find_SomeD)

lemma lookup_None: "lookup b s = None \<Longrightarrow> i < NBUF \<Longrightarrow> \<not> (b_dev (bufs s i) = ROOTDEV \<and> b_blockno (bufs s i) = b)"
  unfolding lookup_def by (drule find_NoneD [of _ _ i]) auto

lemma lookup_eq:
  assumes "binv H s" and "i < NBUF" and "b_dev (bufs s i) = ROOTDEV"
  shows "lookup (b_blockno (bufs s i)) s = Some i"
proof (cases "lookup (b_blockno (bufs s i)) s")
  case None
  then show ?thesis using lookup_None [OF None assms(2)] assms(3) by simp
next
  case (Some j)
  from lookup_Some [OF Some] show ?thesis using assms Some by (auto simp: binv_def)
qed

lemma binv_scan:
  assumes "binv H s"
  shows "bget_cached NBUF ROOTDEV b (b_next (bufs s bhead)) s = Ret (lookup b s) s"
    and "\<exists>r. bget_unused NBUF (b_prev (bufs s bhead)) s = Ret r s
       \<and> (case r of None \<Rightarrow> \<forall>i < NBUF. b_refcnt (bufs s i) \<noteq> 0 | Some i \<Rightarrow> i < NBUF \<and> b_refcnt (bufs s i) = 0)"
proof -
  obtain xs where l: "lru xs (bufs s)" and st: "set xs = {..<NBUF}" using assms by (auto simp: binv_def)
  have sg: "seg (bufs s) bhead xs bhead" and d: "distinct xs" "bhead \<notin> set xs" using l by (auto simp: lru_def)
  have len: "length xs = NBUF" using d(1) st distinct_card by fastforce
  have "bget_cached NBUF ROOTDEV b (b_next (bufs s bhead)) s
     = Ret (List.find (\<lambda>i. b_dev (bufs s i) = ROOTDEV \<and> b_blockno (bufs s i) = b) xs) s"
    using bget_cached_seg [OF sg d(2)] len seg_hd [OF sg] by simp
  also have "List.find (\<lambda>i. b_dev (bufs s i) = ROOTDEV \<and> b_blockno (bufs s i) = b) xs = lookup b s"
    unfolding lookup_def by (rule find_unique) (use st assms in \<open>auto simp: binv_def\<close>)
  finally show "bget_cached NBUF ROOTDEV b (b_next (bufs s bhead)) s = Ret (lookup b s) s" .
  have "bget_unused NBUF (b_prev (bufs s bhead)) s = Ret (List.find (\<lambda>i. b_refcnt (bufs s i) = 0) (rev xs)) s"
    using bget_unused_seg [OF sg d(2)] len seg_last [OF sg] by simp
  moreover have "case List.find (\<lambda>i. b_refcnt (bufs s i) = 0) (rev xs) of
      None \<Rightarrow> \<forall>i < NBUF. b_refcnt (bufs s i) \<noteq> 0 | Some i \<Rightarrow> i < NBUF \<and> b_refcnt (bufs s i) = 0"
  proof (cases "List.find (\<lambda>i. b_refcnt (bufs s i) = 0) (rev xs)")
    case None
    have "b_refcnt (bufs s i) \<noteq> 0" if "i < NBUF" for i
      by (rule find_NoneD [OF None]) (use st that in simp)
    then show ?thesis using None by simp
  next
    case (Some i)
    from find_SomeD [OF Some] show ?thesis using Some st by simp
  qed
  ultimately show "\<exists>r. bget_unused NBUF (b_prev (bufs s bhead)) s = Ret r s
       \<and> (case r of None \<Rightarrow> \<forall>i < NBUF. b_refcnt (bufs s i) \<noteq> 0 | Some i \<Rightarrow> i < NBUF \<and> b_refcnt (bufs s i) = 0)"
    by blast
qed

section \<open>What the operations do\<close>

lemma bget_cached_cong:
  "bufs t = bufs s \<Longrightarrow> bget_cached k dev b x s = Ret r s \<Longrightarrow> bget_cached k dev b x t = Ret r t"
  by (induction k arbitrary: x) (auto split: if_splits)

lemma bget_unused_cong:
  "bufs t = bufs s \<Longrightarrow> bget_unused k x s = Ret r s \<Longrightarrow> bget_unused k x t = Ret r t"
  by (induction k arbitrary: x) (auto split: if_splits)

lemma quietD: "quiet s \<Longrightarrow> cpu_ok s" "quiet s \<Longrightarrow> lk_free lk s" "quiet s \<Longrightarrow> plocks_free s"
    "quiet s \<Longrightarrow> cpu_proc (cpus s (tp s)) = Some (the (cpu_proc (cpus s (tp s))))"
  by (auto simp: quiet_def plocks_free_def)

definition lockbuf :: "nat \<Rightarrow> 'z bst_scheme \<Rightarrow> 'z bst_scheme" where
  "lockbuf i s = s\<lparr>slocks := (slocks s)(SL_buf i := (slocks s (SL_buf i))\<lparr>sl_locked := True, sl_pid := mypid s\<rparr>)\<rparr>"

lemma lockbuf_simps [simp]:
  "bufs (lockbuf i s) = bufs s" "disk (lockbuf i s) = disk s" "dtrace (lockbuf i s) = dtrace s"
  "upd_buf j f (lockbuf i s) = lockbuf i (upd_buf j f s)"
  "slocks (lockbuf i s) = (slocks s)(SL_buf i := (slocks s (SL_buf i))\<lparr>sl_locked := True, sl_pid := mypid s\<rparr>)"
  "mypid (lockbuf i s) = mypid s" "mypid (s\<lparr>bufs := B\<rparr>) = mypid s"
  by (simp_all add: lockbuf_def upd_buf_def mypid_def)

lemma bget_hit:
  assumes "binv H s" and "lookup b s = Some i" and "i \<notin> H"
  shows "bget ROOTDEV b s = Ret i (touch (lockbuf i (upd_buf i (\<lambda>x. x\<lparr>b_refcnt := b_refcnt x + 1\<rparr>) s)))"
proof -
  have q: "quiet s" and i: "i < NBUF" using assms lookup_Some by (auto simp: binv_def)
  note q = quietD [OF q]
  have nl: "\<not> sl_locked (slocks s (SL_buf i))" using assms i by (auto simp: binv_def)
  let ?u = "upd_buf i (\<lambda>x. x\<lparr>b_refcnt := b_refcnt x + 1\<rparr>) s"
  have "bget_cached NBUF ROOTDEV b (b_next (bufs s bhead)) (acq L_bcache s) = Ret (Some i) (acq L_bcache s)"
    using bget_cached_cong [OF _ binv_scan(1) [OF assms(1)], of "acq L_bcache s"] assms(2) by simp
  moreover have "acquiresleep (SL_buf i) (touch ?u) = Ret () (touch (lockbuf i ?u))"
    using q nl by (subst acquiresleep_eq [where p = "the (cpu_proc (cpus s (tp s)))"])
      (simp_all add: lockbuf_def mypid_def locksimp)
  ultimately show ?thesis using q by (simp add: bget_def)
qed

lemma bget_miss:
  assumes "binv H s" and "lookup b s = None" and "\<exists>i < NBUF. b_refcnt (bufs s i) = 0"
  shows "\<exists>i < NBUF. i \<notin> H \<and> b_refcnt (bufs s i) = 0 \<and> bget ROOTDEV b s = Ret i (touch (lockbuf i
    (upd_buf i (\<lambda>x. x\<lparr>b_dev := ROOTDEV, b_blockno := b, b_valid := False, b_refcnt := 1\<rparr>) s)))"
proof -
  have "quiet s" using assms by (simp add: binv_def)
  note q = quietD [OF this]
  obtain i where i: "bget_unused NBUF (b_prev (bufs s bhead)) s = Ret (Some i) s" "i < NBUF" "b_refcnt (bufs s i) = 0"
    using binv_scan(2) [OF assms(1)] assms(3) by (auto split: option.splits)
  have iH: "i \<notin> H" using assms(1) i(3) by (auto simp: binv_def)
  then have nl: "\<not> sl_locked (slocks s (SL_buf i))" using assms(1) i(2) by (auto simp: binv_def)
  let ?u = "upd_buf i (\<lambda>x. x\<lparr>b_dev := ROOTDEV, b_blockno := b, b_valid := False, b_refcnt := 1\<rparr>) s"
  have "bget_cached NBUF ROOTDEV b (b_next (bufs s bhead)) (acq L_bcache s) = Ret None (acq L_bcache s)"
    using bget_cached_cong [OF _ binv_scan(1) [OF assms(1)], of "acq L_bcache s"] assms(2) by simp
  moreover have "bget_unused NBUF (b_prev (bufs s bhead)) (acq L_bcache s) = Ret (Some i) (acq L_bcache s)"
    using bget_unused_cong [OF _ i(1), of "acq L_bcache s"] by simp
  moreover have "acquiresleep (SL_buf i) (touch ?u) = Ret () (touch (lockbuf i ?u))"
    using q nl by (subst acquiresleep_eq [where p = "the (cpu_proc (cpus s (tp s)))"])
      (simp_all add: lockbuf_def mypid_def locksimp)
  ultimately show ?thesis using q i iH by (auto simp: bget_def)
qed

text \<open>The contents of a buffer, without its links and its reference count.\<close>

definition bcore :: "buf \<Rightarrow> bool \<times> uint \<times> uint \<times> bytes" where
  "bcore x = (b_valid x, b_dev x, b_blockno x, b_data x)"

lemma bcoreD:
  assumes "bcore x = bcore y"
  shows "b_valid x = b_valid y" "b_dev x = b_dev y" "b_blockno x = b_blockno y" "b_data x = b_data y"
  using assms by (simp_all add: bcore_def)

lemma lookup_cong: "(\<And>j. j < NBUF \<Longrightarrow> bcore (bufs t j) = bcore (bufs s j)) \<Longrightarrow> lookup b t = lookup b s"
  unfolding lookup_def by (rule find_cong) (auto simp: bcore_def)

lemma block_of_cong:
  assumes "\<And>j. j < NBUF \<Longrightarrow> bcore (bufs t j) = bcore (bufs s j)" and "disk t b = disk s b"
  shows "block_of b t = block_of b s"
proof -
  have "lookup b t = lookup b s" by (rule lookup_cong) (rule assms(1))
  then show ?thesis
    using assms bcoreD [OF assms(1)] lookup_Some [of b s]
    by (cases "lookup b s") (auto simp: block_of_def)
qed

lemma bframeI:
  assumes "touch t = touch (s\<lparr>bufs := B, slocks := L, procs := P, disk := d, dtrace := tr\<rparr>)"
    and "\<And>p. \<exists>st. P p = (procs s p)\<lparr>p_state := st\<rparr>" and "\<And>i. L (SL_inode i) = slocks s (SL_inode i)"
  shows "bframe s t"
  unfolding bframe_def using assms by blast

lemma p_state_id: "\<exists>st. (x :: 'a proc_scheme) = x\<lparr>p_state := st\<rparr>"
  by (rule exI [of _ "p_state x"]) simp

lemma bframe_refl [simp]: "bframe s s"
  by (rule bframeI [where B = "bufs s" and L = "slocks s" and P = "procs s" and d = "disk s" and tr = "dtrace s"])
    (auto intro: p_state_id)

lemma bframe_trans [trans]:
  fixes s t u :: "'z bst_scheme"
  assumes "bframe s t" and "bframe t u"
  shows "bframe s u"
proof -
  obtain B L P d tr where t: "touch t = touch (s\<lparr>bufs := B, slocks := L, procs := P, disk := d, dtrace := tr\<rparr>)"
    and tP: "\<forall>p. \<exists>st. P p = (procs s p)\<lparr>p_state := st\<rparr>" and tL: "\<forall>i. L (SL_inode i) = slocks s (SL_inode i)"
    using assms(1) by (auto simp: bframe_def)
  obtain B' L' P' d' tr' where u: "touch u = touch (t\<lparr>bufs := B', slocks := L', procs := P', disk := d', dtrace := tr'\<rparr>)"
    and uP: "\<forall>p. \<exists>st. P' p = (procs t p)\<lparr>p_state := st\<rparr>" and uL: "\<forall>i. L' (SL_inode i) = slocks t (SL_inode i)"
    using assms(2) by (auto simp: bframe_def)
  have "touch u = (touch t)\<lparr>bufs := B', slocks := L', procs := P', disk := d', dtrace := tr'\<rparr>"
    unfolding u by (simp add: locksimp)
  also have "\<dots> = touch (s\<lparr>bufs := B', slocks := L', procs := P', disk := d', dtrace := tr'\<rparr>)"
    unfolding t by (simp add: locksimp)
  finally show ?thesis
  proof (rule bframeI)
    have tp: "procs t = P" "slocks t = L"
      using arg_cong [OF t, of procs] arg_cong [OF t, of slocks] by simp_all
    show "\<exists>st. P' p = (procs s p)\<lparr>p_state := st\<rparr>" for p
      using uP [rule_format, of p] tP [rule_format, of p] tp by auto
    show "L' (SL_inode i) = slocks s (SL_inode i)" for i using uL tL tp by simp
  qed
qed

lemma bframe_eqs:
  fixes s t :: "'z bst_scheme"
  assumes "bframe s t"
  shows "bst.more t = bst.more s" "mypid t = mypid s" "tp t = tp s" "locks t = locks s"
    "cpu_proc (cpus t c) = cpu_proc (cpus s c)" "quiet t \<longleftrightarrow> quiet s" "mem t = mem s" "freelist t = freelist s"
    "kend t = kend s" "slocks t (SL_inode i) = slocks s (SL_inode i)" "p_pid (procs t p) = p_pid (procs s p)"
    "p_killed (procs t p) = p_killed (procs s p)" "klog t = klog s"
    "p_pagetable (procs t p) = p_pagetable (procs s p)" "p_cwd (procs t p) = p_cwd (procs s p)"
proof -
  obtain B L P d tr where t: "touch t = touch (s\<lparr>bufs := B, slocks := L, procs := P, disk := d, dtrace := tr\<rparr>)"
    and P: "\<forall>p. \<exists>st. P p = (procs s p)\<lparr>p_state := st\<rparr>" and L: "\<forall>i. L (SL_inode i) = slocks s (SL_inode i)"
    using assms by (auto simp: bframe_def)
  have *: "g (touch t) = g (touch (s\<lparr>bufs := B, slocks := L, procs := P, disk := d, dtrace := tr\<rparr>))"
    for g :: "'z bst_scheme \<Rightarrow> 'y" by (simp add: t)
  show tp: "tp t = tp s" using * [of tp] by simp
  show cp: "cpu_proc (cpus t c) = cpu_proc (cpus s c)" for c using * [of "\<lambda>s. cpu_proc (cpus s c)"] by simp
  have pr: "procs t = P" "slocks t = L" using * [of procs] * [of slocks] by simp_all
  show pid: "p_pid (procs t p) = p_pid (procs s p)" for p using P [rule_format, of p] pr by auto
  show "p_killed (procs t p) = p_killed (procs s p)" "p_pagetable (procs t p) = p_pagetable (procs s p)"
    "p_cwd (procs t p) = p_cwd (procs s p)"
    using P [rule_format, of p] pr by auto
  show "mypid t = mypid s" using tp cp pid by (simp add: mypid_def)
  show lk: "locks t = locks s" using * [of locks] by simp
  have "cpu_ok t \<longleftrightarrow> cpu_ok s" using * [of cpu_ok] by simp
  then show "quiet t \<longleftrightarrow> quiet s" using lk tp cp by (simp add: quiet_def lk_free_def)
  show "mem t = mem s" "freelist t = freelist s" "kend t = kend s" "klog t = klog s"
    using * [of mem] * [of freelist] * [of kend] * [of klog] by simp_all
  show "slocks t (SL_inode i) = slocks s (SL_inode i)" using L pr by simp
  show "bst.more t = bst.more s" using * [of bst.more] by (simp add: touch_def split: if_splits)
qed

lemma bframe_upd [simp]: "bframe s (upd_buf i f s)" "bframe s (lockbuf i s)" "bframe s (disk_rw i w s)"
    "bframe s (touch t) \<longleftrightarrow> bframe s t"
proof -
  show "bframe s (upd_buf i f s)"
    by (rule bframeI [where B = "bufs (upd_buf i f s)" and L = "slocks s" and P = "procs s" and d = "disk s" and tr = "dtrace s"])
      (auto simp: upd_buf_def intro: p_state_id)
  show "bframe s (lockbuf i s)"
    by (rule bframeI [where B = "bufs s" and L = "slocks (lockbuf i s)" and P = "procs s" and d = "disk s" and tr = "dtrace s"])
      (auto simp: lockbuf_def intro: p_state_id)
  show "bframe s (disk_rw i w s)"
    by (rule bframeI [where B = "bufs (disk_rw i w s)" and L = "slocks s" and P = "procs s" and d = "disk (disk_rw i w s)" and tr = "dtrace (disk_rw i w s)"])
      (auto simp: disk_rw_def upd_buf_def Let_def intro: p_state_id)
  show "bframe s (touch t) \<longleftrightarrow> bframe s t" by (simp add: bframe_def)
qed

lemma quiet_simps [simp]:
  "quiet (touch s) \<longleftrightarrow> quiet s" "mypid (touch s) = mypid s"
  "quiet (s\<lparr>slocks := a\<rparr>) \<longleftrightarrow> quiet s" "mypid (s\<lparr>slocks := a\<rparr>) = mypid s"
  "quiet (upd_buf i f s) \<longleftrightarrow> quiet s" "mypid (upd_buf i f s) = mypid s"
  "quiet (s\<lparr>disk := b\<rparr>) \<longleftrightarrow> quiet s" "quiet (s\<lparr>dtrace := c\<rparr>) \<longleftrightarrow> quiet s"
  "mypid (s\<lparr>disk := b\<rparr>) = mypid s" "mypid (s\<lparr>dtrace := c\<rparr>) = mypid s"
  by (simp_all add: quiet_def mypid_def)

lemma binvD:
  assumes "binv H s"
  shows "quiet s" "H \<subseteq> {..<NBUF}" "\<exists>xs. lru xs (bufs s) \<and> set xs = {..<NBUF}"
    "\<And>i j. i < NBUF \<Longrightarrow> j < NBUF \<Longrightarrow> b_dev (bufs s i) = ROOTDEV \<Longrightarrow> b_dev (bufs s j) = ROOTDEV \<Longrightarrow>
        b_blockno (bufs s i) = b_blockno (bufs s j) \<Longrightarrow> i = j"
    "\<And>i. i < NBUF \<Longrightarrow> b_valid (bufs s i) \<Longrightarrow> b_dev (bufs s i) = ROOTDEV"
    "\<And>i. i < NBUF \<Longrightarrow> sl_locked (slocks s (SL_buf i)) \<longleftrightarrow> i \<in> H"
    "\<And>i. i \<in> H \<Longrightarrow> sl_pid (slocks s (SL_buf i)) = mypid s" "\<And>i. i \<in> H \<Longrightarrow> b_refcnt (bufs s i) \<noteq> 0"
    "\<And>i. i < NBUF \<Longrightarrow> b_refcnt (bufs s i) = 0 \<Longrightarrow> b_valid (bufs s i) \<Longrightarrow> b_data (bufs s i) = disk s (b_blockno (bufs s i))"
  using assms by (auto simp: binv_def)

definition mayread :: "nat set \<Rightarrow> uint \<Rightarrow> 'z bst_scheme \<Rightarrow> bool" where
  "mayread H b s \<longleftrightarrow> (case lookup b s of
      Some i \<Rightarrow> i \<notin> H \<and> b_refcnt (bufs s i) + 1 \<noteq> 0
    | None \<Rightarrow> \<exists>i < NBUF. b_refcnt (bufs s i) = 0)"

definition reads :: "nat set \<Rightarrow> uint \<Rightarrow> nat \<Rightarrow> 'z bst_scheme \<Rightarrow> 'z bst_scheme \<Rightarrow> bool" where
  "reads H b i s t \<longleftrightarrow> i < NBUF \<and> i \<notin> H \<and> binv (insert i H) t \<and> bframe s t \<and> disk t = disk s \<and> dtrace t = dtrace s
     \<and> lookup b t = Some i \<and> b_valid (bufs t i) \<and> b_data (bufs t i) = block_of b s
     \<and> (\<forall>c. block_of c t = block_of c s) \<and> (\<forall>j. j \<noteq> i \<longrightarrow> bufs t j = bufs s j)
     \<and> b_refcnt (bufs t i) = b_refcnt (bufs s i) + 1
     \<and> (lookup b s = Some i \<or> lookup b s = None \<and> b_refcnt (bufs s i) = 0)"

lemma reads_finish:
  assumes inv: "binv H s" and i: "i < NBUF" "i \<notin> H"
    and l: "lookup b s = Some i \<or> lookup b s = None \<and> b_refcnt (bufs s i) = 0"
    and y: "b_next y = b_next (bufs s i)" "b_prev y = b_prev (bufs s i)" "b_dev y = ROOTDEV" "b_blockno y = b"
      "b_valid y" "b_data y = block_of b s" "b_refcnt y = b_refcnt (bufs s i) + 1" "b_refcnt y \<noteq> 0"
  shows "reads H b i s (touch (lockbuf i (s\<lparr>bufs := (bufs s)(i := y)\<rparr>)))"
proof -
  let ?t = "touch (lockbuf i (s\<lparr>bufs := (bufs s)(i := y)\<rparr>))"
  note B = binvD [OF inv]
  have bt: "bufs ?t = (bufs s)(i := y)" "disk ?t = disk s" "dtrace ?t = dtrace s"
    "slocks ?t = (slocks s)(SL_buf i := (slocks s (SL_buf i))\<lparr>sl_locked := True, sl_pid := mypid s\<rparr>)"
    by simp_all
  have "bframe s (s\<lparr>bufs := (bufs s)(i := y)\<rparr>)" using bframe_upd(1) [of s i "\<lambda>_. y"] by (simp add: upd_buf_def)
  then have fr: "bframe s ?t" by (simp add: bframe_trans [OF _ bframe_upd(2)])
  have only: "j = i" if "j < NBUF" "b_dev (bufs s j) = ROOTDEV" "b_blockno (bufs s j) = b" for j
  proof (cases "lookup b s")
    case None
    then show ?thesis using lookup_None [OF None that(1)] that(2,3) by simp
  next
    case (Some k)
    then have "k = i" using l by simp
    with lookup_Some [OF Some] have "b_dev (bufs s i) = ROOTDEV" "b_blockno (bufs s i) = b" by simp_all
    then show ?thesis using B(4) [OF that(1) i(1) that(2)] that(3) by simp
  qed
  obtain xs where "lru xs (bufs s)" "set xs = {..<NBUF}" using B(3) by blast
  moreover have "lru xs (bufs ?t) = lru xs (bufs s)" unfolding bt by (rule lru_cong) (use y in auto)
  ultimately have lr: "\<exists>xs. lru xs (bufs ?t) \<and> set xs = {..<NBUF}" by auto
  define B' where "B' = (bufs s)(i := y)"
  have Bi: "B' i = y" and Bj: "\<And>j. j \<noteq> i \<Longrightarrow> B' j = bufs s j" by (simp_all add: B'_def)
  have u1: "j = k" if "j < NBUF" "k < NBUF" "b_dev (B' j) = ROOTDEV" "b_dev (B' k) = ROOTDEV" "b_blockno (B' j) = b_blockno (B' k)" for j k
  proof (cases "j = i")
    case True
    show ?thesis
    proof (rule ccontr)
      assume "j \<noteq> k"
      then have "k \<noteq> i" using True by simp
      moreover have "b_dev (bufs s k) = ROOTDEV" "b_blockno (bufs s k) = b"
        using that(4,5) Bj [OF \<open>k \<noteq> i\<close>] True Bi y(4) by simp_all
      ultimately show False using only [OF that(2)] by simp
    qed
  next
    case False
    show ?thesis
    proof (cases "k = i")
      case True
      have "b_dev (bufs s j) = ROOTDEV" "b_blockno (bufs s j) = b"
        using that(3,5) Bj [OF False] True Bi y(4) by simp_all
      then show ?thesis using only [OF that(1)] False by simp
    next
      case k: False
      show ?thesis by (rule B(4) [OF that(1,2)]) (use that Bj [OF False] Bj [OF k] in simp_all)
    qed
  qed
  have u2: "b_dev (B' j) = ROOTDEV" if "j < NBUF" "b_valid (B' j)" for j
    using that B(5) [of j] y(3) Bi Bj [of j] by (cases "j = i") simp_all
  have u3: "sl_locked (slocks ?t (SL_buf j)) \<longleftrightarrow> j \<in> insert i H" if "j < NBUF" for j
    using B(6) [OF that] by (cases "j = i") simp_all
  have u4: "sl_pid (slocks ?t (SL_buf j)) = mypid ?t \<and> b_refcnt (B' j) \<noteq> 0" if "j \<in> insert i H" for j
    using that B(7,8) [of j] y(8) Bi Bj [of j] bframe_eqs(2) [OF fr] by (cases "j = i") simp_all
  have u5: "b_data (B' j) = disk s (b_blockno (B' j))" if "j < NBUF" "b_refcnt (B' j) = 0" "b_valid (B' j)" for j
    using that B(9) [of j] y(8) Bi Bj [of j] by (cases "j = i") simp_all
  have Bt: "bufs ?t = B'" by (simp add: bt B'_def)
  have inv': "binv (insert i H) ?t"
    unfolding binv_def
  proof (intro conjI)
    show "quiet ?t" using B(1) bframe_eqs(6) [OF fr] by simp
    show "insert i H \<subseteq> {..<NBUF}" using B(2) i by auto
    show "\<exists>xs. lru xs (bufs ?t) \<and> set xs = {..<NBUF}" by (rule lr)
  qed (unfold Bt bt(2), (use u1 u2 u3 u4 u5 in blast)+)
  have lb: "lookup b ?t = Some i" using lookup_eq [OF inv' i(1)] y by (simp add: bt)
  have blk: "block_of c ?t = block_of c s" for c
  proof (cases "c = b")
    case True
    then show ?thesis using lb y by (simp add: block_of_def bt)
  next
    case False
    show ?thesis
    proof (cases "lookup c s")
      case None
      have "lookup c ?t = None"
      proof (cases "lookup c ?t")
        case (Some j)
        from lookup_Some [OF Some] have "j < NBUF" "b_dev (bufs s j) = ROOTDEV \<and> b_blockno (bufs s j) = c"
          using False y by (auto simp: bt split: if_splits)
        then show ?thesis using lookup_None [OF None] by blast
      qed simp
      then show ?thesis using None by (simp add: block_of_def bt)
    next
      case (Some j)
      note j = lookup_Some [OF Some]
      show ?thesis
      proof (cases "j = i")
        case True
        then have r0: "b_refcnt (bufs s i) = 0" using l j False lookup_Some [of b s i] by auto
        have "lookup c ?t = None"
        proof (cases "lookup c ?t")
          case (Some k)
          from lookup_Some [OF Some] have k: "k < NBUF" "k \<noteq> i" "b_dev (bufs s k) = ROOTDEV" "b_blockno (bufs s k) = c"
            using False y by (auto simp: bt split: if_splits)
          then show ?thesis using B(4) [OF k(1) i(1)] j True by auto
        qed simp
        then show ?thesis using B(9) [OF i(1) r0] Some True j by (auto simp: block_of_def bt)
      next
        case ji: False
        have "lookup c ?t = Some j"
          using lookup_eq [OF inv', of j] j ji by (simp add: bt)
        then show ?thesis using Some ji by (simp add: block_of_def bt)
      qed
    qed
  qed
  show ?thesis unfolding reads_def using i inv' fr lb blk y l bt by auto
qed

lemma bread_spec:
  assumes inv: "binv H s" and mr: "mayread H b s"
  shows "\<exists>i t. bread ROOTDEV b s = Ret i t \<and> reads H b i s t"
proof (cases "lookup b s")
  case (Some i)
  have i: "i < NBUF" "i \<notin> H" "b_refcnt (bufs s i) + 1 \<noteq> 0" and f: "b_dev (bufs s i) = ROOTDEV" "b_blockno (bufs s i) = b"
    using mr Some lookup_Some [OF Some] by (auto simp: mayread_def)
  let ?x = "bufs s i"
  let ?y = "if b_valid ?x then ?x\<lparr>b_refcnt := b_refcnt ?x + 1\<rparr>
    else ?x\<lparr>b_refcnt := b_refcnt ?x + 1, b_data := disk s b, b_valid := True\<rparr>"
  have "bread ROOTDEV b s = Ret i (touch (lockbuf i (s\<lparr>bufs := (bufs s)(i := ?y)\<rparr>)))"
    using bget_hit [OF inv Some i(2)] f
    by (auto simp: bread_def disk_rw_def upd_buf_def [of _ _ s] upd_buf_def [of _ _ "s\<lparr>bufs := z\<rparr>" for z])
  moreover have "reads H b i s (touch (lockbuf i (s\<lparr>bufs := (bufs s)(i := ?y)\<rparr>)))"
    by (rule reads_finish [OF inv i(1,2)]) (use Some f i in \<open>auto simp: block_of_def\<close>)
  ultimately show ?thesis by blast
next
  case None
  then obtain i where i: "i < NBUF" "i \<notin> H" "b_refcnt (bufs s i) = 0"
    and g: "bget ROOTDEV b s = Ret i (touch (lockbuf i
    (upd_buf i (\<lambda>x. x\<lparr>b_dev := ROOTDEV, b_blockno := b, b_valid := False, b_refcnt := 1\<rparr>) s)))"
    using bget_miss [OF inv None] mr by (auto simp: mayread_def)
  let ?y = "(bufs s i)\<lparr>b_dev := ROOTDEV, b_blockno := b, b_refcnt := 1, b_data := disk s b, b_valid := True\<rparr>"
  have "bread ROOTDEV b s = Ret i (touch (lockbuf i (s\<lparr>bufs := (bufs s)(i := ?y)\<rparr>)))"
    using g by (simp add: bread_def disk_rw_def upd_buf_def [of _ _ s] upd_buf_def [of _ _ "s\<lparr>bufs := z\<rparr>" for z])
  moreover have "reads H b i s (touch (lockbuf i (s\<lparr>bufs := (bufs s)(i := ?y)\<rparr>)))"
    by (rule reads_finish [OF inv i(1,2)]) (use None i in \<open>auto simp: block_of_def\<close>)
  ultimately show ?thesis by blast
qed

definition releases :: "nat \<Rightarrow> 'z bst_scheme \<Rightarrow> 'z bst_scheme \<Rightarrow> bool" where
  "releases i s t \<longleftrightarrow> bframe s t \<and> disk t = disk s \<and> dtrace t = dtrace s
     \<and> (\<forall>j. bcore (bufs t j) = bcore (bufs s j))
     \<and> (\<forall>j. b_refcnt (bufs t j) = b_refcnt (bufs s j) - (if j = i then 1 else 0))"

definition unref :: "nat \<Rightarrow> (nat \<Rightarrow> buf) \<Rightarrow> nat \<Rightarrow> buf" where
  "unref i B =
     (let B = B(i := (B i)\<lparr>b_refcnt := b_refcnt (B i) - 1\<rparr>)
      in if b_refcnt (B i) = 0 then link_front i (unlink i B) else B)"

lemma brelse_relink_eq: "brelse_relink b s = s\<lparr>bufs := link_front b (unlink b (bufs s))\<rparr>"
  unfolding brelse_relink_def upd_buf_def link_front_def unlink_def Let_def by simp

lemma brelse_relink_lock [simp]: "brelse_relink b (acq lk s) = acq lk (brelse_relink b s)"
  by (simp add: brelse_relink_eq locksimp)

lemma brelse_eq:
  assumes "binv H s" and "i \<in> H"
  shows "brelse i s = Ret () (touch (s\<lparr>slocks := (slocks s)(SL_buf i :=
           (slocks s (SL_buf i))\<lparr>sl_locked := False, sl_pid := 0\<rparr>),
           procs := wake (Ch_sl (SL_buf i)) (cpu_proc (cpus s (tp s))) {0..<NPROC} (procs s),
           bufs := unref i (bufs s)\<rparr>))"
proof -
  note B = binvD [OF assms(1)]
  have i: "i < NBUF" using B(2) assms(2) by auto
  note q = quietD [OF B(1)]
  have "holdingsleep (SL_buf i) s = Ret True (touch s)"
    using holdingsleep_eq [OF q(1) q(2) q(4), of "SL_buf i"] B(6) [OF i] B(7) [OF assms(2)] assms(2)
    by (simp add: mypid_def)
  moreover have "releasesleep (SL_buf i) (touch s) = Ret () (touch (s\<lparr>slocks := (slocks s)(SL_buf i :=
           (slocks s (SL_buf i))\<lparr>sl_locked := False, sl_pid := 0\<rparr>),
           procs := wake (Ch_sl (SL_buf i)) (cpu_proc (cpus s (tp s))) {0..<NPROC} (procs s)\<rparr>))"
    using releasesleep_eq [of "touch s" "SL_buf i"] q by (simp add: locksimp)
  ultimately show ?thesis
    using q by (simp add: brelse_def upd_buf_def locksimp unref_def brelse_relink_eq Let_def)
qed

lemma link_core: "bcore (link_front i B j) = bcore (B j)" "bcore (unlink i B j) = bcore (B j)"
    "b_refcnt (link_front i B j) = b_refcnt (B j)" "b_refcnt (unlink i B j) = b_refcnt (B j)"
  by (simp_all add: link_front_def unlink_def bcore_def Let_def)

lemma unref_core: "bcore (unref i B j) = bcore (B j)"
    "b_refcnt (unref i B j) = b_refcnt (B j) - (if j = i then 1 else 0)"
  by (auto simp: unref_def Let_def link_core) (simp_all add: bcore_def)

lemma unref_lru:
  assumes "lru xs B" and "set xs = {..<NBUF}" and "i < NBUF"
  shows "\<exists>ys. lru ys (unref i B) \<and> set ys = {..<NBUF}"
proof -
  let ?B = "B(i := (B i)\<lparr>b_refcnt := b_refcnt (B i) - 1\<rparr>)"
  have l: "lru xs ?B" using assms(1) lru_cong [of ?B B xs] by simp
  show ?thesis
  proof (cases "b_refcnt (?B i) = 0")
    case True
    have "lru (i # remove1 i xs) (link_front i (unlink i ?B))" by (rule lru_move_front [OF l]) (use assms in auto)
    moreover have "set (i # remove1 i xs) = {..<NBUF}"
      using assms l by (auto simp: lru_def)
    moreover have "unref i B = link_front i (unlink i ?B)" using True by (simp add: unref_def)
    ultimately show ?thesis by metis
  next
    case False
    then have "unref i B = ?B" by (simp add: unref_def)
    then show ?thesis using l assms(2) by metis
  qed
qed

lemma binv_intro:
  assumes "binv H s" and "bframe s t" and "\<exists>xs. lru xs (bufs t) \<and> set xs = {..<NBUF}"
    and "\<And>j. j < NBUF \<Longrightarrow> b_dev (bufs t j) = b_dev (bufs s j)"
    and "\<And>j. j < NBUF \<Longrightarrow> b_blockno (bufs t j) = b_blockno (bufs s j)"
    and "\<And>j. j < NBUF \<Longrightarrow> b_valid (bufs t j) = b_valid (bufs s j)"
    and "H' \<subseteq> H" and "\<And>j. j < NBUF \<Longrightarrow> sl_locked (slocks t (SL_buf j)) \<longleftrightarrow> j \<in> H'"
    and "\<And>j. j \<in> H' \<Longrightarrow> sl_pid (slocks t (SL_buf j)) = sl_pid (slocks s (SL_buf j)) \<and> b_refcnt (bufs t j) \<noteq> 0"
    and "\<And>j. j < NBUF \<Longrightarrow> b_refcnt (bufs t j) = 0 \<Longrightarrow> b_valid (bufs t j) \<Longrightarrow>
           b_data (bufs t j) = disk t (b_blockno (bufs t j))"
  shows "binv H' t"
proof -
  note B = binvD [OF assms(1)]
  have u1: "j = k" if "j < NBUF" "k < NBUF" "b_dev (bufs t j) = ROOTDEV" "b_dev (bufs t k) = ROOTDEV"
      "b_blockno (bufs t j) = b_blockno (bufs t k)" for j k
    by (rule B(4) [OF that(1,2)]) (use that assms(4,5) in simp_all)
  have u2: "b_dev (bufs t j) = ROOTDEV" if "j < NBUF" "b_valid (bufs t j)" for j
    using B(5) [OF that(1)] that assms(4,6) by simp
  have u3: "sl_pid (slocks t (SL_buf j)) = mypid t \<and> b_refcnt (bufs t j) \<noteq> 0" if "j \<in> H'" for j
    using assms(9) [OF that] B(7) [of j] assms(7) that bframe_eqs(2) [OF assms(2)] by auto
  show ?thesis
    unfolding binv_def
  proof (intro conjI)
    show "quiet t" using B(1) bframe_eqs(6) [OF assms(2)] by simp
    show "H' \<subseteq> {..<NBUF}" using B(2) assms(7) by blast
    show "\<exists>xs. lru xs (bufs t) \<and> set xs = {..<NBUF}" by (rule assms(3))
  qed (use u1 u2 u3 assms(8,10) in blast)+
qed

lemma wake_upto: "\<exists>st. wake ch me A P p = (P p)\<lparr>p_state := st\<rparr>"
  unfolding wake_def by (auto intro: p_state_id)

lemma bframe_eqI:
  assumes "t = s\<lparr>bufs := B, slocks := L, procs := P, disk := d, dtrace := tr\<rparr>"
    and "\<And>p. \<exists>st. P p = (procs s p)\<lparr>p_state := st\<rparr>" and "\<And>i. L (SL_inode i) = slocks s (SL_inode i)"
  shows "bframe s t"
  by (rule bframeI [OF _ assms(2,3)]) (simp add: assms(1))

lemma brelse_spec:
  assumes "binv H s" and "i \<in> H"
    and "b_refcnt (bufs s i) = 1 \<Longrightarrow> b_valid (bufs s i) \<Longrightarrow> b_data (bufs s i) = disk s (b_blockno (bufs s i))"
  shows "\<exists>t. brelse i s = Ret () t \<and> binv (H - {i}) t \<and> releases i s t"
proof -
  note B = binvD [OF assms(1)]
  have i: "i < NBUF" using B(2) assms(2) by auto
  let ?u = "s\<lparr>slocks := (slocks s)(SL_buf i := (slocks s (SL_buf i))\<lparr>sl_locked := False, sl_pid := 0\<rparr>),
           procs := wake (Ch_sl (SL_buf i)) (cpu_proc (cpus s (tp s))) {0..<NPROC} (procs s),
           bufs := unref i (bufs s)\<rparr>"
  have fr: "bframe s (touch ?u)"
    unfolding bframe_upd(4)
    by (rule bframe_eqI [where B = "bufs ?u" and L = "slocks ?u" and P = "procs ?u" and d = "disk s" and tr = "dtrace s"])
      (simp_all add: wake_upto)
  have rel: "releases i s (touch ?u)" using fr by (simp add: releases_def unref_core)
  have "binv (H - {i}) (touch ?u)"
  proof (rule binv_intro [OF assms(1) fr])
    show "\<exists>xs. lru xs (bufs (touch ?u)) \<and> set xs = {..<NBUF}" using unref_lru [OF _ _ i] B(3) by auto
    show "sl_locked (slocks (touch ?u) (SL_buf j)) \<longleftrightarrow> j \<in> H - {i}" if "j < NBUF" for j
      using B(6) [OF that] by auto
    show "sl_pid (slocks (touch ?u) (SL_buf j)) = sl_pid (slocks s (SL_buf j)) \<and> b_refcnt (bufs (touch ?u) j) \<noteq> 0"
      if "j \<in> H - {i}" for j using that B(8) [of j] by (simp add: unref_core)
    show "b_data (bufs (touch ?u) j) = disk (touch ?u) (b_blockno (bufs (touch ?u) j))"
      if "j < NBUF" "b_refcnt (bufs (touch ?u) j) = 0" "b_valid (bufs (touch ?u) j)" for j
      using that B(9) [OF that(1)] assms(3) bcoreD [OF unref_core(1) [of i "bufs s" j]]
      by (cases "j = i") (simp_all add: unref_core)
  qed (simp_all add: bcoreD [OF unref_core(1)])
  then show ?thesis using brelse_eq [OF assms(1,2)] rel by blast
qed

lemma bwrite_spec:
  assumes "binv H s" and "i \<in> H"
  shows "\<exists>t. bwrite i s = Ret () t \<and> bframe s t \<and> bufs t = bufs s
    \<and> disk t = (disk s)(b_blockno (bufs s i) := b_data (bufs s i))
    \<and> dtrace t = (b_blockno (bufs s i), b_data (bufs s i)) # dtrace s
    \<and> (b_dev (bufs s i) = ROOTDEV \<longrightarrow> binv H t)"
proof -
  note B = binvD [OF assms(1)]
  have i: "i < NBUF" using B(2) assms(2) by auto
  note q = quietD [OF B(1)]
  have h: "holdingsleep (SL_buf i) s = Ret True (touch s)"
    using holdingsleep_eq [OF q(1) q(2) q(4), of "SL_buf i"] B(6) [OF i] B(7) [OF assms(2)] assms(2)
    by (simp add: mypid_def)
  let ?t = "disk_rw i True (touch s)"
  have t: "bufs ?t = bufs s" "disk ?t = (disk s)(b_blockno (bufs s i) := b_data (bufs s i))" "slocks ?t = slocks s"
    "dtrace ?t = (b_blockno (bufs s i), b_data (bufs s i)) # dtrace s"
    by (simp_all add: disk_rw_def Let_def)
  have fr: "bframe s ?t" by (rule bframe_trans [OF _ bframe_upd(3)]) simp
  have "binv H ?t" if d: "b_dev (bufs s i) = ROOTDEV"
  proof (rule binv_intro [OF assms(1) fr])
    show "b_data (bufs ?t j) = disk ?t (b_blockno (bufs ?t j))"
      if "j < NBUF" "b_refcnt (bufs ?t j) = 0" "b_valid (bufs ?t j)" for j
      using that B(9) [OF that(1)] B(5) [OF that(1)] B(4) [OF that(1) i _ d] unfolding t by auto
  qed (unfold t, use B in auto)
  then show ?thesis using h t fr by (simp add: bwrite_def)
qed

lemma setref_spec:
  fixes s :: "'z bst_scheme"
  assumes "binv H s" and "i \<in> H" and "n \<noteq> 0"
  shows "binv H (upd_buf i (\<lambda>x. x\<lparr>b_refcnt := n\<rparr>) s)"
proof -
  note B = binvD [OF assms(1)]
  let ?t = "upd_buf i (\<lambda>x. x\<lparr>b_refcnt := n\<rparr>) s"
  obtain xs where "lru xs (bufs s)" "set xs = {..<NBUF}" using B(3) by blast
  moreover have "lru xs (bufs ?t) = lru xs (bufs s)" by (rule lru_cong) simp
  ultimately have l: "\<exists>xs. lru xs (bufs ?t) \<and> set xs = {..<NBUF}" by auto
  show ?thesis
    by (rule binv_intro [OF assms(1) bframe_upd(1) l]) (use B assms in \<open>auto split: if_splits\<close>)
qed

lemma bpin_spec:
  assumes "binv H s" and "i \<in> H" and "b_refcnt (bufs s i) + 1 \<noteq> 0"
  shows "bpin i s = Ret () (touch (upd_buf i (\<lambda>x. x\<lparr>b_refcnt := b_refcnt x + 1\<rparr>) s))"
    and "binv H (upd_buf i (\<lambda>x. x\<lparr>b_refcnt := b_refcnt x + 1\<rparr>) s)"
proof -
  show "bpin i s = Ret () (touch (upd_buf i (\<lambda>x. x\<lparr>b_refcnt := b_refcnt x + 1\<rparr>) s))"
    using quietD [OF binvD(1) [OF assms(1)]] by (simp add: bpin_def)
  show "binv H (upd_buf i (\<lambda>x. x\<lparr>b_refcnt := b_refcnt x + 1\<rparr>) s)"
    using setref_spec [OF assms] by (simp add: upd_buf_def)
qed

lemma bunpin_spec:
  assumes "binv H s" and "i \<in> H" and "b_refcnt (bufs s i) - 1 \<noteq> 0"
  shows "bunpin i s = Ret () (touch (upd_buf i (\<lambda>x. x\<lparr>b_refcnt := b_refcnt x - 1\<rparr>) s))"
    and "binv H (upd_buf i (\<lambda>x. x\<lparr>b_refcnt := b_refcnt x - 1\<rparr>) s)"
proof -
  show "bunpin i s = Ret () (touch (upd_buf i (\<lambda>x. x\<lparr>b_refcnt := b_refcnt x - 1\<rparr>) s))"
    using quietD [OF binvD(1) [OF assms(1)]] by (simp add: bunpin_def)
  show "binv H (upd_buf i (\<lambda>x. x\<lparr>b_refcnt := b_refcnt x - 1\<rparr>) s)"
    using setref_spec [OF assms] by (simp add: upd_buf_def)
qed

text \<open>A change of the data of a locked buffer changes the contents of its block.\<close>

lemma setdata_spec:
  fixes s :: "'z bst_scheme"
  assumes "binv H s" and "i \<in> H" and "b_valid (bufs s i)"
  shows "binv H (upd_buf i (\<lambda>x. x\<lparr>b_data := d\<rparr>) s)"
    and "block_of c (upd_buf i (\<lambda>x. x\<lparr>b_data := d\<rparr>) s) = (if c = b_blockno (bufs s i) then d else block_of c s)"
    and "lookup c (upd_buf i (\<lambda>x. x\<lparr>b_data := d\<rparr>) s) = lookup c s"
proof -
  note B = binvD [OF assms(1)]
  have i: "i < NBUF" using B(2) assms(2) by auto
  let ?t = "upd_buf i (\<lambda>x. x\<lparr>b_data := d\<rparr>) s"
  obtain xs where "lru xs (bufs s)" "set xs = {..<NBUF}" using B(3) by blast
  moreover have "lru xs (bufs ?t) = lru xs (bufs s)" by (rule lru_cong) simp
  ultimately have l: "\<exists>xs. lru xs (bufs ?t) \<and> set xs = {..<NBUF}" by auto
  show "binv H ?t"
    by (rule binv_intro [OF assms(1) bframe_upd(1) l]) (use B assms in \<open>auto split: if_splits\<close>)
  show lk: "lookup c ?t = lookup c s" for c
    unfolding lookup_def by (rule find_cong) auto
  show "block_of c ?t = (if c = b_blockno (bufs s i) then d else block_of c s)"
  proof (cases "lookup c s")
    case None
    then have "c \<noteq> b_blockno (bufs s i)" using lookup_eq [OF assms(1) i] B(5) [OF i assms(3)] by auto
    then show ?thesis using None lk by (simp add: block_of_def)
  next
    case (Some j)
    have "c = b_blockno (bufs s i) \<longleftrightarrow> j = i"
    proof
      assume "c = b_blockno (bufs s i)"
      then have "lookup c s = Some i" using lookup_eq [OF assms(1) i B(5) [OF i assms(3)]] by simp
      then show "j = i" using Some by simp
    qed (use lookup_Some [OF Some] in simp)
    then show ?thesis using Some lk [of c] assms(3) by (simp add: block_of_def)
  qed
qed

section \<open>Initialisation\<close>

lemma initsleeplock_sel [simp]:
  "bufs (initsleeplock lk n s) = bufs s" "disk (initsleeplock lk n s) = disk s"
  "upd_buf b f (initsleeplock lk n s) = initsleeplock lk n (upd_buf b f s)"
  by (simp_all add: initsleeplock_def initlock_def Let_def upd_buf_def)

lemma binit_loop_Cons:
  "binit_loop (b # bs) s = binit_loop bs (initsleeplock (SL_buf b) ''buffer'' (s\<lparr>bufs := link_front b (bufs s)\<rparr>))"
proof -
  have "upd_buf b (\<lambda>x. x\<lparr>b_prev := bhead\<rparr>) (upd_buf b (\<lambda>x. x\<lparr>b_next := b_next (bufs s bhead)\<rparr>) s)
    = s\<lparr>bufs := (bufs s)(b := (bufs s b)\<lparr>b_next := b_next (bufs s bhead), b_prev := bhead\<rparr>)\<rparr>"
    by (simp add: upd_buf_def)
  then show ?thesis by (simp add: Let_def link_front_def) (simp add: upd_buf_def)
qed

lemma binit_loop_inv:
  fixes s :: "'z bst_scheme"
  assumes "lru xs (bufs s)" and "distinct bs" and "set bs \<inter> set xs = {}" and "bhead \<notin> set bs"
    and "quiet s" and "\<And>j. j \<in> set xs \<Longrightarrow> \<not> sl_locked (slocks s (SL_buf j))"
  shows "lru (rev bs @ xs) (bufs (binit_loop bs s)) \<and> quiet (binit_loop bs s)
    \<and> (\<forall>j \<in> set bs \<union> set xs. \<not> sl_locked (slocks (binit_loop bs s) (SL_buf j)))
    \<and> (\<forall>j. bcore (bufs (binit_loop bs s) j) = bcore (bufs s j) \<and> b_refcnt (bufs (binit_loop bs s) j) = b_refcnt (bufs s j))
    \<and> disk (binit_loop bs s) = disk s"
  using assms
proof (induction bs arbitrary: s xs)
  case Nil
  then show ?case by simp
next
  case (Cons b bs)
  let ?t = "initsleeplock (SL_buf b) ''buffer'' (s\<lparr>bufs := link_front b (bufs s)\<rparr>)"
  have "lru (b # xs) (bufs ?t)" using lru_link_front [OF Cons.prems(1)] Cons.prems(3,4) by simp
  moreover have "quiet ?t"
    using Cons.prems(5) by (auto simp: initsleeplock_def initlock_def Let_def quiet_def lk_free_def cpu_ok_def)
  moreover have "\<not> sl_locked (slocks ?t (SL_buf j))" if "j \<in> set (b # xs)" for j
    using that Cons.prems(6) by (auto simp: initsleeplock_def initlock_def Let_def)
  ultimately have "lru (rev bs @ b # xs) (bufs (binit_loop bs ?t)) \<and> quiet (binit_loop bs ?t)
    \<and> (\<forall>j \<in> set bs \<union> set (b # xs). \<not> sl_locked (slocks (binit_loop bs ?t) (SL_buf j)))
    \<and> (\<forall>j. bcore (bufs (binit_loop bs ?t) j) = bcore (bufs ?t j) \<and> b_refcnt (bufs (binit_loop bs ?t) j) = b_refcnt (bufs ?t j))
    \<and> disk (binit_loop bs ?t) = disk ?t"
    using Cons.prems by (intro Cons.IH) auto
  then show ?case by (simp only: binit_loop_Cons) (simp add: link_core)
qed

lemma binit_inv:
  assumes "quiet s" and "\<And>i. i < NBUF \<Longrightarrow> \<not> b_valid (bufs s i) \<and> b_dev (bufs s i) = 0"
  shows "binv {} (binit s)" and "disk (binit s) = disk s"
    and "\<And>i. bcore (bufs (binit s) i) = bcore (bufs s i) \<and> b_refcnt (bufs (binit s) i) = b_refcnt (bufs s i)"
proof -
  let ?s0 = "upd_buf bhead (\<lambda>x. x\<lparr>b_next := bhead\<rparr>) (upd_buf bhead (\<lambda>x. x\<lparr>b_prev := bhead\<rparr>) (initlock L_bcache ''bcache'' s))"
  have "lru [] (bufs ?s0)" by (simp add: lru_def)
  moreover have "quiet (initlock L_bcache ''bcache'' s)"
    using assms(1) by (auto simp: initlock_def quiet_def lk_free_def cpu_ok_def)
  then have "quiet ?s0" by simp
  ultimately have b: "lru (rev [0..<NBUF] @ []) (bufs (binit_loop [0..<NBUF] ?s0)) \<and> quiet (binit_loop [0..<NBUF] ?s0)
    \<and> (\<forall>j \<in> set [0..<NBUF] \<union> set []. \<not> sl_locked (slocks (binit_loop [0..<NBUF] ?s0) (SL_buf j)))
    \<and> (\<forall>j. bcore (bufs (binit_loop [0..<NBUF] ?s0) j) = bcore (bufs ?s0 j) \<and> b_refcnt (bufs (binit_loop [0..<NBUF] ?s0) j) = b_refcnt (bufs ?s0 j))
    \<and> disk (binit_loop [0..<NBUF] ?s0) = disk ?s0"
    by (intro binit_loop_inv) (auto simp: bhead_def)
  have eq: "binit s = binit_loop [0..<NBUF] ?s0" by (simp add: binit_def Let_def)
  have s0: "bcore (bufs ?s0 j) = bcore (bufs s j)" "b_refcnt (bufs ?s0 j) = b_refcnt (bufs s j)" "disk ?s0 = disk s" for j
    by (simp_all add: initlock_def bcore_def)
  show bc: "bcore (bufs (binit s) j) = bcore (bufs s j) \<and> b_refcnt (bufs (binit s) j) = b_refcnt (bufs s j)" for j
    unfolding eq using b s0 by auto
  show "disk (binit s) = disk s" unfolding eq using b s0 by auto
  have v: "\<not> b_valid (bufs (binit s) j)" "b_dev (bufs (binit s) j) \<noteq> ROOTDEV" if "j < NBUF" for j
    using assms(2) [OF that] bcoreD [OF conjunct1 [OF bc [of j]]] by (simp_all add: ROOTDEV_def)
  have "\<exists>xs. lru xs (bufs (binit s)) \<and> set xs = {..<NBUF}" unfolding eq using b by (intro exI [of _ "rev [0..<NBUF] @ []"]) auto
  then show "binv {} (binit s)" unfolding binv_def using v b eq by auto
qed

section \<open>Properties\<close>

text \<open>A machine with a process on hart 0, an empty cache and a disk whose blocks hold their number.\<close>

definition zero_buf :: buf where
  "zero_buf = \<lparr>b_valid = False, b_disk = False, b_dev = 0, b_blockno = 0, b_refcnt = 0, b_prev = 0, b_next = 0, b_data = (\<lambda>_. 0)\<rparr>"

definition demo_bst :: bst where
  "demo_bst = kst.extend (mach.extend demo_mach (kst.fields (\<lambda>_. 0) 0 0 0 0 0))
     \<lparr>bufs = (\<lambda>_. zero_buf), disk = (\<lambda>b _. ucast b), dtrace = []\<rparr>"

lemma demo_bst_ok: "quiet demo_bst" "\<not> b_valid (bufs demo_bst i) \<and> b_dev (bufs demo_bst i) = 0" "binv {} (binit demo_bst)"
proof -
  show q: "quiet demo_bst"
    by (simp add: demo_bst_def kst.defs mach.defs quiet_def cpu_ok_def lk_free_def demo_mach_def boot_mach_def zero_cpu_def)
  show z: "\<not> b_valid (bufs demo_bst i) \<and> b_dev (bufs demo_bst i) = 0" for i
    by (simp add: demo_bst_def kst.defs zero_buf_def)
  show "binv {} (binit demo_bst)" by (rule binit_inv(1) [OF q z])
qed

text \<open>
  C10. On a consistent cache, \<^verbatim>\<open>bread\<close> of a block that is cached and not locked, or for which a
  buffer is unreferenced, returns a buffer that nobody else has locked, which now is locked by
  the caller, belongs to this block, and holds the block's current contents: those in the cache if
  the block is cached, and those on the disk otherwise. The cache stays consistent: its LRU list
  is a permutation of the buffers, a block is cached at most once, and no block's contents and no
  byte of the disk changes, whichever buffer was recycled.
\<close>

theorem bread_correct:
  assumes "binv H s" and "mayread H b s"
  shows "\<exists>i t. bread ROOTDEV b s = Ret i t \<and> i < NBUF \<and> i \<notin> H \<and> binv (insert i H) t
    \<and> b_dev (bufs t i) = ROOTDEV \<and> b_blockno (bufs t i) = b \<and> b_valid (bufs t i)
    \<and> b_data (bufs t i) = block_of b s \<and> disk t = disk s \<and> (\<forall>c. block_of c t = block_of c s)"
  using bread_spec [OF assms] lookup_Some unfolding reads_def by meson

theorem bread_correct_witness:
  "\<exists>i t. bread ROOTDEV 7 (binit demo_bst) = Ret i t \<and> b_data (bufs t i) = (\<lambda>_. 7)"
proof -
  have c: "bcore (bufs (binit demo_bst) j) = bcore (bufs demo_bst j)" "b_refcnt (bufs (binit demo_bst) j) = b_refcnt (bufs demo_bst j)" for j
    using binit_inv(3) [OF demo_bst_ok(1,2)] by blast+
  have dv: "b_dev (bufs (binit demo_bst) j) = 0" "b_refcnt (bufs (binit demo_bst) j) = 0" for j
    using bcoreD(2) [OF c(1)] c(2) demo_bst_ok(2) by (simp_all add: demo_bst_def kst.defs zero_buf_def)
  have l: "lookup 7 (binit demo_bst) = None" using dv by (simp add: lookup_def find_None_iff ROOTDEV_def)
  have b: "block_of 7 (binit demo_bst) = (\<lambda>_. 7)"
    using binit_inv(2) [OF demo_bst_ok(1,2)] l by (simp add: block_of_def demo_bst_def kst.defs)
  have "mayread {} 7 (binit demo_bst)" using l dv by (simp add: mayread_def NBUF_eq exI [of _ 0])
  from bread_correct [OF demo_bst_ok(3) this] b show ?thesis by auto
qed

text \<open>
  C11. \<^verbatim>\<open>brelse\<close> of a buffer the caller has locked (and, if this was the last reference, has not
  left different from the disk) unlocks it, drops one reference, keeps the cache consistent,
  moves an unreferenced buffer to the front of the LRU list, and changes no block.
\<close>

theorem brelse_correct:
  assumes "binv H s" and "i \<in> H"
    and "b_refcnt (bufs s i) = 1 \<Longrightarrow> b_valid (bufs s i) \<Longrightarrow> b_data (bufs s i) = disk s (b_blockno (bufs s i))"
  shows "\<exists>t. brelse i s = Ret () t \<and> binv (H - {i}) t \<and> disk t = disk s
    \<and> (\<forall>c. block_of c t = block_of c s)
    \<and> (\<forall>j. b_refcnt (bufs t j) = b_refcnt (bufs s j) - (if j = i then 1 else 0))
    \<and> (b_refcnt (bufs s i) = 1 \<longrightarrow> b_next (bufs t bhead) = i)"
proof -
  obtain t where t: "brelse i s = Ret () t" "binv (H - {i}) t" "releases i s t"
    using brelse_spec [OF assms] by blast
  have "bufs t = unref i (bufs s)" using t(1) brelse_eq [OF assms(1,2)] by auto
  then have "b_refcnt (bufs s i) = 1 \<longrightarrow> b_next (bufs t bhead) = i"
    by (simp add: unref_def link_front_def Let_def)
  then show ?thesis using t by (auto simp: releases_def intro: block_of_cong)
qed

theorem brelse_correct_witness:
  "\<exists>i t u. bread ROOTDEV 7 (binit demo_bst) = Ret i t \<and> brelse i t = Ret () u \<and> binv {} u"
proof -
  have c: "bcore (bufs (binit demo_bst) j) = bcore (bufs demo_bst j)" "b_refcnt (bufs (binit demo_bst) j) = b_refcnt (bufs demo_bst j)" for j
    using binit_inv(3) [OF demo_bst_ok(1,2)] by blast+
  have dv: "b_dev (bufs (binit demo_bst) j) = 0" "b_refcnt (bufs (binit demo_bst) j) = 0" for j
    using bcoreD(2) [OF c(1)] c(2) demo_bst_ok(2) by (simp_all add: demo_bst_def kst.defs zero_buf_def)
  have l: "lookup 7 (binit demo_bst) = None" using dv by (simp add: lookup_def find_None_iff ROOTDEV_def)
  have "mayread {} 7 (binit demo_bst)" using l dv by (simp add: mayread_def NBUF_eq exI [of _ 0])
  from bread_spec [OF demo_bst_ok(3) this] obtain i t
    where t: "bread ROOTDEV 7 (binit demo_bst) = Ret i t" "reads {} 7 i (binit demo_bst) t" by blast
  have "b_data (bufs t i) = disk t (b_blockno (bufs t i))" "binv {i} t"
    using t(2) l lookup_Some [of 7 t i] by (auto simp: reads_def block_of_def)
  with t(1) brelse_correct [of "{i}" t i] show ?thesis by auto
qed

end
