(* ===== verification/Xv6_Log.thy ===== *)
theory Xv6_Log
  imports Xv6_Bcache
begin

text \<open>
  The write-ahead log, \<^verbatim>\<open>kernel/log.c\<close>. The in-memory log and its header are the record \<open>logst\<close>;
  the header on disk is read and written as the bytes of the header block: the count at offset 0
  and the block numbers from offset 4 on.

  \<^verbatim>\<open>begin_op\<close> and \<^verbatim>\<open>end_op\<close> bracket the system calls; a \<^verbatim>\<open>begin_op\<close> that has to wait ends in
  \<open>Susp\<close> and runs \<open>begin_op_loop\<close> again when it is woken.
\<close>

record superblock =
  sb_magic :: uint
  sb_size :: uint
  sb_nblocks :: uint
  sb_ninodes :: uint
  sb_nlog :: uint
  sb_logstart :: uint
  sb_inodestart :: uint
  sb_bmapstart :: uint

record logst =
  l_start :: uint
  l_size :: int
  l_outstanding :: int
  l_committing :: bool
  l_dev :: uint
  lh_n :: int
  lh_block :: "nat \<Rightarrow> uint"

record lst = bst +
  lg :: logst

definition upd_log :: "(logst \<Rightarrow> logst) \<Rightarrow> 'z lst_scheme \<Rightarrow> 'z lst_scheme" where
  "upd_log f s = s\<lparr>lg := f (lg s)\<rparr>"

definition logblock :: "nat \<Rightarrow> 'z lst_scheme \<Rightarrow> uint" where
  "logblock tail s = l_start (lg s) + of_nat tail + 1"

section \<open>Installing and the header\<close>

primrec install_trans_loop :: "bool \<Rightarrow> nat list \<Rightarrow> 'z lst_scheme \<Rightarrow> ('z lst_scheme, unit) res" where
  "install_trans_loop recovering [] s = Ret () s"
| "install_trans_loop recovering (tail # ts) s =
     bnd (bread (l_dev (lg s)) (logblock tail s) s) (\<lambda>lbuf s.
     bnd (bread (l_dev (lg s)) (lh_block (lg s) tail) s) (\<lambda>dbuf s.
     let s = upd_buf dbuf (\<lambda>x. x\<lparr>b_data := b_data (bufs s lbuf)\<rparr>) s in
     seq (bwrite dbuf s) (\<lambda>s.
     seq (if \<not> recovering then bunpin dbuf s else Ret () s) (\<lambda>s.
     seq (brelse lbuf s) (\<lambda>s.
     seq (brelse dbuf s) (\<lambda>s.
     install_trans_loop recovering ts s))))))"

definition install_trans :: "bool \<Rightarrow> 'z lst_scheme \<Rightarrow> ('z lst_scheme, unit) res" where
  "install_trans recovering s = install_trans_loop recovering [0..<nat (lh_n (lg s))] s"

primrec read_head_loop :: "nat list \<Rightarrow> bytes \<Rightarrow> (nat \<Rightarrow> uint) \<Rightarrow> nat \<Rightarrow> uint" where
  "read_head_loop [] d bl = bl"
| "read_head_loop (i # is) d bl = read_head_loop is d (bl(i := ld32 d (4 + 4 * i)))"

definition read_head :: "'z lst_scheme \<Rightarrow> ('z lst_scheme, unit) res" where
  "read_head s =
     bnd (bread (l_dev (lg s)) (l_start (lg s)) s) (\<lambda>b s.
     let d = b_data (bufs s b);
         s = upd_log (\<lambda>l. l\<lparr>lh_n := sint (ld32 d 0)\<rparr>) s;
         s = upd_log (\<lambda>l. l\<lparr>lh_block := read_head_loop [0..<nat (lh_n l)] d (lh_block l)\<rparr>) s
     in brelse b s)"

primrec write_head_loop :: "nat list \<Rightarrow> (nat \<Rightarrow> uint) \<Rightarrow> bytes \<Rightarrow> bytes" where
  "write_head_loop [] bl d = d"
| "write_head_loop (i # is) bl d = write_head_loop is bl (st32 (bl i) d (4 + 4 * i))"

definition write_head :: "'z lst_scheme \<Rightarrow> ('z lst_scheme, unit) res" where
  "write_head s =
     bnd (bread (l_dev (lg s)) (l_start (lg s)) s) (\<lambda>b s.
     let d = st32 (word_of_int (lh_n (lg s))) (b_data (bufs s b)) 0;
         d = write_head_loop [0..<nat (lh_n (lg s))] (lh_block (lg s)) d;
         s = upd_buf b (\<lambda>x. x\<lparr>b_data := d\<rparr>) s
     in seq (bwrite b s) (\<lambda>s. brelse b s))"

definition recover_from_log :: "'z lst_scheme \<Rightarrow> ('z lst_scheme, unit) res" where
  "recover_from_log s =
     seq (read_head s) (\<lambda>s.
     seq (install_trans True s) (\<lambda>s.
     write_head (upd_log (\<lambda>l. l\<lparr>lh_n := 0\<rparr>) s)))"

definition initlog :: "uint \<Rightarrow> superblock \<Rightarrow> 'z lst_scheme \<Rightarrow> ('z lst_scheme, unit) res" where
  "initlog dev sb s =
     (if 4 * (LOGSIZE + 1) \<ge> BSIZE then Panic ''initlog: too big logheader''
      else let s = initlock L_log ''log'' s;
               s = upd_log (\<lambda>l. l\<lparr>l_start := sb_logstart sb, l_size := sint (sb_nlog sb), l_dev := dev\<rparr>) s
           in recover_from_log s)"

section \<open>Transactions\<close>

definition begin_op_loop :: "'z lst_scheme \<Rightarrow> ('z lst_scheme, unit) res" where
  "begin_op_loop s =
     (if l_committing (lg s) then sleep Ch_log L_log s
      else if lh_n (lg s) + (l_outstanding (lg s) + 1) * int MAXOPBLOCKS > int LOGSIZE
      then sleep Ch_log L_log s
      else release L_log (upd_log (\<lambda>l. l\<lparr>l_outstanding := l_outstanding l + 1\<rparr>) s))"

definition begin_op :: "'z lst_scheme \<Rightarrow> ('z lst_scheme, unit) res" where
  "begin_op s = seq (acquire L_log s) begin_op_loop"

primrec write_log_loop :: "nat list \<Rightarrow> 'z lst_scheme \<Rightarrow> ('z lst_scheme, unit) res" where
  "write_log_loop [] s = Ret () s"
| "write_log_loop (tail # ts) s =
     bnd (bread (l_dev (lg s)) (logblock tail s) s) (\<lambda>to s.
     bnd (bread (l_dev (lg s)) (lh_block (lg s) tail) s) (\<lambda>from s.
     let s = upd_buf to (\<lambda>x. x\<lparr>b_data := b_data (bufs s from)\<rparr>) s in
     seq (bwrite to s) (\<lambda>s.
     seq (brelse from s) (\<lambda>s.
     seq (brelse to s) (\<lambda>s.
     write_log_loop ts s)))))"

definition write_log :: "'z lst_scheme \<Rightarrow> ('z lst_scheme, unit) res" where
  "write_log s = write_log_loop [0..<nat (lh_n (lg s))] s"

definition commit :: "'z lst_scheme \<Rightarrow> ('z lst_scheme, unit) res" where
  "commit s =
     (if lh_n (lg s) > 0 then
        seq (write_log s) (\<lambda>s.
        seq (write_head s) (\<lambda>s.
        seq (install_trans False s) (\<lambda>s.
        write_head (upd_log (\<lambda>l. l\<lparr>lh_n := 0\<rparr>) s))))
      else Ret () s)"

definition end_op :: "'z lst_scheme \<Rightarrow> ('z lst_scheme, unit) res" where
  "end_op s =
     seq (acquire L_log s) (\<lambda>s.
     let s = upd_log (\<lambda>l. l\<lparr>l_outstanding := l_outstanding l - 1\<rparr>) s in
     if l_committing (lg s) then Panic ''log.committing''
     else if l_outstanding (lg s) = 0 then
       seq (release L_log (upd_log (\<lambda>l. l\<lparr>l_committing := True\<rparr>) s)) (\<lambda>s.
       seq (commit s) (\<lambda>s.
       seq (acquire L_log s) (\<lambda>s.
       let s = upd_log (\<lambda>l. l\<lparr>l_committing := False\<rparr>) s in
       seq (wakeup Ch_log s) (\<lambda>s.
       release L_log s))))
     else seq (wakeup Ch_log s) (\<lambda>s. release L_log s))"

primrec log_scan :: "nat \<Rightarrow> (nat \<Rightarrow> uint) \<Rightarrow> uint \<Rightarrow> nat \<Rightarrow> nat" where
  "log_scan 0 bl b i = i"
| "log_scan (Suc k) bl b i = (if bl i = b then i else log_scan k bl b (Suc i))"

definition log_write :: "nat \<Rightarrow> 'z lst_scheme \<Rightarrow> ('z lst_scheme, unit) res" where
  "log_write b s =
     seq (acquire L_log s) (\<lambda>s.
     if lh_n (lg s) \<ge> int LOGSIZE \<or> lh_n (lg s) \<ge> l_size (lg s) - 1 then Panic ''too big a transaction''
     else if l_outstanding (lg s) < 1 then Panic ''log_write outside of trans''
     else let i = log_scan (nat (lh_n (lg s))) (lh_block (lg s)) (b_blockno (bufs s b)) 0;
              s = upd_log (\<lambda>l. l\<lparr>lh_block := (lh_block l)(i := b_blockno (bufs s b))\<rparr>) s
          in seq (if int i = lh_n (lg s)
                  then seq (bpin b s) (\<lambda>s. Ret () (upd_log (\<lambda>l. l\<lparr>lh_n := lh_n l + 1\<rparr>) s))
                  else Ret () s) (\<lambda>s.
             release L_log s))"

section \<open>The new field and the lock operations\<close>

lemma lst_sel [simp]:
  "lg (push_off s) = lg s" "lg (acq lk s) = lg s" "lg (touch s) = lg s" "lg (upd_proc p f s) = lg s"
  "lg (upd_buf i g s) = lg s"
  by (simp_all add: acq_def touch_def push_off_def Let_def intr_defs upd_proc_def upd_buf_def)

lemma lst_upd [locksimp]:
  "(acq lk s)\<lparr>lg := a\<rparr> = acq lk (s\<lparr>lg := a\<rparr>)" "(touch s)\<lparr>lg := a\<rparr> = touch (s\<lparr>lg := a\<rparr>)"
  by (simp_all add: acq_def touch_def push_off_def Let_def intr_defs)

lemma upd_log_lock [simp]:
  "upd_log f (acq lk s) = acq lk (upd_log f s)" "upd_log f (touch s) = touch (upd_log f s)"
  by (simp_all add: upd_log_def locksimp)

lemma upd_log_sel [simp]:
  "lg (upd_log f s) = f (lg s)" "bufs (upd_log f s) = bufs s" "disk (upd_log f s) = disk s"
  "dtrace (upd_log f s) = dtrace s" "slocks (upd_log f s) = slocks s" "locks (upd_log f s) = locks s"
  "procs (upd_log f s) = procs s" "cpus (upd_log f s) = cpus s" "tp (upd_log f s) = tp s" "mem (upd_log f s) = mem s"
  "cpu_ok (upd_log f s) \<longleftrightarrow> cpu_ok s" "lk_free lk (upd_log f s) \<longleftrightarrow> lk_free lk s"
  "plocks_free (upd_log f s) \<longleftrightarrow> plocks_free s" "lst.more (upd_log f s) = lst.more s"
  by (simp_all add: upd_log_def cpu_ok_def lk_free_def plocks_free_def)

lemma upd_log_inv [simp]:
  "quiet (upd_log f s) \<longleftrightarrow> quiet s" "mypid (upd_log f s) = mypid s" "binv H (upd_log f s) \<longleftrightarrow> binv H s"
  "lookup b (upd_log f s) = lookup b s" "block_of b (upd_log f s) = block_of b s"
  "mayread H b (upd_log f s) \<longleftrightarrow> mayread H b s"
  by (simp_all add: quiet_def mypid_def binv_def lookup_def block_of_def mayread_def split: option.splits)

end
