(* ===== verification/Xv6_Fs.thy ===== *)
theory Xv6_Fs
  imports Xv6_Log
begin

text \<open>
  The file system, \<^verbatim>\<open>kernel/fs.c\<close>: block allocation, inodes, file contents, directories and path
  names, with \<^verbatim>\<open>either_copyout\<close> and \<^verbatim>\<open>either_copyin\<close> of \<^verbatim>\<open>kernel/proc.c\<close>.

  On-disk structures are read and written at their offsets in the bytes of a block. The inode
  table is an array of records; the sleep lock of entry \<open>i\<close> is \<open>SL_inode i\<close>. A pathname is the
  list of its bytes before the NUL.

  The address an inode is read to or written from is an \<open>ioaddr\<close>: a user virtual address
  (\<^verbatim>\<open>user_dst\<close> is 1), a kernel address, or an offset in the local variable of the caller, whose
  bytes are the field \<open>kloc\<close> (\<^verbatim>\<open>struct dirent de\<close> of \<^verbatim>\<open>dirlookup\<close>, the headers of \<^verbatim>\<open>exec\<close>).
\<close>

section \<open>fs.h, stat.h and file.h\<close>

definition ROOTINO :: uint where "ROOTINO = 1"
definition FSMAGIC :: uint where "FSMAGIC = 0x10203040"
definition NDIRECT :: nat where "NDIRECT = 12"
definition NINDIRECT :: nat where "NINDIRECT = BSIZE div 4"
definition MAXFILE :: nat where "MAXFILE = NDIRECT + NINDIRECT"
definition IPB :: nat where "IPB = BSIZE div 64"
definition BPB :: nat where "BPB = BSIZE * 8"
definition DIRSIZ :: nat where "DIRSIZ = 14"

definition T_DIR :: uint16 where "T_DIR = 1"
definition T_FILE :: uint16 where "T_FILE = 2"
definition T_DEVICE :: uint16 where "T_DEVICE = 3"

lemmas fs_defs = ROOTINO_def FSMAGIC_def NDIRECT_def NINDIRECT_def MAXFILE_def IPB_def BPB_def
  DIRSIZ_def T_DIR_def T_FILE_def T_DEVICE_def BSIZE_def

record inode =
  i_dev :: uint
  i_inum :: uint
  i_ref :: int
  i_valid :: bool
  i_type :: uint16
  i_major :: uint16
  i_minor :: uint16
  i_nlink :: uint16
  i_size :: uint
  i_addrs :: "nat \<Rightarrow> uint"

record fsst = lst +
  sb :: superblock
  itable :: "nat \<Rightarrow> inode"
  kloc :: bytes

definition upd_inode :: "nat \<Rightarrow> (inode \<Rightarrow> inode) \<Rightarrow> 'z fsst_scheme \<Rightarrow> 'z fsst_scheme" where
  "upd_inode i f s = s\<lparr>itable := (itable s)(i := f (itable s i))\<rparr>"

definition IBLOCK :: "uint \<Rightarrow> superblock \<Rightarrow> uint" where
  "IBLOCK i sbk = i div of_nat IPB + sb_inodestart sbk"

definition BBLOCK :: "uint \<Rightarrow> superblock \<Rightarrow> uint" where
  "BBLOCK b sbk = b div of_nat BPB + sb_bmapstart sbk"

text \<open>An array of words stored at a byte address: what \<^verbatim>\<open>memmove\<close> of an \<^verbatim>\<open>uint\<close> array does.\<close>

primrec st32s :: "nat list \<Rightarrow> (nat \<Rightarrow> uint) \<Rightarrow> bytes \<Rightarrow> nat \<Rightarrow> bytes" where
  "st32s [] A d a = d"
| "st32s (i # is) A d a = st32s is A (st32 (A i) d (a + 4 * i)) a"

section \<open>Copying from and to user or kernel addresses\<close>

datatype ioaddr = User uint64 | Kern uint64 | Local nat

primrec ioadd :: "ioaddr \<Rightarrow> uint \<Rightarrow> ioaddr" where
  "ioadd (User a) m = User (a + ucast m)"
| "ioadd (Kern a) m = Kern (a + ucast m)"
| "ioadd (Local a) m = Local (a + unat m)"

definition either_copyout :: "ioaddr \<Rightarrow> bytes \<Rightarrow> uint64 \<Rightarrow> 'z fsst_scheme \<Rightarrow> ('z fsst_scheme, int) res" where
  "either_copyout dst src len s =
     bnd (myproc s) (\<lambda>p s.
       case dst of
         User a \<Rightarrow> deref p (\<lambda>p. copyout (p_pagetable (procs s p)) a src len s)
       | Kern a \<Rightarrow> Ret 0 (s\<lparr>mem := blit (unat a) (unat len) src (mem s)\<rparr>)
       | Local a \<Rightarrow> Ret 0 (s\<lparr>kloc := blit a (unat len) src (kloc s)\<rparr>))"

text \<open>\<open>d\<close> is the kernel object that holds the destination, \<open>a\<close> the offset in it.\<close>

definition either_copyin ::
  "bytes \<Rightarrow> nat \<Rightarrow> ioaddr \<Rightarrow> uint64 \<Rightarrow> 'z fsst_scheme \<Rightarrow> ('z fsst_scheme, int \<times> bytes) res" where
  "either_copyin d a src len s =
     bnd (myproc s) (\<lambda>p s.
       case src of
         User v \<Rightarrow> deref p (\<lambda>p. copyin (p_pagetable (procs s p)) d a v len s)
       | Kern v \<Rightarrow> Ret (0, blit a (unat len) (\<lambda>i. mem s (unat v + i)) d) s
       | Local v \<Rightarrow> Ret (0, blit a (unat len) (\<lambda>i. kloc s (v + i)) d) s)"

section \<open>The superblock and the block allocator\<close>

definition sb_of :: "bytes \<Rightarrow> superblock" where
  "sb_of d = \<lparr>sb_magic = ld32 d 0, sb_size = ld32 d 4, sb_nblocks = ld32 d 8, sb_ninodes = ld32 d 12,
     sb_nlog = ld32 d 16, sb_logstart = ld32 d 20, sb_inodestart = ld32 d 24, sb_bmapstart = ld32 d 28\<rparr>"

definition readsb :: "uint \<Rightarrow> 'z fsst_scheme \<Rightarrow> ('z fsst_scheme, unit) res" where
  "readsb dev s =
     bnd (bread dev 1 s) (\<lambda>bp s.
     brelse bp (s\<lparr>sb := sb_of (b_data (bufs s bp))\<rparr>))"

definition fsinit :: "uint \<Rightarrow> 'z fsst_scheme \<Rightarrow> ('z fsst_scheme, unit) res" where
  "fsinit dev s =
     seq (readsb dev s) (\<lambda>s.
       if sb_magic (sb s) \<noteq> FSMAGIC then Panic ''invalid file system''
       else initlog dev (sb s) s)"

definition bzero :: "uint \<Rightarrow> uint \<Rightarrow> 'z fsst_scheme \<Rightarrow> ('z fsst_scheme, unit) res" where
  "bzero dev bno s =
     bnd (bread dev bno s) (\<lambda>bp s.
     let s = upd_buf bp (\<lambda>x. x\<lparr>b_data := memset 0 0 BSIZE (b_data x)\<rparr>) s in
     seq (log_write bp s) (\<lambda>s. brelse bp s))"

definition bitmask :: "nat \<Rightarrow> byte" where
  "bitmask bi = push_bit (bi mod 8) 1"

text \<open>The scan of one bitmap block for a clear bit: \<open>bi\<close> runs while \<open>bi < BPB\<close> and \<open>b + bi < size\<close>.\<close>

primrec balloc_scan :: "nat list \<Rightarrow> nat \<Rightarrow> nat \<Rightarrow> bytes \<Rightarrow> nat option" where
  "balloc_scan [] b sz d = None"
| "balloc_scan (bi # bis) b sz d =
     (if b + bi < sz
      then if d (bi div 8) AND bitmask bi = 0 then Some bi else balloc_scan bis b sz d
      else None)"

primrec balloc_loop :: "nat list \<Rightarrow> uint \<Rightarrow> 'z fsst_scheme \<Rightarrow> ('z fsst_scheme, uint) res" where
  "balloc_loop [] dev s = Ret 0 (kmsg ''balloc: out of blocks'' s)"
| "balloc_loop (b # bs) dev s =
     bnd (bread dev (BBLOCK (of_nat b) (sb s)) s) (\<lambda>bp s.
     case balloc_scan [0..<BPB] b (unat (sb_size (sb s))) (b_data (bufs s bp)) of
       Some bi \<Rightarrow>
         let s = upd_buf bp (\<lambda>x. x\<lparr>b_data := (b_data x)(bi div 8 := b_data x (bi div 8) OR bitmask bi)\<rparr>) s in
         seq (log_write bp s) (\<lambda>s.
         seq (brelse bp s) (\<lambda>s.
         seq (bzero dev (of_nat (b + bi)) s) (\<lambda>s.
         Ret (of_nat (b + bi)) s)))
     | None \<Rightarrow> seq (brelse bp s) (\<lambda>s. balloc_loop bs dev s))"

definition balloc :: "uint \<Rightarrow> 'z fsst_scheme \<Rightarrow> ('z fsst_scheme, uint) res" where
  "balloc dev s =
     balloc_loop (map (\<lambda>k. k * BPB) [0..<(unat (sb_size (sb s)) + BPB - 1) div BPB]) dev s"

definition bfree :: "uint \<Rightarrow> uint \<Rightarrow> 'z fsst_scheme \<Rightarrow> ('z fsst_scheme, unit) res" where
  "bfree dev b s =
     bnd (bread dev (BBLOCK b (sb s)) s) (\<lambda>bp s.
     let bi = unat b mod BPB in
     if b_data (bufs s bp) (bi div 8) AND bitmask bi = 0 then Panic ''freeing free block''
     else let s = upd_buf bp (\<lambda>x. x\<lparr>b_data := (b_data x)(bi div 8 := b_data x (bi div 8) AND NOT (bitmask bi))\<rparr>) s in
     seq (log_write bp s) (\<lambda>s. brelse bp s))"

section \<open>Inodes\<close>

primrec iinit_loop :: "nat list \<Rightarrow> 'z fsst_scheme \<Rightarrow> 'z fsst_scheme" where
  "iinit_loop [] s = s"
| "iinit_loop (i # is) s = iinit_loop is (initsleeplock (SL_inode i) ''inode'' s)"

definition iinit :: "'z fsst_scheme \<Rightarrow> 'z fsst_scheme" where
  "iinit s = iinit_loop [0..<NINODE] (initlock L_itable ''itable'' s)"

primrec iget_loop :: "uint \<Rightarrow> uint \<Rightarrow> nat list \<Rightarrow> nat option \<Rightarrow> 'z fsst_scheme \<Rightarrow> ('z fsst_scheme, nat) res" where
  "iget_loop dev inum [] emp s =
     (case emp of
        None \<Rightarrow> Panic ''iget: no inodes''
      | Some ip \<Rightarrow>
          let s = upd_inode ip (\<lambda>x. x\<lparr>i_dev := dev, i_inum := inum, i_ref := 1, i_valid := False\<rparr>) s in
          seq (release L_itable s) (\<lambda>s. Ret ip s))"
| "iget_loop dev inum (ip # ips) emp s =
     (if i_ref (itable s ip) > 0 \<and> i_dev (itable s ip) = dev \<and> i_inum (itable s ip) = inum
      then let s = upd_inode ip (\<lambda>x. x\<lparr>i_ref := i_ref x + 1\<rparr>) s in
           seq (release L_itable s) (\<lambda>s. Ret ip s)
      else iget_loop dev inum ips
             (if emp = None \<and> i_ref (itable s ip) = 0 then Some ip else emp) s)"

definition iget :: "uint \<Rightarrow> uint \<Rightarrow> 'z fsst_scheme \<Rightarrow> ('z fsst_scheme, nat) res" where
  "iget dev inum s = seq (acquire L_itable s) (\<lambda>s. iget_loop dev inum [0..<NINODE] None s)"

text \<open>The offset of inode \<open>inum\<close> in its block; the fields of \<^verbatim>\<open>struct dinode\<close> are at fixed offsets from it.\<close>

definition dinode_off :: "uint \<Rightarrow> nat" where
  "dinode_off inum = 64 * (unat inum mod IPB)"

primrec ialloc_loop :: "nat list \<Rightarrow> uint \<Rightarrow> uint16 \<Rightarrow> 'z fsst_scheme \<Rightarrow> ('z fsst_scheme, nat option) res" where
  "ialloc_loop [] dev type s = Ret None (kmsg ''ialloc: no inodes'' s)"
| "ialloc_loop (inum # inums) dev type s =
     bnd (bread dev (IBLOCK (of_nat inum) (sb s)) s) (\<lambda>bp s.
     let dip = dinode_off (of_nat inum) in
     if ld16 (b_data (bufs s bp)) dip = 0 then
       let s = upd_buf bp (\<lambda>x. x\<lparr>b_data := st16 type (memset dip 0 64 (b_data x)) dip\<rparr>) s in
       seq (log_write bp s) (\<lambda>s.
       seq (brelse bp s) (\<lambda>s.
       bnd (iget dev (of_nat inum) s) (\<lambda>ip s. Ret (Some ip) s)))
     else seq (brelse bp s) (\<lambda>s. ialloc_loop inums dev type s))"

definition ialloc :: "uint \<Rightarrow> uint16 \<Rightarrow> 'z fsst_scheme \<Rightarrow> ('z fsst_scheme, nat option) res" where
  "ialloc dev type s = ialloc_loop [1..<unat (sb_ninodes (sb s))] dev type s"

definition put_dinode :: "inode \<Rightarrow> nat \<Rightarrow> bytes \<Rightarrow> bytes" where
  "put_dinode ip dip d =
     (let d = st16 (i_type ip) d dip;
          d = st16 (i_major ip) d (dip + 2);
          d = st16 (i_minor ip) d (dip + 4);
          d = st16 (i_nlink ip) d (dip + 6);
          d = st32 (i_size ip) d (dip + 8)
      in st32s [0..<NDIRECT + 1] (i_addrs ip) d (dip + 12))"

definition get_dinode :: "bytes \<Rightarrow> nat \<Rightarrow> inode \<Rightarrow> inode" where
  "get_dinode d dip ip =
     ip\<lparr>i_type := ld16 d dip, i_major := ld16 d (dip + 2), i_minor := ld16 d (dip + 4),
        i_nlink := ld16 d (dip + 6), i_size := ld32 d (dip + 8),
        i_addrs := (\<lambda>i. if i \<le> NDIRECT then ld32 d (dip + 12 + 4 * i) else i_addrs ip i)\<rparr>"

definition iupdate :: "nat \<Rightarrow> 'z fsst_scheme \<Rightarrow> ('z fsst_scheme, unit) res" where
  "iupdate ip s =
     bnd (bread (i_dev (itable s ip)) (IBLOCK (i_inum (itable s ip)) (sb s)) s) (\<lambda>bp s.
     let s = upd_buf bp (\<lambda>x. x\<lparr>b_data := put_dinode (itable s ip) (dinode_off (i_inum (itable s ip))) (b_data x)\<rparr>) s in
     seq (log_write bp s) (\<lambda>s. brelse bp s))"

definition idup :: "nat \<Rightarrow> 'z fsst_scheme \<Rightarrow> ('z fsst_scheme, nat) res" where
  "idup ip s =
     seq (acquire L_itable s) (\<lambda>s.
     seq (release L_itable (upd_inode ip (\<lambda>x. x\<lparr>i_ref := i_ref x + 1\<rparr>) s)) (\<lambda>s.
     Ret ip s))"

definition ilock :: "nat option \<Rightarrow> 'z fsst_scheme \<Rightarrow> ('z fsst_scheme, unit) res" where
  "ilock ipo s =
     (case ipo of
        None \<Rightarrow> Panic ''ilock''
      | Some ip \<Rightarrow>
          if i_ref (itable s ip) < 1 then Panic ''ilock''
          else seq (acquiresleep (SL_inode ip) s) (\<lambda>s.
            if \<not> i_valid (itable s ip) then
              bnd (bread (i_dev (itable s ip)) (IBLOCK (i_inum (itable s ip)) (sb s)) s) (\<lambda>bp s.
              let s = upd_inode ip (get_dinode (b_data (bufs s bp)) (dinode_off (i_inum (itable s ip)))) s in
              seq (brelse bp s) (\<lambda>s.
              let s = upd_inode ip (\<lambda>x. x\<lparr>i_valid := True\<rparr>) s in
              if i_type (itable s ip) = 0 then Panic ''ilock: no type'' else Ret () s))
            else Ret () s))"

definition iunlock :: "nat option \<Rightarrow> 'z fsst_scheme \<Rightarrow> ('z fsst_scheme, unit) res" where
  "iunlock ipo s =
     (case ipo of
        None \<Rightarrow> Panic ''iunlock''
      | Some ip \<Rightarrow>
          bnd (holdingsleep (SL_inode ip) s) (\<lambda>h s.
          if \<not> h \<or> i_ref (itable s ip) < 1 then Panic ''iunlock''
          else releasesleep (SL_inode ip) s))"

section \<open>Inode content\<close>

definition bmap :: "nat \<Rightarrow> uint \<Rightarrow> 'z fsst_scheme \<Rightarrow> ('z fsst_scheme, uint) res" where
  "bmap ip bn s =
     (if bn < of_nat NDIRECT then
        let addr = i_addrs (itable s ip) (unat bn) in
        if addr = 0 then
          bnd (balloc (i_dev (itable s ip)) s) (\<lambda>addr s.
          if addr = 0 then Ret 0 s
          else Ret addr (upd_inode ip (\<lambda>x. x\<lparr>i_addrs := (i_addrs x)(unat bn := addr)\<rparr>) s))
        else Ret addr s
      else
        let bn = bn - of_nat NDIRECT in
        if bn < of_nat NINDIRECT then
          bnd (let addr = i_addrs (itable s ip) NDIRECT in
               if addr = 0 then
                 bnd (balloc (i_dev (itable s ip)) s) (\<lambda>addr s.
                 if addr = 0 then Ret 0 s
                 else Ret addr (upd_inode ip (\<lambda>x. x\<lparr>i_addrs := (i_addrs x)(NDIRECT := addr)\<rparr>) s))
               else Ret addr s) (\<lambda>addr s.
          if addr = 0 then Ret 0 s
          else bnd (bread (i_dev (itable s ip)) addr s) (\<lambda>bp s.
          let addr = ld32 (b_data (bufs s bp)) (4 * unat bn) in
          bnd (if addr = 0 then
                 bnd (balloc (i_dev (itable s ip)) s) (\<lambda>addr s.
                 if addr \<noteq> 0 then
                   let s = upd_buf bp (\<lambda>x. x\<lparr>b_data := st32 addr (b_data x) (4 * unat bn)\<rparr>) s in
                   seq (log_write bp s) (\<lambda>s. Ret addr s)
                 else Ret addr s)
               else Ret addr s) (\<lambda>addr s.
          seq (brelse bp s) (\<lambda>s. Ret addr s))))
        else Panic ''bmap: out of range'')"

primrec itrunc_direct :: "nat list \<Rightarrow> nat \<Rightarrow> 'z fsst_scheme \<Rightarrow> ('z fsst_scheme, unit) res" where
  "itrunc_direct [] ip s = Ret () s"
| "itrunc_direct (i # is) ip s =
     (if i_addrs (itable s ip) i \<noteq> 0 then
        seq (bfree (i_dev (itable s ip)) (i_addrs (itable s ip) i) s) (\<lambda>s.
        itrunc_direct is ip (upd_inode ip (\<lambda>x. x\<lparr>i_addrs := (i_addrs x)(i := 0)\<rparr>) s))
      else itrunc_direct is ip s)"

primrec itrunc_indirect :: "nat list \<Rightarrow> nat \<Rightarrow> nat \<Rightarrow> 'z fsst_scheme \<Rightarrow> ('z fsst_scheme, unit) res" where
  "itrunc_indirect [] bp ip s = Ret () s"
| "itrunc_indirect (j # js) bp ip s =
     (let a = ld32 (b_data (bufs s bp)) (4 * j) in
      if a \<noteq> 0 then
        seq (bfree (i_dev (itable s ip)) a s) (\<lambda>s. itrunc_indirect js bp ip s)
      else itrunc_indirect js bp ip s)"

definition itrunc :: "nat \<Rightarrow> 'z fsst_scheme \<Rightarrow> ('z fsst_scheme, unit) res" where
  "itrunc ip s =
     seq (itrunc_direct [0..<NDIRECT] ip s) (\<lambda>s.
     seq (if i_addrs (itable s ip) NDIRECT \<noteq> 0 then
            bnd (bread (i_dev (itable s ip)) (i_addrs (itable s ip) NDIRECT) s) (\<lambda>bp s.
            seq (itrunc_indirect [0..<NINDIRECT] bp ip s) (\<lambda>s.
            seq (brelse bp s) (\<lambda>s.
            seq (bfree (i_dev (itable s ip)) (i_addrs (itable s ip) NDIRECT) s) (\<lambda>s.
            Ret () (upd_inode ip (\<lambda>x. x\<lparr>i_addrs := (i_addrs x)(NDIRECT := 0)\<rparr>) s)))))
          else Ret () s) (\<lambda>s.
     iupdate ip (upd_inode ip (\<lambda>x. x\<lparr>i_size := 0\<rparr>) s)))"

definition iput :: "nat \<Rightarrow> 'z fsst_scheme \<Rightarrow> ('z fsst_scheme, unit) res" where
  "iput ip s =
     seq (acquire L_itable s) (\<lambda>s.
     seq (if i_ref (itable s ip) = 1 \<and> i_valid (itable s ip) \<and> i_nlink (itable s ip) = 0 then
            seq (acquiresleep (SL_inode ip) s) (\<lambda>s.
            seq (release L_itable s) (\<lambda>s.
            seq (itrunc ip s) (\<lambda>s.
            seq (iupdate ip (upd_inode ip (\<lambda>x. x\<lparr>i_type := 0\<rparr>) s)) (\<lambda>s.
            seq (releasesleep (SL_inode ip) (upd_inode ip (\<lambda>x. x\<lparr>i_valid := False\<rparr>) s)) (\<lambda>s.
            acquire L_itable s)))))
          else Ret () s) (\<lambda>s.
     release L_itable (upd_inode ip (\<lambda>x. x\<lparr>i_ref := i_ref x - 1\<rparr>) s)))"

definition iunlockput :: "nat \<Rightarrow> 'z fsst_scheme \<Rightarrow> ('z fsst_scheme, unit) res" where
  "iunlockput ip s = seq (iunlock (Some ip) s) (iput ip)"

text \<open>\<^verbatim>\<open>struct stat\<close> at offset 0 of \<open>st\<close>; the compiler pads bytes 12 to 15.\<close>

definition stati :: "inode \<Rightarrow> bytes \<Rightarrow> bytes" where
  "stati ip st =
     (let st = st32 (i_dev ip) st 0;
          st = st32 (i_inum ip) st 4;
          st = st16 (i_type ip) st 8;
          st = st16 (i_nlink ip) st 10
      in st64 (ucast (i_size ip)) st 16)"


lemma readi_step: "tot < n \<Longrightarrow> unat (n - (tot + min (n - tot) (1024 - off mod 1024))) < unat (n - (tot :: uint))"
proof -
  assume l: "tot < n"
  define m where "m = min (n - tot) (1024 - off mod 1024)"
  have "off mod 1024 < 1024" by (simp add: word_less_nat_alt unat_mod)
  then have "m \<noteq> 0" using l by (auto simp: m_def min_def)
  then have "0 < unat m" using unat_inj [of m 0] by (simp del: unat_eq_0)
  moreover have "m \<le> n - tot" by (simp add: m_def)
  ultimately have "unat (n - tot - m) < unat (n - tot)" by (simp add: unat_sub word_le_nat_alt)
  then show ?thesis by (simp add: m_def [symmetric] diff_diff_eq)
qed

function readi_loop :: "nat \<Rightarrow> ioaddr \<Rightarrow> uint \<Rightarrow> uint \<Rightarrow> uint \<Rightarrow> 'z fsst_scheme \<Rightarrow> ('z fsst_scheme, uint) res" where
  "readi_loop ip dst off tot n s =
     (if tot < n then
        bnd (bmap ip (off div 1024) s) (\<lambda>addr s.
        if addr = 0 then Ret tot s
        else bnd (bread (i_dev (itable s ip)) addr s) (\<lambda>bp s.
        let m = min (n - tot) (1024 - off mod 1024) in
        bnd (either_copyout dst (\<lambda>i. b_data (bufs s bp) (unat (off mod 1024) + i)) (ucast m) s) (\<lambda>r s.
        if r = -1 then seq (brelse bp s) (\<lambda>s. Ret (-1) s)
        else seq (brelse bp s) (\<lambda>s. readi_loop ip (ioadd dst m) (off + m) (tot + m) n s))))
      else Ret tot s)"
  by pat_completeness auto
termination
  by (relation "measure (\<lambda>(ip, dst, off, tot, n, s). unat (n - tot))") (auto intro: readi_step)

declare readi_loop.simps [simp del]

definition readi :: "nat \<Rightarrow> ioaddr \<Rightarrow> uint \<Rightarrow> uint \<Rightarrow> 'z fsst_scheme \<Rightarrow> ('z fsst_scheme, int) res" where
  "readi ip dst off n s =
     (if off > i_size (itable s ip) \<or> off + n < off then Ret 0 s
      else let n = (if off + n > i_size (itable s ip) then i_size (itable s ip) - off else n) in
      bnd (readi_loop ip dst off 0 n s) (\<lambda>tot s. Ret (sint tot) s))"

text \<open>The loop of \<^verbatim>\<open>writei\<close> also returns the final \<^verbatim>\<open>off\<close>.\<close>

function writei_loop :: "nat \<Rightarrow> ioaddr \<Rightarrow> uint \<Rightarrow> uint \<Rightarrow> uint \<Rightarrow> 'z fsst_scheme \<Rightarrow> ('z fsst_scheme, uint \<times> uint) res" where
  "writei_loop ip src off tot n s =
     (if tot < n then
        bnd (bmap ip (off div 1024) s) (\<lambda>addr s.
        if addr = 0 then Ret (tot, off) s
        else bnd (bread (i_dev (itable s ip)) addr s) (\<lambda>bp s.
        let m = min (n - tot) (1024 - off mod 1024) in
        bnd (either_copyin (b_data (bufs s bp)) (unat (off mod 1024)) src (ucast m) s) (\<lambda>(r, d) s.
        let s = upd_buf bp (\<lambda>x. x\<lparr>b_data := d\<rparr>) s in
        if r = -1 then seq (brelse bp s) (\<lambda>s. Ret (tot, off) s)
        else seq (log_write bp s) (\<lambda>s.
             seq (brelse bp s) (\<lambda>s. writei_loop ip (ioadd src m) (off + m) (tot + m) n s)))))
      else Ret (tot, off) s)"
  by pat_completeness auto
termination
  by (relation "measure (\<lambda>(ip, src, off, tot, n, s). unat (n - tot))") (auto intro: readi_step)

declare writei_loop.simps [simp del]

definition writei :: "nat \<Rightarrow> ioaddr \<Rightarrow> uint \<Rightarrow> uint \<Rightarrow> 'z fsst_scheme \<Rightarrow> ('z fsst_scheme, int) res" where
  "writei ip src off n s =
     (if off > i_size (itable s ip) \<or> off + n < off then Ret (-1) s
      else if off + n > of_nat (MAXFILE * BSIZE) then Ret (-1) s
      else bnd (writei_loop ip src off 0 n s) (\<lambda>(tot, off) s.
        let s = (if off > i_size (itable s ip) then upd_inode ip (\<lambda>x. x\<lparr>i_size := off\<rparr>) s else s) in
        seq (iupdate ip s) (\<lambda>s. Ret (sint tot) s)))"

section \<open>Directories\<close>

definition namecmp :: "bytes \<Rightarrow> bytes \<Rightarrow> int" where
  "namecmp p q = strncmp p q DIRSIZ"

lemma readi_16: "readi ip dst off 16 s = Ret 16 t \<Longrightarrow> unat (off + 16) = unat off + 16"
  by (auto simp: readi_def word_less_nat_alt not_less unat_plus_if' split: if_splits)

lemma readi_16_less: "readi ip dst off 16 s = Ret 16 t \<Longrightarrow> 2 ^ 32 - unat (off + 16) < 2 ^ 32 - unat off"
  using readi_16 [of ip dst off s t] unsigned_less [of off, where ?'a = nat] by simp

text \<open>\<^verbatim>\<open>struct dirent\<close>: the inode number at offset 0, the name from offset 2 on.\<close>

definition de_inum :: "bytes \<Rightarrow> uint16" where
  "de_inum de = ld16 de 0"

definition de_name :: "bytes \<Rightarrow> bytes" where
  "de_name de = (\<lambda>i. de (2 + i))"

text \<open>\<^verbatim>\<open>dirlookup\<close> returns the inode with the offset of its entry (\<^verbatim>\<open>*poff\<close>).\<close>

function dirlookup_loop :: "nat \<Rightarrow> bytes \<Rightarrow> uint \<Rightarrow> 'z fsst_scheme \<Rightarrow> ('z fsst_scheme, (nat \<times> uint) option) res" where
  "dirlookup_loop dp name off s =
     (if off < i_size (itable s dp) then
        bnd (readi dp (Local 0) off 16 s) (\<lambda>r s.
        if r \<noteq> 16 then Panic ''dirlookup read''
        else if de_inum (kloc s) = 0 then dirlookup_loop dp name (off + 16) s
        else if namecmp name (de_name (kloc s)) = 0 then
          bnd (iget (i_dev (itable s dp)) (ucast (de_inum (kloc s))) s) (\<lambda>ip s. Ret (Some (ip, off)) s)
        else dirlookup_loop dp name (off + 16) s)
      else Ret None s)"
  by pat_completeness auto
termination
  by (relation "measure (\<lambda>(dp, name, off, s). 2 ^ 32 - unat off)")
    (auto intro: readi_16_less simp del: power_numeral)

declare dirlookup_loop.simps [simp del]

definition dirlookup :: "nat \<Rightarrow> bytes \<Rightarrow> 'z fsst_scheme \<Rightarrow> ('z fsst_scheme, (nat \<times> uint) option) res" where
  "dirlookup dp name s =
     (if i_type (itable s dp) \<noteq> T_DIR then Panic ''dirlookup not DIR'' else dirlookup_loop dp name 0 s)"

text \<open>The offset of the first empty entry, or the end of the directory.\<close>

function dirlink_scan :: "nat \<Rightarrow> uint \<Rightarrow> 'z fsst_scheme \<Rightarrow> ('z fsst_scheme, uint) res" where
  "dirlink_scan dp off s =
     (if off < i_size (itable s dp) then
        bnd (readi dp (Local 0) off 16 s) (\<lambda>r s.
        if r \<noteq> 16 then Panic ''dirlink read''
        else if de_inum (kloc s) = 0 then Ret off s
        else dirlink_scan dp (off + 16) s)
      else Ret off s)"
  by pat_completeness auto
termination
  by (relation "measure (\<lambda>(dp, off, s). 2 ^ 32 - unat off)")
    (auto intro: readi_16_less simp del: power_numeral)

declare dirlink_scan.simps [simp del]

definition dirlink :: "nat \<Rightarrow> bytes \<Rightarrow> uint \<Rightarrow> 'z fsst_scheme \<Rightarrow> ('z fsst_scheme, int) res" where
  "dirlink dp name inum s =
     bnd (dirlookup dp name s) (\<lambda>r s.
     case r of
       Some (ip, _) \<Rightarrow> seq (iput ip s) (\<lambda>s. Ret (-1) s)
     | None \<Rightarrow>
         bnd (dirlink_scan dp 0 s) (\<lambda>off s.
         let s = s\<lparr>kloc := st16 (ucast inum) (strncpy 2 name DIRSIZ (kloc s)) 0\<rparr> in
         bnd (writei dp (Local 0) off 16 s) (\<lambda>r s.
         if r \<noteq> 16 then Ret (-1) s else Ret 0 s)))"

section \<open>Paths\<close>

abbreviation slash :: byte where
  "slash \<equiv> 47"

definition skipelem :: "byte list \<Rightarrow> bytes \<Rightarrow> (byte list \<times> bytes) option" where
  "skipelem path name =
     (let path = dropWhile (\<lambda>c. c = slash) path in
      if path = [] then None
      else let elem = takeWhile (\<lambda>c. c \<noteq> slash) path;
               path = dropWhile (\<lambda>c. c \<noteq> slash) path;
               len = length elem;
               name = (if len \<ge> DIRSIZ then blit 0 DIRSIZ (\<lambda>i. elem ! i) name
                       else (blit 0 len (\<lambda>i. elem ! i) name)(len := 0))
           in Some (dropWhile (\<lambda>c. c = slash) path, name))"

lemma skipelem_shorter: "skipelem path name = Some (path', name') \<Longrightarrow> length path' < length path"
proof -
  assume a: "skipelem path name = Some (path', name')"
  define p where "p = dropWhile (\<lambda>c. c = slash) path"
  have ne: "p \<noteq> []" and p': "path' = dropWhile (\<lambda>c. c = slash) (dropWhile (\<lambda>c. c \<noteq> slash) p)"
    using a by (auto simp: skipelem_def Let_def p_def split: if_splits)
  have "hd p \<noteq> slash" using ne hd_dropWhile [of "\<lambda>c. c = slash" path] unfolding p_def by blast
  with ne have "length (dropWhile (\<lambda>c. c \<noteq> slash) p) < length p"
    by (cases p) (auto intro: le_imp_less_Suc length_dropWhile_le)
  moreover have "length path' \<le> length (dropWhile (\<lambda>c. c \<noteq> slash) p)" unfolding p' by (rule length_dropWhile_le)
  moreover have "length p \<le> length path" unfolding p_def by (rule length_dropWhile_le)
  ultimately show ?thesis by linarith
qed

text \<open>
  \<open>namex_loop\<close> returns the inode with the last path element, which the caller of \<^verbatim>\<open>nameiparent\<close>
  gets in \<^verbatim>\<open>name\<close>.
\<close>

function namex_loop ::
  "nat \<Rightarrow> byte list \<Rightarrow> bool \<Rightarrow> bytes \<Rightarrow> 'z fsst_scheme \<Rightarrow> ('z fsst_scheme, nat option \<times> bytes) res" where
  "namex_loop ip path parent name s =
     (case skipelem path name of
        Some (path, name) \<Rightarrow>
          seq (ilock (Some ip) s) (\<lambda>s.
          if i_type (itable s ip) \<noteq> T_DIR then seq (iunlockput ip s) (\<lambda>s. Ret (None, name) s)
          else if parent \<and> path = [] then seq (iunlock (Some ip) s) (\<lambda>s. Ret (Some ip, name) s)
          else bnd (dirlookup ip name s) (\<lambda>r s.
          case r of
            None \<Rightarrow> seq (iunlockput ip s) (\<lambda>s. Ret (None, name) s)
          | Some (next, _) \<Rightarrow> seq (iunlockput ip s) (\<lambda>s. namex_loop next path parent name s)))
      | None \<Rightarrow>
          if parent then seq (iput ip s) (\<lambda>s. Ret (None, name) s) else Ret (Some ip, name) s)"
  by pat_completeness auto
termination
  by (relation "measure (\<lambda>(ip, path, parent, name, s). length path)") (auto intro: skipelem_shorter)

declare namex_loop.simps [simp del]

definition namex :: "byte list \<Rightarrow> bool \<Rightarrow> bytes \<Rightarrow> 'z fsst_scheme \<Rightarrow> ('z fsst_scheme, nat option \<times> bytes) res" where
  "namex path parent name s =
     bnd (if path \<noteq> [] \<and> hd path = slash then iget ROOTDEV ROOTINO s
          else bnd (myproc s) (\<lambda>p s. deref p (\<lambda>p. deref (p_cwd (procs s p)) (\<lambda>c. idup c s)))) (\<lambda>ip s.
     namex_loop ip path parent name s)"

text \<open>
  \<^verbatim>\<open>namei\<close> passes an uninitialised local array, of which it returns nothing; \<^verbatim>\<open>nameiparent\<close> passes
  the array of its caller.
\<close>

definition namei :: "byte list \<Rightarrow> 'z fsst_scheme \<Rightarrow> ('z fsst_scheme, nat option) res" where
  "namei path s = bnd (namex path False (kloc s) s) (\<lambda>(r, _) s. Ret r s)"

definition nameiparent :: "byte list \<Rightarrow> bytes \<Rightarrow> 'z fsst_scheme \<Rightarrow> ('z fsst_scheme, nat option \<times> bytes) res" where
  "nameiparent path name s = namex path True name s"

end
