(* ===== verification/Xv6_Console.thy ===== *)
theory Xv6_Console
  imports Xv6_Fs
begin

text \<open>
  The serial line: \<^verbatim>\<open>kernel/uart.c\<close>, \<^verbatim>\<open>kernel/printf.c\<close>, \<^verbatim>\<open>kernel/console.c\<close> and \<^verbatim>\<open>procdump\<close> of
  \<^verbatim>\<open>kernel/proc.c\<close>.

  Of the 16550 the driver sees the receive queue \<open>uart_rx\<close>, the bytes sent \<open>uart_out\<close>, its
  control registers, and the transmitter: \<open>uart_busy\<close> is the number of polls of the status
  register after which the byte in the holding register has left, and \<open>uart_speed\<close> the number
  of polls a byte takes. Polling the status register is how time passes here.

  \<^verbatim>\<open>printf\<close> is split into the expansion of the format (\<open>printf_chars\<close>, whose value \<open>None\<close> means a
  format that does not fit the arguments) and sending the characters.
\<close>

section \<open>kernel/uart.c\<close>

definition LSR_RX_READY :: byte where "LSR_RX_READY = push_bit 0 1"
definition LSR_TX_IDLE :: byte where "LSR_TX_IDLE = push_bit 5 1"
definition IER_RX_ENABLE :: byte where "IER_RX_ENABLE = push_bit 0 1"
definition IER_TX_ENABLE :: byte where "IER_TX_ENABLE = push_bit 1 1"
definition FCR_FIFO_ENABLE :: byte where "FCR_FIFO_ENABLE = push_bit 0 1"
definition FCR_FIFO_CLEAR :: byte where "FCR_FIFO_CLEAR = push_bit 1 3"
definition LCR_EIGHT_BITS :: byte where "LCR_EIGHT_BITS = push_bit 0 3"
definition LCR_BAUD_LATCH :: byte where "LCR_BAUD_LATCH = push_bit 7 1"
definition UART_TX_BUF_SIZE :: nat where "UART_TX_BUF_SIZE = 32"
definition INPUT_BUF_SIZE :: nat where "INPUT_BUF_SIZE = 128"

lemmas uart_defs = LSR_RX_READY_def LSR_TX_IDLE_def IER_RX_ENABLE_def IER_TX_ENABLE_def
  FCR_FIFO_ENABLE_def FCR_FIFO_CLEAR_def LCR_EIGHT_BITS_def LCR_BAUD_LATCH_def

datatype devfn = Dev_consoleread | Dev_consolewrite

record cons =
  c_buf :: bytes
  c_r :: uint
  c_w :: uint
  c_e :: uint

record ust = fsst +
  uart_rx :: "byte list"
  uart_out :: "byte list"
  uart_busy :: nat
  uart_speed :: nat
  uart_ier :: byte
  uart_lcr :: byte
  uart_fcr :: byte
  uart_div :: uint16
  uart_tx_buf :: bytes
  uart_tx_w :: uint64
  uart_tx_r :: uint64
  panicked :: bool
  pr_locking :: bool
  con :: cons
  devsw_read :: "nat \<Rightarrow> devfn option"
  devsw_write :: "nat \<Rightarrow> devfn option"

definition read_LSR :: "'z ust_scheme \<Rightarrow> byte \<times> 'z ust_scheme" where
  "read_LSR s =
     ((if uart_rx s \<noteq> [] then LSR_RX_READY else 0) OR (if uart_busy s = 0 then LSR_TX_IDLE else 0),
      s\<lparr>uart_busy := uart_busy s - 1\<rparr>)"

definition write_THR :: "byte \<Rightarrow> 'z ust_scheme \<Rightarrow> 'z ust_scheme" where
  "write_THR c s = s\<lparr>uart_out := uart_out s @ [c], uart_busy := uart_speed s\<rparr>"

text \<open>With the baud latch set, registers 0 and 1 are the low and high byte of the divisor.\<close>

definition uartinit :: "'z ust_scheme \<Rightarrow> 'z ust_scheme" where
  "uartinit s =
     (let s = s\<lparr>uart_ier := 0\<rparr>;
          s = s\<lparr>uart_lcr := LCR_BAUD_LATCH\<rparr>;
          s = s\<lparr>uart_div := (uart_div s AND 0xFF00) OR 3\<rparr>;
          s = s\<lparr>uart_div := uart_div s AND 0xFF\<rparr>;
          s = s\<lparr>uart_lcr := LCR_EIGHT_BITS\<rparr>;
          s = s\<lparr>uart_fcr := FCR_FIFO_ENABLE OR FCR_FIFO_CLEAR, uart_rx := [], uart_busy := 0\<rparr>;
          s = s\<lparr>uart_ier := IER_TX_ENABLE OR IER_RX_ENABLE\<rparr>
      in initlock L_uart_tx ''uart'' s)"

text \<open>
  The loop of \<^verbatim>\<open>uartstart\<close> takes the number of buffered characters as fuel; each round removes
  one, so it is never used up.
\<close>

primrec uartstart_loop :: "nat \<Rightarrow> 'z ust_scheme \<Rightarrow> ('z ust_scheme, unit) res" where
  "uartstart_loop 0 s = (if uart_tx_w s = uart_tx_r s then Ret () s else Hang)"
| "uartstart_loop (Suc k) s =
     (if uart_tx_w s = uart_tx_r s then Ret () s
      else case read_LSR s of (lsr, s) \<Rightarrow>
        if lsr AND LSR_TX_IDLE = 0 then Ret () s
        else let c = uart_tx_buf s (unat (uart_tx_r s) mod UART_TX_BUF_SIZE);
                 s = s\<lparr>uart_tx_r := uart_tx_r s + 1\<rparr>
             in seq (wakeup Ch_uart_tx_r s) (\<lambda>s. uartstart_loop k (write_THR c s)))"

definition uartstart :: "'z ust_scheme \<Rightarrow> ('z ust_scheme, unit) res" where
  "uartstart s = uartstart_loop (unat (uart_tx_w s - uart_tx_r s)) s"

definition uartputc_loop :: "byte \<Rightarrow> 'z ust_scheme \<Rightarrow> ('z ust_scheme, unit) res" where
  "uartputc_loop c s =
     (if uart_tx_w s = uart_tx_r s + of_nat UART_TX_BUF_SIZE then sleep Ch_uart_tx_r L_uart_tx s
      else let s = s\<lparr>uart_tx_buf := (uart_tx_buf s)(unat (uart_tx_w s) mod UART_TX_BUF_SIZE := c)\<rparr>;
               s = s\<lparr>uart_tx_w := uart_tx_w s + 1\<rparr>
           in seq (uartstart s) (\<lambda>s. release L_uart_tx s))"

definition uartputc :: "byte \<Rightarrow> 'z ust_scheme \<Rightarrow> ('z ust_scheme, unit) res" where
  "uartputc c s =
     seq (acquire L_uart_tx s) (\<lambda>s. if panicked s then Hang else uartputc_loop c s)"

text \<open>The wait for the holding register; \<open>uart_busy\<close> polls suffice.\<close>

primrec uart_wait :: "nat \<Rightarrow> 'z ust_scheme \<Rightarrow> ('z ust_scheme, unit) res" where
  "uart_wait 0 s =
     (case read_LSR s of (lsr, s) \<Rightarrow> if lsr AND LSR_TX_IDLE = 0 then Hang else Ret () s)"
| "uart_wait (Suc k) s =
     (case read_LSR s of (lsr, s) \<Rightarrow> if lsr AND LSR_TX_IDLE = 0 then uart_wait k s else Ret () s)"

definition uartputc_sync :: "byte \<Rightarrow> 'z ust_scheme \<Rightarrow> ('z ust_scheme, unit) res" where
  "uartputc_sync c s =
     (let s = push_off s in
      if panicked s then Hang
      else seq (uart_wait (uart_busy s) s) (\<lambda>s. pop_off (write_THR c s)))"

definition uartgetc :: "'z ust_scheme \<Rightarrow> byte option \<times> 'z ust_scheme" where
  "uartgetc s =
     (case read_LSR s of (lsr, s) \<Rightarrow>
        if lsr AND 1 \<noteq> 0 then (Some (hd (uart_rx s)), s\<lparr>uart_rx := tl (uart_rx s)\<rparr>) else (None, s))"

section \<open>consputc and kernel/printf.c\<close>

definition BACKSPACE :: nat where "BACKSPACE = 0x100"

definition consputc :: "nat \<Rightarrow> 'z ust_scheme \<Rightarrow> ('z ust_scheme, unit) res" where
  "consputc c s =
     (if c = BACKSPACE then
        seq (uartputc_sync 8 s) (\<lambda>s. seq (uartputc_sync 32 s) (\<lambda>s. uartputc_sync 8 s))
      else uartputc_sync (of_nat c) s)"

primrec consputs :: "byte list \<Rightarrow> 'z ust_scheme \<Rightarrow> ('z ust_scheme, unit) res" where
  "consputs [] s = Ret () s"
| "consputs (c # cs) s = seq (consputc (unat c) s) (\<lambda>s. consputs cs s)"

definition digits :: "nat \<Rightarrow> byte" where
  "digits i = of_char (''0123456789abcdef'' ! i)"

text \<open>The digits in the order in which they are put into \<^verbatim>\<open>buf\<close>; the base is 10 or 16.\<close>

function printint_buf :: "nat \<Rightarrow> nat \<Rightarrow> byte list" where
  "printint_buf x base =
     digits (x mod base) # (if x div base \<noteq> 0 \<and> 1 < base then printint_buf (x div base) base else [])"
  by pat_completeness auto
termination by (relation "measure fst") (auto simp: div_greater_zero_iff intro!: div_less_dividend)

declare printint_buf.simps [simp del]

definition printint_chars :: "uint \<Rightarrow> nat \<Rightarrow> bool \<Rightarrow> byte list" where
  "printint_chars xx base sign =
     (let neg = sign \<and> sint xx < 0;
          x = (if neg then - xx else xx);
          buf = printint_buf (unat x) base @ (if neg then [45] else [])
      in rev buf)"

primrec printptr_loop :: "nat \<Rightarrow> uint64 \<Rightarrow> byte list" where
  "printptr_loop 0 x = []"
| "printptr_loop (Suc k) x = digits (unat (drop_bit 60 x)) # printptr_loop k (push_bit 4 x)"

definition printptr_chars :: "uint64 \<Rightarrow> byte list" where
  "printptr_chars x = [48, 120] @ printptr_loop 16 x"

datatype parg = PInt uint | PPtr uint64 | PStr "byte list option"

definition pbytes :: "string \<Rightarrow> byte list" where
  "pbytes = map of_char"

fun printf_chars :: "byte list \<Rightarrow> parg list \<Rightarrow> byte list option" where
  "printf_chars [] ap = Some []"
| "printf_chars [c] ap = (if c \<noteq> 37 then Some [c] else Some [])"
| "printf_chars (c # c' # fmt) ap =
     (if c \<noteq> 37 then map_option ((#) c) (printf_chars (c' # fmt) ap)
      else if c' = 100 then
        (case ap of PInt x # ap \<Rightarrow> map_option ((@) (printint_chars x 10 True)) (printf_chars fmt ap) | _ \<Rightarrow> None)
      else if c' = 120 then
        (case ap of PInt x # ap \<Rightarrow> map_option ((@) (printint_chars x 16 True)) (printf_chars fmt ap) | _ \<Rightarrow> None)
      else if c' = 112 then
        (case ap of PPtr x # ap \<Rightarrow> map_option ((@) (printptr_chars x)) (printf_chars fmt ap) | _ \<Rightarrow> None)
      else if c' = 115 then
        (case ap of
           PStr (Some cs) # ap \<Rightarrow> map_option ((@) cs) (printf_chars fmt ap)
         | PStr None # ap \<Rightarrow> map_option ((@) (pbytes ''(null)'')) (printf_chars fmt ap)
         | _ \<Rightarrow> None)
      else if c' = 37 then map_option ((#) 37) (printf_chars fmt ap)
      else map_option ((@) [37, c']) (printf_chars fmt ap))"

definition printf :: "byte list \<Rightarrow> parg list \<Rightarrow> 'z ust_scheme \<Rightarrow> ('z ust_scheme, unit) res option" where
  "printf fmt ap s =
     (case printf_chars fmt ap of
        None \<Rightarrow> None
      | Some cs \<Rightarrow> Some (
          let locking = pr_locking s in
          seq (if locking then acquire L_pr s else Ret () s) (\<lambda>s.
          seq (consputs cs s) (\<lambda>s.
          if locking then release L_pr s else Ret () s))))"

text \<open>\<^verbatim>\<open>printf\<close> at a call whose format fits its arguments.\<close>

definition printk :: "byte list \<Rightarrow> parg list \<Rightarrow> 'z ust_scheme \<Rightarrow> ('z ust_scheme, unit) res" where
  "printk fmt ap s = (case printf fmt ap s of None \<Rightarrow> Hang | Some r \<Rightarrow> r)"

definition printfinit :: "'z ust_scheme \<Rightarrow> 'z ust_scheme" where
  "printfinit s = (initlock L_pr ''pr'' s)\<lparr>pr_locking := True\<rparr>"

text \<open>\<^verbatim>\<open>panic\<close> never returns; the result is the state in which it spins.\<close>

definition panic_state :: "byte list \<Rightarrow> 'z ust_scheme \<Rightarrow> ('z ust_scheme, unit) res" where
  "panic_state m s =
     (let s = s\<lparr>pr_locking := False\<rparr> in
      seq (printk (pbytes ''panic: '') [] s) (\<lambda>s.
      seq (printk m [] s) (\<lambda>s.
      seq (printk [10] [] s) (\<lambda>s.
      Ret () (s\<lparr>panicked := True\<rparr>)))))"

section \<open>procdump\<close>

definition procdump_state :: "procstate \<Rightarrow> string" where
  "procdump_state st =
     (case st of UNUSED \<Rightarrow> ''unused'' | USED \<Rightarrow> ''used'' | SLEEPING \<Rightarrow> ''sleep '' | RUNNABLE \<Rightarrow> ''runble''
      | RUNNING \<Rightarrow> ''run   '' | ZOMBIE \<Rightarrow> ''zombie'')"

primrec procdump_loop :: "nat list \<Rightarrow> 'z ust_scheme \<Rightarrow> ('z ust_scheme, unit) res" where
  "procdump_loop [] s = Ret () s"
| "procdump_loop (p # ps) s =
     (if p_state (procs s p) = UNUSED then procdump_loop ps s
      else seq (printk (pbytes ''%d %s %s'')
                  [PInt (p_pid (procs s p)), PStr (Some (pbytes (procdump_state (p_state (procs s p))))),
                   PStr (Some (cstr 16 (p_name (procs s p))))] s) (\<lambda>s.
           seq (printk [10] [] s) (\<lambda>s. procdump_loop ps s)))"

definition procdump :: "'z ust_scheme \<Rightarrow> ('z ust_scheme, unit) res" where
  "procdump s = seq (printk [10] [] s) (\<lambda>s. procdump_loop [0..<NPROC] s)"

section \<open>kernel/console.c\<close>

definition upd_con :: "(cons \<Rightarrow> cons) \<Rightarrow> 'z ust_scheme \<Rightarrow> 'z ust_scheme" where
  "upd_con f s = s\<lparr>con := f (con s)\<rparr>"

definition ctrl :: "char \<Rightarrow> byte" where
  "ctrl x = of_char x - 64"

primrec consolewrite_loop :: "nat list \<Rightarrow> nat \<Rightarrow> ioaddr \<Rightarrow> 'z ust_scheme \<Rightarrow> ('z ust_scheme, int) res" where
  "consolewrite_loop [] n src s = Ret (int n) s"
| "consolewrite_loop (i # is) n src s =
     bnd (either_copyin (\<lambda>_. 0) 0 (ioadd src (of_nat i)) 1 s) (\<lambda>(r, c) s.
     if r = -1 then Ret (int i) s
     else seq (uartputc (c 0) s) (\<lambda>s. consolewrite_loop is n src s))"

definition consolewrite :: "ioaddr \<Rightarrow> int \<Rightarrow> 'z ust_scheme \<Rightarrow> ('z ust_scheme, int) res" where
  "consolewrite src n s = consolewrite_loop [0..<nat n] (nat n) src s"

text \<open>A \<^verbatim>\<open>sleep\<close> in a loop of another result type; it never returns.\<close>

definition sleeps :: "chan \<Rightarrow> lock_id \<Rightarrow> 'z mach_scheme \<Rightarrow> ('z mach_scheme, 'a) res" where
  "sleeps ch lk s = seq (sleep ch lk s) (\<lambda>s. Hang)"

text \<open>\<open>n\<close> bytes are still wanted of \<open>target\<close>.\<close>

primrec consoleread_loop :: "nat \<Rightarrow> nat \<Rightarrow> ioaddr \<Rightarrow> 'z ust_scheme \<Rightarrow> ('z ust_scheme, int) res" where
  "consoleread_loop 0 target dst s = seq (release L_cons s) (\<lambda>s. Ret (int target) s)"
| "consoleread_loop (Suc n) target dst s =
     (if c_r (con s) = c_w (con s) then
        bnd (myproc s) (\<lambda>p s. deref p (\<lambda>p.
        bnd (killed p s) (\<lambda>k s.
        if k \<noteq> 0 then seq (release L_cons s) (\<lambda>s. Ret (-1) s)
        else sleeps Ch_cons_r L_cons s)))
      else
        let c = c_buf (con s) (unat (c_r (con s)) mod INPUT_BUF_SIZE);
            s = upd_con (\<lambda>x. x\<lparr>c_r := c_r x + 1\<rparr>) s
        in if c = ctrl (CHR ''D'') then
             let s = (if Suc n < target then upd_con (\<lambda>x. x\<lparr>c_r := c_r x - 1\<rparr>) s else s) in
             seq (release L_cons s) (\<lambda>s. Ret (int target - int (Suc n)) s)
           else
             bnd (either_copyout dst (\<lambda>_. c) 1 s) (\<lambda>r s.
             if r = -1 then seq (release L_cons s) (\<lambda>s. Ret (int target - int (Suc n)) s)
             else if c = 10 then seq (release L_cons s) (\<lambda>s. Ret (int target - int n) s)
             else consoleread_loop n target (ioadd dst 1) s))"

definition consoleread :: "ioaddr \<Rightarrow> int \<Rightarrow> 'z ust_scheme \<Rightarrow> ('z ust_scheme, int) res" where
  "consoleread dst n s =
     seq (acquire L_cons s) (\<lambda>s.
       if n > 0 then consoleread_loop (nat n) (nat n) dst s
       else seq (release L_cons s) (\<lambda>s. Ret 0 s))"

text \<open>The loop of control-U; the number of characters being edited is its fuel.\<close>

primrec killline_loop :: "nat \<Rightarrow> 'z ust_scheme \<Rightarrow> ('z ust_scheme, unit) res" where
  "killline_loop 0 s = (if c_e (con s) = c_w (con s) then Ret () s else Hang)"
| "killline_loop (Suc k) s =
     (if c_e (con s) \<noteq> c_w (con s) \<and> c_buf (con s) (unat (c_e (con s) - 1) mod INPUT_BUF_SIZE) \<noteq> 10
      then seq (consputc BACKSPACE (upd_con (\<lambda>x. x\<lparr>c_e := c_e x - 1\<rparr>) s)) (\<lambda>s. killline_loop k s)
      else Ret () s)"

definition consoleintr :: "byte \<Rightarrow> 'z ust_scheme \<Rightarrow> ('z ust_scheme, unit) res" where
  "consoleintr c s =
     seq (acquire L_cons s) (\<lambda>s.
     seq (if c = ctrl (CHR ''P'') then procdump s
          else if c = ctrl (CHR ''U'') then killline_loop (unat (c_e (con s) - c_w (con s))) s
          else if c = ctrl (CHR ''H'') \<or> c = 127 then
            (if c_e (con s) \<noteq> c_w (con s)
             then consputc BACKSPACE (upd_con (\<lambda>x. x\<lparr>c_e := c_e x - 1\<rparr>) s) else Ret () s)
          else if c \<noteq> 0 \<and> c_e (con s) - c_r (con s) < of_nat INPUT_BUF_SIZE then
            let c = (if c = 13 then 10 else c) in
            seq (consputc (unat c) s) (\<lambda>s.
            let s = upd_con (\<lambda>x. x\<lparr>c_buf := (c_buf x)(unat (c_e x) mod INPUT_BUF_SIZE := c)\<rparr>) s;
                s = upd_con (\<lambda>x. x\<lparr>c_e := c_e x + 1\<rparr>) s
            in if c = 10 \<or> c = ctrl (CHR ''D'') \<or> c_e (con s) - c_r (con s) = of_nat INPUT_BUF_SIZE
               then wakeup Ch_cons_r (upd_con (\<lambda>x. x\<lparr>c_w := c_e x\<rparr>) s)
               else Ret () s)
          else Ret () s) (\<lambda>s.
     release L_cons s))"

text \<open>The interrupt handler reads until the receive queue is empty; its length is the fuel.\<close>

primrec uartintr_loop :: "nat \<Rightarrow> 'z ust_scheme \<Rightarrow> ('z ust_scheme, unit) res" where
  "uartintr_loop 0 s = (case uartgetc s of (None, s) \<Rightarrow> Ret () s | (Some c, s) \<Rightarrow> Hang)"
| "uartintr_loop (Suc k) s =
     (case uartgetc s of (None, s) \<Rightarrow> Ret () s
      | (Some c, s) \<Rightarrow> seq (consoleintr c s) (\<lambda>s. uartintr_loop k s))"

definition uartintr :: "'z ust_scheme \<Rightarrow> ('z ust_scheme, unit) res" where
  "uartintr s =
     seq (uartintr_loop (length (uart_rx s)) s) (\<lambda>s.
     seq (acquire L_uart_tx s) (\<lambda>s.
     seq (uartstart s) (\<lambda>s.
     release L_uart_tx s)))"

definition CONSOLE :: nat where "CONSOLE = 1"

definition consoleinit :: "'z ust_scheme \<Rightarrow> 'z ust_scheme" where
  "consoleinit s =
     (let s = initlock L_cons ''cons'' s;
          s = uartinit s;
          s = s\<lparr>devsw_read := (devsw_read s)(CONSOLE := Some Dev_consoleread)\<rparr>
      in s\<lparr>devsw_write := (devsw_write s)(CONSOLE := Some Dev_consolewrite)\<rparr>)"

end
