(* ===== verification/Xv6_File.thy ===== *)
theory Xv6_File
  imports Xv6_Console
begin

text \<open>
  Open files, \<^verbatim>\<open>kernel/file.c\<close>, and pipes, \<^verbatim>\<open>kernel/pipe.c\<close>.

  A \<^verbatim>\<open>struct pipe\<close> lives in a page of its own; \<open>pipes\<close> gives the structure at the address of
  the page, and its spin lock is \<open>L_pipe\<close> of that address.
\<close>

section \<open>file.h and pipe.c: data\<close>

datatype fdtype = FD_NONE | FD_PIPE | FD_INODE | FD_DEVICE

record kfile =
  f_type :: fdtype
  f_ref :: int
  f_readable :: bool
  f_writable :: bool
  f_pipe :: uint64
  f_ip :: "nat option"
  f_off :: uint
  f_major :: uint16

definition PIPESIZE :: nat where "PIPESIZE = 512"

record pipe =
  pi_data :: bytes
  pi_nread :: uint
  pi_nwrite :: uint
  pi_readopen :: bool
  pi_writeopen :: bool

record filest = ust +
  ftable :: "nat \<Rightarrow> kfile"
  pipes :: "uint64 \<Rightarrow> pipe"

definition upd_file :: "nat \<Rightarrow> (kfile \<Rightarrow> kfile) \<Rightarrow> 'z filest_scheme \<Rightarrow> 'z filest_scheme" where
  "upd_file f g s = s\<lparr>ftable := (ftable s)(f := g (ftable s f))\<rparr>"

definition upd_pipe :: "uint64 \<Rightarrow> (pipe \<Rightarrow> pipe) \<Rightarrow> 'z filest_scheme \<Rightarrow> 'z filest_scheme" where
  "upd_pipe p g s = s\<lparr>pipes := (pipes s)(p := g (pipes s p))\<rparr>"

section \<open>Pipe ends\<close>

definition pipeclose :: "uint64 \<Rightarrow> bool \<Rightarrow> 'z filest_scheme \<Rightarrow> ('z filest_scheme, unit) res" where
  "pipeclose pi writable s =
     seq (acquire (L_pipe pi) s) (\<lambda>s.
     seq (if writable then wakeup (Ch_nread pi) (upd_pipe pi (\<lambda>x. x\<lparr>pi_writeopen := False\<rparr>) s)
          else wakeup (Ch_nwrite pi) (upd_pipe pi (\<lambda>x. x\<lparr>pi_readopen := False\<rparr>) s)) (\<lambda>s.
     if \<not> pi_readopen (pipes s pi) \<and> \<not> pi_writeopen (pipes s pi)
     then seq (release (L_pipe pi) s) (kfree pi)
     else release (L_pipe pi) s))"

definition pipewrite_end :: "uint64 \<Rightarrow> nat \<Rightarrow> 'z filest_scheme \<Rightarrow> ('z filest_scheme, int) res" where
  "pipewrite_end pi i s =
     seq (wakeup (Ch_nread pi) s) (\<lambda>s.
     seq (release (L_pipe pi) s) (\<lambda>s. Ret (int i) s))"

text \<open>The bytes \<open>is\<close> are still to be written; \<open>n\<close> is the number asked for.\<close>

primrec pipewrite_loop ::
  "nat list \<Rightarrow> uint64 \<Rightarrow> uint64 \<Rightarrow> nat \<Rightarrow> nat \<Rightarrow> 'z filest_scheme \<Rightarrow> ('z filest_scheme, int) res" where
  "pipewrite_loop [] pi addr n pr s = pipewrite_end pi n s"
| "pipewrite_loop (i # is) pi addr n pr s =
     bnd (if \<not> pi_readopen (pipes s pi) then Ret True s
          else bnd (killed pr s) (\<lambda>k s. Ret (k \<noteq> 0) s)) (\<lambda>stop s.
     if stop then seq (release (L_pipe pi) s) (\<lambda>s. Ret (-1) s)
     else if pi_nwrite (pipes s pi) = pi_nread (pipes s pi) + of_nat PIPESIZE then
       seq (wakeup (Ch_nread pi) s) (\<lambda>s. sleeps (Ch_nwrite pi) (L_pipe pi) s)
     else
       bnd (copyin (p_pagetable (procs s pr)) (\<lambda>_. 0) 0 (addr + of_nat i) 1 s) (\<lambda>(r, ch) s.
       if r = -1 then pipewrite_end pi i s
       else let s = upd_pipe pi (\<lambda>x. x\<lparr>pi_data := (pi_data x)(unat (pi_nwrite x) mod PIPESIZE := ch 0),
                                      pi_nwrite := pi_nwrite x + 1\<rparr>) s
            in pipewrite_loop is pi addr n pr s))"

definition pipewrite :: "uint64 \<Rightarrow> uint64 \<Rightarrow> int \<Rightarrow> 'z filest_scheme \<Rightarrow> ('z filest_scheme, int) res" where
  "pipewrite pi addr n s =
     bnd (myproc s) (\<lambda>pr s. deref pr (\<lambda>pr.
     seq (acquire (L_pipe pi) s) (\<lambda>s.
     pipewrite_loop [0..<nat n] pi addr (nat n) pr s)))"

definition piperead_end :: "uint64 \<Rightarrow> nat \<Rightarrow> 'z filest_scheme \<Rightarrow> ('z filest_scheme, int) res" where
  "piperead_end pi i s =
     seq (wakeup (Ch_nwrite pi) s) (\<lambda>s.
     seq (release (L_pipe pi) s) (\<lambda>s. Ret (int i) s))"

primrec piperead_loop ::
  "nat list \<Rightarrow> uint64 \<Rightarrow> uint64 \<Rightarrow> nat \<Rightarrow> nat \<Rightarrow> 'z filest_scheme \<Rightarrow> ('z filest_scheme, int) res" where
  "piperead_loop [] pi addr n pr s = piperead_end pi n s"
| "piperead_loop (i # is) pi addr n pr s =
     (if pi_nread (pipes s pi) = pi_nwrite (pipes s pi) then piperead_end pi i s
      else
        let ch = pi_data (pipes s pi) (unat (pi_nread (pipes s pi)) mod PIPESIZE);
            s = upd_pipe pi (\<lambda>x. x\<lparr>pi_nread := pi_nread x + 1\<rparr>) s
        in bnd (copyout (p_pagetable (procs s pr)) (addr + of_nat i) (\<lambda>_. ch) 1 s) (\<lambda>r s.
           if r = -1 then piperead_end pi i s
           else piperead_loop is pi addr n pr s))"

text \<open>From the test of the first loop on, where a woken reader continues.\<close>

definition piperead_wait :: "uint64 \<Rightarrow> uint64 \<Rightarrow> int \<Rightarrow> nat \<Rightarrow> 'z filest_scheme \<Rightarrow> ('z filest_scheme, int) res" where
  "piperead_wait pi addr n pr s =
     (if pi_nread (pipes s pi) = pi_nwrite (pipes s pi) \<and> pi_writeopen (pipes s pi) then
        bnd (killed pr s) (\<lambda>k s.
        if k \<noteq> 0 then seq (release (L_pipe pi) s) (\<lambda>s. Ret (-1) s)
        else sleeps (Ch_nread pi) (L_pipe pi) s)
      else piperead_loop [0..<nat n] pi addr (nat n) pr s)"

definition piperead :: "uint64 \<Rightarrow> uint64 \<Rightarrow> int \<Rightarrow> 'z filest_scheme \<Rightarrow> ('z filest_scheme, int) res" where
  "piperead pi addr n s =
     bnd (myproc s) (\<lambda>pr s. deref pr (\<lambda>pr.
     seq (acquire (L_pipe pi) s) (\<lambda>s. piperead_wait pi addr n pr s)))"

section \<open>The file table\<close>

definition fileinit :: "'z filest_scheme \<Rightarrow> 'z filest_scheme" where
  "fileinit s = initlock L_ftable ''ftable'' s"

primrec filealloc_loop :: "nat list \<Rightarrow> 'z filest_scheme \<Rightarrow> ('z filest_scheme, nat option) res" where
  "filealloc_loop [] s = seq (release L_ftable s) (\<lambda>s. Ret None s)"
| "filealloc_loop (f # fs) s =
     (if f_ref (ftable s f) = 0
      then seq (release L_ftable (upd_file f (\<lambda>x. x\<lparr>f_ref := 1\<rparr>) s)) (\<lambda>s. Ret (Some f) s)
      else filealloc_loop fs s)"

definition filealloc :: "'z filest_scheme \<Rightarrow> ('z filest_scheme, nat option) res" where
  "filealloc s = seq (acquire L_ftable s) (filealloc_loop [0..<NFILE])"

definition filedup :: "nat \<Rightarrow> 'z filest_scheme \<Rightarrow> ('z filest_scheme, nat) res" where
  "filedup f s =
     seq (acquire L_ftable s) (\<lambda>s.
     if f_ref (ftable s f) < 1 then Panic ''filedup''
     else seq (release L_ftable (upd_file f (\<lambda>x. x\<lparr>f_ref := f_ref x + 1\<rparr>) s)) (\<lambda>s. Ret f s))"

definition fileclose :: "nat \<Rightarrow> 'z filest_scheme \<Rightarrow> ('z filest_scheme, unit) res" where
  "fileclose f s =
     seq (acquire L_ftable s) (\<lambda>s.
     if f_ref (ftable s f) < 1 then Panic ''fileclose''
     else let s = upd_file f (\<lambda>x. x\<lparr>f_ref := f_ref x - 1\<rparr>) s in
     if f_ref (ftable s f) > 0 then release L_ftable s
     else let ff = ftable s f;
              s = upd_file f (\<lambda>x. x\<lparr>f_ref := 0, f_type := FD_NONE\<rparr>) s in
     seq (release L_ftable s) (\<lambda>s.
     case f_type ff of
       FD_PIPE \<Rightarrow> pipeclose (f_pipe ff) (f_writable ff) s
     | FD_NONE \<Rightarrow> Ret () s
     | _ \<Rightarrow> seq (begin_op s) (\<lambda>s.
            deref (f_ip ff) (\<lambda>ip. seq (iput ip s) (\<lambda>s. end_op s)))))"

definition pipealloc ::
  "'z filest_scheme \<Rightarrow> ('z filest_scheme, int \<times> nat option \<times> nat option) res" where
  "pipealloc s =
     bnd (filealloc s) (\<lambda>f0 s.
     bnd (if f0 = None then Ret None s else filealloc s) (\<lambda>f1 s.
     bnd (if f0 = None \<or> f1 = None then Ret 0 s else kalloc s) (\<lambda>pi s.
     if pi = 0 then
       seq (case f0 of Some f \<Rightarrow> fileclose f s | None \<Rightarrow> Ret () s) (\<lambda>s.
       seq (case f1 of Some f \<Rightarrow> fileclose f s | None \<Rightarrow> Ret () s) (\<lambda>s.
       Ret (-1, f0, f1) s))
     else
       let s = upd_pipe pi (\<lambda>x. x\<lparr>pi_readopen := True, pi_writeopen := True, pi_nwrite := 0, pi_nread := 0\<rparr>) s;
           s = initlock (L_pipe pi) ''pipe'' s;
           s = upd_file (the f0) (\<lambda>x. x\<lparr>f_type := FD_PIPE, f_readable := True, f_writable := False, f_pipe := pi\<rparr>) s;
           s = upd_file (the f1) (\<lambda>x. x\<lparr>f_type := FD_PIPE, f_readable := False, f_writable := True, f_pipe := pi\<rparr>) s
       in Ret (0, f0, f1) s)))"

definition filestat :: "nat \<Rightarrow> uint64 \<Rightarrow> 'z filest_scheme \<Rightarrow> ('z filest_scheme, int) res" where
  "filestat f addr s =
     bnd (myproc s) (\<lambda>p s.
     if f_type (ftable s f) = FD_INODE \<or> f_type (ftable s f) = FD_DEVICE then
       seq (ilock (f_ip (ftable s f)) s) (\<lambda>s.
       deref (f_ip (ftable s f)) (\<lambda>ip.
       let s = s\<lparr>kloc := stati (itable s ip) (kloc s)\<rparr>; st = kloc s in
       seq (iunlock (f_ip (ftable s f)) s) (\<lambda>s.
       deref p (\<lambda>p.
       bnd (copyout (p_pagetable (procs s p)) addr st 24 s) (\<lambda>r s.
       Ret (if r < 0 then -1 else 0) s)))))
     else Ret (-1) s)"

text \<open>A call through the device switch.\<close>

primrec devcall :: "devfn \<Rightarrow> uint64 \<Rightarrow> int \<Rightarrow> 'z ust_scheme \<Rightarrow> ('z ust_scheme, int) res" where
  "devcall Dev_consoleread addr n s = consoleread (User addr) n s"
| "devcall Dev_consolewrite addr n s = consolewrite (User addr) n s"

definition fileread :: "nat \<Rightarrow> uint64 \<Rightarrow> int \<Rightarrow> 'z filest_scheme \<Rightarrow> ('z filest_scheme, int) res" where
  "fileread f addr n s =
     (if \<not> f_readable (ftable s f) then Ret (-1) s
      else case f_type (ftable s f) of
        FD_PIPE \<Rightarrow> piperead (f_pipe (ftable s f)) addr n s
      | FD_DEVICE \<Rightarrow>
          let major = sint (f_major (ftable s f)) in
          if major < 0 \<or> major \<ge> int NDEV then Ret (-1) s
          else (case devsw_read s (nat major) of
                  None \<Rightarrow> Ret (-1) s
                | Some d \<Rightarrow> devcall d addr n s)
      | FD_INODE \<Rightarrow>
          seq (ilock (f_ip (ftable s f)) s) (\<lambda>s.
          deref (f_ip (ftable s f)) (\<lambda>ip.
          bnd (readi ip (User addr) (f_off (ftable s f)) (word_of_int n) s) (\<lambda>r s.
          let s = (if r > 0 then upd_file f (\<lambda>x. x\<lparr>f_off := f_off x + word_of_int r\<rparr>) s else s) in
          seq (iunlock (f_ip (ftable s f)) s) (\<lambda>s. Ret r s))))
      | FD_NONE \<Rightarrow> Panic ''fileread'')"

text \<open>
  \<^verbatim>\<open>filewrite\<close> splits a write to an inode into transactions of at most \<open>filewrite_max\<close> bytes.
\<close>

definition filewrite_max :: int where
  "filewrite_max = (int MAXOPBLOCKS - 1 - 1 - 2) div 2 * int BSIZE"

function filewrite_loop :: "nat \<Rightarrow> uint64 \<Rightarrow> int \<Rightarrow> int \<Rightarrow> 'z filest_scheme \<Rightarrow> ('z filest_scheme, int) res" where
  "filewrite_loop f addr i n s =
     (if i < n then
        let n1 = (if n - i > filewrite_max then filewrite_max else n - i) in
        seq (begin_op s) (\<lambda>s.
        seq (ilock (f_ip (ftable s f)) s) (\<lambda>s.
        deref (f_ip (ftable s f)) (\<lambda>ip.
        bnd (writei ip (User (addr + word_of_int i)) (f_off (ftable s f)) (word_of_int n1) s) (\<lambda>r s.
        let s = (if r > 0 then upd_file f (\<lambda>x. x\<lparr>f_off := f_off x + word_of_int r\<rparr>) s else s) in
        seq (iunlock (f_ip (ftable s f)) s) (\<lambda>s.
        seq (end_op s) (\<lambda>s.
        if r \<noteq> n1 then Ret i s else filewrite_loop f addr (i + r) n s))))))
      else Ret i s)"
  by pat_completeness auto
termination
  by (relation "measure (\<lambda>(f, addr, i, n, s). nat (n - i))")
    (auto simp: filewrite_max_def MAXOPBLOCKS_def BSIZE_def split: if_splits)

declare filewrite_loop.simps [simp del]

definition filewrite :: "nat \<Rightarrow> uint64 \<Rightarrow> int \<Rightarrow> 'z filest_scheme \<Rightarrow> ('z filest_scheme, int) res" where
  "filewrite f addr n s =
     (if \<not> f_writable (ftable s f) then Ret (-1) s
      else case f_type (ftable s f) of
        FD_PIPE \<Rightarrow> pipewrite (f_pipe (ftable s f)) addr n s
      | FD_DEVICE \<Rightarrow>
          let major = sint (f_major (ftable s f)) in
          if major < 0 \<or> major \<ge> int NDEV then Ret (-1) s
          else (case devsw_write s (nat major) of
                  None \<Rightarrow> Ret (-1) s
                | Some d \<Rightarrow> devcall d addr n s)
      | FD_INODE \<Rightarrow> bnd (filewrite_loop f addr 0 n s) (\<lambda>i s. Ret (if i = n then n else -1) s)
      | FD_NONE \<Rightarrow> Panic ''filewrite'')"

end
