(* ===== verification/Xv6_Proc.thy ===== *)
theory Xv6_Proc
  imports Xv6_File
begin

text \<open>
  The life cycle of processes, \<^verbatim>\<open>kernel/proc.c\<close>: allocation and release of table entries, user
  page tables, \<^verbatim>\<open>fork\<close>, \<^verbatim>\<open>exit\<close>, \<^verbatim>\<open>wait\<close> and \<^verbatim>\<open>growproc\<close>.

  A trapframe is a page of memory; its registers are read and written at the offsets
  \<^verbatim>\<open>proc.h\<close> gives (\<open>tf_load\<close>, \<open>tf_store\<close>), and \<open>trapframe_at\<close> is the structure found there.
\<close>

record psst = filest +
  sym_forkret :: uint64
  sym_usertrap :: uint64
  sym_uservec :: uint64
  sym_userret :: uint64
  sym_kernelvec :: uint64
  first :: bool

section \<open>Trapframes\<close>

abbreviation TF_kernel_satp :: nat where "TF_kernel_satp \<equiv> 0"
abbreviation TF_kernel_sp :: nat where "TF_kernel_sp \<equiv> 8"
abbreviation TF_kernel_trap :: nat where "TF_kernel_trap \<equiv> 16"
abbreviation TF_epc :: nat where "TF_epc \<equiv> 24"
abbreviation TF_kernel_hartid :: nat where "TF_kernel_hartid \<equiv> 32"
abbreviation TF_sp :: nat where "TF_sp \<equiv> 48"
abbreviation TF_a0 :: nat where "TF_a0 \<equiv> 112"
abbreviation TF_a1 :: nat where "TF_a1 \<equiv> 120"
abbreviation TF_a2 :: nat where "TF_a2 \<equiv> 128"
abbreviation TF_a3 :: nat where "TF_a3 \<equiv> 136"
abbreviation TF_a4 :: nat where "TF_a4 \<equiv> 144"
abbreviation TF_a5 :: nat where "TF_a5 \<equiv> 152"
abbreviation TF_a7 :: nat where "TF_a7 \<equiv> 168"

definition TF_SIZE :: nat where "TF_SIZE = 288"

definition tf_load :: "nat \<Rightarrow> nat \<Rightarrow> 'z kst_scheme \<Rightarrow> uint64" where
  "tf_load off p s = ld64 (mem s) (unat (p_trapframe (procs s p)) + off)"

definition tf_store :: "nat \<Rightarrow> uint64 \<Rightarrow> nat \<Rightarrow> 'z kst_scheme \<Rightarrow> 'z kst_scheme" where
  "tf_store off v p s = s\<lparr>mem := st64 v (mem s) (unat (p_trapframe (procs s p)) + off)\<rparr>"

definition trapframe_at :: "bytes \<Rightarrow> nat \<Rightarrow> trapframe" where
  "trapframe_at m a =
     \<lparr>kernel_satp = ld64 m a, kernel_sp = ld64 m (a + 8), kernel_trap = ld64 m (a + 16),
      epc = ld64 m (a + 24), kernel_hartid = ld64 m (a + 32), tf_ra = ld64 m (a + 40),
      tf_sp = ld64 m (a + 48), tf_gp = ld64 m (a + 56), tf_tp = ld64 m (a + 64),
      tf_t0 = ld64 m (a + 72), tf_t1 = ld64 m (a + 80), tf_t2 = ld64 m (a + 88),
      tf_s0 = ld64 m (a + 96), tf_s1 = ld64 m (a + 104), tf_a0 = ld64 m (a + 112),
      tf_a1 = ld64 m (a + 120), tf_a2 = ld64 m (a + 128), tf_a3 = ld64 m (a + 136),
      tf_a4 = ld64 m (a + 144), tf_a5 = ld64 m (a + 152), tf_a6 = ld64 m (a + 160),
      tf_a7 = ld64 m (a + 168), tf_s2 = ld64 m (a + 176), tf_s3 = ld64 m (a + 184),
      tf_s4 = ld64 m (a + 192), tf_s5 = ld64 m (a + 200), tf_s6 = ld64 m (a + 208),
      tf_s7 = ld64 m (a + 216), tf_s8 = ld64 m (a + 224), tf_s9 = ld64 m (a + 232),
      tf_s10 = ld64 m (a + 240), tf_s11 = ld64 m (a + 248), tf_t3 = ld64 m (a + 256),
      tf_t4 = ld64 m (a + 264), tf_t5 = ld64 m (a + 272), tf_t6 = ld64 m (a + 280)\<rparr>"

section \<open>Page tables of processes\<close>

definition proc_pagetable :: "nat \<Rightarrow> 'z kst_scheme \<Rightarrow> ('z kst_scheme, uint64) res" where
  "proc_pagetable p s =
     bnd (uvmcreate s) (\<lambda>pt s.
     if pt = 0 then Ret 0 s
     else bnd (mappages pt TRAMPOLINE PGSIZE (trampoline s) (PTE_R OR PTE_X) s) (\<lambda>r s.
     if r < 0 then seq (uvmfree pt 0 s) (\<lambda>s. Ret 0 s)
     else bnd (mappages pt TRAPFRAME PGSIZE (p_trapframe (procs s p)) (PTE_R OR PTE_W) s) (\<lambda>r s.
     if r < 0 then
       seq (uvmunmap pt TRAMPOLINE 1 False s) (\<lambda>s.
       seq (uvmfree pt 0 s) (\<lambda>s. Ret 0 s))
     else Ret pt s)))"

definition proc_freepagetable :: "uint64 \<Rightarrow> uint64 \<Rightarrow> 'z kst_scheme \<Rightarrow> ('z kst_scheme, unit) res" where
  "proc_freepagetable pt sz s =
     seq (uvmunmap pt TRAMPOLINE 1 False s) (\<lambda>s.
     seq (uvmunmap pt TRAPFRAME 1 False s) (\<lambda>s.
     uvmfree pt sz s))"

section \<open>Table entries\<close>

definition freeproc :: "nat \<Rightarrow> 'z kst_scheme \<Rightarrow> ('z kst_scheme, unit) res" where
  "freeproc p s =
     seq (if p_trapframe (procs s p) \<noteq> 0 then kfree (p_trapframe (procs s p)) s else Ret () s) (\<lambda>s.
     let s = upd_proc p (\<lambda>x. x\<lparr>p_trapframe := 0\<rparr>) s in
     seq (if p_pagetable (procs s p) \<noteq> 0
          then proc_freepagetable (p_pagetable (procs s p)) (p_sz (procs s p)) s else Ret () s) (\<lambda>s.
     Ret () (upd_proc p (\<lambda>x. x\<lparr>p_pagetable := 0, p_sz := 0, p_pid := 0, p_parent := None,
       p_name := (p_name x)(0 := 0), p_chan := None, p_killed := 0, p_xstate := 0, p_state := UNUSED\<rparr>) s)))"

primrec allocproc_scan :: "nat list \<Rightarrow> 'z mach_scheme \<Rightarrow> ('z mach_scheme, nat option) res" where
  "allocproc_scan [] s = Ret None s"
| "allocproc_scan (p # ps) s =
     seq (acquire (L_proc p) s) (\<lambda>s.
     if p_state (procs s p) = UNUSED then Ret (Some p) s
     else seq (release (L_proc p) s) (allocproc_scan ps))"

definition allocproc :: "'z psst_scheme \<Rightarrow> ('z psst_scheme, nat option) res" where
  "allocproc s =
     bnd (allocproc_scan [0..<NPROC] s) (\<lambda>r s.
     case r of
       None \<Rightarrow> Ret None s
     | Some p \<Rightarrow>
         bnd (allocpid s) (\<lambda>pid s.
         let s = upd_proc p (\<lambda>x. x\<lparr>p_pid := pid, p_state := USED\<rparr>) s in
         bnd (kalloc s) (\<lambda>tf s.
         let s = upd_proc p (\<lambda>x. x\<lparr>p_trapframe := tf\<rparr>) s in
         if tf = 0 then
           seq (freeproc p s) (\<lambda>s. seq (release (L_proc p) s) (\<lambda>s. Ret None s))
         else
           bnd (proc_pagetable p s) (\<lambda>pt s.
           let s = upd_proc p (\<lambda>x. x\<lparr>p_pagetable := pt\<rparr>) s in
           if pt = 0 then
             seq (freeproc p s) (\<lambda>s. seq (release (L_proc p) s) (\<lambda>s. Ret None s))
           else
             Ret (Some p) (upd_proc p (\<lambda>x. x\<lparr>p_context :=
               zero_context\<lparr>cx_ra := sym_forkret s, cx_sp := p_kstack x + PGSIZE\<rparr>\<rparr>) s)))))"

definition initcode :: "byte list" where
  "initcode =
     [0x17, 0x05, 0x00, 0x00, 0x13, 0x05, 0x45, 0x02, 0x97, 0x05, 0x00, 0x00, 0x93, 0x85, 0x35, 0x02,
      0x93, 0x08, 0x70, 0x00, 0x73, 0x00, 0x00, 0x00, 0x93, 0x08, 0x20, 0x00, 0x73, 0x00, 0x00, 0x00,
      0xef, 0xf0, 0x9f, 0xff, 0x2f, 0x69, 0x6e, 0x69, 0x74, 0x00, 0x00, 0x24, 0x00, 0x00, 0x00, 0x00,
      0x00, 0x00, 0x00, 0x00]"

text \<open>A string of bytes in memory, followed by NULs.\<close>

definition lbytes :: "byte list \<Rightarrow> bytes" where
  "lbytes xs = (\<lambda>i. if i < length xs then xs ! i else 0)"

definition userinit :: "'z psst_scheme \<Rightarrow> ('z psst_scheme, unit) res" where
  "userinit s =
     bnd (allocproc s) (\<lambda>r s.
     let s = s\<lparr>initproc := r\<rparr> in
     deref r (\<lambda>p.
     seq (uvmfirst (p_pagetable (procs s p)) (lbytes initcode) (of_nat (length initcode)) s) (\<lambda>s.
     let s = upd_proc p (\<lambda>x. x\<lparr>p_sz := PGSIZE\<rparr>) s;
         s = tf_store TF_epc 0 p s;
         s = tf_store TF_sp PGSIZE p s;
         s = upd_proc p (\<lambda>x. x\<lparr>p_name := safestrcpy 0 (str ''initcode'') 16 (p_name x)\<rparr>) s
     in bnd (namei [slash] s) (\<lambda>ip s.
     let s = upd_proc p (\<lambda>x. x\<lparr>p_cwd := ip\<rparr>) s;
         s = upd_proc p (\<lambda>x. x\<lparr>p_state := RUNNABLE\<rparr>) s
     in release (L_proc p) s))))"

definition growproc :: "int \<Rightarrow> 'z kst_scheme \<Rightarrow> ('z kst_scheme, int) res" where
  "growproc n s =
     bnd (myproc s) (\<lambda>p s. deref p (\<lambda>p.
     let sz = p_sz (procs s p) in
     if n > 0 then
       bnd (uvmalloc (p_pagetable (procs s p)) sz (sz + word_of_int n) PTE_W s) (\<lambda>sz s.
       if sz = 0 then Ret (-1) s else Ret 0 (upd_proc p (\<lambda>x. x\<lparr>p_sz := sz\<rparr>) s))
     else if n < 0 then
       bnd (uvmdealloc (p_pagetable (procs s p)) sz (sz + word_of_int n) s) (\<lambda>sz s.
       Ret 0 (upd_proc p (\<lambda>x. x\<lparr>p_sz := sz\<rparr>) s))
     else Ret 0 (upd_proc p (\<lambda>x. x\<lparr>p_sz := sz\<rparr>) s)))"

section \<open>fork\<close>

primrec fork_files :: "nat list \<Rightarrow> nat \<Rightarrow> nat \<Rightarrow> 'z psst_scheme \<Rightarrow> ('z psst_scheme, unit) res" where
  "fork_files [] p np s = Ret () s"
| "fork_files (i # is) p np s =
     (case p_ofile (procs s p) i of
        Some f \<Rightarrow> bnd (filedup f s) (\<lambda>f s.
          fork_files is p np (upd_proc np (\<lambda>x. x\<lparr>p_ofile := (p_ofile x)(i := Some f)\<rparr>) s))
      | None \<Rightarrow> fork_files is p np s)"

definition fork :: "'z psst_scheme \<Rightarrow> ('z psst_scheme, int) res" where
  "fork s =
     bnd (myproc s) (\<lambda>p s.
     bnd (allocproc s) (\<lambda>r s.
     case r of
       None \<Rightarrow> Ret (-1) s
     | Some np \<Rightarrow> deref p (\<lambda>p.
         bnd (uvmcopy (p_pagetable (procs s p)) (p_pagetable (procs s np)) (p_sz (procs s p)) s) (\<lambda>r s.
         if r < 0 then
           seq (freeproc np s) (\<lambda>s. seq (release (L_proc np) s) (\<lambda>s. Ret (-1) s))
         else
           let s = upd_proc np (\<lambda>x. x\<lparr>p_sz := p_sz (procs s p)\<rparr>) s;
               s = s\<lparr>mem := blit (unat (p_trapframe (procs s np))) TF_SIZE
                              (\<lambda>i. mem s (unat (p_trapframe (procs s p)) + i)) (mem s)\<rparr>;
               s = tf_store TF_a0 0 np s
           in seq (fork_files [0..<NOFILE] p np s) (\<lambda>s.
           deref (p_cwd (procs s p)) (\<lambda>cwd.
           bnd (idup cwd s) (\<lambda>cwd s.
           let s = upd_proc np (\<lambda>x. x\<lparr>p_cwd := Some cwd\<rparr>) s;
               s = upd_proc np (\<lambda>x. x\<lparr>p_name := safestrcpy 0 (p_name (procs s p)) 16 (p_name x)\<rparr>) s;
               pid = p_pid (procs s np)
           in seq (release (L_proc np) s) (\<lambda>s.
           seq (acquire L_wait s) (\<lambda>s.
           seq (release L_wait (upd_proc np (\<lambda>x. x\<lparr>p_parent := Some p\<rparr>) s)) (\<lambda>s.
           seq (acquire (L_proc np) s) (\<lambda>s.
           seq (release (L_proc np) (upd_proc np (\<lambda>x. x\<lparr>p_state := RUNNABLE\<rparr>) s)) (\<lambda>s.
           Ret (sint pid) s))))))))))))"

section \<open>exit and wait\<close>

text \<open>\<^verbatim>\<open>wakeup\<close> with a process pointer as channel, which may be null.\<close>

primrec wakeup_null :: "nat list \<Rightarrow> 'z mach_scheme \<Rightarrow> ('z mach_scheme, unit) res" where
  "wakeup_null [] s = Ret () s"
| "wakeup_null (p # ps) s =
     bnd (myproc s) (\<lambda>me s.
     if Some p \<noteq> me then
       seq (acquire (L_proc p) s) (\<lambda>s.
       let s = (if p_state (procs s p) = SLEEPING \<and> p_chan (procs s p) = None
                then upd_proc p (\<lambda>x. x\<lparr>p_state := RUNNABLE\<rparr>) s else s)
       in seq (release (L_proc p) s) (wakeup_null ps))
     else wakeup_null ps s)"

definition wakeup_proc :: "nat option \<Rightarrow> 'z mach_scheme \<Rightarrow> ('z mach_scheme, unit) res" where
  "wakeup_proc po s = (case po of Some p \<Rightarrow> wakeup (Ch_proc p) s | None \<Rightarrow> wakeup_null [0..<NPROC] s)"

primrec reparent_loop :: "nat list \<Rightarrow> nat \<Rightarrow> 'z mach_scheme \<Rightarrow> ('z mach_scheme, unit) res" where
  "reparent_loop [] p s = Ret () s"
| "reparent_loop (pp # pps) p s =
     (if p_parent (procs s pp) = Some p then
        let s = upd_proc pp (\<lambda>x. x\<lparr>p_parent := initproc s\<rparr>) s in
        seq (wakeup_proc (initproc s) s) (\<lambda>s. reparent_loop pps p s)
      else reparent_loop pps p s)"

definition reparent :: "nat \<Rightarrow> 'z mach_scheme \<Rightarrow> ('z mach_scheme, unit) res" where
  "reparent p s = reparent_loop [0..<NPROC] p s"

primrec exit_files :: "nat list \<Rightarrow> nat \<Rightarrow> 'z psst_scheme \<Rightarrow> ('z psst_scheme, unit) res" where
  "exit_files [] p s = Ret () s"
| "exit_files (fd # fds) p s =
     (case p_ofile (procs s p) fd of
        Some f \<Rightarrow> seq (fileclose f s) (\<lambda>s.
          exit_files fds p (upd_proc p (\<lambda>x. x\<lparr>p_ofile := (p_ofile x)(fd := None)\<rparr>) s))
      | None \<Rightarrow> exit_files fds p s)"

definition kexit :: "int \<Rightarrow> 'z psst_scheme \<Rightarrow> ('z psst_scheme, 'a) res" where
  "kexit status s =
     bnd (myproc s) (\<lambda>po s.
     if po = initproc s then Panic ''init exiting''
     else deref po (\<lambda>p.
     seq (exit_files [0..<NOFILE] p s) (\<lambda>s.
     seq (begin_op s) (\<lambda>s.
     deref (p_cwd (procs s p)) (\<lambda>cwd.
     seq (iput cwd s) (\<lambda>s.
     seq (end_op s) (\<lambda>s.
     let s = upd_proc p (\<lambda>x. x\<lparr>p_cwd := None\<rparr>) s in
     seq (acquire L_wait s) (\<lambda>s.
     seq (reparent p s) (\<lambda>s.
     seq (wakeup_proc (p_parent (procs s p)) s) (\<lambda>s.
     seq (acquire (L_proc p) s) (\<lambda>s.
     let s = upd_proc p (\<lambda>x. x\<lparr>p_xstate := word_of_int status, p_state := ZOMBIE\<rparr>) s in
     seq (release L_wait s) (\<lambda>s.
     seq (sched s) (\<lambda>s. Panic ''zombie exit'')))))))))))))"

text \<open>One pass over the table; \<open>kids\<close> is \<^verbatim>\<open>havekids\<close>.\<close>

primrec wait_loop :: "nat list \<Rightarrow> bool \<Rightarrow> uint64 \<Rightarrow> nat \<Rightarrow> 'z psst_scheme \<Rightarrow> ('z psst_scheme, int) res" where
  "wait_loop [] kids addr p s =
     bnd (if \<not> kids then Ret True s else bnd (killed p s) (\<lambda>k s. Ret (k \<noteq> 0) s)) (\<lambda>stop s.
     if stop then seq (release L_wait s) (\<lambda>s. Ret (-1) s)
     else sleeps (Ch_proc p) L_wait s)"
| "wait_loop (pp # pps) kids addr p s =
     (if p_parent (procs s pp) = Some p then
        seq (acquire (L_proc pp) s) (\<lambda>s.
        if p_state (procs s pp) = ZOMBIE then
          let pid = p_pid (procs s pp) in
          bnd (if addr \<noteq> 0
               then copyout (p_pagetable (procs s p)) addr (st32 (p_xstate (procs s pp)) (\<lambda>_. 0) 0) 4 s
               else Ret 0 s) (\<lambda>r s.
          if r < 0 then
            seq (release (L_proc pp) s) (\<lambda>s. seq (release L_wait s) (\<lambda>s. Ret (-1) s))
          else
            seq (freeproc pp s) (\<lambda>s.
            seq (release (L_proc pp) s) (\<lambda>s.
            seq (release L_wait s) (\<lambda>s. Ret (sint pid) s))))
        else seq (release (L_proc pp) s) (\<lambda>s. wait_loop pps True addr p s))
      else wait_loop pps kids addr p s)"

definition kwait :: "uint64 \<Rightarrow> 'z psst_scheme \<Rightarrow> ('z psst_scheme, int) res" where
  "kwait addr s =
     bnd (myproc s) (\<lambda>p s.
     seq (acquire L_wait s) (\<lambda>s.
     deref p (\<lambda>p. wait_loop [0..<NPROC] False addr p s)))"

end
