(* ===== verification/Xv6_Exec.thy ===== *)
theory Xv6_Exec
  imports Xv6_Proc
begin

text \<open>
  \<^verbatim>\<open>kernel/exec.c\<close>: loading an ELF file into a new address space and switching the process to it.

  The headers are read into a local variable (\<open>Local 0\<close>) and their fields taken from its bytes.
  The argument strings are in kernel memory; \<open>argv\<close> lists their addresses before the null.
\<close>

section \<open>elf.h\<close>

definition ELF_MAGIC :: uint where "ELF_MAGIC = 0x464C457F"
definition ELF_PROG_LOAD :: uint where "ELF_PROG_LOAD = 1"

record elfhdr =
  elf_magic :: uint
  elf_elf :: bytes
  elf_type :: uint16
  elf_machine :: uint16
  elf_version :: uint
  elf_entry :: uint64
  elf_phoff :: uint64
  elf_shoff :: uint64
  elf_flags :: uint
  elf_ehsize :: uint16
  elf_phentsize :: uint16
  elf_phnum :: uint16
  elf_shentsize :: uint16
  elf_shnum :: uint16
  elf_shstrndx :: uint16

record proghdr =
  ph_type :: uint
  ph_flags :: uint
  ph_off :: uint64
  ph_vaddr :: uint64
  ph_paddr :: uint64
  ph_filesz :: uint64
  ph_memsz :: uint64
  ph_align :: uint64

definition elfhdr_of :: "bytes \<Rightarrow> elfhdr" where
  "elfhdr_of d =
     \<lparr>elf_magic = ld32 d 0, elf_elf = (\<lambda>i. d (4 + i)), elf_type = ld16 d 16, elf_machine = ld16 d 18,
      elf_version = ld32 d 20, elf_entry = ld64 d 24, elf_phoff = ld64 d 32, elf_shoff = ld64 d 40,
      elf_flags = ld32 d 48, elf_ehsize = ld16 d 52, elf_phentsize = ld16 d 54, elf_phnum = ld16 d 56,
      elf_shentsize = ld16 d 58, elf_shnum = ld16 d 60, elf_shstrndx = ld16 d 62\<rparr>"

definition proghdr_of :: "bytes \<Rightarrow> proghdr" where
  "proghdr_of d =
     \<lparr>ph_type = ld32 d 0, ph_flags = ld32 d 4, ph_off = ld64 d 8, ph_vaddr = ld64 d 16,
      ph_paddr = ld64 d 24, ph_filesz = ld64 d 32, ph_memsz = ld64 d 40, ph_align = ld64 d 48\<rparr>"

section \<open>Loading\<close>

definition flags2perm :: "uint \<Rightarrow> uint64" where
  "flags2perm flags =
     (let perm = (if flags AND 1 \<noteq> 0 then PTE_X else 0)
      in if flags AND 2 \<noteq> 0 then perm OR PTE_W else perm)"

text \<open>
  \<open>is\<close> are the multiples of the page size below \<open>sz\<close>. If the counter, a 32-bit unsigned, wraps
  after them, the loop never ends.
\<close>

primrec loadseg_loop ::
  "nat list \<Rightarrow> uint64 \<Rightarrow> uint64 \<Rightarrow> nat \<Rightarrow> uint \<Rightarrow> uint \<Rightarrow> 'z psst_scheme \<Rightarrow> ('z psst_scheme, int) res" where
  "loadseg_loop [] pt va ip offset sz s = (if sz > 0xFFFFF000 then Hang else Ret 0 s)"
| "loadseg_loop (i # is) pt va ip offset sz s =
     bnd (walkaddr pt (va + of_nat i) s) (\<lambda>pa s.
     if pa = 0 then Panic ''loadseg: address should exist''
     else let n = (if sz - of_nat i < 4096 then sz - of_nat i else 4096) in
     bnd (readi ip (Kern pa) (offset + of_nat i) n s) (\<lambda>r s.
     if word_of_int r \<noteq> n then Ret (-1) s
     else loadseg_loop is pt va ip offset sz s))"

definition loadseg ::
  "uint64 \<Rightarrow> uint64 \<Rightarrow> nat \<Rightarrow> uint \<Rightarrow> uint \<Rightarrow> 'z psst_scheme \<Rightarrow> ('z psst_scheme, int) res" where
  "loadseg pt va ip offset sz s =
     loadseg_loop (map (\<lambda>k. k * 4096) [0..<(unat sz + 4095) div 4096]) pt va ip offset sz s"

text \<open>
  The loop over the program headers, at file offset \<open>off\<close>. It returns the size of the new image
  and whether it completed.
\<close>

primrec exec_segs ::
  "nat list \<Rightarrow> nat \<Rightarrow> uint64 \<Rightarrow> uint \<Rightarrow> uint64 \<Rightarrow> 'z psst_scheme \<Rightarrow> ('z psst_scheme, bool \<times> uint64) res" where
  "exec_segs [] ip pt off sz s = Ret (True, sz) s"
| "exec_segs (i # is) ip pt off sz s =
     bnd (readi ip (Local 0) off 56 s) (\<lambda>r s.
     if r \<noteq> 56 then Ret (False, sz) s
     else let ph = proghdr_of (kloc s) in
     if ph_type ph \<noteq> ELF_PROG_LOAD then exec_segs is ip pt (off + 56) sz s
     else if ph_memsz ph < ph_filesz ph then Ret (False, sz) s
     else if ph_vaddr ph + ph_memsz ph < ph_vaddr ph then Ret (False, sz) s
     else if ph_vaddr ph mod PGSIZE \<noteq> 0 then Ret (False, sz) s
     else bnd (uvmalloc pt sz (ph_vaddr ph + ph_memsz ph) (flags2perm (ph_flags ph)) s) (\<lambda>sz1 s.
     if sz1 = 0 then Ret (False, sz) s
     else bnd (loadseg pt (ph_vaddr ph) ip (ucast (ph_off ph)) (ucast (ph_filesz ph)) s) (\<lambda>r s.
     if r < 0 then Ret (False, sz1) s
     else exec_segs is ip pt (off + 56) sz1 s)))"

section \<open>The user stack\<close>

definition align16 :: "uint64 \<Rightarrow> uint64" where
  "align16 sp = sp - sp mod 16"

primrec st64s :: "uint64 list \<Rightarrow> bytes \<Rightarrow> nat \<Rightarrow> bytes" where
  "st64s [] d a = d"
| "st64s (w # ws) d a = st64s ws (st64 w d a) (a + 8)"

text \<open>
  The loop that pushes the argument strings; \<open>ust\<close> are the addresses pushed so far (the array
  \<^verbatim>\<open>ustack\<close>). The value is \<open>None\<close> for \<^verbatim>\<open>goto bad\<close>.
\<close>

primrec exec_args ::
  "uint64 list \<Rightarrow> uint64 \<Rightarrow> uint64 \<Rightarrow> uint64 \<Rightarrow> uint64 list \<Rightarrow> 'z psst_scheme
     \<Rightarrow> ('z psst_scheme, (uint64 \<times> uint64 list) option) res" where
  "exec_args [] pt sp stackbase ust s = Ret (Some (sp, ust)) s"
| "exec_args (arg # args) pt sp stackbase ust s =
     (if length ust \<ge> MAXARG then Ret None s
      else case strlen (\<lambda>i. mem s (unat arg + i)) of
        None \<Rightarrow> Hang
      | Some n \<Rightarrow>
          let sp = align16 (sp - (of_nat n + 1)) in
          if sp < stackbase then Ret None s
          else bnd (copyout pt sp (\<lambda>i. mem s (unat arg + i)) (of_nat n + 1) s) (\<lambda>r s.
          if r < 0 then Ret None s
          else exec_args args pt sp stackbase (ust @ [sp]) s))"

text \<open>The part of the path after its last slash.\<close>

primrec exec_last :: "byte list \<Rightarrow> byte list \<Rightarrow> byte list" where
  "exec_last [] lst = lst"
| "exec_last (c # cs) lst = exec_last cs (if c = slash then cs else lst)"

definition exec_bad :: "uint64 \<Rightarrow> uint64 \<Rightarrow> nat option \<Rightarrow> 'z psst_scheme \<Rightarrow> ('z psst_scheme, int) res" where
  "exec_bad pt sz ip s =
     seq (if pt \<noteq> 0 then proc_freepagetable pt sz s else Ret () s) (\<lambda>s.
     seq (case ip of Some ip \<Rightarrow> seq (iunlockput ip s) (\<lambda>s. end_op s) | None \<Rightarrow> Ret () s) (\<lambda>s.
     Ret (-1) s))"

text \<open>The second half of \<^verbatim>\<open>exec\<close>, when the file has been loaded and closed.\<close>

definition exec_stack ::
  "byte list \<Rightarrow> uint64 list \<Rightarrow> nat \<Rightarrow> uint64 \<Rightarrow> uint64 \<Rightarrow> uint64 \<Rightarrow> 'z psst_scheme \<Rightarrow> ('z psst_scheme, int) res" where
  "exec_stack path argv p pt entry sz s =
     (let oldsz = p_sz (procs s p);
          sz = PGROUNDUP sz in
      bnd (uvmalloc pt sz (sz + 2 * PGSIZE) PTE_W s) (\<lambda>sz1 s.
      if sz1 = 0 then exec_bad pt sz None s
      else let sz = sz1 in
      seq (uvmclear pt (sz - 2 * PGSIZE) s) (\<lambda>s.
      let stackbase = sz - PGSIZE in
      bnd (exec_args argv pt sz stackbase [] s) (\<lambda>r s.
      case r of
        None \<Rightarrow> exec_bad pt sz None s
      | Some (sp, ust) \<Rightarrow>
          let argc = length ust;
              sp = align16 (sp - (of_nat argc + 1) * 8) in
          if sp < stackbase then exec_bad pt sz None s
          else bnd (copyout pt sp (st64s (ust @ [0]) (\<lambda>_. 0) 0) ((of_nat argc + 1) * 8) s) (\<lambda>r s.
          if r < 0 then exec_bad pt sz None s
          else
            let s = tf_store TF_a1 sp p s;
                s = upd_proc p (\<lambda>x. x\<lparr>p_name := safestrcpy 0 (lbytes (exec_last path path)) 16 (p_name x)\<rparr>) s;
                oldpt = p_pagetable (procs s p);
                s = upd_proc p (\<lambda>x. x\<lparr>p_pagetable := pt, p_sz := sz\<rparr>) s;
                s = tf_store TF_epc entry p s;
                s = tf_store TF_sp sp p s
            in seq (proc_freepagetable oldpt oldsz s) (\<lambda>s. Ret (int argc) s))))))"

definition exec :: "byte list \<Rightarrow> uint64 list \<Rightarrow> 'z psst_scheme \<Rightarrow> ('z psst_scheme, int) res" where
  "exec path argv s =
     bnd (myproc s) (\<lambda>p s. deref p (\<lambda>p.
     seq (begin_op s) (\<lambda>s.
     bnd (namei path s) (\<lambda>r s.
     case r of
       None \<Rightarrow> seq (end_op s) (\<lambda>s. Ret (-1) s)
     | Some ip \<Rightarrow>
         seq (ilock (Some ip) s) (\<lambda>s.
         bnd (readi ip (Local 0) 0 64 s) (\<lambda>r s.
         if r \<noteq> 64 then exec_bad 0 0 (Some ip) s
         else let elf = elfhdr_of (kloc s) in
         if elf_magic elf \<noteq> ELF_MAGIC then exec_bad 0 0 (Some ip) s
         else bnd (proc_pagetable p s) (\<lambda>pt s.
         if pt = 0 then exec_bad 0 0 (Some ip) s
         else bnd (exec_segs [0..<unat (elf_phnum elf)] ip pt (ucast (elf_phoff elf)) 0 s) (\<lambda>(ok, sz) s.
         if \<not> ok then exec_bad pt sz (Some ip) s
         else seq (iunlockput ip s) (\<lambda>s.
         seq (end_op s) (\<lambda>s.
         exec_stack path argv p pt (elf_entry elf) sz s))))))))))"

end
