(* ===== verification/Xv6_Syscall.thy ===== *)
theory Xv6_Syscall
  imports Xv6_Exec
begin

text \<open>
  The system call layer: argument fetching and dispatch of \<^verbatim>\<open>kernel/syscall.c\<close>, the process
  calls of \<^verbatim>\<open>kernel/sysproc.c\<close> (with \<^verbatim>\<open>sys_year\<close>, \<^verbatim>\<open>sys_procname\<close> and \<^verbatim>\<open>sys_state\<close>) and the file
  system calls of \<^verbatim>\<open>kernel/sysfile.c\<close>.

  A C \<^verbatim>\<open>int\<close> argument is an \<open>int\<close> in the 32-bit range; results are 64-bit words, \<open>-1\<close> being all
  ones.
\<close>

section \<open>kernel/syscall.c: arguments\<close>

definition fetchaddr :: "uint64 \<Rightarrow> 'z kst_scheme \<Rightarrow> ('z kst_scheme, int \<times> uint64) res" where
  "fetchaddr addr s =
     bnd (myproc s) (\<lambda>p s. deref p (\<lambda>p.
     if addr \<ge> p_sz (procs s p) \<or> addr + 8 > p_sz (procs s p) then Ret (-1, 0) s
     else bnd (copyin (p_pagetable (procs s p)) (\<lambda>_. 0) 0 addr 8 s) (\<lambda>(r, d) s.
     if r \<noteq> 0 then Ret (-1, ld64 d 0) s else Ret (0, ld64 d 0) s)))"

text \<open>\<open>d\<close> is the buffer the string is copied to.\<close>

definition fetchstr :: "uint64 \<Rightarrow> bytes \<Rightarrow> uint64 \<Rightarrow> 'z kst_scheme \<Rightarrow> ('z kst_scheme, int \<times> bytes) res" where
  "fetchstr addr d mx s =
     bnd (myproc s) (\<lambda>p s. deref p (\<lambda>p.
     bnd (copyinstr (p_pagetable (procs s p)) d 0 addr mx s) (\<lambda>(r, d) s.
     if r < 0 then Ret (-1, d) s
     else (case strlen d of None \<Rightarrow> Hang | Some n \<Rightarrow> Ret (int n, d) s))))"

definition argraw :: "nat \<Rightarrow> 'z kst_scheme \<Rightarrow> ('z kst_scheme, uint64) res" where
  "argraw n s =
     bnd (myproc s) (\<lambda>p s. deref p (\<lambda>p.
     if n = 0 then Ret (tf_load TF_a0 p s) s
     else if n = 1 then Ret (tf_load TF_a1 p s) s
     else if n = 2 then Ret (tf_load TF_a2 p s) s
     else if n = 3 then Ret (tf_load TF_a3 p s) s
     else if n = 4 then Ret (tf_load TF_a4 p s) s
     else if n = 5 then Ret (tf_load TF_a5 p s) s
     else Panic ''argraw''))"

definition argint :: "nat \<Rightarrow> 'z kst_scheme \<Rightarrow> ('z kst_scheme, int) res" where
  "argint n s = bnd (argraw n s) (\<lambda>v s. Ret (sint (ucast v :: uint)) s)"

definition argaddr :: "nat \<Rightarrow> 'z kst_scheme \<Rightarrow> ('z kst_scheme, uint64) res" where
  "argaddr n s = argraw n s"

definition argstr :: "nat \<Rightarrow> bytes \<Rightarrow> uint64 \<Rightarrow> 'z kst_scheme \<Rightarrow> ('z kst_scheme, int \<times> bytes) res" where
  "argstr n d mx s = bnd (argaddr n s) (\<lambda>addr s. fetchstr addr d mx s)"

text \<open>A path argument: the local array of \<^verbatim>\<open>MAXPATH\<close> bytes, then the path as a list; \<open>None\<close> for an error.\<close>

definition argpath :: "nat \<Rightarrow> 'z fsst_scheme \<Rightarrow> ('z fsst_scheme, byte list option) res" where
  "argpath n s =
     bnd (argstr n (kloc s) (of_nat MAXPATH) s) (\<lambda>(r, d) s.
     Ret (if r < 0 then None else Some (cstr MAXPATH d)) s)"

section \<open>kernel/sysproc.c\<close>

definition sys_exit :: "'z psst_scheme \<Rightarrow> ('z psst_scheme, uint64) res" where
  "sys_exit s = bnd (argint 0 s) (\<lambda>n s. kexit n s)"

definition sys_getpid :: "'z psst_scheme \<Rightarrow> ('z psst_scheme, uint64) res" where
  "sys_getpid s = bnd (myproc s) (\<lambda>p s. deref p (\<lambda>p. Ret (scast (p_pid (procs s p))) s))"

definition sys_fork :: "'z psst_scheme \<Rightarrow> ('z psst_scheme, uint64) res" where
  "sys_fork s = bnd (fork s) (\<lambda>r s. Ret (word_of_int r) s)"

definition sys_wait :: "'z psst_scheme \<Rightarrow> ('z psst_scheme, uint64) res" where
  "sys_wait s = bnd (argaddr 0 s) (\<lambda>p s. bnd (kwait p s) (\<lambda>r s. Ret (word_of_int r) s))"

definition sys_sbrk :: "'z psst_scheme \<Rightarrow> ('z psst_scheme, uint64) res" where
  "sys_sbrk s =
     bnd (argint 0 s) (\<lambda>n s.
     bnd (myproc s) (\<lambda>p s. deref p (\<lambda>p.
     let addr = p_sz (procs s p) in
     bnd (growproc n s) (\<lambda>r s.
     if r < 0 then Ret (-1) s else Ret addr s))))"

text \<open>The comparison is unsigned, as \<^verbatim>\<open>ticks - ticks0\<close> is.\<close>

definition sys_sleep_loop :: "uint \<Rightarrow> int \<Rightarrow> 'z psst_scheme \<Rightarrow> ('z psst_scheme, uint64) res" where
  "sys_sleep_loop ticks0 n s =
     (if ticks s - ticks0 < word_of_int n then
        bnd (myproc s) (\<lambda>p s. deref p (\<lambda>p.
        bnd (killed p s) (\<lambda>k s.
        if k \<noteq> 0 then seq (release L_ticks s) (\<lambda>s. Ret (-1) s)
        else sleeps Ch_ticks L_ticks s)))
      else seq (release L_ticks s) (\<lambda>s. Ret 0 s))"

definition sys_sleep :: "'z psst_scheme \<Rightarrow> ('z psst_scheme, uint64) res" where
  "sys_sleep s =
     bnd (argint 0 s) (\<lambda>n s.
     seq (acquire L_ticks s) (\<lambda>s. sys_sleep_loop (ticks s) n s))"

definition sys_kill :: "'z psst_scheme \<Rightarrow> ('z psst_scheme, uint64) res" where
  "sys_kill s = bnd (argint 0 s) (\<lambda>pid s. bnd (kill (word_of_int pid) s) (\<lambda>r s. Ret (word_of_int r) s))"

definition sys_uptime :: "'z psst_scheme \<Rightarrow> ('z psst_scheme, uint64) res" where
  "sys_uptime s =
     seq (acquire L_ticks s) (\<lambda>s.
     let xticks = ticks s in
     seq (release L_ticks s) (\<lambda>s. Ret (ucast xticks) s))"

text \<open>
  The three calls of the process listing. \<^verbatim>\<open>name\<close> and \<^verbatim>\<open>state\<close> return a null pointer for an unknown
  process, and \<^verbatim>\<open>strlen\<close> of it is a load from address 0.
\<close>

definition sys_procname :: "'z psst_scheme \<Rightarrow> ('z psst_scheme, uint64) res" where
  "sys_procname s =
     bnd (argint 0 s) (\<lambda>pid s.
     if pid < 0 then Ret (-1) s
     else bnd (pname (word_of_int pid) s) (\<lambda>name_ptr s.
     bnd (argaddr 1 s) (\<lambda>user_ptr s.
     bnd (myproc s) (\<lambda>p s. deref p (\<lambda>p.
     deref name_ptr (\<lambda>pp.
     case strlen (p_name (procs s pp)) of
       None \<Rightarrow> Hang
     | Some n \<Rightarrow>
         bnd (copyout (p_pagetable (procs s p)) user_ptr (p_name (procs s pp)) (of_nat n + 1) s) (\<lambda>r s.
         Ret (if r < 0 then -1 else 1) s)))))))"

definition sys_state :: "'z psst_scheme \<Rightarrow> ('z psst_scheme, uint64) res" where
  "sys_state s =
     bnd (argint 0 s) (\<lambda>pid s.
     if pid < 0 then Ret (-1) s
     else bnd (pstate (word_of_int pid) s) (\<lambda>state_ptr s.
     bnd (argaddr 1 s) (\<lambda>user_ptr s.
     bnd (myproc s) (\<lambda>p s. deref p (\<lambda>p.
     deref state_ptr (\<lambda>st.
     bnd (copyout (p_pagetable (procs s p)) user_ptr (str st) (of_nat (length st) + 1) s) (\<lambda>r s.
     Ret (if r < 0 then -1 else 1) s)))))))"

primrec sys_year_loop ::
  "nat list \<Rightarrow> uint64 \<Rightarrow> int \<Rightarrow> nat \<Rightarrow> 'z psst_scheme \<Rightarrow> ('z psst_scheme, uint64) res" where
  "sys_year_loop [] user_buf sz count s = Ret (of_nat count) s"
| "sys_year_loop (p # ps) user_buf sz count s =
     (if int count < sz then
        if p_state (procs s p) \<noteq> UNUSED then
          bnd (myproc s) (\<lambda>me s. deref me (\<lambda>me.
          bnd (copyout (p_pagetable (procs s me)) (user_buf + of_nat (4 * count))
                 (st32 (p_pid (procs s p)) (\<lambda>_. 0) 0) 4 s) (\<lambda>r s.
          if r < 0 then Ret (-1) s else sys_year_loop ps user_buf sz (Suc count) s)))
        else sys_year_loop ps user_buf sz count s
      else Ret (of_nat count) s)"

definition sys_year :: "'z psst_scheme \<Rightarrow> ('z psst_scheme, uint64) res" where
  "sys_year s =
     bnd (argaddr 0 s) (\<lambda>user_buf s.
     bnd (argint 1 s) (\<lambda>user_buf_size s.
     if user_buf_size \<le> 0 then Ret (-1) s
     else sys_year_loop [0..<NPROC] user_buf user_buf_size 0 s))"

section \<open>kernel/sysfile.c: descriptors\<close>

definition argfd :: "nat \<Rightarrow> 'z psst_scheme \<Rightarrow> ('z psst_scheme, (nat \<times> nat) option) res" where
  "argfd n s =
     bnd (argint n s) (\<lambda>fd s.
     if fd < 0 \<or> fd \<ge> int NOFILE then Ret None s
     else bnd (myproc s) (\<lambda>p s. deref p (\<lambda>p.
     case p_ofile (procs s p) (nat fd) of
       None \<Rightarrow> Ret None s
     | Some f \<Rightarrow> Ret (Some (nat fd, f)) s)))"

primrec fdalloc_loop :: "nat list \<Rightarrow> nat \<Rightarrow> nat \<Rightarrow> 'z mach_scheme \<Rightarrow> ('z mach_scheme, int) res" where
  "fdalloc_loop [] f p s = Ret (-1) s"
| "fdalloc_loop (fd # fds) f p s =
     (if p_ofile (procs s p) fd = None
      then Ret (int fd) (upd_proc p (\<lambda>x. x\<lparr>p_ofile := (p_ofile x)(fd := Some f)\<rparr>) s)
      else fdalloc_loop fds f p s)"

definition fdalloc :: "nat \<Rightarrow> 'z mach_scheme \<Rightarrow> ('z mach_scheme, int) res" where
  "fdalloc f s = bnd (myproc s) (\<lambda>p s. deref p (\<lambda>p. fdalloc_loop [0..<NOFILE] f p s))"

definition sys_dup :: "'z psst_scheme \<Rightarrow> ('z psst_scheme, uint64) res" where
  "sys_dup s =
     bnd (argfd 0 s) (\<lambda>r s.
     case r of
       None \<Rightarrow> Ret (-1) s
     | Some (_, f) \<Rightarrow>
         bnd (fdalloc f s) (\<lambda>fd s.
         if fd < 0 then Ret (-1) s
         else bnd (filedup f s) (\<lambda>_ s. Ret (word_of_int fd) s)))"

definition sys_read :: "'z psst_scheme \<Rightarrow> ('z psst_scheme, uint64) res" where
  "sys_read s =
     bnd (argaddr 1 s) (\<lambda>p s.
     bnd (argint 2 s) (\<lambda>n s.
     bnd (argfd 0 s) (\<lambda>r s.
     case r of
       None \<Rightarrow> Ret (-1) s
     | Some (_, f) \<Rightarrow> bnd (fileread f p n s) (\<lambda>r s. Ret (word_of_int r) s))))"

definition sys_write :: "'z psst_scheme \<Rightarrow> ('z psst_scheme, uint64) res" where
  "sys_write s =
     bnd (argaddr 1 s) (\<lambda>p s.
     bnd (argint 2 s) (\<lambda>n s.
     bnd (argfd 0 s) (\<lambda>r s.
     case r of
       None \<Rightarrow> Ret (-1) s
     | Some (_, f) \<Rightarrow> bnd (filewrite f p n s) (\<lambda>r s. Ret (word_of_int r) s))))"

definition sys_close :: "'z psst_scheme \<Rightarrow> ('z psst_scheme, uint64) res" where
  "sys_close s =
     bnd (argfd 0 s) (\<lambda>r s.
     case r of
       None \<Rightarrow> Ret (-1) s
     | Some (fd, f) \<Rightarrow>
         bnd (myproc s) (\<lambda>p s. deref p (\<lambda>p.
         seq (fileclose f (upd_proc p (\<lambda>x. x\<lparr>p_ofile := (p_ofile x)(fd := None)\<rparr>) s)) (\<lambda>s.
         Ret 0 s))))"

definition sys_fstat :: "'z psst_scheme \<Rightarrow> ('z psst_scheme, uint64) res" where
  "sys_fstat s =
     bnd (argaddr 1 s) (\<lambda>st s.
     bnd (argfd 0 s) (\<lambda>r s.
     case r of
       None \<Rightarrow> Ret (-1) s
     | Some (_, f) \<Rightarrow> bnd (filestat f st s) (\<lambda>r s. Ret (word_of_int r) s)))"

section \<open>kernel/sysfile.c: names\<close>

definition sys_link_bad :: "nat \<Rightarrow> 'z psst_scheme \<Rightarrow> ('z psst_scheme, uint64) res" where
  "sys_link_bad ip s =
     seq (ilock (Some ip) s) (\<lambda>s.
     seq (iupdate ip (upd_inode ip (\<lambda>x. x\<lparr>i_nlink := i_nlink x - 1\<rparr>) s)) (\<lambda>s.
     seq (iunlockput ip s) (\<lambda>s.
     seq (end_op s) (\<lambda>s. Ret (-1) s))))"

definition sys_link :: "'z psst_scheme \<Rightarrow> ('z psst_scheme, uint64) res" where
  "sys_link s =
     bnd (argpath 0 s) (\<lambda>old s.
     bnd (if old = None then Ret None s else argpath 1 s) (\<lambda>new s.
     if old = None \<or> new = None then Ret (-1) s
     else seq (begin_op s) (\<lambda>s.
     bnd (namei (the old) s) (\<lambda>r s.
     case r of
       None \<Rightarrow> seq (end_op s) (\<lambda>s. Ret (-1) s)
     | Some ip \<Rightarrow>
         seq (ilock (Some ip) s) (\<lambda>s.
         if i_type (itable s ip) = T_DIR then
           seq (iunlockput ip s) (\<lambda>s. seq (end_op s) (\<lambda>s. Ret (-1) s))
         else
           seq (iupdate ip (upd_inode ip (\<lambda>x. x\<lparr>i_nlink := i_nlink x + 1\<rparr>) s)) (\<lambda>s.
           seq (iunlock (Some ip) s) (\<lambda>s.
           bnd (nameiparent (the new) (kloc s) s) (\<lambda>(dpo, name) s.
           case dpo of
             None \<Rightarrow> sys_link_bad ip s
           | Some dp \<Rightarrow>
               seq (ilock (Some dp) s) (\<lambda>s.
               bnd (if i_dev (itable s dp) \<noteq> i_dev (itable s ip) then Ret (-1) s
                    else dirlink dp name (i_inum (itable s ip)) s) (\<lambda>r s.
               if r < 0 then seq (iunlockput dp s) (\<lambda>s. sys_link_bad ip s)
               else
                 seq (iunlockput dp s) (\<lambda>s.
                 seq (iput ip s) (\<lambda>s.
                 seq (end_op s) (\<lambda>s. Ret 0 s)))))))))))))"

function isdirempty_loop :: "nat \<Rightarrow> uint \<Rightarrow> 'z fsst_scheme \<Rightarrow> ('z fsst_scheme, bool) res" where
  "isdirempty_loop dp off s =
     (if off < i_size (itable s dp) then
        bnd (readi dp (Local 0) off 16 s) (\<lambda>r s.
        if r \<noteq> 16 then Panic ''isdirempty: readi''
        else if de_inum (kloc s) \<noteq> 0 then Ret False s
        else isdirempty_loop dp (off + 16) s)
      else Ret True s)"
  by pat_completeness auto
termination
  by (relation "measure (\<lambda>(dp, off, s). 2 ^ 32 - unat off)")
    (auto intro: readi_16_less simp del: power_numeral)

declare isdirempty_loop.simps [simp del]

definition isdirempty :: "nat \<Rightarrow> 'z fsst_scheme \<Rightarrow> ('z fsst_scheme, bool) res" where
  "isdirempty dp s = isdirempty_loop dp 32 s"

definition sys_unlink_bad :: "nat \<Rightarrow> 'z psst_scheme \<Rightarrow> ('z psst_scheme, uint64) res" where
  "sys_unlink_bad dp s =
     seq (iunlockput dp s) (\<lambda>s. seq (end_op s) (\<lambda>s. Ret (-1) s))"

definition sys_unlink :: "'z psst_scheme \<Rightarrow> ('z psst_scheme, uint64) res" where
  "sys_unlink s =
     bnd (argpath 0 s) (\<lambda>path s.
     if path = None then Ret (-1) s
     else seq (begin_op s) (\<lambda>s.
     bnd (nameiparent (the path) (kloc s) s) (\<lambda>(dpo, name) s.
     case dpo of
       None \<Rightarrow> seq (end_op s) (\<lambda>s. Ret (-1) s)
     | Some dp \<Rightarrow>
         seq (ilock (Some dp) s) (\<lambda>s.
         if namecmp name (str ''.'') = 0 \<or> namecmp name (str ''..'') = 0 then sys_unlink_bad dp s
         else bnd (dirlookup dp name s) (\<lambda>r s.
         case r of
           None \<Rightarrow> sys_unlink_bad dp s
         | Some (ip, off) \<Rightarrow>
             seq (ilock (Some ip) s) (\<lambda>s.
             if sint (i_nlink (itable s ip)) < 1 then Panic ''unlink: nlink < 1''
             else bnd (if i_type (itable s ip) = T_DIR then isdirempty ip s else Ret True s) (\<lambda>empt s.
             if \<not> empt then seq (iunlockput ip s) (\<lambda>s. sys_unlink_bad dp s)
             else
               let s = s\<lparr>kloc := memset 0 0 16 (kloc s)\<rparr> in
               bnd (writei dp (Local 0) off 16 s) (\<lambda>r s.
               if r \<noteq> 16 then Panic ''unlink: writei''
               else
                 seq (if i_type (itable s ip) = T_DIR
                      then iupdate dp (upd_inode dp (\<lambda>x. x\<lparr>i_nlink := i_nlink x - 1\<rparr>) s) else Ret () s) (\<lambda>s.
                 seq (iunlockput dp s) (\<lambda>s.
                 seq (iupdate ip (upd_inode ip (\<lambda>x. x\<lparr>i_nlink := i_nlink x - 1\<rparr>) s)) (\<lambda>s.
                 seq (iunlockput ip s) (\<lambda>s.
                 seq (end_op s) (\<lambda>s. Ret 0 s)))))))))))))"

definition create_fail :: "nat \<Rightarrow> nat \<Rightarrow> 'z psst_scheme \<Rightarrow> ('z psst_scheme, nat option) res" where
  "create_fail ip dp s =
     seq (iupdate ip (upd_inode ip (\<lambda>x. x\<lparr>i_nlink := 0\<rparr>) s)) (\<lambda>s.
     seq (iunlockput ip s) (\<lambda>s.
     seq (iunlockput dp s) (\<lambda>s. Ret None s)))"

definition create :: "byte list \<Rightarrow> uint16 \<Rightarrow> uint16 \<Rightarrow> uint16 \<Rightarrow> 'z psst_scheme \<Rightarrow> ('z psst_scheme, nat option) res" where
  "create path type major minor s =
     bnd (nameiparent path (kloc s) s) (\<lambda>(dpo, name) s.
     case dpo of
       None \<Rightarrow> Ret None s
     | Some dp \<Rightarrow>
         seq (ilock (Some dp) s) (\<lambda>s.
         bnd (dirlookup dp name s) (\<lambda>r s.
         case r of
           Some (ip, _) \<Rightarrow>
             seq (iunlockput dp s) (\<lambda>s.
             seq (ilock (Some ip) s) (\<lambda>s.
             if type = T_FILE \<and> (i_type (itable s ip) = T_FILE \<or> i_type (itable s ip) = T_DEVICE)
             then Ret (Some ip) s
             else seq (iunlockput ip s) (\<lambda>s. Ret None s)))
         | None \<Rightarrow>
             bnd (ialloc (i_dev (itable s dp)) type s) (\<lambda>r s.
             case r of
               None \<Rightarrow> seq (iunlockput dp s) (\<lambda>s. Ret None s)
             | Some ip \<Rightarrow>
                 seq (ilock (Some ip) s) (\<lambda>s.
                 seq (iupdate ip (upd_inode ip (\<lambda>x. x\<lparr>i_major := major, i_minor := minor, i_nlink := 1\<rparr>) s)) (\<lambda>s.
                 bnd (if type = T_DIR then
                        bnd (dirlink ip (str ''.'') (i_inum (itable s ip)) s) (\<lambda>r s.
                        if r < 0 then Ret False s
                        else bnd (dirlink ip (str ''..'') (i_inum (itable s dp)) s) (\<lambda>r s. Ret (r \<ge> 0) s))
                      else Ret True s) (\<lambda>ok s.
                 if \<not> ok then create_fail ip dp s
                 else bnd (dirlink dp name (i_inum (itable s ip)) s) (\<lambda>r s.
                 if r < 0 then create_fail ip dp s
                 else
                   seq (if type = T_DIR
                        then iupdate dp (upd_inode dp (\<lambda>x. x\<lparr>i_nlink := i_nlink x + 1\<rparr>) s) else Ret () s) (\<lambda>s.
                   seq (iunlockput dp s) (\<lambda>s. Ret (Some ip) s))))))))))"

definition O_RDONLY :: uint where "O_RDONLY = 0x000"
definition O_WRONLY :: uint where "O_WRONLY = 0x001"
definition O_RDWR :: uint where "O_RDWR = 0x002"
definition O_CREATE :: uint where "O_CREATE = 0x200"
definition O_TRUNC :: uint where "O_TRUNC = 0x400"

text \<open>The end of \<^verbatim>\<open>sys_open\<close>, with the inode locked.\<close>

definition sys_open_fail :: "nat \<Rightarrow> 'z psst_scheme \<Rightarrow> ('z psst_scheme, uint64) res" where
  "sys_open_fail ip s = seq (iunlockput ip s) (\<lambda>s. seq (end_op s) (\<lambda>s. Ret (-1) s))"

definition sys_open_file :: "nat \<Rightarrow> uint \<Rightarrow> 'z psst_scheme \<Rightarrow> ('z psst_scheme, uint64) res" where
  "sys_open_file ip omode s =
     (if i_type (itable s ip) = T_DEVICE \<and> (sint (i_major (itable s ip)) < 0 \<or> sint (i_major (itable s ip)) \<ge> int NDEV)
      then sys_open_fail ip s
      else bnd (filealloc s) (\<lambda>fo s.
      case fo of
        None \<Rightarrow> sys_open_fail ip s
      | Some f \<Rightarrow>
          bnd (fdalloc f s) (\<lambda>fd s.
          if fd < 0 then seq (fileclose f s) (\<lambda>s. sys_open_fail ip s)
          else
            let s = (if i_type (itable s ip) = T_DEVICE
                     then upd_file f (\<lambda>x. x\<lparr>f_type := FD_DEVICE, f_major := i_major (itable s ip)\<rparr>) s
                     else upd_file f (\<lambda>x. x\<lparr>f_type := FD_INODE, f_off := 0\<rparr>) s);
                s = upd_file f (\<lambda>x. x\<lparr>f_ip := Some ip, f_readable := omode AND O_WRONLY = 0,
                      f_writable := omode AND O_WRONLY \<noteq> 0 \<or> omode AND O_RDWR \<noteq> 0\<rparr>) s
            in seq (if omode AND O_TRUNC \<noteq> 0 \<and> i_type (itable s ip) = T_FILE then itrunc ip s else Ret () s) (\<lambda>s.
               seq (iunlock (Some ip) s) (\<lambda>s.
               seq (end_op s) (\<lambda>s. Ret (word_of_int fd) s))))))"

definition sys_open :: "'z psst_scheme \<Rightarrow> ('z psst_scheme, uint64) res" where
  "sys_open s =
     bnd (argint 1 s) (\<lambda>om s.
     let omode = word_of_int om :: uint in
     bnd (argpath 0 s) (\<lambda>path s.
     case path of
       None \<Rightarrow> Ret (-1) s
     | Some path \<Rightarrow>
         seq (begin_op s) (\<lambda>s.
         if omode AND O_CREATE \<noteq> 0 then
           bnd (create path T_FILE 0 0 s) (\<lambda>r s.
           case r of
             None \<Rightarrow> seq (end_op s) (\<lambda>s. Ret (-1) s)
           | Some ip \<Rightarrow> sys_open_file ip omode s)
         else
           bnd (namei path s) (\<lambda>r s.
           case r of
             None \<Rightarrow> seq (end_op s) (\<lambda>s. Ret (-1) s)
           | Some ip \<Rightarrow>
               seq (ilock (Some ip) s) (\<lambda>s.
               if i_type (itable s ip) = T_DIR \<and> omode \<noteq> O_RDONLY then sys_open_fail ip s
               else sys_open_file ip omode s)))))"

definition sys_mkdir :: "'z psst_scheme \<Rightarrow> ('z psst_scheme, uint64) res" where
  "sys_mkdir s =
     seq (begin_op s) (\<lambda>s.
     bnd (argpath 0 s) (\<lambda>path s.
     bnd (case path of None \<Rightarrow> Ret None s | Some path \<Rightarrow> create path T_DIR 0 0 s) (\<lambda>r s.
     case r of
       None \<Rightarrow> seq (end_op s) (\<lambda>s. Ret (-1) s)
     | Some ip \<Rightarrow> seq (iunlockput ip s) (\<lambda>s. seq (end_op s) (\<lambda>s. Ret 0 s)))))"

definition sys_mknod :: "'z psst_scheme \<Rightarrow> ('z psst_scheme, uint64) res" where
  "sys_mknod s =
     seq (begin_op s) (\<lambda>s.
     bnd (argint 1 s) (\<lambda>major s.
     bnd (argint 2 s) (\<lambda>minor s.
     bnd (argpath 0 s) (\<lambda>path s.
     bnd (case path of None \<Rightarrow> Ret None s
          | Some path \<Rightarrow> create path T_DEVICE (word_of_int major) (word_of_int minor) s) (\<lambda>r s.
     case r of
       None \<Rightarrow> seq (end_op s) (\<lambda>s. Ret (-1) s)
     | Some ip \<Rightarrow> seq (iunlockput ip s) (\<lambda>s. seq (end_op s) (\<lambda>s. Ret 0 s)))))))"

definition sys_chdir :: "'z psst_scheme \<Rightarrow> ('z psst_scheme, uint64) res" where
  "sys_chdir s =
     bnd (myproc s) (\<lambda>po s.
     seq (begin_op s) (\<lambda>s.
     bnd (argpath 0 s) (\<lambda>path s.
     bnd (case path of None \<Rightarrow> Ret None s | Some path \<Rightarrow> namei path s) (\<lambda>r s.
     case r of
       None \<Rightarrow> seq (end_op s) (\<lambda>s. Ret (-1) s)
     | Some ip \<Rightarrow>
         seq (ilock (Some ip) s) (\<lambda>s.
         if i_type (itable s ip) \<noteq> T_DIR then
           seq (iunlockput ip s) (\<lambda>s. seq (end_op s) (\<lambda>s. Ret (-1) s))
         else
           seq (iunlock (Some ip) s) (\<lambda>s.
           deref po (\<lambda>p.
           deref (p_cwd (procs s p)) (\<lambda>cwd.
           seq (iput cwd s) (\<lambda>s.
           seq (end_op s) (\<lambda>s.
           Ret 0 (upd_proc p (\<lambda>x. x\<lparr>p_cwd := Some ip\<rparr>) s)))))))))))"

text \<open>
  The loop of \<^verbatim>\<open>sys_exec\<close> that fetches the arguments: the addresses allocated so far are
  \<open>argv\<close>; the flag tells whether the null was reached.
\<close>

primrec sys_exec_args ::
  "nat list \<Rightarrow> uint64 \<Rightarrow> uint64 list \<Rightarrow> 'z psst_scheme \<Rightarrow> ('z psst_scheme, bool \<times> uint64 list) res" where
  "sys_exec_args [] uargv argv s = Ret (False, argv) s"
| "sys_exec_args (i # is) uargv argv s =
     bnd (fetchaddr (uargv + of_nat (8 * i)) s) (\<lambda>(r, uarg) s.
     if r < 0 then Ret (False, argv) s
     else if uarg = 0 then Ret (True, argv) s
     else bnd (kalloc s) (\<lambda>a s.
     if a = 0 then Ret (False, argv) s
     else bnd (fetchstr uarg (\<lambda>i. mem s (unat a + i)) PGSIZE s) (\<lambda>(r, d) s.
     let s = s\<lparr>mem := blit (unat a) (unat PGSIZE) d (mem s)\<rparr> in
     if r < 0 then Ret (False, argv @ [a]) s
     else sys_exec_args is uargv (argv @ [a]) s)))"

primrec sys_exec_free :: "uint64 list \<Rightarrow> 'z psst_scheme \<Rightarrow> ('z psst_scheme, unit) res" where
  "sys_exec_free [] s = Ret () s"
| "sys_exec_free (a # as) s = seq (kfree a s) (\<lambda>s. sys_exec_free as s)"

definition sys_exec :: "'z psst_scheme \<Rightarrow> ('z psst_scheme, uint64) res" where
  "sys_exec s =
     bnd (argaddr 1 s) (\<lambda>uargv s.
     bnd (argpath 0 s) (\<lambda>path s.
     case path of
       None \<Rightarrow> Ret (-1) s
     | Some path \<Rightarrow>
         bnd (sys_exec_args [0..<MAXARG] uargv [] s) (\<lambda>(ok, argv) s.
         if ok then
           bnd (exec path argv s) (\<lambda>ret s.
           seq (sys_exec_free argv s) (\<lambda>s. Ret (word_of_int ret) s))
         else seq (sys_exec_free argv s) (\<lambda>s. Ret (-1) s))))"

definition clear_fd :: "int \<Rightarrow> nat \<Rightarrow> 'z mach_scheme \<Rightarrow> 'z mach_scheme" where
  "clear_fd fd p s = upd_proc p (\<lambda>x. x\<lparr>p_ofile := (p_ofile x)(nat fd := None)\<rparr>) s"

definition sys_pipe :: "'z psst_scheme \<Rightarrow> ('z psst_scheme, uint64) res" where
  "sys_pipe s =
     bnd (myproc s) (\<lambda>po s.
     bnd (argaddr 0 s) (\<lambda>fdarray s.
     bnd (pipealloc s) (\<lambda>(r, rfo, wfo) s.
     if r < 0 then Ret (-1) s
     else deref po (\<lambda>p. deref rfo (\<lambda>rf. deref wfo (\<lambda>wf.
     bnd (fdalloc rf s) (\<lambda>fd0 s.
     bnd (if fd0 < 0 then Ret (-1) s else fdalloc wf s) (\<lambda>fd1 s.
     if fd0 < 0 \<or> fd1 < 0 then
       let s = (if fd0 \<ge> 0 then clear_fd fd0 p s else s) in
       seq (fileclose rf s) (\<lambda>s. seq (fileclose wf s) (\<lambda>s. Ret (-1) s))
     else
       bnd (copyout (p_pagetable (procs s p)) fdarray (st32 (word_of_int fd0) (\<lambda>_. 0) 0) 4 s) (\<lambda>r0 s.
       bnd (if r0 < 0 then Ret r0 s
            else copyout (p_pagetable (procs s p)) (fdarray + 4) (st32 (word_of_int fd1) (\<lambda>_. 0) 0) 4 s) (\<lambda>r1 s.
       if r0 < 0 \<or> r1 < 0 then
         let s = clear_fd fd1 p (clear_fd fd0 p s) in
         seq (fileclose rf s) (\<lambda>s. seq (fileclose wf s) (\<lambda>s. Ret (-1) s))
       else Ret 0 s))))))))))"

section \<open>kernel/syscall.c: dispatch\<close>

definition syscalls :: "nat \<Rightarrow> ('z psst_scheme \<Rightarrow> ('z psst_scheme, uint64) res) option" where
  "syscalls num =
     (if num = 1 then Some sys_fork else if num = 2 then Some sys_exit
      else if num = 3 then Some sys_wait else if num = 4 then Some sys_pipe
      else if num = 5 then Some sys_read else if num = 6 then Some sys_kill
      else if num = 7 then Some sys_exec else if num = 8 then Some sys_fstat
      else if num = 9 then Some sys_chdir else if num = 10 then Some sys_dup
      else if num = 11 then Some sys_getpid else if num = 12 then Some sys_sbrk
      else if num = 13 then Some sys_sleep else if num = 14 then Some sys_uptime
      else if num = 15 then Some sys_open else if num = 16 then Some sys_write
      else if num = 17 then Some sys_mknod else if num = 18 then Some sys_unlink
      else if num = 19 then Some sys_link else if num = 20 then Some sys_mkdir
      else if num = 21 then Some sys_close else if num = 22 then Some sys_year
      else if num = 23 then Some sys_procname else if num = 24 then Some sys_state
      else None)"

definition NSYSCALLS :: nat where "NSYSCALLS = 25"

definition syscall :: "'z psst_scheme \<Rightarrow> ('z psst_scheme, unit) res" where
  "syscall s =
     bnd (myproc s) (\<lambda>p s. deref p (\<lambda>p.
     let num = sint (ucast (tf_load TF_a7 p s) :: uint) in
     case (if num > 0 \<and> num < int NSYSCALLS then syscalls (nat num) else None) of
       Some f \<Rightarrow> bnd (f s) (\<lambda>r s. Ret () (tf_store TF_a0 r p s))
     | None \<Rightarrow>
         seq (printk (pbytes ''%d %s: unknown sys call %d'' @ [10])
                [PInt (p_pid (procs s p)), PStr (Some (cstr 16 (p_name (procs s p)))), PInt (word_of_int num)] s) (\<lambda>s.
         Ret () (tf_store TF_a0 (-1) p s))))"

end
