(* ===== verification/Xv6_Virtio.thy ===== *)
theory Xv6_Virtio
  imports Xv6_Syscall
begin

text \<open>
  The disk driver, \<^verbatim>\<open>kernel/virtio_disk.c\<close> with the structures of \<^verbatim>\<open>kernel/virtio.h\<close>. The address
  in a descriptor is one of the objects the driver puts there: a request header, the data of a
  buffer, a status byte. The memory-mapped registers are named; \<open>virtio_offset\<close> is where each is.

  \<open>vdev_step\<close> is what the device does with one request, after section 5.2 of the virtio
  specification: it follows the chain of three descriptors, transfers the block, writes the
  status and puts the chain on the used ring. \<open>vdev_accepts\<close> says which feature sets the device
  accepts.
\<close>

section \<open>virtio.h\<close>

datatype virtio_reg =
    VIRTIO_MMIO_MAGIC_VALUE
  | VIRTIO_MMIO_VERSION
  | VIRTIO_MMIO_DEVICE_ID
  | VIRTIO_MMIO_VENDOR_ID
  | VIRTIO_MMIO_DEVICE_FEATURES
  | VIRTIO_MMIO_DRIVER_FEATURES
  | VIRTIO_MMIO_QUEUE_SEL
  | VIRTIO_MMIO_QUEUE_NUM_MAX
  | VIRTIO_MMIO_QUEUE_NUM
  | VIRTIO_MMIO_QUEUE_READY
  | VIRTIO_MMIO_QUEUE_NOTIFY
  | VIRTIO_MMIO_INTERRUPT_STATUS
  | VIRTIO_MMIO_INTERRUPT_ACK
  | VIRTIO_MMIO_STATUS
  | VIRTIO_MMIO_QUEUE_DESC_LOW
  | VIRTIO_MMIO_QUEUE_DESC_HIGH
  | VIRTIO_MMIO_DRIVER_DESC_LOW
  | VIRTIO_MMIO_DRIVER_DESC_HIGH
  | VIRTIO_MMIO_DEVICE_DESC_LOW
  | VIRTIO_MMIO_DEVICE_DESC_HIGH

text \<open>The offset of a register from \<^verbatim>\<open>VIRTIO0\<close>.\<close>

primrec virtio_offset :: "virtio_reg \<Rightarrow> nat" where
  "virtio_offset VIRTIO_MMIO_MAGIC_VALUE = 0x000"
| "virtio_offset VIRTIO_MMIO_VERSION = 0x004"
| "virtio_offset VIRTIO_MMIO_DEVICE_ID = 0x008"
| "virtio_offset VIRTIO_MMIO_VENDOR_ID = 0x00c"
| "virtio_offset VIRTIO_MMIO_DEVICE_FEATURES = 0x010"
| "virtio_offset VIRTIO_MMIO_DRIVER_FEATURES = 0x020"
| "virtio_offset VIRTIO_MMIO_QUEUE_SEL = 0x030"
| "virtio_offset VIRTIO_MMIO_QUEUE_NUM_MAX = 0x034"
| "virtio_offset VIRTIO_MMIO_QUEUE_NUM = 0x038"
| "virtio_offset VIRTIO_MMIO_QUEUE_READY = 0x044"
| "virtio_offset VIRTIO_MMIO_QUEUE_NOTIFY = 0x050"
| "virtio_offset VIRTIO_MMIO_INTERRUPT_STATUS = 0x060"
| "virtio_offset VIRTIO_MMIO_INTERRUPT_ACK = 0x064"
| "virtio_offset VIRTIO_MMIO_STATUS = 0x070"
| "virtio_offset VIRTIO_MMIO_QUEUE_DESC_LOW = 0x080"
| "virtio_offset VIRTIO_MMIO_QUEUE_DESC_HIGH = 0x084"
| "virtio_offset VIRTIO_MMIO_DRIVER_DESC_LOW = 0x090"
| "virtio_offset VIRTIO_MMIO_DRIVER_DESC_HIGH = 0x094"
| "virtio_offset VIRTIO_MMIO_DEVICE_DESC_LOW = 0x0a0"
| "virtio_offset VIRTIO_MMIO_DEVICE_DESC_HIGH = 0x0a4"

definition VIRTIO_CONFIG_S_ACKNOWLEDGE :: uint where "VIRTIO_CONFIG_S_ACKNOWLEDGE = 1"
definition VIRTIO_CONFIG_S_DRIVER :: uint where "VIRTIO_CONFIG_S_DRIVER = 2"
definition VIRTIO_CONFIG_S_DRIVER_OK :: uint where "VIRTIO_CONFIG_S_DRIVER_OK = 4"
definition VIRTIO_CONFIG_S_FEATURES_OK :: uint where "VIRTIO_CONFIG_S_FEATURES_OK = 8"

definition VIRTIO_BLK_F_RO :: nat where "VIRTIO_BLK_F_RO = 5"
definition VIRTIO_BLK_F_SCSI :: nat where "VIRTIO_BLK_F_SCSI = 7"
definition VIRTIO_BLK_F_CONFIG_WCE :: nat where "VIRTIO_BLK_F_CONFIG_WCE = 11"
definition VIRTIO_BLK_F_MQ :: nat where "VIRTIO_BLK_F_MQ = 12"
definition VIRTIO_F_ANY_LAYOUT :: nat where "VIRTIO_F_ANY_LAYOUT = 27"
definition VIRTIO_RING_F_INDIRECT_DESC :: nat where "VIRTIO_RING_F_INDIRECT_DESC = 28"
definition VIRTIO_RING_F_EVENT_IDX :: nat where "VIRTIO_RING_F_EVENT_IDX = 29"

definition NUM :: nat where "NUM = 8"
definition VRING_DESC_F_NEXT :: uint16 where "VRING_DESC_F_NEXT = 1"
definition VRING_DESC_F_WRITE :: uint16 where "VRING_DESC_F_WRITE = 2"
definition VIRTIO_BLK_T_IN :: uint where "VIRTIO_BLK_T_IN = 0"
definition VIRTIO_BLK_T_OUT :: uint where "VIRTIO_BLK_T_OUT = 1"

datatype vaddr = VNull | VReq nat | VData nat | VStatus nat

record virtq_desc =
  d_addr :: vaddr
  d_len :: uint
  d_flags :: uint16
  d_next :: uint16

record virtq_avail =
  av_flags :: uint16
  av_idx :: uint16
  av_ring :: "nat \<Rightarrow> uint16"

record virtq_used_elem =
  ue_id :: uint
  ue_len :: uint

record virtq_used =
  us_flags :: uint16
  us_idx :: uint16
  us_ring :: "nat \<Rightarrow> virtq_used_elem"

record virtio_blk_req =
  vr_type :: uint
  vr_reserved :: uint
  vr_sector :: uint64

record vdisk =
  v_desc :: "nat \<Rightarrow> virtq_desc"
  v_avail :: virtq_avail
  v_used :: virtq_used
  v_free :: "nat \<Rightarrow> bool"
  v_used_idx :: uint16
  v_info_b :: "nat \<Rightarrow> nat option"
  v_info_status :: "nat \<Rightarrow> byte"
  v_ops :: "nat \<Rightarrow> virtio_blk_req"
  v_desc_pa :: uint64
  v_avail_pa :: uint64
  v_used_pa :: uint64

record vst = psst +
  vd :: vdisk
  vreg :: "virtio_reg \<Rightarrow> uint"
  vdev_accepts :: "uint \<Rightarrow> bool"
  vdev_seen :: uint16

definition upd_vd :: "(vdisk \<Rightarrow> vdisk) \<Rightarrow> 'z vst_scheme \<Rightarrow> 'z vst_scheme" where
  "upd_vd f s = s\<lparr>vd := f (vd s)\<rparr>"

definition wreg :: "virtio_reg \<Rightarrow> uint \<Rightarrow> 'z vst_scheme \<Rightarrow> 'z vst_scheme" where
  "wreg r v s = s\<lparr>vreg := (vreg s)(r := v)\<rparr>"

text \<open>The device clears \<^verbatim>\<open>FEATURES_OK\<close> when it does not accept the features written.\<close>

definition read_status :: "'z vst_scheme \<Rightarrow> uint" where
  "read_status s =
     (if vdev_accepts s (vreg s VIRTIO_MMIO_DRIVER_FEATURES) then vreg s VIRTIO_MMIO_STATUS
      else vreg s VIRTIO_MMIO_STATUS AND NOT VIRTIO_CONFIG_S_FEATURES_OK)"

section \<open>Initialisation\<close>

definition zero_desc :: virtq_desc where
  "zero_desc = \<lparr>d_addr = VNull, d_len = 0, d_flags = 0, d_next = 0\<rparr>"

definition features_mask :: "uint \<Rightarrow> uint" where
  "features_mask f =
     (let f = f AND NOT (push_bit VIRTIO_BLK_F_RO 1);
          f = f AND NOT (push_bit VIRTIO_BLK_F_SCSI 1);
          f = f AND NOT (push_bit VIRTIO_BLK_F_CONFIG_WCE 1);
          f = f AND NOT (push_bit VIRTIO_BLK_F_MQ 1);
          f = f AND NOT (push_bit VIRTIO_F_ANY_LAYOUT 1);
          f = f AND NOT (push_bit VIRTIO_RING_F_EVENT_IDX 1)
      in f AND NOT (push_bit VIRTIO_RING_F_INDIRECT_DESC 1))"

definition virtio_queue_init :: "uint \<Rightarrow> 'z vst_scheme \<Rightarrow> ('z vst_scheme, unit) res" where
  "virtio_queue_init status s =
     bnd (kalloc s) (\<lambda>desc s.
     bnd (kalloc s) (\<lambda>avail s.
     bnd (kalloc s) (\<lambda>used s.
     let s = upd_vd (\<lambda>v. v\<lparr>v_desc_pa := desc, v_avail_pa := avail, v_used_pa := used\<rparr>) s in
     if desc = 0 \<or> avail = 0 \<or> used = 0 then Panic ''virtio disk kalloc''
     else
       let s = upd_vd (\<lambda>v. v\<lparr>v_desc := (\<lambda>_. zero_desc)\<rparr>) s;
           s = upd_vd (\<lambda>v. v\<lparr>v_avail := \<lparr>av_flags = 0, av_idx = 0, av_ring = (\<lambda>_. 0)\<rparr>\<rparr>) s;
           s = upd_vd (\<lambda>v. v\<lparr>v_used := \<lparr>us_flags = 0, us_idx = 0, us_ring = (\<lambda>_. \<lparr>ue_id = 0, ue_len = 0\<rparr>)\<rparr>\<rparr>) s;
           s = wreg VIRTIO_MMIO_QUEUE_NUM (of_nat NUM) s;
           s = wreg VIRTIO_MMIO_QUEUE_DESC_LOW (ucast desc) s;
           s = wreg VIRTIO_MMIO_QUEUE_DESC_HIGH (ucast (drop_bit 32 desc)) s;
           s = wreg VIRTIO_MMIO_DRIVER_DESC_LOW (ucast avail) s;
           s = wreg VIRTIO_MMIO_DRIVER_DESC_HIGH (ucast (drop_bit 32 avail)) s;
           s = wreg VIRTIO_MMIO_DEVICE_DESC_LOW (ucast used) s;
           s = wreg VIRTIO_MMIO_DEVICE_DESC_HIGH (ucast (drop_bit 32 used)) s;
           s = wreg VIRTIO_MMIO_QUEUE_READY 1 s;
           s = upd_vd (\<lambda>v. v\<lparr>v_free := (\<lambda>i. i < NUM \<or> v_free v i)\<rparr>) s
       in Ret () (wreg VIRTIO_MMIO_STATUS (status OR VIRTIO_CONFIG_S_DRIVER_OK) s))))"

definition virtio_disk_init :: "'z vst_scheme \<Rightarrow> ('z vst_scheme, unit) res" where
  "virtio_disk_init s =
     (let s = initlock L_vdisk ''virtio_disk'' s in
      if vreg s VIRTIO_MMIO_MAGIC_VALUE \<noteq> 0x74726976 \<or> vreg s VIRTIO_MMIO_VERSION \<noteq> 2
         \<or> vreg s VIRTIO_MMIO_DEVICE_ID \<noteq> 2 \<or> vreg s VIRTIO_MMIO_VENDOR_ID \<noteq> 0x554d4551
      then Panic ''could not find virtio disk''
      else
        let status = 0;
            s = wreg VIRTIO_MMIO_STATUS status s;
            status = status OR VIRTIO_CONFIG_S_ACKNOWLEDGE;
            s = wreg VIRTIO_MMIO_STATUS status s;
            status = status OR VIRTIO_CONFIG_S_DRIVER;
            s = wreg VIRTIO_MMIO_STATUS status s;
            s = wreg VIRTIO_MMIO_DRIVER_FEATURES (features_mask (vreg s VIRTIO_MMIO_DEVICE_FEATURES)) s;
            status = status OR VIRTIO_CONFIG_S_FEATURES_OK;
            s = wreg VIRTIO_MMIO_STATUS status s;
            status = read_status s
        in if status AND VIRTIO_CONFIG_S_FEATURES_OK = 0 then Panic ''virtio disk FEATURES_OK unset''
           else
             let s = wreg VIRTIO_MMIO_QUEUE_SEL 0 s in
             if vreg s VIRTIO_MMIO_QUEUE_READY \<noteq> 0 then Panic ''virtio disk should not be ready''
             else if vreg s VIRTIO_MMIO_QUEUE_NUM_MAX = 0 then Panic ''virtio disk has no queue 0''
             else if vreg s VIRTIO_MMIO_QUEUE_NUM_MAX < of_nat NUM then Panic ''virtio disk max queue too short''
             else virtio_queue_init status s)"

section \<open>Descriptors\<close>

primrec alloc_desc_loop :: "nat list \<Rightarrow> vdisk \<Rightarrow> nat option \<times> vdisk" where
  "alloc_desc_loop [] v = (None, v)"
| "alloc_desc_loop (i # is) v =
     (if v_free v i then (Some i, v\<lparr>v_free := (v_free v)(i := False)\<rparr>) else alloc_desc_loop is v)"

definition alloc_desc :: "vdisk \<Rightarrow> nat option \<times> vdisk" where
  "alloc_desc v = alloc_desc_loop [0..<NUM] v"

definition free_desc :: "nat \<Rightarrow> 'z vst_scheme \<Rightarrow> ('z vst_scheme, unit) res" where
  "free_desc i s =
     (if i \<ge> NUM then Panic ''free_desc 1''
      else if v_free (vd s) i then Panic ''free_desc 2''
      else wakeup Ch_disk_free (upd_vd (\<lambda>v. v\<lparr>v_desc := (v_desc v)(i := zero_desc), v_free := (v_free v)(i := True)\<rparr>) s))"

text \<open>
  A chain that came back to a descriptor already freed would make \<^verbatim>\<open>free_desc\<close> panic, so \<open>NUM\<close>
  rounds are enough fuel.
\<close>

primrec free_chain_loop :: "nat \<Rightarrow> nat \<Rightarrow> 'z vst_scheme \<Rightarrow> ('z vst_scheme, unit) res" where
  "free_chain_loop 0 i s = Hang"
| "free_chain_loop (Suc k) i s =
     (let flag = d_flags (v_desc (vd s) i);
          nxt = d_next (v_desc (vd s) i)
      in seq (free_desc i s) (\<lambda>s.
         if flag AND VRING_DESC_F_NEXT \<noteq> 0 then free_chain_loop k (unat nxt) s else Ret () s))"

definition free_chain :: "nat \<Rightarrow> 'z vst_scheme \<Rightarrow> ('z vst_scheme, unit) res" where
  "free_chain i s = free_chain_loop (Suc NUM) i s"

primrec free_descs :: "nat list \<Rightarrow> 'z vst_scheme \<Rightarrow> ('z vst_scheme, unit) res" where
  "free_descs [] s = Ret () s"
| "free_descs (i # is) s = seq (free_desc i s) (\<lambda>s. free_descs is s)"

text \<open>\<open>got\<close> are the descriptors allocated so far, \<open>k\<close> the number still needed.\<close>

primrec alloc3_desc_loop :: "nat \<Rightarrow> nat list \<Rightarrow> 'z vst_scheme \<Rightarrow> ('z vst_scheme, nat list option) res" where
  "alloc3_desc_loop 0 got s = Ret (Some got) s"
| "alloc3_desc_loop (Suc k) got s =
     (case alloc_desc (vd s) of
        (Some i, v) \<Rightarrow> alloc3_desc_loop k (got @ [i]) (s\<lparr>vd := v\<rparr>)
      | (None, v) \<Rightarrow> seq (free_descs got (s\<lparr>vd := v\<rparr>)) (\<lambda>s. Ret None s))"

definition alloc3_desc :: "'z vst_scheme \<Rightarrow> ('z vst_scheme, nat list option) res" where
  "alloc3_desc s = alloc3_desc_loop 3 [] s"

section \<open>Requests\<close>

definition virtio_format :: "nat \<Rightarrow> bool \<Rightarrow> nat \<Rightarrow> nat \<Rightarrow> nat \<Rightarrow> uint64 \<Rightarrow> vdisk \<Rightarrow> vdisk" where
  "virtio_format b write i0 i1 i2 sector v =
     (let v = v\<lparr>v_ops := (v_ops v)(i0 := \<lparr>vr_type = (if write then VIRTIO_BLK_T_OUT else VIRTIO_BLK_T_IN),
                vr_reserved = 0, vr_sector = sector\<rparr>)\<rparr>;
          v = v\<lparr>v_desc := (v_desc v)(i0 := \<lparr>d_addr = VReq i0, d_len = 16, d_flags = VRING_DESC_F_NEXT,
                d_next = of_nat i1\<rparr>)\<rparr>;
          v = v\<lparr>v_desc := (v_desc v)(i1 := \<lparr>d_addr = VData b, d_len = of_nat BSIZE,
                d_flags = (if write then 0 else VRING_DESC_F_WRITE) OR VRING_DESC_F_NEXT, d_next = of_nat i2\<rparr>)\<rparr>;
          v = v\<lparr>v_info_status := (v_info_status v)(i0 := 0xff)\<rparr>;
          v = v\<lparr>v_desc := (v_desc v)(i2 := \<lparr>d_addr = VStatus i0, d_len = 1, d_flags = VRING_DESC_F_WRITE,
                d_next = 0\<rparr>)\<rparr>
      in v\<lparr>v_info_b := (v_info_b v)(i0 := Some b)\<rparr>)"

text \<open>After the notification, and each time the waiting process is woken.\<close>

definition virtio_disk_rw_wait :: "nat \<Rightarrow> nat \<Rightarrow> 'z vst_scheme \<Rightarrow> ('z vst_scheme, unit) res" where
  "virtio_disk_rw_wait b i0 s =
     (if b_disk (bufs s b) then sleep (Ch_buf b) L_vdisk s
      else let s = upd_vd (\<lambda>v. v\<lparr>v_info_b := (v_info_b v)(i0 := None)\<rparr>) s in
      seq (free_chain i0 s) (\<lambda>s. release L_vdisk s))"

definition virtio_submit :: "nat \<Rightarrow> bool \<Rightarrow> nat list \<Rightarrow> 'z vst_scheme \<Rightarrow> 'z vst_scheme" where
  "virtio_submit b write idx s =
     (let sector = ucast (b_blockno (bufs s b) * of_nat (BSIZE div 512));
          s = upd_vd (virtio_format b write (idx ! 0) (idx ! 1) (idx ! 2) sector) s;
          s = upd_buf b (\<lambda>x. x\<lparr>b_disk := True\<rparr>) s;
          s = upd_vd (\<lambda>v. v\<lparr>v_avail := (v_avail v)\<lparr>av_ring :=
                (av_ring (v_avail v))(unat (av_idx (v_avail v)) mod NUM := of_nat (idx ! 0))\<rparr>\<rparr>) s;
          s = upd_vd (\<lambda>v. v\<lparr>v_avail := (v_avail v)\<lparr>av_idx := av_idx (v_avail v) + 1\<rparr>\<rparr>) s
      in wreg VIRTIO_MMIO_QUEUE_NOTIFY 0 s)"

text \<open>The loop that allocates descriptors; a process that has to wait for them comes back to it.\<close>

definition virtio_disk_rw_alloc :: "nat \<Rightarrow> bool \<Rightarrow> 'z vst_scheme \<Rightarrow> ('z vst_scheme, unit) res" where
  "virtio_disk_rw_alloc b write s =
     bnd (alloc3_desc s) (\<lambda>r s.
     case r of
       None \<Rightarrow> sleep Ch_disk_free L_vdisk s
     | Some idx \<Rightarrow> virtio_disk_rw_wait b (idx ! 0) (virtio_submit b write idx s))"

definition virtio_disk_rw :: "nat \<Rightarrow> bool \<Rightarrow> 'z vst_scheme \<Rightarrow> ('z vst_scheme, unit) res" where
  "virtio_disk_rw b write s =
     seq (acquire L_vdisk s) (\<lambda>s. virtio_disk_rw_alloc b write s)"

text \<open>The completions to handle are those between \<^verbatim>\<open>disk.used_idx\<close> and \<^verbatim>\<open>disk.used->idx\<close>.\<close>

primrec virtio_disk_intr_loop :: "nat \<Rightarrow> 'z vst_scheme \<Rightarrow> ('z vst_scheme, unit) res" where
  "virtio_disk_intr_loop 0 s = (if v_used_idx (vd s) = us_idx (v_used (vd s)) then Ret () s else Hang)"
| "virtio_disk_intr_loop (Suc k) s =
     (if v_used_idx (vd s) = us_idx (v_used (vd s)) then Ret () s
      else
        let i = unat (ue_id (us_ring (v_used (vd s)) (unat (v_used_idx (vd s)) mod NUM))) in
        if v_info_status (vd s) i \<noteq> 0 then Panic ''virtio_disk_intr status''
        else deref (v_info_b (vd s) i) (\<lambda>b.
        seq (wakeup (Ch_buf b) (upd_buf b (\<lambda>x. x\<lparr>b_disk := False\<rparr>) s)) (\<lambda>s.
        virtio_disk_intr_loop k (upd_vd (\<lambda>v. v\<lparr>v_used_idx := v_used_idx v + 1\<rparr>) s))))"

definition virtio_disk_intr :: "'z vst_scheme \<Rightarrow> ('z vst_scheme, unit) res" where
  "virtio_disk_intr s =
     seq (acquire L_vdisk s) (\<lambda>s.
     let s = wreg VIRTIO_MMIO_INTERRUPT_ACK (vreg s VIRTIO_MMIO_INTERRUPT_STATUS AND 3) s in
     seq (virtio_disk_intr_loop (unat (us_idx (v_used (vd s)) - v_used_idx (vd s))) s) (\<lambda>s.
     release L_vdisk s))"

section \<open>The device\<close>

definition vdev_step :: "'z vst_scheme \<Rightarrow> 'z vst_scheme option" where
  "vdev_step s =
     (let v = vd s;
          i0 = unat (av_ring (v_avail v) (unat (vdev_seen s) mod NUM));
          d0 = v_desc v i0;
          d1 = v_desc v (unat (d_next d0));
          d2 = v_desc v (unat (d_next d1))
      in if vdev_seen s = av_idx (v_avail v) then None
         else case (d_addr d0, d_addr d1, d_addr d2) of
           (VReq q, VData b, VStatus t) \<Rightarrow>
             (let blk = ucast (vr_sector (v_ops v q) div of_nat (BSIZE div 512));
                  s = (if vr_type (v_ops v q) = VIRTIO_BLK_T_OUT
                       then s\<lparr>disk := (disk s)(blk := b_data (bufs s b)), dtrace := (blk, b_data (bufs s b)) # dtrace s\<rparr>
                       else upd_buf b (\<lambda>x. x\<lparr>b_data := disk s blk\<rparr>) s);
                  s = upd_vd (\<lambda>v. v\<lparr>v_info_status := (v_info_status v)(t := 0)\<rparr>) s;
                  s = upd_vd (\<lambda>v. v\<lparr>v_used := (v_used v)\<lparr>
                        us_ring := (us_ring (v_used v))(unat (us_idx (v_used v)) mod NUM := \<lparr>ue_id = of_nat i0, ue_len = 0\<rparr>),
                        us_idx := us_idx (v_used v) + 1\<rparr>\<rparr>) s
              in Some (s\<lparr>vdev_seen := vdev_seen s + 1, vreg := (vreg s)(VIRTIO_MMIO_INTERRUPT_STATUS := 1)\<rparr>))
         | _ \<Rightarrow> None)"

end
