(* ===== verification/Xv6_Trap.thy ===== *)
theory Xv6_Trap
  imports Xv6_Virtio
begin

text \<open>
  Traps and start-up: \<^verbatim>\<open>kernel/trap.c\<close>, \<^verbatim>\<open>kernel/plic.c\<close>, \<^verbatim>\<open>forkret\<close> of \<^verbatim>\<open>kernel/proc.c\<close>,
  \<^verbatim>\<open>kvminithart\<close> of \<^verbatim>\<open>kernel/vm.c\<close>, \<^verbatim>\<open>kernel/start.c\<close> and \<^verbatim>\<open>kernel/main.c\<close>.

  \<open>csr\<close> holds the supervisor control registers of the running hart; the interrupt enable bit of
  \<^verbatim>\<open>sstatus\<close> is the field \<open>intr\<close> of the machine. Of the interrupt controller the kernel sees its
  registers and, through the claim register, the interrupts pending for the hart.

  \<^verbatim>\<open>usertrapret\<close> leaves the kernel by jumping into the trampoline page: its value is the target
  of that jump with the argument, the user \<^verbatim>\<open>satp\<close>.
\<close>

section \<open>Control registers\<close>

record csrs =
  stvec :: uint64
  sepc :: uint64
  scause :: uint64
  stval :: uint64
  sstatus :: uint64
  satp :: uint64
  sip :: uint64

record trst = vst +
  csr :: csrs
  plic :: "uint64 \<Rightarrow> uint"
  plic_pending :: "uint list"
  plic_completed :: "uint list"
  started :: bool

definition upd_csr :: "(csrs \<Rightarrow> csrs) \<Rightarrow> 'z trst_scheme \<Rightarrow> 'z trst_scheme" where
  "upd_csr f s = s\<lparr>csr := f (csr s)\<rparr>"

definition r_sstatus :: "'z trst_scheme \<Rightarrow> uint64" where
  "r_sstatus s = (sstatus (csr s) AND NOT SSTATUS_SIE) OR (if intr_get s then SSTATUS_SIE else 0)"

definition w_sstatus :: "uint64 \<Rightarrow> 'z trst_scheme \<Rightarrow> 'z trst_scheme" where
  "w_sstatus x s =
     upd_csr (\<lambda>c. c\<lparr>sstatus := x\<rparr>) (if x AND SSTATUS_SIE \<noteq> 0 then intr_on s else intr_off s)"

definition kvminithart :: "'z trst_scheme \<Rightarrow> 'z trst_scheme" where
  "kvminithart s = upd_csr (\<lambda>c. c\<lparr>satp := MAKE_SATP (kernel_pagetable s)\<rparr>) s"

section \<open>kernel/plic.c\<close>

definition PLIC_SENABLE :: "nat \<Rightarrow> uint64" where
  "PLIC_SENABLE hart = PLIC + 0x2080 + of_nat hart * 0x100"

definition PLIC_SPRIORITY :: "nat \<Rightarrow> uint64" where
  "PLIC_SPRIORITY hart = PLIC + 0x201000 + of_nat hart * 0x2000"

definition plicinit :: "'z trst_scheme \<Rightarrow> 'z trst_scheme" where
  "plicinit s =
     (let s = s\<lparr>plic := (plic s)(PLIC + ucast UART0_IRQ * 4 := 1)\<rparr>
      in s\<lparr>plic := (plic s)(PLIC + ucast VIRTIO0_IRQ * 4 := 1)\<rparr>)"

definition plicinithart :: "'z trst_scheme \<Rightarrow> 'z trst_scheme" where
  "plicinithart s =
     (let hart = cpuid s;
          s = s\<lparr>plic := (plic s)(PLIC_SENABLE hart := push_bit (unat UART0_IRQ) 1 OR push_bit (unat VIRTIO0_IRQ) 1)\<rparr>
      in s\<lparr>plic := (plic s)(PLIC_SPRIORITY hart := 0)\<rparr>)"

text \<open>Reading the claim register takes the next pending interrupt, 0 if there is none.\<close>

definition plic_claim :: "'z trst_scheme \<Rightarrow> uint \<times> 'z trst_scheme" where
  "plic_claim s =
     (case plic_pending s of [] \<Rightarrow> (0, s) | irq # irqs \<Rightarrow> (irq, s\<lparr>plic_pending := irqs\<rparr>))"

definition plic_complete :: "uint \<Rightarrow> 'z trst_scheme \<Rightarrow> 'z trst_scheme" where
  "plic_complete irq s = s\<lparr>plic_completed := irq # plic_completed s\<rparr>"

section \<open>kernel/trap.c\<close>

definition trapinit :: "'z trst_scheme \<Rightarrow> 'z trst_scheme" where
  "trapinit s = initlock L_ticks ''time'' s"

definition trapinithart :: "'z trst_scheme \<Rightarrow> 'z trst_scheme" where
  "trapinithart s = upd_csr (\<lambda>c. c\<lparr>stvec := sym_kernelvec s\<rparr>) s"

definition clockintr :: "'z trst_scheme \<Rightarrow> ('z trst_scheme, unit) res" where
  "clockintr s =
     seq (acquire L_ticks s) (\<lambda>s.
     seq (wakeup Ch_ticks (s\<lparr>ticks := ticks s + 1\<rparr>)) (\<lambda>s.
     release L_ticks s))"

definition devintr :: "'z trst_scheme \<Rightarrow> ('z trst_scheme, nat) res" where
  "devintr s =
     (let sc = scause (csr s) in
      if sc AND 0x8000000000000000 \<noteq> 0 \<and> sc AND 0xff = 9 then
        case plic_claim s of (irq, s) \<Rightarrow>
          seq (if irq = UART0_IRQ then uartintr s
               else if irq = VIRTIO0_IRQ then virtio_disk_intr s
               else if irq \<noteq> 0 then printk (pbytes ''unexpected interrupt irq=%d'' @ [10]) [PInt irq] s
               else Ret () s) (\<lambda>s.
          Ret 1 (if irq \<noteq> 0 then plic_complete irq s else s))
      else if sc = 0x8000000000000001 then
        seq (if cpuid s = 0 then clockintr s else Ret () s) (\<lambda>s.
        Ret 2 (upd_csr (\<lambda>c. c\<lparr>sip := sip c AND NOT 2\<rparr>) s))
      else Ret 0 s)"

definition usertrapret :: "'z trst_scheme \<Rightarrow> ('z trst_scheme, uint64 \<times> uint64) res" where
  "usertrapret s =
     bnd (myproc s) (\<lambda>p s. deref p (\<lambda>p.
     let s = intr_off s;
         s = upd_csr (\<lambda>c. c\<lparr>stvec := TRAMPOLINE + (sym_uservec s - trampoline s)\<rparr>) s;
         s = tf_store TF_kernel_satp (satp (csr s)) p s;
         s = tf_store TF_kernel_sp (p_kstack (procs s p) + PGSIZE) p s;
         s = tf_store TF_kernel_trap (sym_usertrap s) p s;
         s = tf_store TF_kernel_hartid (of_nat (tp s)) p s;
         x = (r_sstatus s AND NOT SSTATUS_SPP) OR SSTATUS_SPIE;
         s = w_sstatus x s;
         s = upd_csr (\<lambda>c. c\<lparr>sepc := tf_load TF_epc p s\<rparr>) s
     in Ret (TRAMPOLINE + (sym_userret s - trampoline s), MAKE_SATP (p_pagetable (procs s p))) s))"

text \<open>The end of \<^verbatim>\<open>usertrap\<close>, also after a \<^verbatim>\<open>yield\<close> has come back.\<close>

definition usertrap_end :: "nat \<Rightarrow> nat \<Rightarrow> 'z trst_scheme \<Rightarrow> ('z trst_scheme, uint64 \<times> uint64) res" where
  "usertrap_end which_dev p s =
     bnd (killed p s) (\<lambda>k s.
     if k \<noteq> 0 then kexit (-1) s
     else seq (if which_dev = 2 then yield s else Ret () s) (\<lambda>s. usertrapret s))"

definition usertrap :: "'z trst_scheme \<Rightarrow> ('z trst_scheme, uint64 \<times> uint64) res" where
  "usertrap s =
     (if r_sstatus s AND SSTATUS_SPP \<noteq> 0 then Panic ''usertrap: not from user mode''
      else let s = upd_csr (\<lambda>c. c\<lparr>stvec := sym_kernelvec s\<rparr>) s in
      bnd (myproc s) (\<lambda>po s. deref po (\<lambda>p.
      let s = tf_store TF_epc (sepc (csr s)) p s in
      if scause (csr s) = 8 then
        bnd (killed p s) (\<lambda>k s.
        if k \<noteq> 0 then kexit (-1) s
        else let s = tf_store TF_epc (tf_load TF_epc p s + 4) p s;
                 s = intr_on s
             in seq (syscall s) (\<lambda>s. usertrap_end 0 p s))
      else
        bnd (devintr s) (\<lambda>which_dev s.
        if which_dev \<noteq> 0 then usertrap_end which_dev p s
        else
          seq (printk (pbytes ''usertrap(): unexpected scause %p pid=%d'' @ [10])
                 [PPtr (scause (csr s)), PInt (p_pid (procs s p))] s) (\<lambda>s.
          seq (printk (pbytes ''            sepc=%p stval=%p'' @ [10])
                 [PPtr (sepc (csr s)), PPtr (stval (csr s))] s) (\<lambda>s.
          seq (setkilled p s) (\<lambda>s. usertrap_end 0 p s)))))))"

definition kerneltrap :: "'z trst_scheme \<Rightarrow> ('z trst_scheme, unit) res" where
  "kerneltrap s =
     (let epc0 = sepc (csr s);
          status0 = r_sstatus s;
          cause0 = scause (csr s)
      in if status0 AND SSTATUS_SPP = 0 then Panic ''kerneltrap: not from supervisor mode''
         else if intr_get s then Panic ''kerneltrap: interrupts enabled''
         else bnd (devintr s) (\<lambda>which_dev s.
         if which_dev = 0 then
           seq (printk (pbytes ''scause %p'' @ [10]) [PPtr cause0] s) (\<lambda>s.
           seq (printk (pbytes ''sepc=%p stval=%p'' @ [10]) [PPtr (sepc (csr s)), PPtr (stval (csr s))] s) (\<lambda>s.
           Panic ''kerneltrap''))
         else
           bnd (myproc s) (\<lambda>po s.
           seq (if which_dev = 2 \<and> po \<noteq> None \<and> p_state (procs s (the po)) = RUNNING then yield s else Ret () s) (\<lambda>s.
           Ret () (w_sstatus status0 (upd_csr (\<lambda>c. c\<lparr>sepc := epc0\<rparr>) s))))))"

definition forkret :: "'z trst_scheme \<Rightarrow> ('z trst_scheme, uint64 \<times> uint64) res" where
  "forkret s =
     bnd (myproc s) (\<lambda>po s. deref po (\<lambda>p.
     seq (release (L_proc p) s) (\<lambda>s.
     seq (if first s then fsinit ROOTDEV (s\<lparr>first := False\<rparr>) else Ret () s) (\<lambda>s.
     usertrapret s))))"

section \<open>kernel/main.c\<close>

text \<open>Everything before the call of \<^verbatim>\<open>scheduler\<close>.\<close>

definition main_boot :: "'z trst_scheme \<Rightarrow> ('z trst_scheme, unit) res" where
  "main_boot s =
     (if cpuid s = 0 then
        let s = consoleinit s;
            s = printfinit s
        in seq (printk [10] [] s) (\<lambda>s.
        seq (printk (pbytes ''xv6 kernel is booting'' @ [10]) [] s) (\<lambda>s.
        seq (printk [10] [] s) (\<lambda>s.
        seq (kinit s) (\<lambda>s.
        seq (kvminit s) (\<lambda>s.
        let s = kvminithart s;
            s = procinit s;
            s = trapinit s;
            s = trapinithart s;
            s = plicinit s;
            s = plicinithart s;
            s = binit s;
            s = iinit s;
            s = fileinit s
        in seq (virtio_disk_init s) (\<lambda>s.
        seq (userinit s) (\<lambda>s.
        Ret () (s\<lparr>started := True\<rparr>))))))))
      else if \<not> started s then Hang
      else
        seq (printk (pbytes ''hart %d starting'' @ [10]) [PInt (of_nat (cpuid s))] s) (\<lambda>s.
        Ret () (plicinithart (trapinithart (kvminithart s)))))"

definition kmain :: "'z trst_scheme \<Rightarrow> ('z trst_scheme, nat option) res" where
  "kmain s = seq (main_boot s) (\<lambda>s. scheduler s)"

section \<open>kernel/start.c\<close>

text \<open>
  The machine-mode registers of the hart, before the switch to supervisor mode. \<open>mtimecmp\<close> and
  \<open>mtime\<close> are the registers of the timer; the linker symbols are arguments.
\<close>

record mregs =
  mstatus :: uint64
  mepc :: uint64
  m_satp :: uint64
  medeleg :: uint64
  mideleg :: uint64
  sie :: uint64
  pmpaddr0 :: uint64
  pmpcfg0 :: uint64
  mscratch :: uint64
  mtvec :: uint64
  mie :: uint64
  mhartid :: uint64
  m_tp :: uint64
  mtimecmp :: "uint64 \<Rightarrow> uint64"
  mtime :: uint64
  timer_scratch :: "uint64 \<Rightarrow> nat \<Rightarrow> uint64"

definition MSTATUS_MPP_MASK :: uint64 where "MSTATUS_MPP_MASK = push_bit 11 3"
definition MSTATUS_MPP_S :: uint64 where "MSTATUS_MPP_S = push_bit 11 1"
definition MSTATUS_MIE :: uint64 where "MSTATUS_MIE = push_bit 3 1"
definition SIE_SEIE :: uint64 where "SIE_SEIE = push_bit 9 1"
definition SIE_STIE :: uint64 where "SIE_STIE = push_bit 5 1"
definition SIE_SSIE :: uint64 where "SIE_SSIE = push_bit 1 1"
definition MIE_MTIE :: uint64 where "MIE_MTIE = push_bit 7 1"
definition CLINT :: uint64 where "CLINT = 0x2000000"
definition CLINT_MTIMECMP :: "uint64 \<Rightarrow> uint64" where
  "CLINT_MTIMECMP hartid = CLINT + 0x4000 + 8 * hartid"

definition timerinit :: "uint64 \<Rightarrow> (uint64 \<Rightarrow> uint64) \<Rightarrow> mregs \<Rightarrow> mregs" where
  "timerinit timervec scratch_addr r =
     (let hart = mhartid r;
          interval = 1000000;
          r = r\<lparr>mtimecmp := (mtimecmp r)(hart := mtime r + interval)\<rparr>;
          r = r\<lparr>timer_scratch := (timer_scratch r)(hart := (timer_scratch r hart)(3 := CLINT_MTIMECMP hart))\<rparr>;
          r = r\<lparr>timer_scratch := (timer_scratch r)(hart := (timer_scratch r hart)(4 := interval))\<rparr>;
          r = r\<lparr>mscratch := scratch_addr hart\<rparr>;
          r = r\<lparr>mtvec := timervec\<rparr>;
          r = r\<lparr>mstatus := mstatus r OR MSTATUS_MIE\<rparr>
      in r\<lparr>mie := mie r OR MIE_MTIE\<rparr>)"

definition start :: "uint64 \<Rightarrow> uint64 \<Rightarrow> (uint64 \<Rightarrow> uint64) \<Rightarrow> mregs \<Rightarrow> mregs" where
  "start main_addr timervec scratch_addr r =
     (let x = (mstatus r AND NOT MSTATUS_MPP_MASK) OR MSTATUS_MPP_S;
          r = r\<lparr>mstatus := x\<rparr>;
          r = r\<lparr>mepc := main_addr\<rparr>;
          r = r\<lparr>m_satp := 0\<rparr>;
          r = r\<lparr>medeleg := 0xffff\<rparr>;
          r = r\<lparr>mideleg := 0xffff\<rparr>;
          r = r\<lparr>sie := sie r OR SIE_SEIE OR SIE_STIE OR SIE_SSIE\<rparr>;
          r = r\<lparr>pmpaddr0 := 0x3fffffffffffff\<rparr>;
          r = r\<lparr>pmpcfg0 := 0xf\<rparr>;
          r = timerinit timervec scratch_addr r
      in r\<lparr>m_tp := mhartid r\<rparr>)"

end
