(* ===== verification/Xv6_Crash.thy ===== *)
theory Xv6_Crash
  imports Xv6_Log
begin

text \<open>
  Crash safety of the log. The log code is summarised by the block writes it performs
  (\<open>wstep\<close>); what a crash leaves on the disk is the effect of a prefix of these writes, and what
  the next boot makes of it is the effect of \<open>recover_from_log\<close>.
\<close>

section \<open>Sequences of block writes\<close>

definition writes :: "(uint \<times> bytes) list \<Rightarrow> (uint \<Rightarrow> bytes) \<Rightarrow> uint \<Rightarrow> bytes" where
  "writes W D = fold (\<lambda>(b, d) D. D(b := d)) W D"

lemma writes_simps [simp]:
  "writes [] D = D" "writes ((b, d) # W) D = writes W (D(b := d))" "writes (V @ W) D = writes W (writes V D)"
  by (simp_all add: writes_def)

lemma writes_other: "b \<notin> fst ` set W \<Longrightarrow> writes W D b = D b"
  by (induction W arbitrary: D) auto

lemma writes_map:
  "distinct (map f is) \<Longrightarrow> i \<in> set is \<Longrightarrow> writes (map (\<lambda>i. (f i, g i)) is) D (f i) = g i"
proof (induction "is" arbitrary: D)
  case (Cons j js)
  show ?case
  proof (cases "i = j")
    case True
    have "f j \<notin> fst ` set (map (\<lambda>i. (f i, g i)) js)" using Cons.prems(1) by auto
    then have "writes (map (\<lambda>i. (f i, g i)) js) (D(f j := g j)) (f j) = (D(f j := g j)) (f j)" by (rule writes_other)
    then show ?thesis using True by simp
  qed (use Cons in auto)
qed simp

text \<open>
  \<open>wstep W U s t\<close>: from a consistent cache, with no buffer locked, to another: the blocks of \<open>W\<close>
  have been written, in this order, to the disk, no other block has changed, and the buffers in
  \<open>U\<close> have lost one reference.
\<close>

definition wstep :: "(uint \<times> bytes) list \<Rightarrow> nat set \<Rightarrow> 'z bst_scheme \<Rightarrow> 'z bst_scheme \<Rightarrow> bool" where
  "wstep W U s t \<longleftrightarrow> binv {} t \<and> bframe s t \<and> disk t = writes W (disk s) \<and> dtrace t = rev W @ dtrace s
     \<and> (\<forall>c. block_of c t = writes W (\<lambda>c. block_of c s) c)
     \<and> (\<forall>j. b_refcnt (bufs t j) = b_refcnt (bufs s j) - (if j \<in> U then 1 else 0))
     \<and> (\<forall>j \<in> U. b_refcnt (bufs s j) \<noteq> 0)
     \<and> (\<forall>j < NBUF. b_refcnt (bufs t j) \<noteq> 0 \<longrightarrow> b_dev (bufs t j) = b_dev (bufs s j)
          \<and> b_blockno (bufs t j) = b_blockno (bufs s j) \<and> (b_valid (bufs s j) \<longrightarrow> b_valid (bufs t j)))"

lemma wstepD:
  assumes "wstep W U s t"
  shows "binv {} t" "bframe s t" "disk t = writes W (disk s)" "dtrace t = rev W @ dtrace s"
    "\<And>c. block_of c t = writes W (\<lambda>c. block_of c s) c"
    "\<And>j. b_refcnt (bufs t j) = b_refcnt (bufs s j) - (if j \<in> U then 1 else 0)"
    "\<And>j. j \<in> U \<Longrightarrow> b_refcnt (bufs s j) \<noteq> 0"
    "\<And>j. j < NBUF \<Longrightarrow> b_refcnt (bufs t j) \<noteq> 0 \<Longrightarrow> b_dev (bufs t j) = b_dev (bufs s j)
          \<and> b_blockno (bufs t j) = b_blockno (bufs s j) \<and> (b_valid (bufs s j) \<longrightarrow> b_valid (bufs t j))"
  using assms unfolding wstep_def by blast+

lemma wstep_refl: "binv {} s \<Longrightarrow> wstep [] {} s s"
  by (simp add: wstep_def)

lemma wstep_trans:
  fixes s t u :: "'z bst_scheme"
  assumes a: "wstep V A s t" and b: "wstep W B t u" and d: "A \<inter> B = {}"
  shows "wstep (V @ W) (A \<union> B) s u"
proof -
  note A = wstepD [OF a] and B = wstepD [OF b]
  have r: "b_refcnt (bufs u j) = b_refcnt (bufs s j) - (if j \<in> A \<union> B then 1 else 0)" for j
    using A(6) [of j] B(6) [of j] d by auto
  have n: "b_refcnt (bufs s j) \<noteq> 0" if "j \<in> A \<union> B" for j
    using that A(6) [of j] A(7) [of j] B(7) [of j] d by (cases "j \<in> A") auto
  have nz: "b_refcnt (bufs t j) \<noteq> 0" if "b_refcnt (bufs u j) \<noteq> 0" for j
    using that B(6) [of j] B(7) [of j] by (cases "j \<in> B") auto
  have "(\<lambda>c. block_of c t) = writes V (\<lambda>c. block_of c s)" using A(5) by blast
  then have bl: "block_of c u = writes (V @ W) (\<lambda>c. block_of c s) c" for c using B(5) [of c] by simp
  have core: "b_dev (bufs u j) = b_dev (bufs s j) \<and> b_blockno (bufs u j) = b_blockno (bufs s j)
      \<and> (b_valid (bufs s j) \<longrightarrow> b_valid (bufs u j))" if "j < NBUF" "b_refcnt (bufs u j) \<noteq> 0" for j
    using A(8) [OF that(1) nz [OF that(2)]] B(8) [OF that] by simp
  show ?thesis unfolding wstep_def
  proof (intro conjI allI ballI impI)
    show "binv {} u" "bframe s u" using B(1) bframe_trans [OF A(2) B(2)] .
    show "disk u = writes (V @ W) (disk s)" "dtrace u = rev (V @ W) @ dtrace s" using A(3,4) B(3,4) by simp_all
  qed (use r n bl core in blast)+
qed

lemma bframe_lg: "bframe s t \<Longrightarrow> lg t = lg s"
  using bframe_eqs(1) [of s t] by (cases s, cases t) simp

text \<open>A block that no buffer references is the same in the cache and on the disk.\<close>

lemma unref_clean:
  assumes "binv H s" and "\<And>i. lookup b s = Some i \<Longrightarrow> b_refcnt (bufs s i) = 0"
  shows "block_of b s = disk s b"
proof (cases "lookup b s")
  case None
  then show ?thesis by (simp add: block_of_def)
next
  case (Some i)
  then show ?thesis using assms lookup_Some [OF Some] binvD(9) [OF assms(1), of i] by (auto simp: block_of_def)
qed


section \<open>Copying one block to another\<close>

text \<open>
  The situation after the two reads of a round of \<^verbatim>\<open>write_log\<close> or \<^verbatim>\<open>install_trans\<close>: block \<open>a\<close> is in
  buffer \<open>i\<close>, block \<open>b\<close> in buffer \<open>j\<close>.
\<close>

definition got :: "uint \<Rightarrow> nat \<Rightarrow> 'z bst_scheme \<Rightarrow> 'z bst_scheme \<Rightarrow> bool" where
  "got a i s u \<longleftrightarrow> i < NBUF \<and> b_dev (bufs u i) = ROOTDEV \<and> b_blockno (bufs u i) = a \<and> b_valid (bufs u i)
     \<and> b_data (bufs u i) = block_of a s
     \<and> (b_refcnt (bufs s i) = 0 \<longrightarrow> block_of a s = disk s a)
     \<and> (b_refcnt (bufs s i) \<noteq> 0 \<longrightarrow> b_dev (bufs s i) = ROOTDEV \<and> b_blockno (bufs s i) = a)"

definition two :: "uint \<Rightarrow> uint \<Rightarrow> nat \<Rightarrow> nat \<Rightarrow> 'z bst_scheme \<Rightarrow> 'z bst_scheme \<Rightarrow> bool" where
  "two a b i j s u \<longleftrightarrow> i \<noteq> j \<and> a \<noteq> b \<and> binv {i, j} u \<and> bframe s u \<and> disk u = disk s \<and> dtrace u = dtrace s
     \<and> got a i s u \<and> got b j s u \<and> (\<forall>c. block_of c u = block_of c s)
     \<and> (\<forall>k. b_refcnt (bufs u k) = b_refcnt (bufs s k) + (if k = i \<or> k = j then 1 else 0))
     \<and> (\<forall>k. k \<noteq> i \<longrightarrow> k \<noteq> j \<longrightarrow> bufs u k = bufs s k)"

lemma two_sym: "two a b i j s u \<Longrightarrow> two b a j i s u"
  unfolding two_def by (auto simp: insert_commute)

lemma reads_got:
  assumes "binv H s" and "reads H a i s t"
  shows "got a i s t"
proof -
  have R: "i < NBUF" "lookup a t = Some i" "b_valid (bufs t i)" "b_data (bufs t i) = block_of a s"
    "lookup a s = Some i \<or> lookup a s = None \<and> b_refcnt (bufs s i) = 0"
    using assms(2) by (auto simp: reads_def)
  have "block_of a s = disk s a" if "b_refcnt (bufs s i) = 0"
    by (rule unref_clean [OF assms(1)]) (use R(5) that in auto)
  then show ?thesis using R lookup_Some [OF R(2)] lookup_Some [of a s i] by (auto simp: got_def)
qed

lemma lookup_other:
  fixes s t :: "'z bst_scheme"
  assumes "binv H s" "binv K t" and "\<And>j. j \<noteq> i \<Longrightarrow> bufs t j = bufs s j" and "lookup b s = Some k" and "k \<noteq> i"
  shows "lookup b t = Some k"
  using lookup_eq [OF assms(2), of k] lookup_Some [OF assms(4)] assms(3) [OF assms(5)] by auto

definition free2 :: "'z bst_scheme \<Rightarrow> bool" where
  "free2 s \<longleftrightarrow> (\<exists>k l. k < NBUF \<and> l < NBUF \<and> k \<noteq> l \<and> b_refcnt (bufs s k) = 0 \<and> b_refcnt (bufs s l) = 0)"

definition noovf :: "'z bst_scheme \<Rightarrow> bool" where
  "noovf s \<longleftrightarrow> (\<forall>j < NBUF. b_refcnt (bufs s j) + 1 \<noteq> 0)"

definition pinned :: "uint \<Rightarrow> 'z bst_scheme \<Rightarrow> bool" where
  "pinned b s \<longleftrightarrow> (\<exists>k. lookup b s = Some k \<and> b_valid (bufs s k) \<and> b_refcnt (bufs s k) \<noteq> 0)"

lemma mayread_next:
  fixes s t :: "'z bst_scheme"
  assumes inv: "binv {} s" and rd: "reads {} a i s t" and ne: "a \<noteq> b" and ov: "noovf s"
    and c: "pinned b s \<or> free2 s"
  shows "mayread {i} b t"
proof -
  have R: "i < NBUF" "binv {i} t" "lookup a t = Some i" "\<And>j. j \<noteq> i \<Longrightarrow> bufs t j = bufs s j"
    "lookup a s = Some i \<or> lookup a s = None \<and> b_refcnt (bufs s i) = 0"
    using rd by (auto simp: reads_def)
  have nb: "lookup b t \<noteq> Some i" using lookup_Some [OF R(3)] lookup_Some [of b t i] ne by auto
  show ?thesis
  proof (cases "lookup b t")
    case (Some k)
    then have "k \<noteq> i" "k < NBUF" using nb lookup_Some [OF Some] by auto
    then show ?thesis using Some R(4) [of k] ov by (simp add: mayread_def noovf_def)
  next
    case None
    have "\<not> pinned b s"
    proof
      assume "pinned b s"
      then obtain k where k: "lookup b s = Some k" "b_refcnt (bufs s k) \<noteq> 0" by (auto simp: pinned_def)
      have "k \<noteq> i" using k R(5) ne lookup_Some [OF k(1)] lookup_Some [of a s i] by auto
      from lookup_other [OF inv R(2) R(4) k(1) this] None show False by simp
    qed
    then obtain k where "k < NBUF" "k \<noteq> i" "b_refcnt (bufs s k) = 0" using c unfolding free2_def by metis
    then show ?thesis using None R(4) [of k] by (auto simp: mayread_def)
  qed
qed

lemma two_reads:
  fixes s :: "'z bst_scheme"
  assumes inv: "binv {} s" and ne: "a \<noteq> b" and ov: "noovf s" and ma: "mayread {} a s" and c: "pinned b s \<or> free2 s"
  shows "\<exists>i j t u. bread ROOTDEV a s = Ret i t \<and> bread ROOTDEV b t = Ret j u \<and> two a b i j s u \<and> bframe s t"
proof -
  obtain i t where t: "bread ROOTDEV a s = Ret i t" "reads {} a i s t" using bread_spec [OF inv ma] by blast
  then have it: "binv {i} t" by (simp add: reads_def)
  obtain j u where u: "bread ROOTDEV b t = Ret j u" "reads {i} b j t u"
    using bread_spec [OF it mayread_next [OF inv t(2) ne ov c]] by blast
  have R: "i < NBUF" "bframe s t" "disk t = disk s" "dtrace t = dtrace s" "\<And>c. block_of c t = block_of c s"
    "\<And>k. k \<noteq> i \<Longrightarrow> bufs t k = bufs s k" "b_refcnt (bufs t i) = b_refcnt (bufs s i) + 1"
    using t(2) by (auto simp: reads_def)
  have S: "j < NBUF" "j \<noteq> i" "binv {i, j} u" "bframe t u" "disk u = disk t" "dtrace u = dtrace t" "\<And>c. block_of c u = block_of c t"
    "\<And>k. k \<noteq> j \<Longrightarrow> bufs u k = bufs t k" "b_refcnt (bufs u j) = b_refcnt (bufs t j) + 1"
    using u(2) by (auto simp: reads_def insert_commute)
  have gi: "got a i s u" using reads_got [OF inv t(2)] S(8) [of i] S(2) by (simp add: got_def)
  have gj: "got b j s u" using reads_got [OF it u(2)] R(6) [OF S(2)] R(3,5) by (simp add: got_def)
  have rc: "b_refcnt (bufs u k) = b_refcnt (bufs s k) + (if k = i \<or> k = j then 1 else 0)" for k
    using R(6,7) S(2,8,9) by (cases "k = i"; cases "k = j") auto
  have "two a b i j s u" unfolding two_def
    using S(2,3) ne bframe_trans [OF R(2) S(4)] R(3-6) S(5-8) gi gj rc by auto
  then show ?thesis using t(1) u(1) R(2) by blast
qed


text \<open>
  The rest of the round: \<open>b\<close> is copied over \<open>a\<close>, which is written to the disk and, when \<open>pin\<close> is
  set, loses the reference the log had on it.
\<close>

definition copy_rest :: "bool \<Rightarrow> nat \<Rightarrow> nat \<Rightarrow> 'z bst_scheme \<Rightarrow> ('z bst_scheme, unit) res" where
  "copy_rest pin i j u =
     seq (bwrite i (upd_buf i (\<lambda>x. x\<lparr>b_data := b_data (bufs u j)\<rparr>) u)) (\<lambda>s.
     seq (if pin then bunpin i s else Ret () s) (\<lambda>s.
     seq (brelse j s) (\<lambda>s. brelse i s)))"

lemma copy_write:
  fixes s u :: "'z bst_scheme"
  assumes "two a b i j s u" and p: "pin \<Longrightarrow> b_refcnt (bufs s i) \<noteq> 0"
  shows "\<exists>v. seq (bwrite i (upd_buf i (\<lambda>x. x\<lparr>b_data := b_data (bufs u j)\<rparr>) u)) (\<lambda>s. if pin then bunpin i s else Ret () s) = Ret () v
    \<and> binv {i, j} v \<and> bframe s v \<and> disk v = (disk s)(a := block_of b s) \<and> dtrace v = (a, block_of b s) # dtrace s
    \<and> (\<forall>c. block_of c v = (if c = a then block_of b s else block_of c s))
    \<and> bufs v = (bufs u)(i := (bufs u i)\<lparr>b_data := block_of b s, b_refcnt := b_refcnt (bufs s i) + (if pin then 0 else 1)\<rparr>)"
proof -
  have T: "i \<noteq> j" "a \<noteq> b" "binv {i, j} u" "bframe s u" "disk u = disk s" "dtrace u = dtrace s" "got a i s u" "got b j s u"
    "\<And>c. block_of c u = block_of c s"
    "b_refcnt (bufs u i) = b_refcnt (bufs s i) + 1"
    using assms(1) unfolding two_def by auto
  define d where "d = block_of b s"
  have dj: "b_data (bufs u j) = d" using T(8) by (simp add: got_def d_def)
  have gi: "i < NBUF" "b_dev (bufs u i) = ROOTDEV" "b_blockno (bufs u i) = a" "b_valid (bufs u i)"
    using T(7) by (auto simp: got_def)
  define w where "w = upd_buf i (\<lambda>x. x\<lparr>b_data := d\<rparr>) u"
  have W: "binv {i, j} w" "\<And>c. block_of c w = (if c = a then d else block_of c s)" "bframe u w"
    using setdata_spec(1,2) [OF T(3) _ gi(4), where d = d] gi(3) T(9) by (simp_all add: w_def)
  have bw: "bufs w i = (bufs u i)\<lparr>b_data := d\<rparr>" "disk w = disk s" "dtrace w = dtrace s" "bufs w = (bufs u)(i := (bufs u i)\<lparr>b_data := d\<rparr>)"
    using T(5,6) by (simp_all add: w_def)
  obtain x where x: "bwrite i w = Ret () x" "bframe w x" "bufs x = bufs w" "disk x = (disk s)(a := d)"
      "dtrace x = (a, d) # dtrace s" "binv {i, j} x"
    using bwrite_spec [OF W(1), of i] gi by (auto simp: bw(1-3))
  have blx: "block_of c x = (if c = a then d else block_of c s)" for c
  proof (cases "c = a")
    case True
    have "block_of a x = block_of a w"
      using lookup_cong [of x w a] x(3) lookup_eq [OF W(1) gi(1)] bw(1) gi by (simp add: block_of_def)
    then show ?thesis using True W(2) by simp
  next
    case False
    then have "block_of c x = block_of c w" by (intro block_of_cong) (simp_all add: x(3,4) bw(2))
    then show ?thesis using W(2) by simp
  qed
  have fx: "bframe s x" by (rule bframe_trans [OF bframe_trans [OF T(4) W(3)] x(2)])
  show ?thesis
  proof (cases pin)
    case False
    have "(bufs u i)\<lparr>b_data := d, b_refcnt := b_refcnt (bufs s i) + 1\<rparr> = (bufs u i)\<lparr>b_data := d\<rparr>"
      using T(10) by (cases "bufs u i") simp
    then have "bufs x = (bufs u)(i := (bufs u i)\<lparr>b_data := d, b_refcnt := b_refcnt (bufs s i) + 1\<rparr>)"
      using x(3) bw(4) by simp
    then show ?thesis using x fx blx False by (auto simp: dj d_def [symmetric] w_def [symmetric])
  next
    case True
    have r: "b_refcnt (bufs x i) - 1 \<noteq> 0" using p [OF True] x(3) bw(1) T(10) by simp
    define y where "y = upd_buf i (\<lambda>x. x\<lparr>b_refcnt := b_refcnt x - 1\<rparr>) x"
    have y: "bunpin i x = Ret () (touch y)" "binv {i, j} y"
      using bunpin_spec [OF x(6) _ r] by (simp_all add: y_def)
    have bfy: "bufs y = (bufs u)(i := (bufs u i)\<lparr>b_data := d, b_refcnt := b_refcnt (bufs s i)\<rparr>)"
      using x(3) bw(4) T(10) by (simp add: y_def)
    have "block_of c y = block_of c x" for c
      by (rule block_of_cong) (auto simp: y_def bcore_def)
    moreover have "binv {i, j} (touch y)" using y(2) by (simp add: binv_def)
    moreover have "block_of c (touch y) = block_of c y" for c by (rule block_of_cong) simp_all
    moreover have "bframe s (touch y)" using bframe_trans [OF fx bframe_upd(1)] by (simp add: y_def)
    moreover have "disk y = (disk s)(a := d)" "dtrace y = (a, d) # dtrace s" using x(4,5) by (simp_all add: y_def)
    ultimately show ?thesis using x(1) y(1) bfy True blx by (simp add: dj d_def [symmetric] w_def [symmetric])
  qed
qed


lemma copy_step:
  fixes s u :: "'z bst_scheme"
  assumes tw: "two a b i j s u" and p: "pin \<Longrightarrow> b_refcnt (bufs s i) \<noteq> 0"
  shows "\<exists>t. copy_rest pin i j u = Ret () t \<and> wstep [(a, block_of b s)] (if pin then {i} else {}) s t"
proof -
  have T: "i \<noteq> j" "a \<noteq> b" "got a i s u" "got b j s u"
    "\<And>k. b_refcnt (bufs u k) = b_refcnt (bufs s k) + (if k = i \<or> k = j then 1 else 0)"
    "\<And>k. k \<noteq> i \<Longrightarrow> k \<noteq> j \<Longrightarrow> bufs u k = bufs s k"
    using tw unfolding two_def by auto
  define d where "d = block_of b s"
  obtain v where v: "seq (bwrite i (upd_buf i (\<lambda>x. x\<lparr>b_data := b_data (bufs u j)\<rparr>) u)) (\<lambda>s. if pin then bunpin i s else Ret () s) = Ret () v"
    "binv {i, j} v" "bframe s v" "disk v = (disk s)(a := d)" "dtrace v = (a, d) # dtrace s"
    "\<And>c. block_of c v = (if c = a then d else block_of c s)"
    "bufs v = (bufs u)(i := (bufs u i)\<lparr>b_data := d, b_refcnt := b_refcnt (bufs s i) + (if pin then 0 else 1)\<rparr>)"
    using copy_write [OF tw p] unfolding d_def by blast
  have gj: "b_data (bufs u j) = d" "b_blockno (bufs u j) = b" "b_refcnt (bufs s j) = 0 \<Longrightarrow> d = disk s b"
    "b_refcnt (bufs s j) \<noteq> 0 \<Longrightarrow> b_dev (bufs s j) = ROOTDEV \<and> b_blockno (bufs s j) = b"
    "b_dev (bufs u j) = ROOTDEV" "b_valid (bufs u j)"
    using T(4) by (auto simp: got_def d_def)
  have gi: "b_blockno (bufs u i) = a" "b_dev (bufs u i) = ROOTDEV" "b_valid (bufs u i)"
    "b_refcnt (bufs s i) \<noteq> 0 \<Longrightarrow> b_dev (bufs s i) = ROOTDEV \<and> b_blockno (bufs s i) = a"
    using T(3) by (auto simp: got_def)
  have "b_data (bufs v j) = disk v (b_blockno (bufs v j))" if "b_refcnt (bufs v j) = 1"
    using that v(4,7) T(1,2) T(5) [of j] gj by auto
  then obtain y where y: "brelse j v = Ret () y" "binv {i} y" "releases j v y"
    using brelse_spec [OF v(2), of j] T(1) by (auto simp: insert_Diff_if)
  have Y: "disk y = disk v" "dtrace y = dtrace v" "bframe v y" "\<And>k. bcore (bufs y k) = bcore (bufs v k)"
    "\<And>k. b_refcnt (bufs y k) = b_refcnt (bufs v k) - (if k = j then 1 else 0)"
    using y(3) by (auto simp: releases_def)
  have "b_data (bufs y i) = disk y (b_blockno (bufs y i))"
    using bcoreD [OF Y(4) [of i]] Y(1) v(4,7) gi(1) by simp
  then obtain t where t: "brelse i y = Ret () t" "binv {} t" "releases i y t"
    using brelse_spec [OF y(2), of i] by auto
  have Z: "disk t = disk y" "dtrace t = dtrace y" "bframe y t" "\<And>k. bcore (bufs t k) = bcore (bufs y k)"
    "\<And>k. b_refcnt (bufs t k) = b_refcnt (bufs y k) - (if k = i then 1 else 0)"
    using t(3) by (auto simp: releases_def)
  have run: "copy_rest pin i j u = Ret () t"
    using v(1) y(1) t(1) unfolding copy_rest_def by (cases "bwrite i (upd_buf i (\<lambda>x. x\<lparr>b_data := b_data (bufs u j)\<rparr>) u)") simp_all
  have core: "bcore (bufs t k) = bcore (bufs v k)" for k using Y(4) Z(4) by simp
  have bl: "block_of c t = (if c = a then d else block_of c s)" for c
    using block_of_cong [of t v c] core Y(1) Z(1) v(6) by simp
  have rc: "b_refcnt (bufs t k) = b_refcnt (bufs s k) - (if k \<in> (if pin then {i} else {}) then 1 else 0)" for k
    using Y(5) [of k] Z(5) [of k] T(1) T(5) [of k] v(7) by auto
  have ids: "b_dev (bufs t k) = b_dev (bufs s k) \<and> b_blockno (bufs t k) = b_blockno (bufs s k)
      \<and> (b_valid (bufs s k) \<longrightarrow> b_valid (bufs t k))" if "b_refcnt (bufs t k) \<noteq> 0" for k
  proof -
    have nz: "b_refcnt (bufs s k) \<noteq> 0" using that rc [of k] p by (cases pin; cases "k = i") auto
    note c = bcoreD [OF core [of k]]
    show ?thesis
    proof (cases "k = i")
      case True
      then show ?thesis using c gi nz v(7) by simp
    next
      case False
      then show ?thesis using c gj nz v(7) T(6) [of k] by (cases "k = j") simp_all
    qed
  qed
  have "wstep [(a, d)] (if pin then {i} else {}) s t"
    unfolding wstep_def
  proof (intro conjI allI ballI impI)
    show "binv {} t" by (rule t(2))
    show "bframe s t" by (rule bframe_trans [OF bframe_trans [OF v(3) Y(3)] Z(3)])
    show "disk t = writes [(a, d)] (disk s)" "dtrace t = rev [(a, d)] @ dtrace s" using Y Z v by simp_all
    show "block_of c t = writes [(a, d)] (\<lambda>c. block_of c s) c" for c using bl by simp
    show "b_refcnt (bufs s k) \<noteq> 0" if "k \<in> (if pin then {i} else {})" for k using that p by (auto split: if_splits)
  qed (use rc ids in blast)+
  then show ?thesis using run by (auto simp: d_def)
qed


section \<open>The loops of the log\<close>

definition free1 :: "'z bst_scheme \<Rightarrow> bool" where
  "free1 s \<longleftrightarrow> (\<exists>k < NBUF. b_refcnt (bufs s k) = 0)"

lemma free2_free1: "free2 s \<Longrightarrow> free1 s"
  by (auto simp: free1_def free2_def)

lemma mayread_any: "free1 s \<Longrightarrow> noovf s \<Longrightarrow> mayread {} b s"
  using lookup_Some [of b s] by (auto simp: mayread_def free1_def noovf_def split: option.split)

lemma wstep_pin:
  fixes s t :: "'z bst_scheme"
  assumes "wstep W U s t" and "lookup b s = Some k" and "b_valid (bufs s k)" and "b_refcnt (bufs s k) \<noteq> 0" and "k \<notin> U"
  shows "lookup b t = Some k \<and> b_valid (bufs t k) \<and> b_refcnt (bufs t k) \<noteq> 0"
proof -
  note W = wstepD [OF assms(1)]
  have k: "k < NBUF" "b_dev (bufs s k) = ROOTDEV" "b_blockno (bufs s k) = b" using lookup_Some [OF assms(2)] by auto
  have r: "b_refcnt (bufs t k) \<noteq> 0" using W(6) [of k] assms(4,5) by simp
  show ?thesis using W(8) [OF k(1) r] r k assms(3) lookup_eq [OF W(1) k(1)] by auto
qed

lemma wstep_keeps:
  assumes "wstep W {} s t"
  shows "noovf t \<longleftrightarrow> noovf s" "free1 t \<longleftrightarrow> free1 s" "free2 t \<longleftrightarrow> free2 s"
  using wstepD(6) [OF assms] by (simp_all add: noovf_def free1_def free2_def)

lemma wstep_keeps_le:
  fixes s t :: "'z bst_scheme"
  assumes "wstep W U s t"
  shows "noovf s \<Longrightarrow> noovf t" "free1 s \<Longrightarrow> free1 t"
proof -
  note W = wstepD [OF assms]
  have "b_refcnt (bufs t j) + 1 \<noteq> 0" if "b_refcnt (bufs s j) + 1 \<noteq> 0" for j
    using that W(6) [of j] W(7) [of j] by (cases "j \<in> U") simp_all
  then show "noovf t" if "noovf s" using that unfolding noovf_def by blast
  have "b_refcnt (bufs t j) = 0" if "b_refcnt (bufs s j) = 0" for j
    using that W(6) [of j] W(7) [of j] by (cases "j \<in> U") simp_all
  then show "free1 t" if "free1 s" using that unfolding free1_def by blast
qed

lemma wstep_pinned: "wstep W {} s t \<Longrightarrow> pinned b s \<Longrightarrow> pinned b t"
  using wstep_pin [of W "{}" s t b] by (auto simp: pinned_def)

lemma seq_assoc: "seq (seq m f) g = seq m (\<lambda>s. seq (f s) g)"
  by (cases m) simp_all

lemma wstep_lg: "wstep W U s t \<Longrightarrow> lg t = lg s"
  by (rule bframe_lg) (rule wstepD(2))

lemma write_log_step:
  fixes s :: "'z lst_scheme"
  assumes "binv {} s" "noovf s" "free1 s" "l_dev (lg s) = ROOTDEV" "pinned (lh_block (lg s) i) s" "logblock i s \<noteq> lh_block (lg s) i"
  shows "\<exists>t. write_log_loop (i # ts) s = write_log_loop ts t
    \<and> wstep [(logblock i s, block_of (lh_block (lg s) i) s)] {} s t"
proof -
  let ?a = "logblock i s" and ?b = "lh_block (lg s) i"
  obtain k l t u where u: "bread ROOTDEV ?a s = Ret k t" "bread ROOTDEV ?b t = Ret l u" "two ?a ?b k l s u" "bframe s t"
    using two_reads [OF assms(1,6,2) mayread_any [OF assms(3,2)]] assms(5) by blast
  obtain v where v: "copy_rest False k l u = Ret () v" "wstep [(?a, block_of ?b s)] {} s v"
    using copy_step [OF u(3), of False] by auto
  have "write_log_loop (i # ts) s = seq (copy_rest False k l u) (\<lambda>s. write_log_loop ts s)"
    using u(1,2) assms(4) bframe_lg [OF u(4)] by (simp add: copy_rest_def seq_assoc Let_def)
  then show ?thesis using v by auto
qed

lemma write_log_loop_spec:
  fixes s :: "'z lst_scheme"
  assumes "binv {} s" "noovf s" "free1 s" "l_dev (lg s) = ROOTDEV"
    and "\<And>i. i \<in> set ts \<Longrightarrow> pinned (lh_block (lg s) i) s"
    and "\<And>i k. i \<in> set ts \<Longrightarrow> k \<in> set ts \<Longrightarrow> logblock i s \<noteq> lh_block (lg s) k"
  shows "\<exists>t. write_log_loop ts s = Ret () t
    \<and> wstep (map (\<lambda>i. (logblock i s, block_of (lh_block (lg s) i) s)) ts) {} s t"
  using assms
proof (induction ts arbitrary: s)
  case Nil
  then show ?case by (simp add: wstep_refl)
next
  case (Cons i ts)
  obtain t where t: "write_log_loop (i # ts) s = write_log_loop ts t"
      "wstep [(logblock i s, block_of (lh_block (lg s) i) s)] {} s t"
    using write_log_step [OF Cons.prems(1-4) Cons.prems(5) [of i] Cons.prems(6) [of i i], of ts] by (simp del: write_log_loop.simps) blast
  have lg: "lg t = lg s" "\<And>k. logblock k t = logblock k s" using wstep_lg [OF t(2)] by (simp_all add: logblock_def)
  have bl: "block_of (lh_block (lg s) k) t = block_of (lh_block (lg s) k) s" if "k \<in> set ts" for k
    using wstepD(5) [OF t(2), of "lh_block (lg s) k"] Cons.prems(6) [of i k] that by simp
  have "\<exists>u. write_log_loop ts t = Ret () u
    \<and> wstep (map (\<lambda>i. (logblock i t, block_of (lh_block (lg t) i) t)) ts) {} t u"
  proof (rule Cons.IH)
    show "binv {} t" "noovf t" "free1 t" "l_dev (lg t) = ROOTDEV"
      using wstepD(1) [OF t(2)] wstep_keeps [OF t(2)] Cons.prems lg by simp_all
    show "pinned (lh_block (lg t) k) t" if "k \<in> set ts" for k
      using wstep_pinned [OF t(2)] Cons.prems(5) [of k] lg that by simp
    show "logblock k t \<noteq> lh_block (lg t) l" if "k \<in> set ts" "l \<in> set ts" for k l
      using Cons.prems(6) [of k l] that lg by simp
  qed
  then obtain u where u: "write_log_loop ts t = Ret () u"
      "wstep (map (\<lambda>i. (logblock i s, block_of (lh_block (lg s) i) s)) ts) {} t u"
    using lg bl by (auto cong: map_cong)
  have "wstep (map (\<lambda>i. (logblock i s, block_of (lh_block (lg s) i) s)) (i # ts)) {} s u"
    using wstep_trans [OF t(2) u(2)] by simp
  then show ?case using t(1) u(1) by auto
qed


lemma two_pinned:
  fixes s u :: "'z bst_scheme"
  assumes "two a b i j s u" and "lookup b s = Some k" and "b_refcnt (bufs s k) \<noteq> 0"
  shows "j = k"
proof (rule ccontr)
  assume "j \<noteq> k"
  have T: "a \<noteq> b" "binv {i, j} u" "got a i s u" "got b j s u" "\<And>k. k \<noteq> i \<Longrightarrow> k \<noteq> j \<Longrightarrow> bufs u k = bufs s k"
    using assms(1) by (auto simp: two_def)
  have k: "k < NBUF" "b_dev (bufs s k) = ROOTDEV" "b_blockno (bufs s k) = b" using lookup_Some [OF assms(2)] by auto
  have "k \<noteq> i" using T(1,3) k assms(3) by (auto simp: got_def)
  then have "b_dev (bufs u k) = ROOTDEV" "b_blockno (bufs u k) = b" using T(5) [of k] \<open>j \<noteq> k\<close> k by auto
  then show False using binvD(4) [OF T(2), of k j] T(4) k \<open>j \<noteq> k\<close> by (auto simp: got_def)
qed

lemma install_step:
  fixes s :: "'z lst_scheme"
  assumes "binv {} s" "noovf s" "free1 s" "l_dev (lg s) = ROOTDEV" "logblock i s \<noteq> lh_block (lg s) i"
    and "if recovering then free2 s else lookup (lh_block (lg s) i) s = Some k \<and> b_valid (bufs s k) \<and> b_refcnt (bufs s k) \<noteq> 0"
  shows "\<exists>t. install_trans_loop recovering (i # ts) s = install_trans_loop recovering ts t
    \<and> wstep [(lh_block (lg s) i, block_of (logblock i s) s)] (if recovering then {} else {k}) s t"
proof -
  let ?a = "logblock i s" and ?b = "lh_block (lg s) i"
  have "pinned ?b s \<or> free2 s" using assms(6) by (auto simp: pinned_def split: if_splits)
  then obtain l m t u where u: "bread ROOTDEV ?a s = Ret l t" "bread ROOTDEV ?b t = Ret m u" "two ?a ?b l m s u" "bframe s t"
    using two_reads [OF assms(1,5,2) mayread_any [OF assms(3,2)]] by blast
  have m: "m = k" if "\<not> recovering" using two_pinned [OF u(3)] assms(6) that by simp
  then obtain v where v: "copy_rest (\<not> recovering) m l u = Ret () v"
      "wstep [(?b, block_of ?a s)] (if recovering then {} else {k}) s v"
    using copy_step [OF two_sym [OF u(3)], of "\<not> recovering"] assms(6) by (auto split: if_splits)
  have "install_trans_loop recovering (i # ts) s = seq (copy_rest (\<not> recovering) m l u) (\<lambda>s. install_trans_loop recovering ts s)"
    using u(1,2) assms(4) bframe_lg [OF u(4)] by (simp add: copy_rest_def seq_assoc Let_def)
  then show ?thesis using v by auto
qed

lemma install_recover_spec:
  fixes s :: "'z lst_scheme"
  assumes "binv {} s" "noovf s" "free2 s" "l_dev (lg s) = ROOTDEV"
    and "\<And>i k. i \<in> set ts \<Longrightarrow> k \<in> set ts \<Longrightarrow> logblock i s \<noteq> lh_block (lg s) k"
  shows "\<exists>t. install_trans_loop True ts s = Ret () t
    \<and> wstep (map (\<lambda>i. (lh_block (lg s) i, block_of (logblock i s) s)) ts) {} s t"
  using assms
proof (induction ts arbitrary: s)
  case Nil
  then show ?case by (simp add: wstep_refl)
next
  case (Cons i ts)
  obtain t where t: "install_trans_loop True (i # ts) s = install_trans_loop True ts t"
      "wstep [(lh_block (lg s) i, block_of (logblock i s) s)] {} s t"
    using install_step [OF Cons.prems(1,2) free2_free1 [OF Cons.prems(3)] Cons.prems(4) Cons.prems(5) [of i i], where recovering = True and ts = ts and k = 0] Cons.prems(3)
    by (simp del: install_trans_loop.simps) blast
  have lg: "lg t = lg s" "\<And>k. logblock k t = logblock k s" using wstep_lg [OF t(2)] by (simp_all add: logblock_def)
  have bl: "block_of (logblock k s) t = block_of (logblock k s) s" if "k \<in> set ts" for k
    using wstepD(5) [OF t(2), of "logblock k s"] Cons.prems(5) [of k i] that by auto
  have "\<exists>u. install_trans_loop True ts t = Ret () u
    \<and> wstep (map (\<lambda>i. (lh_block (lg t) i, block_of (logblock i t) t)) ts) {} t u"
  proof (rule Cons.IH)
    show "binv {} t" "noovf t" "free2 t" "l_dev (lg t) = ROOTDEV"
      using wstepD(1) [OF t(2)] wstep_keeps [OF t(2)] Cons.prems lg by simp_all
    show "logblock k t \<noteq> lh_block (lg t) l" if "k \<in> set ts" "l \<in> set ts" for k l
      using Cons.prems(5) [of k l] that lg by simp
  qed
  then obtain u where u: "install_trans_loop True ts t = Ret () u"
      "wstep (map (\<lambda>i. (lh_block (lg s) i, block_of (logblock i s) s)) ts) {} t u"
    using lg bl by (auto cong: map_cong)
  have "wstep (map (\<lambda>i. (lh_block (lg s) i, block_of (logblock i s) s)) (i # ts)) {} s u"
    using wstep_trans [OF t(2) u(2)] by simp
  then show ?case using t(1) u(1) by auto
qed

lemma install_commit_spec:
  fixes s :: "'z lst_scheme"
  assumes "binv {} s" "noovf s" "free1 s" "l_dev (lg s) = ROOTDEV"
    and "\<And>i. i \<in> set ts \<Longrightarrow> lookup (lh_block (lg s) i) s = Some (hb i) \<and> b_valid (bufs s (hb i)) \<and> b_refcnt (bufs s (hb i)) \<noteq> 0"
    and "\<And>i k. i \<in> set ts \<Longrightarrow> k \<in> set ts \<Longrightarrow> logblock i s \<noteq> lh_block (lg s) k"
    and "distinct ts" and "inj_on hb (set ts)"
  shows "\<exists>t. install_trans_loop False ts s = Ret () t
    \<and> wstep (map (\<lambda>i. (lh_block (lg s) i, block_of (logblock i s) s)) ts) (hb ` set ts) s t"
  using assms
proof (induction ts arbitrary: s)
  case Nil
  then show ?case by (simp add: wstep_refl)
next
  case (Cons i ts)
  obtain t where t: "install_trans_loop False (i # ts) s = install_trans_loop False ts t"
      "wstep [(lh_block (lg s) i, block_of (logblock i s) s)] {hb i} s t"
    using install_step [OF Cons.prems(1-4) Cons.prems(6) [of i i], of False "hb i" ts] Cons.prems(5) [of i]
    by (simp del: install_trans_loop.simps) blast
  note W = wstepD [OF t(2)]
  have lg: "lg t = lg s" "\<And>k. logblock k t = logblock k s" using wstep_lg [OF t(2)] by (simp_all add: logblock_def)
  have bl: "block_of (logblock k s) t = block_of (logblock k s) s" if "k \<in> set ts" for k
    using W(5) [of "logblock k s"] Cons.prems(6) [of k i] that by auto
  have hb: "hb k \<noteq> hb i" if "k \<in> set ts" for k using Cons.prems(7,8) that by (auto simp: inj_on_def)
  have "\<exists>u. install_trans_loop False ts t = Ret () u
    \<and> wstep (map (\<lambda>i. (lh_block (lg t) i, block_of (logblock i t) t)) ts) (hb ` set ts) t u"
  proof (rule Cons.IH)
    show "binv {} t" "l_dev (lg t) = ROOTDEV" "noovf t" "free1 t"
      using W(1) wstep_keeps_le [OF t(2)] Cons.prems lg by simp_all
    show "lookup (lh_block (lg t) k) t = Some (hb k) \<and> b_valid (bufs t (hb k)) \<and> b_refcnt (bufs t (hb k)) \<noteq> 0"
      if "k \<in> set ts" for k
      using wstep_pin [OF t(2), of "lh_block (lg s) k" "hb k"] Cons.prems(5) [of k] lg that hb [OF that] by simp
    show "logblock k t \<noteq> lh_block (lg t) l" if "k \<in> set ts" "l \<in> set ts" for k l
      using Cons.prems(6) [of k l] that lg by simp
  qed (use Cons.prems in auto)
  then obtain u where u: "install_trans_loop False ts t = Ret () u"
      "wstep (map (\<lambda>i. (lh_block (lg s) i, block_of (logblock i s) s)) ts) (hb ` set ts) t u"
    using lg bl by (auto cong: map_cong)
  have "hb i \<notin> hb ` set ts" using hb by (metis imageE)
  then have "{hb i} \<inter> hb ` set ts = {}" by simp
  from wstep_trans [OF t(2) u(2) this]
  have "wstep (map (\<lambda>i. (lh_block (lg s) i, block_of (logblock i s) s)) (i # ts)) (hb ` set (i # ts)) s u" by simp
  then show ?case using t(1) u(1) by auto
qed

section \<open>The header block\<close>

lemma update_step:
  fixes s u :: "'z bst_scheme"
  assumes inv: "binv {} s" and rd: "reads {} a i s u"
  shows "\<exists>t. seq (bwrite i (upd_buf i (\<lambda>x. x\<lparr>b_data := d\<rparr>) u)) (\<lambda>s. brelse i s) = Ret () t \<and> wstep [(a, d)] {} s t"
proof -
  have R: "i < NBUF" "binv {i} u" "bframe s u" "disk u = disk s" "dtrace u = dtrace s" "\<And>c. block_of c u = block_of c s"
    "\<And>k. k \<noteq> i \<Longrightarrow> bufs u k = bufs s k" "b_refcnt (bufs u i) = b_refcnt (bufs s i) + 1"
    using rd by (auto simp: reads_def)
  have g: "b_dev (bufs u i) = ROOTDEV" "b_blockno (bufs u i) = a" "b_valid (bufs u i)"
    "b_refcnt (bufs s i) \<noteq> 0 \<Longrightarrow> b_dev (bufs s i) = ROOTDEV \<and> b_blockno (bufs s i) = a"
    using reads_got [OF inv rd] by (auto simp: got_def)
  define w where "w = upd_buf i (\<lambda>x. x\<lparr>b_data := d\<rparr>) u"
  have W: "binv {i} w" "\<And>c. block_of c w = (if c = a then d else block_of c s)" "bframe u w"
    using setdata_spec(1,2) [OF R(2) _ g(3), where d = d] g(2) R(6) by (simp_all add: w_def)
  have bw: "bufs w i = (bufs u i)\<lparr>b_data := d\<rparr>" "disk w = disk s" "dtrace w = dtrace s" "\<And>k. k \<noteq> i \<Longrightarrow> bufs w k = bufs s k"
    using R(4,5,7) by (simp_all add: w_def)
  obtain x where x: "bwrite i w = Ret () x" "bframe w x" "bufs x = bufs w" "disk x = (disk s)(a := d)"
      "dtrace x = (a, d) # dtrace s" "binv {i} x"
    using bwrite_spec [OF W(1), of i] g by (auto simp: bw(1-3))
  have "b_data (bufs x i) = disk x (b_blockno (bufs x i))" using x(3,4) bw(1) g(2) by simp
  then obtain t where t: "brelse i x = Ret () t" "binv {} t" "releases i x t"
    using brelse_spec [OF x(6), of i] by auto
  have Z: "disk t = disk x" "dtrace t = dtrace x" "bframe x t" "\<And>k. bcore (bufs t k) = bcore (bufs x k)"
    "\<And>k. b_refcnt (bufs t k) = b_refcnt (bufs x k) - (if k = i then 1 else 0)"
    using t(3) by (auto simp: releases_def)
  have blk: "block_of c t = (if c = a then d else block_of c s)" for c
  proof (cases "c = a")
    case True
    have "bufs t i = bufs t i \<and> b_valid (bufs t i) \<and> b_data (bufs t i) = d \<and> b_dev (bufs t i) = ROOTDEV \<and> b_blockno (bufs t i) = a"
      using bcoreD [OF Z(4) [of i]] x(3) bw(1) g by simp
    then show ?thesis using True lookup_eq [OF t(2) R(1)] by (auto simp: block_of_def)
  next
    case False
    then have "block_of c t = block_of c w" using Z(1,4) x(3,4) bw(2) by (intro block_of_cong) simp_all
    then show ?thesis using W(2) by simp
  qed
  have rc: "b_refcnt (bufs t k) = b_refcnt (bufs s k)" for k
    using Z(5) [of k] x(3) bw(1) bw(4) [of k] R(8) by (cases "k = i") simp_all
  have ids: "b_dev (bufs t k) = b_dev (bufs s k) \<and> b_blockno (bufs t k) = b_blockno (bufs s k)
      \<and> (b_valid (bufs s k) \<longrightarrow> b_valid (bufs t k))" if "b_refcnt (bufs t k) \<noteq> 0" for k
    using bcoreD [OF Z(4) [of k]] x(3) bw(1) bw(4) [of k] g rc [of k] that by (cases "k = i") simp_all
  have "wstep [(a, d)] {} s t" unfolding wstep_def
  proof (intro conjI allI ballI impI)
    show "binv {} t" by (rule t(2))
    show "bframe s t" by (rule bframe_trans [OF bframe_trans [OF bframe_trans [OF R(3) W(3)] x(2)] Z(3)])
  qed (use Z x blk rc ids in auto)
  then show ?thesis using x(1) t(1) by (auto simp: w_def)
qed


text \<open>The header on disk: a count and the home block numbers of the log blocks.\<close>

definition hdr_enc :: "nat \<Rightarrow> (nat \<Rightarrow> uint) \<Rightarrow> bytes \<Rightarrow> bytes" where
  "hdr_enc n bl d = write_head_loop [0..<n] bl (st32 (of_nat n) d 0)"

definition hdr_n :: "bytes \<Rightarrow> nat" where
  "hdr_n d = nat (sint (ld32 d 0))"

definition hdr_block :: "bytes \<Rightarrow> nat \<Rightarrow> uint" where
  "hdr_block d i = ld32 d (4 + 4 * i)"

lemma write_head_loop_same:
  "distinct is \<Longrightarrow> ld32 (write_head_loop is bl d) (4 + 4 * i) = (if i \<in> set is then bl i else ld32 d (4 + 4 * i))"
proof (induction "is" arbitrary: d)
  case (Cons j js)
  have "ld32 (st32 (bl j) d (4 + 4 * j)) (4 + 4 * i) = (if i = j then bl i else ld32 d (4 + 4 * i))"
    by (cases "i = j") (simp, subst ld_st_other(2), auto)
  then show ?case using Cons by auto
qed simp

lemma write_head_loop_0: "ld32 (write_head_loop is bl d) 0 = ld32 d 0"
  by (induction "is" arbitrary: d) (simp_all add: ld_st_other)

lemma hdr_enc_dec:
  assumes "n \<le> LOGSIZE"
  shows "hdr_n (hdr_enc n bl d) = n" "i < n \<Longrightarrow> hdr_block (hdr_enc n bl d) i = bl i"
proof -
  have n: "n \<le> 30" using assms by (simp add: param_defs)
  then have "unat (of_nat n :: uint) = n" by (intro unat_of_nat32) simp
  then have "uint (of_nat n :: uint) = int n" using uint_nat [of "of_nat n :: uint"] by simp
  then have "sint (of_nat n :: uint) = int n" using n by (simp add: sint_uint signed_take_bit_int_eq_self)
  then show "hdr_n (hdr_enc n bl d) = n" by (simp add: hdr_n_def hdr_enc_def write_head_loop_0)
  show "hdr_block (hdr_enc n bl d) i = bl i" if "i < n"
    using that by (simp add: hdr_block_def hdr_enc_def write_head_loop_same)
qed

lemma read_head_loop_eq:
  "distinct is \<Longrightarrow> read_head_loop is d bl i = (if i \<in> set is then hdr_block d i else bl i)"
  by (induction "is" arbitrary: bl) (auto simp: hdr_block_def)

lemma write_head_spec:
  fixes s :: "'z lst_scheme"
  assumes "binv {} s" "noovf s" "free1 s" "l_dev (lg s) = ROOTDEV" "lh_n (lg s) = int n"
  shows "\<exists>t. write_head s = Ret () t
    \<and> wstep [(l_start (lg s), hdr_enc n (lh_block (lg s)) (block_of (l_start (lg s)) s))] {} s t"
proof -
  obtain i u where u: "bread ROOTDEV (l_start (lg s)) s = Ret i u" "reads {} (l_start (lg s)) i s u"
    using bread_spec [OF assms(1) mayread_any [OF assms(3,2)]] by blast
  have lg: "lg u = lg s" and dt: "b_data (bufs u i) = block_of (l_start (lg s)) s"
    using u(2) by (auto simp: reads_def intro: bframe_lg)
  have "write_head s = seq (bwrite i (upd_buf i (\<lambda>x. x\<lparr>b_data := hdr_enc n (lh_block (lg s)) (block_of (l_start (lg s)) s)\<rparr>) u)) (\<lambda>s. brelse i s)"
    unfolding write_head_def using u(1) assms(4,5) lg dt by (simp add: hdr_enc_def Let_def)
  then show ?thesis using update_step [OF assms(1) u(2)] by simp
qed

lemma reads_release:
  fixes s u :: "'z bst_scheme"
  assumes inv: "binv {} s" and rd: "reads {} a i s u"
  shows "\<exists>t. brelse i u = Ret () t \<and> wstep [] {} s t"
proof -
  have R: "i < NBUF" "binv {i} u" "bframe s u" "disk u = disk s" "dtrace u = dtrace s" "\<And>c. block_of c u = block_of c s"
    "\<And>k. k \<noteq> i \<Longrightarrow> bufs u k = bufs s k" "b_refcnt (bufs u i) = b_refcnt (bufs s i) + 1"
    using rd by (auto simp: reads_def)
  have g: "b_dev (bufs u i) = ROOTDEV" "b_blockno (bufs u i) = a" "b_valid (bufs u i)" "b_data (bufs u i) = block_of a s"
    "b_refcnt (bufs s i) = 0 \<Longrightarrow> block_of a s = disk s a"
    "b_refcnt (bufs s i) \<noteq> 0 \<Longrightarrow> b_dev (bufs s i) = ROOTDEV \<and> b_blockno (bufs s i) = a"
    using reads_got [OF inv rd] by (auto simp: got_def)
  obtain t where t: "brelse i u = Ret () t" "binv {} t" "releases i u t"
    using brelse_spec [OF R(2), of i] g R(4,8) by auto
  have Z: "disk t = disk u" "dtrace t = dtrace u" "bframe u t" "\<And>k. bcore (bufs t k) = bcore (bufs u k)"
    "\<And>k. b_refcnt (bufs t k) = b_refcnt (bufs u k) - (if k = i then 1 else 0)"
    using t(3) by (auto simp: releases_def)
  have blk: "block_of c t = block_of c s" for c using block_of_cong [of t u c] Z(1,4) R(6) by simp
  have rc: "b_refcnt (bufs t k) = b_refcnt (bufs s k)" for k
    using Z(5) [of k] R(7) [of k] R(8) by (cases "k = i") simp_all
  have ids: "b_dev (bufs t k) = b_dev (bufs s k) \<and> b_blockno (bufs t k) = b_blockno (bufs s k)
      \<and> (b_valid (bufs s k) \<longrightarrow> b_valid (bufs t k))" if "b_refcnt (bufs t k) \<noteq> 0" for k
    using bcoreD [OF Z(4) [of k]] R(7) [of k] g rc [of k] that by (cases "k = i") simp_all
  have "wstep [] {} s t" unfolding wstep_def
    using t(2) bframe_trans [OF R(3) Z(3)] Z(1,2) R(4,5) blk rc ids by auto
  then show ?thesis using t(1) by blast
qed


section \<open>Recovery\<close>

text \<open>
  What recovery makes of a disk: the blocks of the log are written to their homes and the header
  is cleared.
\<close>

definition loc :: "uint \<Rightarrow> nat \<Rightarrow> uint" where
  "loc start i = start + of_nat i + 1"

definition recover_writes :: "uint \<Rightarrow> (uint \<Rightarrow> bytes) \<Rightarrow> (uint \<times> bytes) list" where
  "recover_writes start D =
     map (\<lambda>i. (hdr_block (D start) i, D (loc start i))) [0..<hdr_n (D start)] @ [(start, st32 0 (D start) 0)]"

text \<open>
  The log area of \<open>z\<close> blocks: the header and the \<open>z - 1\<close> blocks behind it. Then a disk whose log header is one
  that \<^verbatim>\<open>write_head\<close> can have written: the blocks it lists fit the area and have their homes outside.
\<close>

definition logarea :: "uint \<Rightarrow> int \<Rightarrow> uint set" where
  "logarea start z = insert start (loc start ` {i. int i + 1 < z})"

definition hdr_ok :: "uint \<Rightarrow> int \<Rightarrow> (uint \<Rightarrow> bytes) \<Rightarrow> bool" where
  "hdr_ok start z D \<longleftrightarrow> hdr_n (D start) \<le> LOGSIZE \<and> int (hdr_n (D start)) < z
     \<and> (\<forall>i < hdr_n (D start). hdr_block (D start) i \<notin> logarea start z)"

lemma logarea_loc: "b \<notin> logarea start z \<Longrightarrow> int i + 1 < z \<Longrightarrow> b \<noteq> loc start i" "b \<notin> logarea start z \<Longrightarrow> b \<noteq> start"
  by (auto simp: logarea_def)

text \<open>A machine that has just booted: nothing in the cache is in use.\<close>

definition booted :: "uint \<Rightarrow> 'z lst_scheme \<Rightarrow> bool" where
  "booted start u \<longleftrightarrow> binv {} u \<and> (\<forall>j < NBUF. b_refcnt (bufs u j) = 0)
     \<and> l_dev (lg u) = ROOTDEV \<and> l_start (lg u) = start"

lemma booted_free:
  assumes "booted start u"
  shows "noovf u \<and> free2 u"
proof -
  have z: "b_refcnt (bufs u j) = 0" if "j < NBUF" for j using assms that by (simp add: booted_def)
  have "(0 :: nat) < NBUF" "(1 :: nat) < NBUF" by (simp_all add: NBUF_eq)
  then have "free2 u" using z unfolding free2_def by (intro exI [of _ 0] exI [of _ 1]) simp
  then show ?thesis using z by (simp add: noovf_def)
qed

lemma brelse_upd_log:
  fixes t :: "'z lst_scheme"
  assumes "binv H t" and "i \<in> H" and "brelse i t = Ret () v"
  shows "brelse i (upd_log f t) = Ret () (upd_log f v)"
proof -
  have "binv H (upd_log f t)" using assms(1) by simp
  note a = brelse_eq [OF assms(1,2)] and b = brelse_eq [OF this assms(2)]
  show ?thesis using a assms(3) unfolding b by (auto simp: upd_log_lock(2)) (rule arg_cong [where f = touch], simp add: upd_log_def)
qed

lemma logblock_loc: "logblock i s = loc (l_start (lg s)) i"
  by (simp add: logblock_def loc_def)

lemma wstep_clean:
  assumes "wstep W {} s t" and "\<And>j. j < NBUF \<Longrightarrow> b_refcnt (bufs s j) = 0"
  shows "block_of c t = disk t c"
  using unref_clean [OF wstepD(1) [OF assms(1)]] wstepD(6) [OF assms(1)] assms(2) lookup_Some by fastforce

lemma read_head_spec:
  fixes u :: "'z lst_scheme"
  assumes "booted start u"
  shows "\<exists>v bl. read_head u = Ret () (upd_log (\<lambda>l. l\<lparr>lh_n := sint (ld32 (disk u start) 0), lh_block := bl\<rparr>) v)
    \<and> wstep [] {} u v \<and> (\<forall>i < hdr_n (disk u start). bl i = hdr_block (disk u start) i)"
proof -
  have b: "binv {} u" "\<And>j. j < NBUF \<Longrightarrow> b_refcnt (bufs u j) = 0" "l_dev (lg u) = ROOTDEV" "l_start (lg u) = start"
    using assms by (auto simp: booted_def)
  obtain i t where t: "bread ROOTDEV start u = Ret i t" "reads {} start i u t"
    using bread_spec [OF b(1) mayread_any] booted_free [OF assms] free2_free1 by blast
  have d: "b_data (bufs t i) = disk u start" "lg t = lg u"
    using t(2) wstep_clean [OF wstep_refl [OF b(1)] b(2), of start] by (auto simp: reads_def intro: bframe_lg)
  obtain v where v: "brelse i t = Ret () v" "wstep [] {} u v" using reads_release [OF b(1) t(2)] by blast
  have i: "i \<in> {i}" "binv {i} t" using t(2) by (auto simp: reads_def)
  let ?bl = "read_head_loop [0..<hdr_n (disk u start)] (disk u start) (lh_block (lg u))"
  let ?f = "\<lambda>l. l\<lparr>lh_n := sint (ld32 (disk u start) 0), lh_block := ?bl\<rparr>"
  have e: "upd_log (\<lambda>l. l\<lparr>lh_block := read_head_loop [0..<nat (lh_n l)] (disk u start) (lh_block l)\<rparr>)
      (upd_log (\<lambda>l. l\<lparr>lh_n := sint (ld32 (disk u start) 0)\<rparr>) t) = upd_log ?f t"
    using d(2) by (simp add: upd_log_def hdr_n_def)
  have "brelse i (upd_log ?f t) = Ret () (upd_log ?f v)" by (rule brelse_upd_log [OF i(2,1) v(1)])
  then have "read_head u = Ret () (upd_log ?f v)"
    unfolding read_head_def using t(1) b(3,4) d e by (simp add: Let_def)
  then show ?thesis using v(2) read_head_loop_eq by fastforce
qed

lemma loc_inj: "i < LOGSIZE \<Longrightarrow> j < LOGSIZE \<Longrightarrow> loc start i = loc start j \<longleftrightarrow> i = j"
  and loc_start: "i < LOGSIZE \<Longrightarrow> loc start i \<noteq> start"
proof -
  have u: "unat (of_nat (Suc i) :: uint) = Suc i" if "i < LOGSIZE" for i
    using that by (intro unat_of_nat32) (simp add: param_defs)
  have l: "loc start i = start + of_nat (Suc i)" for i by (simp add: loc_def)
  show "loc start i = loc start j \<longleftrightarrow> i = j" if "i < LOGSIZE" "j < LOGSIZE"
    unfolding l using u [OF that(1)] u [OF that(2)] by (metis add_left_cancel nat.inject)
  show "loc start i \<noteq> start" if "i < LOGSIZE"
    unfolding l using u [OF that] by (metis add_cancel_left_right nat.distinct(1) unat_0)
qed

lemma recover_spec:
  fixes u :: "'z lst_scheme"
  assumes "booted start u" and "hdr_ok start z (disk u)"
  shows "\<exists>v. recover_from_log u = Ret () v \<and> disk v = writes (recover_writes start (disk u)) (disk u)
    \<and> dtrace v = rev (recover_writes start (disk u)) @ dtrace u \<and> booted start v"
proof -
  let ?D = "disk u" and ?n = "hdr_n (disk u start)"
  have b: "binv {} u" "\<And>j. j < NBUF \<Longrightarrow> b_refcnt (bufs u j) = 0" "l_dev (lg u) = ROOTDEV" "l_start (lg u) = start"
    using assms(1) by (auto simp: booted_def)
  obtain v bl where v: "read_head u = Ret () (upd_log (\<lambda>l. l\<lparr>lh_n := sint (ld32 (?D start) 0), lh_block := bl\<rparr>) v)"
    "wstep [] {} u v" "\<And>i. i < ?n \<Longrightarrow> bl i = hdr_block (?D start) i"
    using read_head_spec [OF assms(1)] by blast
  define w where "w = upd_log (\<lambda>l. l\<lparr>lh_n := sint (ld32 (?D start) 0), lh_block := bl\<rparr>) v"
  have lgv: "lg v = lg u" by (rule wstep_lg [OF v(2)])
  have w: "binv {} w" "disk w = ?D" "dtrace w = dtrace u" "\<And>c. block_of c w = ?D c" "\<And>j. j < NBUF \<Longrightarrow> b_refcnt (bufs w j) = 0"
    "l_dev (lg w) = ROOTDEV" "l_start (lg w) = start" "lh_block (lg w) = bl" "nat (lh_n (lg w)) = ?n"
    using wstepD [OF v(2)] wstep_clean [OF v(2) b(2)] lgv b by (simp_all add: w_def hdr_n_def)
  have bo: "booted start w" using w by (simp add: booted_def)
  have "\<exists>x. install_trans_loop True [0..<?n] w = Ret () x
    \<and> wstep (map (\<lambda>i. (lh_block (lg w) i, block_of (logblock i w) w)) [0..<?n]) {} w x"
  proof (rule install_recover_spec [OF w(1)])
    show "logblock i w \<noteq> lh_block (lg w) k" if "i \<in> set [0..<?n]" "k \<in> set [0..<?n]" for i k
      using that assms(2) v(3) [of k] w(7,8) logarea_loc(1) [of "hdr_block (?D start) k" start z i]
      by (auto simp: hdr_ok_def logblock_loc)
  qed (use booted_free [OF bo] w in auto)
  moreover have "map (\<lambda>i. (lh_block (lg w) i, block_of (logblock i w) w)) [0..<?n]
      = map (\<lambda>i. (hdr_block (?D start) i, ?D (loc start i))) [0..<?n]"
    using v(3) w(4,7,8) by (simp add: logblock_loc)
  ultimately obtain x where x: "install_trans_loop True [0..<?n] w = Ret () x"
    "wstep (map (\<lambda>i. (hdr_block (?D start) i, ?D (loc start i))) [0..<?n]) {} w x" (is "wstep ?R _ _ _") by auto
  define y where "y = upd_log (\<lambda>l. l\<lparr>lh_n := 0\<rparr>) x"
  have lgx: "lg x = lg w" by (rule wstep_lg [OF x(2)])
  have y: "binv {} y" "l_dev (lg y) = ROOTDEV" "l_start (lg y) = start" "lh_n (lg y) = int 0" "\<And>j. b_refcnt (bufs y j) = b_refcnt (bufs w j)"
    "disk y = writes ?R ?D" "dtrace y = rev ?R @ dtrace u" "block_of start y = writes ?R ?D start"
    using wstepD [OF x(2)] lgx w by (simp_all add: y_def)
  have "hdr_block (?D start) i \<noteq> start" if "i < ?n" for i
    using assms(2) that by (auto simp: hdr_ok_def intro!: logarea_loc(2))
  then have "start \<notin> fst ` set ?R" by force
  then have st: "block_of start y = ?D start" unfolding y(8) by (rule writes_other)
  have yb: "booted start y" using y w by (simp add: booted_def)
  obtain z where z: "write_head y = Ret () z" "wstep [(start, hdr_enc 0 (lh_block (lg y)) (?D start))] {} y z"
    using write_head_spec [OF y(1) _ _ y(2,4)] booted_free [OF yb] free2_free1 st y(3) by auto
  have "recover_from_log u = Ret () z"
    unfolding recover_from_log_def install_trans_def using v(1) x(1) z(1) w(9) by (simp add: w_def [symmetric] y_def [symmetric])
  moreover have "recover_writes start ?D = ?R @ [(start, st32 0 (?D start) 0)]" by (simp add: recover_writes_def)
  moreover have "hdr_enc 0 (lh_block (lg y)) (?D start) = st32 0 (?D start) 0" by (simp add: hdr_enc_def)
  moreover have "booted start z" using wstepD [OF z(2)] wstep_lg [OF z(2)] y w by (simp add: booted_def)
  ultimately show ?thesis using wstepD(3,4) [OF z(2)] y(6,7) by auto
qed


section \<open>Commit\<close>

text \<open>
  A state in which \<open>n\<close> blocks are logged, while the process holds the buffers \<open>H\<close>: the logged
  blocks are different, each is in the cache with a reference besides the one its holder has, none
  lies in the log area, and the log on the disk is empty. \<open>log_ready\<close> adds what \<^verbatim>\<open>commit\<close> needs: no
  buffer is held, one is free for the log blocks, and no reference count is about to overflow.
\<close>

definition pinned_by :: "nat set \<Rightarrow> uint \<Rightarrow> 'z bst_scheme \<Rightarrow> bool" where
  "pinned_by H b s \<longleftrightarrow> (\<exists>k. lookup b s = Some k \<and> b_valid (bufs s k) \<and> b_refcnt (bufs s k) \<noteq> 0
     \<and> (k \<in> H \<longrightarrow> b_refcnt (bufs s k) \<noteq> 1))"

definition log_open :: "nat \<Rightarrow> nat set \<Rightarrow> 'z lst_scheme \<Rightarrow> bool" where
  "log_open n H s \<longleftrightarrow> binv H s \<and> l_dev (lg s) = ROOTDEV \<and> lh_n (lg s) = int n \<and> n \<le> LOGSIZE \<and> int n < l_size (lg s)
     \<and> distinct (map (lh_block (lg s)) [0..<n])
     \<and> (\<forall>i < n. pinned_by H (lh_block (lg s) i) s \<and> lh_block (lg s) i \<notin> logarea (l_start (lg s)) (l_size (lg s)))
     \<and> hdr_n (disk s (l_start (lg s))) = 0"

definition log_ready :: "nat \<Rightarrow> 'z lst_scheme \<Rightarrow> bool" where
  "log_ready n s \<longleftrightarrow> log_open n {} s \<and> noovf s \<and> free1 s"

definition commit_writes :: "nat \<Rightarrow> 'z lst_scheme \<Rightarrow> (uint \<times> bytes) list" where
  "commit_writes n s =
     (let start = l_start (lg s); h = lh_block (lg s); hd = hdr_enc n h (block_of start s) in
      map (\<lambda>i. (loc start i, block_of (h i) s)) [0..<n] @ [(start, hd)]
      @ map (\<lambda>i. (h i, block_of (h i) s)) [0..<n] @ [(start, st32 0 hd 0)])"

lemma commit_spec:
  fixes s :: "'z lst_scheme"
  assumes "log_ready n s" and "0 < n"
  shows "\<exists>t. commit s = Ret () t \<and> disk t = writes (commit_writes n s) (disk s)
    \<and> dtrace t = rev (commit_writes n s) @ dtrace s \<and> binv {} t \<and> lg t = (lg s)\<lparr>lh_n := 0\<rparr>
    \<and> (\<forall>c. block_of c t = writes (commit_writes n s) (\<lambda>c. block_of c s) c)"
proof -
  let ?st = "l_start (lg s)" and ?h = "lh_block (lg s)" and ?V = "\<lambda>c. block_of c s" and ?z = "l_size (lg s)"
  have R: "binv {} s" "noovf s" "free1 s" "l_dev (lg s) = ROOTDEV" "lh_n (lg s) = int n" "n \<le> LOGSIZE"
    "distinct (map ?h [0..<n])" "\<And>i. i < n \<Longrightarrow> pinned (?h i) s" "\<And>i. i < n \<Longrightarrow> ?h i \<notin> logarea ?st ?z" "int n < ?z"
    using assms(1) by (auto simp: log_ready_def log_open_def pinned_def pinned_by_def)
  have hl: "loc ?st i \<noteq> ?h k" if "i < n" "k < n" for i k
    using logarea_loc(1) [OF R(9) [OF that(2)], of i] that R(10) by auto
  have hs: "?h k \<noteq> ?st" if "k < n" for k using logarea_loc(2) [OF R(9) [OF that]] .
  have dl: "distinct (map (loc ?st) [0..<n])"
    using R(6) loc_inj by (auto simp: distinct_map inj_on_def)
  define W1 where "W1 = map (\<lambda>i. (loc ?st i, block_of (?h i) s)) [0..<n]"
  define hd where "hd = hdr_enc n ?h (block_of ?st s)"
  define W3 where "W3 = map (\<lambda>i. (?h i, block_of (?h i) s)) [0..<n]"
  have ls: "?st \<noteq> loc ?st i" if "i < n" for i using loc_start [of i ?st] R(6) that by auto
  have s1: "writes W1 D ?st = D ?st" for D
    unfolding W1_def by (rule writes_other) (use ls in \<open>auto simp: image_iff\<close>)
  have s3: "writes W3 D ?st = D ?st" for D
    unfolding W3_def by (rule writes_other) (use hs in force)
  obtain t1 where t1: "write_log_loop [0..<n] s = Ret () t1" "wstep W1 {} s t1"
    using write_log_loop_spec [OF R(1-4), of "[0..<n]"] R(8) hl unfolding W1_def by (auto simp: logblock_loc)
  have l1: "lg t1 = lg s" by (rule wstep_lg [OF t1(2)])
  have b1: "block_of ?st t1 = block_of ?st s" using wstepD(5) [OF t1(2)] s1 by simp
  obtain t2 where t2: "write_head t1 = Ret () t2" "wstep [(?st, hd)] {} t1 t2"
    using write_head_spec [OF wstepD(1) [OF t1(2)], of n] wstep_keeps [OF t1(2)] R(2-5) l1 b1 by (auto simp: hd_def)
  have s2: "wstep (W1 @ [(?st, hd)]) {} s t2" using wstep_trans [OF t1(2) t2(2)] by simp
  have l2: "lg t2 = lg s" by (rule wstep_lg [OF s2])
  have pin: "\<exists>k. lookup (?h i) t2 = Some k \<and> b_valid (bufs t2 k) \<and> b_refcnt (bufs t2 k) \<noteq> 0" if "i < n" for i
    using wstep_pinned [OF s2 R(8) [OF that]] by (simp add: pinned_def)
  define hb where "hb i = the (lookup (?h i) t2)" for i
  have hb: "lookup (?h i) t2 = Some (hb i) \<and> b_valid (bufs t2 (hb i)) \<and> b_refcnt (bufs t2 (hb i)) \<noteq> 0" if "i < n" for i
    using pin [OF that] by (auto simp: hb_def)
  have inj: "inj_on hb (set [0..<n])"
  proof (rule inj_onI)
    fix i k assume ik: "i \<in> set [0..<n]" "k \<in> set [0..<n]" "hb i = hb k"
    then have "?h i = ?h k" using hb [of i] hb [of k] lookup_Some [of "?h i" t2 "hb i"] lookup_Some [of "?h k" t2 "hb k"] by auto
    then show "i = k" using ik R(7) by (auto simp: distinct_map inj_on_def)
  qed
  have bl: "block_of (loc ?st i) t2 = block_of (?h i) s" if "i < n" for i
    using wstepD(5) [OF s2, of "loc ?st i"] loc_start [of i ?st] that R(6)
      writes_map [OF dl, of i "\<lambda>i. block_of (?h i) s" ?V] by (simp add: W1_def)
  have "\<exists>t3. install_trans_loop False [0..<n] t2 = Ret () t3
    \<and> wstep (map (\<lambda>i. (lh_block (lg t2) i, block_of (logblock i t2) t2)) [0..<n]) (hb ` set [0..<n]) t2 t3"
    by (rule install_commit_spec [OF wstepD(1) [OF s2] _ _ _ _ _ _ inj])
      (use wstep_keeps [OF s2] R hb hl l2 in \<open>auto simp: logblock_loc\<close>)
  moreover have "map (\<lambda>i. (lh_block (lg t2) i, block_of (logblock i t2) t2)) [0..<n] = W3"
    using bl l2 by (simp add: W3_def logblock_loc)
  ultimately obtain t3 where t3: "install_trans_loop False [0..<n] t2 = Ret () t3" "wstep W3 (hb ` set [0..<n]) t2 t3" by auto
  have s3': "wstep ((W1 @ [(?st, hd)]) @ W3) (hb ` set [0..<n]) s t3" using wstep_trans [OF s2 t3(2)] by simp
  note W = wstepD [OF s3']
  have l3: "lg t3 = lg s" by (rule wstep_lg [OF s3'])
  define t4 where "t4 = upd_log (\<lambda>l. l\<lparr>lh_n := 0\<rparr>) t3"
  have f4: "binv {} t4" "noovf t4" "free1 t4" "l_dev (lg t4) = ROOTDEV" "lh_n (lg t4) = int 0" "l_start (lg t4) = ?st"
    "block_of ?st t4 = hd" "lg t4 = (lg s)\<lparr>lh_n := 0\<rparr>"
    using W(1) W(5) [of ?st] wstep_keeps_le [OF s3'] R(2-4) l3 s3 by (simp_all add: t4_def noovf_def free1_def)
  obtain t5 where t5: "write_head t4 = Ret () t5" "wstep [(?st, st32 0 hd 0)] {} t4 t5"
    using write_head_spec [OF f4(1-5)] f4(6,7) by (auto simp: hdr_enc_def)
  have run: "commit s = Ret () t5"
    unfolding commit_def write_log_def install_trans_def
    using assms(2) R(5) t1(1) t2(1) t3(1) t5(1) l2 by (simp add: t4_def [symmetric])
  have cw: "commit_writes n s = W1 @ [(?st, hd)] @ W3 @ [(?st, st32 0 hd 0)]"
    by (simp add: commit_writes_def W1_def W3_def hd_def Let_def)
  show ?thesis
    using run wstepD(1,3,4,5) [OF t5(2)] W(3-5) wstep_lg [OF t5(2)] f4(8) cw by (simp add: t4_def)
qed


section \<open>Crashes\<close>

lemma writes_fun: "writes (map (\<lambda>i. (h i, f (h i))) is) D b = (if b \<in> h ` set is then f b else D b)"
  by (induction "is" arbitrary: D) auto

lemma hdr_n_clear [simp]: "hdr_n (st32 0 d 0) = 0"
  by (simp add: hdr_n_def)

lemma recover_writes_empty:
  "hdr_n (D start) = 0 \<Longrightarrow> 0 < z \<Longrightarrow> hdr_ok start z D \<and> recover_writes start D = [(start, st32 0 (D start) 0)]"
  by (simp add: hdr_ok_def recover_writes_def)

text \<open>
  The writes of a commit cut off at any point: before the header is on the disk recovery keeps
  the old contents, after it recovery gives the new ones.
\<close>

lemma crash_point:
  fixes D f :: "uint \<Rightarrow> bytes" and x :: bytes
  assumes n: "n \<le> LOGSIZE" and nz: "int n < z" and home: "\<And>i. i < n \<Longrightarrow> h i \<notin> logarea start z" and D: "hdr_n (D start) = 0"
  defines "W1 \<equiv> map (\<lambda>i. (loc start i, f (h i))) [0..<n]" and "W3 \<equiv> map (\<lambda>i. (h i, f (h i))) [0..<n]"
    and "hh \<equiv> hdr_enc n h x"
  assumes D': "D' = writes (take k (W1 @ [(start, hh)] @ W3 @ [(start, st32 0 hh 0)])) D" and b: "b \<notin> logarea start z"
  shows "hdr_ok start z D' \<and> writes (recover_writes start D') D' b = (if n < k \<and> b \<in> h ` {..<n} then f b else D b)"
proof -
  have l1: "length W1 = n" "length W3 = n" by (simp_all add: W1_def W3_def)
  have ls: "start \<noteq> loc start i" if "i < n" for i using loc_start [of i start] n that by auto
  have st1: "start \<notin> fst ` set W1" using ls by (auto simp: W1_def image_iff)
  have st3: "start \<notin> fst ` set W3" using home by (force simp: W3_def logarea_def)
  have bl: "b \<notin> fst ` set W1" "b \<noteq> start" using b nz by (force simp: W1_def logarea_def)+
  have b3: "writes W3 E b = (if b \<in> h ` {..<n} then f b else E b)" for E
    by (simp add: W3_def writes_fun lessThan_atLeast0)
  have rest: "writes (take j W3) E c = E c" if "c \<notin> fst ` set W3" for j E c
    by (rule writes_other) (use that set_take_subset [of j W3] in fastforce)
  consider "k \<le> n" | "n < k" "k - n - 1 \<le> n" | "2 * n + 2 \<le> k" by linarith
  then show ?thesis
  proof cases
    case 1
    have e: "D' = writes (take k W1) D" using 1 by (simp add: D' l1)
    have "D' c = D c" if "c \<notin> fst ` set W1" for c
      unfolding e by (rule writes_other) (use that set_take_subset [of k W1] in fastforce)
    then have "D' start = D start" "D' b = D b" using st1 bl by auto
    then show ?thesis using recover_writes_empty [of D' start z] D bl 1 nz by simp
  next
    case 2
    obtain j where j: "k = n + 1 + j" "j \<le> n" using 2 by (metis add_diff_inverse_nat diff_diff_left less_iff_Suc_add not_less_eq Suc_eq_plus1 add_Suc_right)
    have e: "D' = writes (take j W3) ((writes W1 D)(start := hh))" using j by (simp add: D' l1)
    have hd: "D' start = hh" using rest [OF st3] by (simp add: e)
    have lc: "D' (loc start i) = f (h i)" if "i < n" for i
    proof -
      have "loc start i \<in> logarea start z" using that nz by (auto simp: logarea_def)
      then have "loc start i \<notin> fst ` set W3" using home by (auto simp: W3_def)
      then have "D' (loc start i) = writes W1 D (loc start i)" using rest ls [OF that] by (simp add: e)
      also have "\<dots> = f (h i)" unfolding W1_def
        by (rule writes_map) (use that n loc_inj in \<open>auto simp: distinct_map inj_on_def\<close>)
      finally show ?thesis .
    qed
    have "recover_writes start D' = W3 @ [(start, st32 0 hh 0)]"
      using hd lc hdr_enc_dec [OF n, where bl = h and d = x] by (simp add: recover_writes_def W3_def hh_def)
    moreover have "D' b = D b" if "b \<notin> h ` {..<n}"
    proof -
      have "b \<notin> fst ` set W3" using that by (force simp: W3_def)
      then show ?thesis using rest bl writes_other [OF bl(1)] by (simp add: e)
    qed
    moreover have "hdr_ok start z D'" using hd hdr_enc_dec [OF n, where bl = h and d = x] n nz home by (simp add: hdr_ok_def hh_def)
    ultimately show ?thesis using 2 b3 bl by auto
  next
    case 3
    have e: "D' = (writes W3 ((writes W1 D)(start := hh)))(start := st32 0 hh 0)" using 3 by (simp add: D' l1)
    have "D' b = (if b \<in> h ` {..<n} then f b else D b)" using bl b3 writes_other [OF bl(1)] by (simp add: e)
    moreover have "D' start = st32 0 hh 0" by (simp add: e)
    ultimately show ?thesis using recover_writes_empty [of D' start z] 3 bl nz by simp
  qed
qed

definition committed :: "nat \<Rightarrow> 'z lst_scheme \<Rightarrow> uint \<Rightarrow> bytes" where
  "committed n s b = (if b \<in> lh_block (lg s) ` {..<n} then block_of b s else disk s b)"

lemma writes_indep: "b \<in> fst ` set W \<Longrightarrow> writes W D b = writes W E b"
proof (induction W arbitrary: D E)
  case (Cons x W)
  obtain c d where x: "x = (c, d)" by (cases x)
  show ?case
  proof (cases "b \<in> fst ` set W")
    case False
    then show ?thesis using writes_other [OF False] Cons.prems by (simp add: x)
  qed (use Cons x in simp)
qed simp

lemma recovery_point:
  assumes ok: "hdr_ok start z D" and D': "D' = writes (take k (recover_writes start D)) D"
  shows "hdr_ok start z D' \<and> (b \<notin> logarea start z \<longrightarrow> writes (recover_writes start D') D' b = writes (recover_writes start D) D b)"
proof -
  let ?n = "hdr_n (D start)" and ?W = "recover_writes start D"
  define R where "R = map (\<lambda>i. (hdr_block (D start) i, D (loc start i))) [0..<?n]"
  have W: "?W = R @ [(start, st32 0 (D start) 0)]" and l: "length R = ?n" by (simp_all add: recover_writes_def R_def)
  have home: "c \<notin> fst ` set R" if "c \<in> logarea start z" for c using ok that by (auto simp: R_def hdr_ok_def)
  have bs: "b \<noteq> start" if "b \<notin> logarea start z" by (rule logarea_loc(2) [OF that])
  show ?thesis
  proof (cases "k \<le> ?n")
    case True
    then have e: "D' = writes (take k R) D" by (simp add: D' W l)
    have same: "D' c = D c" if "c \<notin> fst ` set R" for c
      unfolding e by (rule writes_other) (use that set_take_subset [of k R] in fastforce)
    have lc: "D' (loc start i) = D (loc start i)" if "i < ?n" for i
      using same home [of "loc start i"] that ok by (simp add: logarea_def hdr_ok_def)
    have st: "D' start = D start" using same home [of start] by (simp add: logarea_def)
    have rw: "recover_writes start D' = ?W" using st lc by (simp add: recover_writes_def)
    have "writes ?W D' b = writes ?W D b"
    proof (cases "b \<in> fst ` set ?W")
      case False
      then show ?thesis using writes_other [OF False] same [of b] W by auto
    qed (rule writes_indep)
    then show ?thesis using rw ok st by (simp add: hdr_ok_def)
  next
    case False
    then have e: "D' = (writes R D)(start := st32 0 (D start) 0)" by (simp add: D' W l)
    then have "D' start = st32 0 (D start) 0" by simp
    then show ?thesis using recover_writes_empty [of D' start z] bs ok by (simp add: e W hdr_ok_def)
  qed
qed

end
