(* ===== verification/Xv6_Txn.thy ===== *)
theory Xv6_Txn
  imports Xv6_Crash Xv6_Fs
begin

text \<open>
  Transactions seen from their clients: what \<^verbatim>\<open>begin_op\<close>, \<^verbatim>\<open>bread\<close>, \<^verbatim>\<open>log_write\<close>, \<^verbatim>\<open>brelse\<close> and
  \<^verbatim>\<open>end_op\<close> do to the invariant \<open>log_open\<close> of a running transaction.
\<close>

section \<open>The log while a transaction runs\<close>

lemma touch_cache [simp]:
  "lookup b (touch s) = lookup b s" "block_of b (touch s) = block_of b s" "binv H (touch s) \<longleftrightarrow> binv H s"
  by (simp_all add: lookup_def block_of_def binv_def quiet_def mypid_def split: option.split)

lemma log_openD:
  assumes "log_open n H s"
  shows "binv H s" "l_dev (lg s) = ROOTDEV" "lh_n (lg s) = int n" "n \<le> LOGSIZE" "distinct (map (lh_block (lg s)) [0..<n])"
    "\<And>i. i < n \<Longrightarrow> pinned_by H (lh_block (lg s) i) s" "\<And>i. i < n \<Longrightarrow> lh_block (lg s) i \<notin> logarea (l_start (lg s)) (l_size (lg s))"
    "hdr_n (disk s (l_start (lg s))) = 0" "int n < l_size (lg s)"
  using assms by (auto simp: log_open_def)

lemma log_scan_spec:
  "i \<le> log_scan k bl b i \<and> log_scan k bl b i < i + k \<and> bl (log_scan k bl b i) = b
   \<or> log_scan k bl b i = i + k \<and> (\<forall>j. i \<le> j \<and> j < i + k \<longrightarrow> bl j \<noteq> b)"
proof (induction k arbitrary: i)
  case (Suc k)
  then show ?case
  proof (cases "bl i = b")
    case False
    then have "(\<forall>j. Suc i \<le> j \<and> j < Suc i + k \<longrightarrow> bl j \<noteq> b) \<Longrightarrow> (\<forall>j. i \<le> j \<and> j < i + Suc k \<longrightarrow> bl j \<noteq> b)"
      by (metis Suc_leI add_Suc_shift le_neq_implies_less)
    then show ?thesis using Suc [of "Suc i"] False by auto
  qed simp
qed auto

lemma log_scan_cases:
  obtains (hit) i where "log_scan n bl b 0 = i" "i < n" "bl i = b"
  | (miss) "log_scan n bl b 0 = n" "b \<notin> bl ` {..<n}"
  using log_scan_spec [of 0 n bl b] by fastforce

lemma log_open_read:
  assumes "log_open n H s" and "reads H b i s t"
  shows "log_open n (insert i H) t"
proof -
  note L = log_openD [OF assms(1)]
  have R: "binv (insert i H) t" "bframe s t" "disk t = disk s" "i \<notin> H" "lookup b t = Some i" "b_valid (bufs t i)"
    "\<And>j. j \<noteq> i \<Longrightarrow> bufs t j = bufs s j" "b_refcnt (bufs t i) = b_refcnt (bufs s i) + 1"
    "lookup b s = Some i \<or> lookup b s = None \<and> b_refcnt (bufs s i) = 0"
    using assms(2) by (auto simp: reads_def)
  have "pinned_by (insert i H) c t" if c: "pinned_by H c s" for c
  proof -
    obtain k where k: "lookup c s = Some k" "b_valid (bufs s k)" "b_refcnt (bufs s k) \<noteq> 0" "k \<in> H \<longrightarrow> b_refcnt (bufs s k) \<noteq> 1"
      using c by (auto simp: pinned_by_def)
    show ?thesis
    proof (cases "k = i")
      case True
      then have "c = b" using k R(9) lookup_Some [OF k(1)] lookup_Some [of b s i] by auto
      then show ?thesis using True k R(5,6,8) binvD(8) [OF R(1), of i] by (auto simp: pinned_by_def)
    next
      case False
      then show ?thesis using k R(7) [OF False] lookup_other [OF L(1) R(1) R(7) k(1)] by (auto simp: pinned_by_def)
    qed
  qed
  then show ?thesis using L R(1,3) bframe_lg [OF R(2)] by (simp add: log_open_def)
qed

lemma log_open_data:
  fixes s :: "'z lst_scheme"
  assumes "log_open n H s" and "i \<in> H" and "b_valid (bufs s i)"
  shows "log_open n H (upd_buf i (\<lambda>x. x\<lparr>b_data := d\<rparr>) s)"
proof -
  note L = log_openD [OF assms(1)] and d = setdata_spec(1,3) [OF log_openD(1) [OF assms(1)] assms(2,3), where d = d]
  have "b_valid (bufs (upd_buf i (\<lambda>x. x\<lparr>b_data := d\<rparr>) s) k) = b_valid (bufs s k)"
    "b_refcnt (bufs (upd_buf i (\<lambda>x. x\<lparr>b_data := d\<rparr>) s) k) = b_refcnt (bufs s k)" for k by (simp_all add: upd_buf_def)
  then have "pinned_by H c (upd_buf i (\<lambda>x. x\<lparr>b_data := d\<rparr>) s) \<longleftrightarrow> pinned_by H c s" for c
    unfolding pinned_by_def d(2) by simp
  then show ?thesis using L d(1) by (simp add: log_open_def)
qed

lemma log_open_release:
  assumes "log_open n H s" and "i \<in> H" and "pinned_by H b s" and "lookup b s = Some i"
  shows "\<exists>t. brelse i s = Ret () t \<and> log_open n (H - {i}) t \<and> releases i s t"
proof -
  note L = log_openD [OF assms(1)]
  have "b_refcnt (bufs s i) \<noteq> 1" using assms by (auto simp: pinned_by_def)
  then obtain t where t: "brelse i s = Ret () t" "binv (H - {i}) t" "releases i s t"
    using brelse_spec [OF L(1) assms(2)] by blast
  have c: "\<And>j. bcore (bufs t j) = bcore (bufs s j)" "disk t = disk s" "bframe s t"
    "\<And>j. b_refcnt (bufs t j) = b_refcnt (bufs s j) - (if j = i then 1 else 0)"
    using t(3) by (auto simp: releases_def)
  have "pinned_by (H - {i}) c t" if "pinned_by H c s" for c
    using that lookup_cong [of t s c, OF c(1)] bcoreD(1) [OF c(1)] c(4) assms(2) by (fastforce simp: pinned_by_def)
  then show ?thesis using t L c bframe_lg [OF c(3)] by (auto simp: log_open_def)
qed


lemma log_write_eq:
  fixes s :: "'z lst_scheme"
  assumes "quiet s" and "lh_n (lg s) = int n" and "n < LOGSIZE" and "int n < l_size (lg s) - 1" and "1 \<le> l_outstanding (lg s)"
  shows "log_write i s = Ret () (touch (let b = b_blockno (bufs s i); r = log_scan n (lh_block (lg s)) b 0;
      u = upd_log (\<lambda>l. l\<lparr>lh_block := (lh_block l)(r := b)\<rparr>) s in
      if r = n then upd_log (\<lambda>l. l\<lparr>lh_n := lh_n l + 1\<rparr>) (upd_buf i (\<lambda>x. x\<lparr>b_refcnt := b_refcnt x + 1\<rparr>) u) else u))"
  using assms quietD [OF assms(1)] by (simp add: log_write_def bpin_def Let_def)

lemma lst_more:
  fixes s t :: "'z lst_scheme"
  shows "lst.more (touch s) = lst.more s" "lst.more (upd_log f s) = lst.more s" "lst.more (upd_buf i g s) = lst.more s"
    "bframe s t \<Longrightarrow> lst.more t = lst.more s"
proof -
  show b: "bframe s t \<Longrightarrow> lst.more t = lst.more s" for s t :: "'z lst_scheme" using bframe_eqs(1) [of s t] by (cases s, cases t) auto
  show "lst.more (touch s) = lst.more s" "lst.more (upd_buf i g s) = lst.more s" by (rule b, simp)+
  show "lst.more (upd_log f s) = lst.more s" by (simp add: upd_log_def)
qed

text \<open>The user memory, and the process that runs, are the same.\<close>

definition same_user :: "'z kst_scheme \<Rightarrow> 'z kst_scheme \<Rightarrow> bool" where
  "same_user s t \<longleftrightarrow> mem t = mem s \<and> tp t = tp s \<and> (\<forall>c. cpu_proc (cpus t c) = cpu_proc (cpus s c)) \<and> (\<forall>p. p_pagetable (procs t p) = p_pagetable (procs s p))"

lemma same_user_trans: "same_user s t \<Longrightarrow> same_user t u \<Longrightarrow> same_user s u"
  by (simp add: same_user_def)

lemma same_user_bframe: "bframe s t \<Longrightarrow> same_user s t"
  using bframe_eqs [of s t] by (simp add: same_user_def)

lemma same_user_simps [simp]: "same_user s s" "same_user s (touch t) \<longleftrightarrow> same_user s t" "same_user s (upd_log f t) \<longleftrightarrow> same_user s t"
  "same_user s (upd_buf i g t) \<longleftrightarrow> same_user s t"
  by (auto simp: same_user_def upd_log_def upd_buf_def)

lemma log_write_spec:
  fixes s :: "'z lst_scheme"
  assumes open_: "log_open n H s" and i: "i \<in> H" "lookup b s = Some i" "b_valid (bufs s i)" and b: "b \<notin> logarea (l_start (lg s)) (l_size (lg s))"
    and r: "b_refcnt (bufs s i) + 1 \<noteq> 0" and n: "n < LOGSIZE" "int n < l_size (lg s) - 1" "1 \<le> l_outstanding (lg s)"
  shows "\<exists>t. log_write i s = Ret () t \<and> log_open (if b \<in> lh_block (lg s) ` {..<n} then n else n + 1) H t
    \<and> lh_block (lg t) ` {..<if b \<in> lh_block (lg s) ` {..<n} then n else n + 1} = insert b (lh_block (lg s) ` {..<n})
    \<and> pinned_by H b t \<and> lookup b t = Some i \<and> disk t = disk s \<and> dtrace t = dtrace s
    \<and> (\<forall>c. block_of c t = block_of c s)
    \<and> (\<forall>j. bcore (bufs t j) = bcore (bufs s j) \<and> b_refcnt (bufs t j) = b_refcnt (bufs s j) + (if b \<notin> lh_block (lg s) ` {..<n} \<and> j = i then 1 else 0))
    \<and> (\<exists>m bl. lg t = (lg s)\<lparr>lh_n := m, lh_block := bl\<rparr>) \<and> lst.more t = lst.more s \<and> same_user s t"
proof -
  note L = log_openD [OF open_]
  have bi: "b_blockno (bufs s i) = b" using lookup_Some [OF i(2)] by simp
  note e = log_write_eq [OF binvD(1) [OF L(1)] L(3) n, of i, unfolded bi Let_def]
  show ?thesis
  proof (cases rule: log_scan_cases [of n "lh_block (lg s)" b])
    case (hit k)
    have new: "b \<in> lh_block (lg s) ` {..<n}" using hit by force
    have "(lh_block (lg s))(k := b) = lh_block (lg s)" using hit by auto
    then have same: "upd_log (\<lambda>l. l\<lparr>lh_block := (lh_block l)(k := b)\<rparr>) s = s" by (simp add: upd_log_def)
    have "k \<noteq> n" using hit(2) by simp
    then have run: "log_write i s = Ret () (touch s)" unfolding e hit(1) same by (rule if_not_P [THEN arg_cong])
    have "pinned_by H b s" using L(6) [OF hit(2)] hit(3) by simp
    moreover have "log_open n H (touch s)" "\<And>c. pinned_by H c (touch s) = pinned_by H c s"
      using open_ by (simp_all add: log_open_def pinned_by_def)
    moreover have "\<exists>m bl. lg s = (lg s)\<lparr>lh_n := m, lh_block := bl\<rparr>"
      by (intro exI [of _ "lh_n (lg s)"] exI [of _ "lh_block (lg s)"]) simp
    moreover have "insert b (lh_block (lg s) ` {..<n}) = lh_block (lg s) ` {..<n}" using new by auto
    ultimately show ?thesis using run new i(2) by (simp add: lst_more)
  next
    case miss
    define u where "u = upd_log (\<lambda>l. l\<lparr>lh_block := (lh_block l)(n := b)\<rparr>) s"
    define t where "t = touch (upd_log (\<lambda>l. l\<lparr>lh_n := lh_n l + 1\<rparr>) (upd_buf i (\<lambda>x. x\<lparr>b_refcnt := b_refcnt x + 1\<rparr>) u))"
    have run: "log_write i s = Ret () t" using e miss by (simp add: t_def u_def)
    have inv: "binv H t" using bpin_spec(2) [of H u i] L(1) i(1) r by (simp add: t_def u_def)
    have sel: "disk t = disk s" "dtrace t = dtrace s" "lg t = (lg s)\<lparr>lh_n := int (n + 1), lh_block := (lh_block (lg s))(n := b)\<rparr>"
      using L(3) by (simp_all add: t_def u_def)
    have buf: "bcore (bufs t j) = bcore (bufs s j)" "b_refcnt (bufs t j) = b_refcnt (bufs s j) + (if j = i then 1 else 0)" for j
      by (simp_all add: t_def u_def bcore_def)
    have lk: "lookup c t = lookup c s" "block_of c t = block_of c s" for c
      using lookup_cong [of t s] block_of_cong [of t s] buf(1) sel(1) by auto
    have keep: "pinned_by H c t" if "pinned_by H c s" for c
      using that i(1) r buf bcoreD(1) [OF buf(1)] by (auto simp: pinned_by_def lk)
    have pb: "pinned_by H b t"
      using i r buf(2) [of i] bcoreD(1) [OF buf(1)] binvD(8) [OF L(1) i(1)] by (simp add: pinned_by_def lk)
    have "log_open (n + 1) H t"
      unfolding log_open_def using inv L n(1,2) sel keep pb b miss
      by (auto simp: less_Suc_eq distinct_map inj_on_def)
    moreover have "lh_block (lg t) ` {..<n + 1} = insert b (lh_block (lg s) ` {..<n})"
      using sel(3) by (force simp: less_Suc_eq)
    moreover have "lst.more t = lst.more s" "same_user s t" by (simp_all add: t_def u_def lst_more)
    ultimately show ?thesis using run miss(2) pb i(2) sel lk buf by auto
  qed
qed


text \<open>
  C18. \<^verbatim>\<open>log_write\<close> of a buffer the caller has read and may have changed records its block in the
  transaction: the block is added to the header's list unless it is there already (log
  absorption), the buffer is pinned in the cache once, the list stays free of duplicates, every
  block on it stays in the cache until the commit, and neither the disk nor the contents of any
  block change.
\<close>

theorem log_write_correct:
  fixes s :: "'z lst_scheme"
  assumes "log_open n H s" and "i \<in> H" and "lookup b s = Some i" and "b_valid (bufs s i)" and "b \<notin> logarea (l_start (lg s)) (l_size (lg s))"
    and "b_refcnt (bufs s i) + 1 \<noteq> 0" and "n < LOGSIZE" and "int n < l_size (lg s) - 1" and "1 \<le> l_outstanding (lg s)"
  shows "\<exists>t m. log_write i s = Ret () t \<and> log_open m H t \<and> lh_block (lg t) ` {..<m} = insert b (lh_block (lg s) ` {..<n})
    \<and> m = (if b \<in> lh_block (lg s) ` {..<n} then n else n + 1)
    \<and> b_refcnt (bufs t i) = b_refcnt (bufs s i) + (if b \<in> lh_block (lg s) ` {..<n} then 0 else 1)
    \<and> disk t = disk s \<and> (\<forall>c. block_of c t = block_of c s)"
  using log_write_spec [OF assms] by (cases "b \<in> lh_block (lg s) ` {..<n}") auto

section \<open>Updating a block in a transaction\<close>

text \<open>The pattern of the file system code: read the block, change the buffer, log it, release it.\<close>

definition tx_room :: "nat \<Rightarrow> 'z lst_scheme \<Rightarrow> bool" where
  "tx_room n s \<longleftrightarrow> n < LOGSIZE \<and> int n < l_size (lg s) - 1 \<and> 1 \<le> l_outstanding (lg s)
     \<and> free1 s \<and> (\<forall>j < NBUF. b_refcnt (bufs s j) + 1 \<noteq> 0 \<and> b_refcnt (bufs s j) + 2 \<noteq> 0)"

definition tx_step :: "nat \<Rightarrow> uint \<Rightarrow> bytes \<Rightarrow> 'z lst_scheme \<Rightarrow> nat \<Rightarrow> 'z lst_scheme \<Rightarrow> bool" where
  "tx_step n b d s m t \<longleftrightarrow> log_open m {} t \<and> m = (if b \<in> lh_block (lg s) ` {..<n} then n else n + 1)
     \<and> lh_block (lg t) ` {..<m} = insert b (lh_block (lg s) ` {..<n}) \<and> disk t = disk s \<and> dtrace t = dtrace s
     \<and> (\<forall>c. block_of c t = (if c = b then d else block_of c s))
     \<and> (\<exists>k < NBUF. \<forall>j. b_refcnt (bufs t j) = b_refcnt (bufs s j) + (if m \<noteq> n \<and> j = k then 1 else 0))
     \<and> (\<exists>a bl. lg t = (lg s)\<lparr>lh_n := a, lh_block := bl\<rparr>) \<and> lst.more t = lst.more s \<and> same_user s t"

lemma tx_update:
  fixes s :: "'z lst_scheme"
  assumes open_: "log_open n {} s" and room: "tx_room n s" and b: "b \<notin> logarea (l_start (lg s)) (l_size (lg s))"
  shows "\<exists>i u m t. bread ROOTDEV b s = Ret i u \<and> b_data (bufs u i) = block_of b s
    \<and> seq (log_write i (upd_buf i (\<lambda>x. x\<lparr>b_data := d\<rparr>) u)) (\<lambda>s. brelse i s) = Ret () t \<and> tx_step n b d s m t"
proof -
  note L = log_openD [OF open_]
  have no: "noovf s" "free1 s" using room by (auto simp: tx_room_def noovf_def)
  obtain i u where u: "bread ROOTDEV b s = Ret i u" and r: "reads {} b i s u"
    using bread_spec [OF L(1) mayread_any [OF no(2,1)]] by blast
  have R: "i < NBUF" "binv {i} u" "bframe s u" "disk u = disk s" "dtrace u = dtrace s" "lookup b u = Some i" "b_valid (bufs u i)"
    "b_data (bufs u i) = block_of b s" "\<And>c. block_of c u = block_of c s"
    "\<And>j. b_refcnt (bufs u j) = b_refcnt (bufs s j) + (if j = i then 1 else 0)"
    using r by (auto simp: reads_def)
  have lg: "lg u = lg s" by (rule bframe_lg [OF R(3)])
  define v where "v = upd_buf i (\<lambda>x. x\<lparr>b_data := d\<rparr>) u"
  have i: "i \<in> {i}" by simp
  note sd = setdata_spec [OF R(2) i R(7), where d = d, folded v_def]
  have ov: "log_open n {i} v" using log_open_data [OF log_open_read [OF open_ r] _ R(7), of d] by (simp add: v_def)
  have bi: "b_blockno (bufs u i) = b" using lookup_Some [OF R(6)] by simp
  have V: "lookup b v = Some i" "b_valid (bufs v i)" "lg v = lg s" "disk v = disk s" "dtrace v = dtrace s"
    "\<And>j. b_refcnt (bufs v j) = b_refcnt (bufs u j)" "\<And>c. block_of c v = (if c = b then d else block_of c s)"
    using sd R lg bi by (simp_all add: v_def)
  have "b_refcnt (bufs s i) + 2 \<noteq> 0" using room R(1) by (simp add: tx_room_def)
  then have ref: "b_refcnt (bufs v i) + 1 \<noteq> 0" using V(6) R(10) by (simp add: add.assoc)
  have rm: "n < LOGSIZE" "int n < l_size (lg v) - 1" "1 \<le> l_outstanding (lg v)" using room V(3) by (simp_all add: tx_room_def)
  let ?new = "b \<notin> lh_block (lg s) ` {..<n}" and ?m = "if b \<in> lh_block (lg s) ` {..<n} then n else n + 1"
  obtain w where w: "log_write i v = Ret () w" "log_open ?m {i} w" "lh_block (lg w) ` {..<?m} = insert b (lh_block (lg s) ` {..<n})"
    "pinned_by {i} b w" "lookup b w = Some i" "disk w = disk s" "dtrace w = dtrace s" "\<And>c. block_of c w = block_of c v"
    "\<And>j. b_refcnt (bufs w j) = b_refcnt (bufs v j) + (if ?new \<and> j = i then 1 else 0)"
    "\<exists>m bl. lg w = (lg s)\<lparr>lh_n := m, lh_block := bl\<rparr>" "lst.more w = lst.more v" "same_user v w"
    using log_write_spec [OF ov i V(1,2) b [folded V(3)] ref rm, unfolded V(3-5)] by blast
  obtain t where t: "brelse i w = Ret () t" "log_open ?m {} t" "releases i w t"
    using log_open_release [OF w(2) i w(4,5)] by auto
  have T: "lg t = lg w" "disk t = disk w" "dtrace t = dtrace w" "\<And>c. block_of c t = block_of c w"
    "\<And>j. b_refcnt (bufs t j) = b_refcnt (bufs w j) - (if j = i then 1 else 0)"
    using t(3) bframe_lg [of w t] block_of_cong [of t w] by (auto simp: releases_def)
  have "b_refcnt (bufs t j) = b_refcnt (bufs s j) + (if ?m \<noteq> n \<and> j = i then 1 else 0)" for j
    using T(5) [of j] w(9) [of j] V(6) [of j] R(10) [of j] by auto
  moreover have "lst.more t = lst.more s"
    using w(11) lst_more(4) [OF R(3)] t(3) lst_more(4) [of w t] by (simp add: v_def lst_more releases_def)
  moreover have "same_user s v" using same_user_bframe [OF R(3)] by (simp add: v_def)
  then have "same_user s w" using w(12) by (rule same_user_trans)
  then have "same_user s t" by (rule same_user_trans) (use t(3) same_user_bframe in \<open>auto simp: releases_def\<close>)
  ultimately have "tx_step n b d s ?m t"
    unfolding tx_step_def using t(2) w(3,6,7,8,10) T V(7) R(1) by auto
  then show ?thesis using u R(8) w(1) t(1) by (auto simp: v_def)
qed


text \<open>\<^verbatim>\<open>bzero\<close> is such an update, with a block of zeros.\<close>

lemma bzero_tx:
  fixes s :: "'z fsst_scheme"
  assumes "log_open n {} s" and "tx_room n s" and "b \<notin> logarea (l_start (lg s)) (l_size (lg s))"
  shows "\<exists>m t. bzero ROOTDEV b s = Ret () t \<and> tx_step n b (memset 0 0 BSIZE (block_of b s)) s m t"
proof -
  obtain i u m t where u: "bread ROOTDEV b s = Ret i u" "b_data (bufs u i) = block_of b s"
    "seq (log_write i (upd_buf i (\<lambda>x. x\<lparr>b_data := memset 0 0 BSIZE (block_of b s)\<rparr>) u)) (\<lambda>s. brelse i s) = Ret () t"
    "tx_step n b (memset 0 0 BSIZE (block_of b s)) s m t"
    using tx_update [OF assms] by blast
  have "upd_buf i (\<lambda>x. x\<lparr>b_data := memset 0 0 BSIZE (b_data x)\<rparr>) u
    = upd_buf i (\<lambda>x. x\<lparr>b_data := memset 0 0 BSIZE (block_of b s)\<rparr>) u" using u(2) by (simp add: upd_buf_def)
  then have "bzero ROOTDEV b s = Ret () t" unfolding bzero_def using u(1,3) by (simp add: Let_def)
  then show ?thesis using u(4) by blast
qed

section \<open>Ending a transaction\<close>

lemma commit_writes_at:
  assumes "int n < l_size (lg s)" and "b \<notin> logarea (l_start (lg s)) (l_size (lg s))"
  shows "writes (commit_writes n s) D b = (if b \<in> lh_block (lg s) ` {..<n} then block_of b s else D b)"
proof -
  have "b \<notin> fst ` set (map (\<lambda>i. (loc (l_start (lg s)) i, block_of (lh_block (lg s) i) s)) [0..<n])" "b \<noteq> l_start (lg s)"
    using assms by (force simp: logarea_def)+
  then show ?thesis using writes_other [of b _ D]
    by (simp add: commit_writes_def Let_def writes_fun [where f = "\<lambda>b. block_of b s"] lessThan_atLeast0)
qed

lemma commit_done:
  fixes s :: "'z lst_scheme"
  assumes "log_ready n s"
  shows "\<exists>t. commit s = Ret () t \<and> log_open 0 {} t \<and> lg t = (lg s)\<lparr>lh_n := 0\<rparr>
    \<and> (\<forall>b. b \<notin> logarea (l_start (lg s)) (l_size (lg s)) \<longrightarrow> disk t b = committed n s b \<and> block_of b t = block_of b s)"
proof (cases "n = 0")
  case True
  have L: "log_open 0 {} s" using assms True by (simp add: log_ready_def)
  moreover have "(lg s)\<lparr>lh_n := 0\<rparr> = lg s" using log_openD(3) [OF L] by (cases "lg s") simp
  ultimately show ?thesis using log_openD(3) [OF L] True by (simp add: commit_def committed_def)
next
  case False
  then obtain t where t: "commit s = Ret () t" "disk t = writes (commit_writes n s) (disk s)" "binv {} t" "lg t = (lg s)\<lparr>lh_n := 0\<rparr>"
    "\<And>c. block_of c t = writes (commit_writes n s) (\<lambda>c. block_of c s) c" using commit_spec [OF assms] by auto
  have L: "int n < l_size (lg s)" "l_dev (lg s) = ROOTDEV" using assms by (auto simp: log_ready_def log_open_def)
  have "disk t (l_start (lg s)) = st32 0 (hdr_enc n (lh_block (lg s)) (block_of (l_start (lg s)) s)) 0"
    by (simp add: t(2) commit_writes_def Let_def)
  then have "log_open 0 {} t" using t(3,4) L by (simp add: log_open_def)
  then show ?thesis using t commit_writes_at [OF L(1)] by (simp add: committed_def)
qed

lemma upd_log_comp [simp]: "upd_log g (upd_log f s) = upd_log (\<lambda>l. g (f l)) s"
  by (simp add: upd_log_def)

lemma log_ready_upd:
  fixes s :: "'z lst_scheme"
  assumes "log_ready n s"
  shows "log_ready n (touch (upd_log (\<lambda>l. l\<lparr>l_outstanding := a l, l_committing := c\<rparr>) s))"
  using assms by (simp add: log_ready_def log_open_def noovf_def free1_def pinned_by_def)

text \<open>
  C17. When the last outstanding operation ends, its \<^verbatim>\<open>end_op\<close> commits: it returns, the disk then
  has, for every block outside the log area, the contents the transaction gave it, no other block
  changes, and the log is empty and open for the next operation.
\<close>

theorem end_op_durable:
  fixes s :: "'z lst_scheme"
  assumes "log_ready n s" and "\<not> l_committing (lg s)" and "l_outstanding (lg s) = 1"
  shows "\<exists>t. end_op s = Ret () t \<and> log_open 0 {} t \<and> l_outstanding (lg t) = 0 \<and> \<not> l_committing (lg t)
    \<and> (\<forall>b. b \<notin> logarea (l_start (lg s)) (l_size (lg s)) \<longrightarrow> disk t b = committed n s b \<and> block_of b t = block_of b s)"
proof -
  have q: "quiet s" using assms(1) by (simp add: log_ready_def log_open_def binv_def)
  define u where "u = touch (upd_log (\<lambda>l. l\<lparr>l_outstanding := l_outstanding l - 1, l_committing := True\<rparr>) s)"
  have u: "log_ready n u" unfolding u_def by (rule log_ready_upd [OF assms(1)])
  have U: "lg u = (lg s)\<lparr>l_outstanding := 0, l_committing := True\<rparr>" "committed n u b = committed n s b" "block_of b u = block_of b s" for b
    using assms(3) by (simp_all add: u_def committed_def)
  obtain v where v: "commit u = Ret () v" "log_open 0 {} v" "lg v = (lg u)\<lparr>lh_n := 0\<rparr>"
    "\<And>b. b \<notin> logarea (l_start (lg s)) (l_size (lg s)) \<Longrightarrow> disk v b = committed n s b \<and> block_of b v = block_of b s"
    using commit_done [OF u] U by auto
  have qv: "quiet v" using v(2) by (simp add: log_open_def binv_def)
  define w where "w = upd_log (\<lambda>l. l\<lparr>l_committing := False\<rparr>) v"
  define t where "t = touch (w\<lparr>procs := wake Ch_log (cpu_proc (cpus w (tp w))) {0..<NPROC} (procs w)\<rparr>)"
  have "bframe w t" unfolding t_def bframe_upd(4)
    by (rule bframe_eqI [where B = "bufs w" and L = "slocks w" and d = "disk w" and tr = "dtrace w"
        and P = "wake Ch_log (cpu_proc (cpus w (tp w))) {0..<NPROC} (procs w)"]) (simp_all add: wake_upto)
  moreover have "bufs t = bufs w" "disk t = disk w" "slocks t = slocks w" by (simp_all add: t_def)
  moreover have "binv {} w" using v(2) by (simp add: w_def log_open_def)
  ultimately have "binv {} t" using binvD [of "{}" w] by (intro binv_intro [of "{}" w t]) auto
  then have ot: "log_open 0 {} t" using v(2) by (simp add: log_open_def t_def w_def)
  have "end_op s = Ret () t"
    unfolding end_op_def using quietD [OF q] quietD [OF qv] assms v(1)
    by (simp add: u_def [symmetric] t_def w_def locksimp)
  moreover have "block_of b t = block_of b v" "disk t b = disk v b" "lg t = (lg v)\<lparr>l_committing := False\<rparr>" for b
    by (simp_all add: t_def w_def block_of_def lookup_def split: option.split)
  ultimately show ?thesis using ot v(3,4) U(1) by auto
qed


section \<open>A first transaction\<close>

definition demo_log :: logst where
  "demo_log = \<lparr>l_start = 2, l_size = 30, l_outstanding = 1, l_committing = False, l_dev = ROOTDEV, lh_n = 0, lh_block = (\<lambda>_. 0)\<rparr>"

definition zero_sb :: superblock where
  "zero_sb = \<lparr>sb_magic = 0, sb_size = 0, sb_nblocks = 0, sb_ninodes = 0, sb_nlog = 0, sb_logstart = 0, sb_inodestart = 0, sb_bmapstart = 0\<rparr>"

definition zero_inode :: inode where
  "zero_inode = \<lparr>i_dev = 0, i_inum = 0, i_ref = 0, i_valid = False, i_type = 0, i_major = 0, i_minor = 0, i_nlink = 0, i_size = 0,
     i_addrs = (\<lambda>_. 0)\<rparr>"

definition demo_fs :: "(uint \<Rightarrow> bytes) \<Rightarrow> fsst" where
  "demo_fs D = lst.extend (bst.extend (kst.extend (mach.extend demo_mach (kst.fields (\<lambda>_. 0) 0 0 0 0 0)) (bst.fields (\<lambda>_. zero_buf) D []))
     (lst.fields demo_log)) \<lparr>sb = zero_sb, itable = (\<lambda>_. zero_inode), kloc = (\<lambda>_. 0)\<rparr>"

definition demo_tx :: "(uint \<Rightarrow> bytes) \<Rightarrow> fsst" where
  "demo_tx D = upd_log (\<lambda>_. demo_log) (binit (demo_fs D))"

definition demo_disk :: "uint \<Rightarrow> bytes" where
  "demo_disk b = (\<lambda>_. if b = 40 then 7 else 0)"

lemma demo_fs_ok: "quiet (demo_fs D)" "\<not> b_valid (bufs (demo_fs D) i) \<and> b_dev (bufs (demo_fs D) i) = 0"
  "b_refcnt (bufs (demo_fs D) i) = 0" "disk (demo_fs D) = D"
  by (simp_all add: demo_fs_def lst.defs bst.defs kst.defs mach.defs quiet_def cpu_ok_def lk_free_def demo_mach_def boot_mach_def zero_cpu_def zero_buf_def)

lemma ldn_zero: "ldn k (\<lambda>_. 0) a = 0"
  by (induction k arbitrary: a) simp_all

lemma demo_hdr: "hdr_n (demo_disk 2) = 0"
  by (simp add: hdr_n_def demo_disk_def ld32_def ldn_zero)

lemma demo_tx_ok:
  "binv {} (demo_tx D)" "lg (demo_tx D) = demo_log" "b_refcnt (bufs (demo_tx D) i) = 0" "disk (demo_tx D) = D" "block_of b (demo_tx D) = D b"
  "booted 2 (demo_tx D)"
proof -
  note b = binit_inv [OF demo_fs_ok(1,2) [of D]]
  show r: "b_refcnt (bufs (demo_tx D) i) = 0" for i using b(3) demo_fs_ok(3) by (simp add: demo_tx_def)
  show d: "disk (demo_tx D) = D" using b(2) demo_fs_ok(4) by (simp add: demo_tx_def)
  show l: "lg (demo_tx D) = demo_log" by (simp add: demo_tx_def)
  show i: "binv {} (demo_tx D)" using b(1) by (simp add: demo_tx_def)
  show "booted 2 (demo_tx D)" using i r l by (simp add: booted_def demo_log_def)
  show "block_of b (demo_tx D) = D b" using unref_clean [OF i r] d by simp
qed

lemma demo_tx_room: "log_open 0 {} (demo_tx demo_disk)" "tx_room 0 (demo_tx D)"
proof -
  show "log_open 0 {} (demo_tx demo_disk)" using demo_tx_ok demo_hdr by (simp add: log_open_def demo_log_def)
  show "tx_room 0 (demo_tx D)" using demo_tx_ok by (auto simp: tx_room_def free1_def demo_log_def param_defs NBUF_eq intro: exI [of _ 0])
qed

lemma logarea_2: "x \<in> logarea 2 30 \<Longrightarrow> unat x < 32"
proof -
  assume "x \<in> logarea 2 30"
  then consider "x = 2" | i where "i < 29" "x = loc 2 i" by (auto simp: logarea_def)
  then show ?thesis
  proof cases
    case (2 i)
    then have "x = of_nat (i + 3)" by (simp add: loc_def)
    moreover have "unat (of_nat (i + 3) :: uint) = i + 3" using 2(1) by (intro unat_of_nat32) simp
    ultimately show ?thesis using 2(1) by simp
  qed simp
qed

lemma demo_logarea: "40 \<notin> logarea 2 30"
  using logarea_2 [of 40] by auto

text \<open>A transaction that has zeroed block 40 and is about to commit.\<close>

lemma demo_bzero:
  "\<exists>t. bzero ROOTDEV 40 (demo_tx demo_disk) = Ret () t \<and> log_ready 1 t \<and> l_start (lg t) = 2 \<and> l_size (lg t) = 30 \<and> l_outstanding (lg t) = 1
    \<and> \<not> l_committing (lg t) \<and> committed 1 t 40 0 = 0 \<and> disk t = demo_disk \<and> dtrace t = dtrace (demo_tx demo_disk)"
proof -
  let ?s = "demo_tx demo_disk"
  have b: "40 \<notin> logarea (l_start (lg ?s)) (l_size (lg ?s))" using demo_logarea by (simp add: demo_tx_ok demo_log_def)
  obtain m t where t: "bzero ROOTDEV 40 ?s = Ret () t" and s: "tx_step 0 40 (memset 0 0 BSIZE (block_of 40 ?s)) ?s m t"
    using bzero_tx [OF demo_tx_room b] by blast
  have m: "m = 1" and open_: "log_open 1 {} t" and h: "lh_block (lg t) ` {..<1} = {40}" and d: "disk t = demo_disk"
    and bl: "block_of 40 t = memset 0 0 BSIZE (demo_disk 40)" and tr: "dtrace t = dtrace ?s"
    using s demo_tx_ok by (auto simp: tx_step_def)
  obtain k where k: "k < NBUF" "\<And>j. b_refcnt (bufs t j) = (if j = k then 1 else 0)"
    using s demo_tx_ok(3) m by (auto simp: tx_step_def)
  have lg: "l_start (lg t) = 2" "l_size (lg t) = 30" "l_outstanding (lg t) = 1" "\<not> l_committing (lg t)"
    using s demo_tx_ok(2) by (auto simp: tx_step_def demo_log_def)
  have "b_refcnt (bufs t (if k = 0 then 1 else 0)) = 0" using k(2) by simp
  moreover have "(if k = 0 then 1 else 0) < NBUF" by (simp add: NBUF_eq)
  ultimately have "free1 t" unfolding free1_def by blast
  moreover have "noovf t" using k(2) by (simp add: noovf_def)
  moreover have "committed 1 t 40 0 = 0" using h bl by (simp add: committed_def memset_eq blit_def BSIZE_def)
  ultimately show ?thesis using t open_ lg d tr by (auto simp: log_ready_def)
qed

text \<open>
  C1. The log makes a commit atomic. \<^verbatim>\<open>commit\<close> on a state with \<open>n > 0\<close> logged blocks returns, and whatever
  prefix of its block writes has reached the disk when the machine stops, a machine that boots
  from that disk returns from \<^verbatim>\<open>recover_from_log\<close>, and every block outside the log area then has the
  contents of before the transaction, when at most \<open>n\<close> writes were done, or those of after it,
  when the write of the header was among them.
\<close>

theorem commit_crash_safe:
  fixes s :: "'z lst_scheme"
  assumes "log_ready n s" and "0 < n"
  shows "\<exists>t W. commit s = Ret () t \<and> dtrace t = rev W @ dtrace s \<and> disk t = writes W (disk s)
    \<and> (\<forall>k u. booted (l_start (lg s)) (u :: 'y lst_scheme) \<and> disk u = writes (take k W) (disk s) \<longrightarrow>
         (\<exists>v. recover_from_log u = Ret () v \<and> booted (l_start (lg s)) v
            \<and> (\<forall>b. b \<notin> logarea (l_start (lg s)) (l_size (lg s)) \<longrightarrow> disk v b = (if n < k then committed n s b else disk s b))))"
proof -
  have R: "n \<le> LOGSIZE" "\<And>i. i < n \<Longrightarrow> lh_block (lg s) i \<notin> logarea (l_start (lg s)) (l_size (lg s))" "hdr_n (disk s (l_start (lg s))) = 0" "int n < l_size (lg s)"
    using assms(1) by (auto simp: log_ready_def log_open_def pinned_def pinned_by_def)
  obtain t where t: "commit s = Ret () t" "disk t = writes (commit_writes n s) (disk s)"
    "dtrace t = rev (commit_writes n s) @ dtrace s" using commit_spec [OF assms] by blast
  have rec: "\<exists>v. recover_from_log u = Ret () v \<and> booted (l_start (lg s)) v
      \<and> (\<forall>b. b \<notin> logarea (l_start (lg s)) (l_size (lg s)) \<longrightarrow> disk v b = (if n < k then committed n s b else disk s b))"
    if u: "booted (l_start (lg s)) u" "disk u = writes (take k (commit_writes n s)) (disk s)" for k and u :: "'y lst_scheme"
  proof -
    have c1: "hdr_ok (l_start (lg s)) (l_size (lg s)) (disk u)
        \<and> writes (recover_writes (l_start (lg s)) (disk u)) (disk u) b = (if n < k then committed n s b else disk s b)"
      if "b \<notin> logarea (l_start (lg s)) (l_size (lg s))" for b
      using crash_point [where D = "disk s" and h = "lh_block (lg s)" and start = "l_start (lg s)" and z = "l_size (lg s)" and n = n
          and f = "\<lambda>b. block_of b s" and x = "block_of (l_start (lg s)) s" and k = k and D' = "disk u" and b = b] R that u(2)
      by (simp add: commit_writes_def Let_def committed_def)
    have "hdr_ok (l_start (lg s)) (l_size (lg s)) (disk u)" using c1 [OF R(2) [OF assms(2)]] by blast
    then show ?thesis using recover_spec [OF u(1)] c1 by fastforce
  qed
  then show ?thesis using t by blast
qed


text \<open>The commit of this transaction, cut off after one write and after two.\<close>

theorem commit_crash_safe_witness:
  "\<exists>s t W. bzero ROOTDEV 40 (demo_tx demo_disk) = Ret () s \<and> commit s = Ret () t \<and> disk t = writes W (disk s)
    \<and> (\<exists>v. recover_from_log (demo_tx (writes (take 1 W) (disk s))) = Ret () v \<and> disk v 40 0 = 7)
    \<and> (\<exists>v. recover_from_log (demo_tx (writes (take 2 W) (disk s))) = Ret () v \<and> disk v 40 0 = 0)"
proof -
  obtain s where s: "bzero ROOTDEV 40 (demo_tx demo_disk) = Ret () s" "log_ready 1 s" "l_start (lg s) = 2" "l_size (lg s) = 30"
    "committed 1 s 40 0 = 0" "disk s = demo_disk" using demo_bzero by blast
  obtain t W where t: "commit s = Ret () t" "disk t = writes W (disk s)"
    and c: "\<And>k u. booted 2 (u :: fsst) \<Longrightarrow> disk u = writes (take k W) (disk s) \<Longrightarrow>
         (\<exists>v. recover_from_log u = Ret () v \<and> (\<forall>b. b \<notin> logarea 2 30 \<longrightarrow> disk v b = (if 1 < k then committed 1 s b else disk s b)))"
    using commit_crash_safe [OF s(2) zero_less_one, unfolded s(3,4)] by blast
  note c' = c [OF demo_tx_ok(6,4)]
  show ?thesis using s t c' [of 1] c' [of 2] demo_logarea by (auto simp: demo_disk_def)
qed


theorem end_op_durable_witness:
  "\<exists>s t. bzero ROOTDEV 40 (demo_tx demo_disk) = Ret () s \<and> disk s 40 0 = 7 \<and> end_op s = Ret () t \<and> disk t 40 0 = 0"
proof -
  obtain s where s: "bzero ROOTDEV 40 (demo_tx demo_disk) = Ret () s" "log_ready 1 s" "l_start (lg s) = 2" "l_outstanding (lg s) = 1" "l_size (lg s) = 30"
    "\<not> l_committing (lg s)" "committed 1 s 40 0 = 0" "disk s = demo_disk" using demo_bzero by blast
  from end_op_durable [OF s(2,6,4)] s(1,3,5,7,8) demo_logarea show ?thesis by (auto simp: demo_disk_def)
qed

text \<open>
  C16. Recovery is idempotent, also when it is interrupted: whatever prefix of the writes of
  \<^verbatim>\<open>recover_from_log\<close> has reached the disk when the machine stops again, the next boot recovers
  the same contents of every block outside the log area.
\<close>

theorem recovery_crash_safe:
  fixes u :: "'z lst_scheme"
  assumes "booted start u" and "hdr_ok start z (disk u)"
  shows "\<exists>v W. recover_from_log u = Ret () v \<and> dtrace v = rev W @ dtrace u \<and> disk v = writes W (disk u)
    \<and> (\<forall>k u'. booted start (u' :: 'y lst_scheme) \<and> disk u' = writes (take k W) (disk u) \<longrightarrow>
         (\<exists>v'. recover_from_log u' = Ret () v' \<and> booted start v' \<and> (\<forall>b. b \<notin> logarea start z \<longrightarrow> disk v' b = disk v b)))"
proof -
  obtain v where v: "recover_from_log u = Ret () v" "disk v = writes (recover_writes start (disk u)) (disk u)"
    "dtrace v = rev (recover_writes start (disk u)) @ dtrace u" using recover_spec [OF assms] by blast
  have "\<exists>v'. recover_from_log u' = Ret () v' \<and> booted start v' \<and> (\<forall>b. b \<notin> logarea start z \<longrightarrow> disk v' b = disk v b)"
    if u': "booted start u'" "disk u' = writes (take k (recover_writes start (disk u))) (disk u)" for k and u' :: "'y lst_scheme"
    using recover_spec [OF u'(1)] recovery_point [OF assms(2) u'(2)] v(2) by fastforce
  then show ?thesis using v by blast
qed

text \<open>A disk on which a transaction on block 40 was committed but not installed.\<close>

definition demo_logged :: "uint \<Rightarrow> bytes" where
  "demo_logged = demo_disk(2 := hdr_enc 1 (\<lambda>_. 40) (\<lambda>_. 0), 3 := (\<lambda>_. 9))"

lemma demo_logged_ok: "hdr_ok 2 30 demo_logged" "recover_writes 2 demo_logged = [(40, \<lambda>_. 9), (2, st32 0 (demo_logged 2) 0)]"
proof -
  have h: "hdr_n (demo_logged 2) = 1" "hdr_block (demo_logged 2) 0 = 40"
    using hdr_enc_dec [of 1, where bl = "\<lambda>_. 40" and d = "\<lambda>_. 0"] by (simp_all add: demo_logged_def param_defs)
  show "hdr_ok 2 30 demo_logged" using h demo_logarea by (simp add: hdr_ok_def param_defs)
  show "recover_writes 2 demo_logged = [(40, \<lambda>_. 9), (2, st32 0 (demo_logged 2) 0)]"
    using h by (simp add: recover_writes_def loc_def) (simp add: demo_logged_def)
qed

theorem recovery_crash_safe_witness:
  "demo_logged 40 0 = 7 \<and> (\<exists>v W. recover_from_log (demo_tx demo_logged) = Ret () v \<and> disk v = writes W demo_logged \<and> disk v 40 0 = 9
    \<and> (\<exists>v'. recover_from_log (demo_tx (writes (take 1 W) demo_logged)) = Ret () v' \<and> disk v' 40 0 = 9))"
proof -
  have d: "disk (demo_tx demo_logged) = demo_logged" by (rule demo_tx_ok(4))
  have ok: "hdr_ok 2 30 (disk (demo_tx demo_logged))" unfolding d by (rule demo_logged_ok(1))
  from recovery_crash_safe [OF demo_tx_ok(6) ok, unfolded d] obtain v W
    where v: "recover_from_log (demo_tx demo_logged) = Ret () v" "disk v = writes W demo_logged"
      and c: "\<And>k u'. booted 2 (u' :: fsst) \<Longrightarrow> disk u' = writes (take k W) demo_logged \<Longrightarrow>
         (\<exists>v'. recover_from_log u' = Ret () v' \<and> (\<forall>b. b \<notin> logarea 2 30 \<longrightarrow> disk v' b = disk v b))" by blast
  have "disk v = writes (recover_writes 2 demo_logged) demo_logged" using recover_spec [OF demo_tx_ok(6) ok] v(1) d by auto
  then have "disk v 40 0 = 9" by (simp add: demo_logged_ok(2))
  moreover have "demo_logged 40 0 = 7" by (simp add: demo_logged_def demo_disk_def)
  ultimately show ?thesis using v c [OF demo_tx_ok(6,4)] demo_logarea by metis
qed

theorem log_write_correct_witness:
  "\<exists>i s t. bread ROOTDEV 40 (demo_tx demo_disk) = Ret i s \<and> log_write i s = Ret () t \<and> log_open 1 {i} t
    \<and> lh_block (lg t) ` {..<1} = {40} \<and> b_refcnt (bufs t i) = 2 \<and> block_of 40 t 0 = 7"
proof -
  let ?s = "demo_tx demo_disk"
  have "free1 ?s" "noovf ?s" using demo_tx_room(2) [of demo_disk] by (auto simp: tx_room_def noovf_def)
  then obtain i s where s: "bread ROOTDEV 40 ?s = Ret i s" "reads {} 40 i ?s s"
    using bread_spec [OF demo_tx_ok(1) mayread_any] by blast
  have r: "lookup 40 s = Some i" "b_valid (bufs s i)" "b_refcnt (bufs s i) = 1" "lg s = demo_log" "\<And>c. block_of c s = demo_disk c"
    using s(2) bframe_lg [of ?s s] demo_tx_ok by (auto simp: reads_def)
  have o: "log_open 0 {i} s" by (rule log_open_read [OF demo_tx_room(1) s(2)])
  show ?thesis
    using log_write_correct [OF o _ r(1,2)] r(3-5) s(1) demo_logarea by (auto simp: demo_log_def demo_disk_def param_defs)
qed

section \<open>Admission and the size of the log\<close>

text \<open>
  \<^verbatim>\<open>begin_op\<close> admits an operation when, with \<open>MAXOPBLOCKS\<close> blocks reserved for it and for every
  operation that is under way, the transaction has at most \<open>LOGSIZE\<close> blocks; otherwise it sleeps.
\<close>

lemma begin_op_eq:
  fixes s :: "'z lst_scheme"
  assumes "quiet s" and "\<not> l_committing (lg s)" and "lh_n (lg s) + (l_outstanding (lg s) + 1) * int MAXOPBLOCKS \<le> int LOGSIZE"
  shows "begin_op s = Ret () (touch (upd_log (\<lambda>l. l\<lparr>l_outstanding := l_outstanding l + 1\<rparr>) s))"
  using assms quietD [OF assms(1)] by (simp add: begin_op_def begin_op_loop_def)

text \<open>
  C19. The log is one block smaller than what \<^verbatim>\<open>begin_op\<close> reserves. \<^verbatim>\<open>mkfs\<close> makes a log of \<open>LOGSIZE\<close> blocks,
  one of which is the header. \<^verbatim>\<open>begin_op\<close> admits a third operation when two are under way, so that
  three times \<open>MAXOPBLOCKS\<close> blocks may be logged, but \<^verbatim>\<open>log_write\<close> panics for the last of them: with
  \<open>LOGSIZE - 1\<close> blocks logged, within the reservation of the three operations, the kernel stops.
\<close>

theorem log_reservation_too_big:
  fixes s u :: "'z lst_scheme"
  assumes "quiet s" and "\<not> l_committing (lg s)" and "l_outstanding (lg s) = 2" and "lh_n (lg s) = 0" and "l_size (lg s) = int LOGSIZE"
    and "quiet u" and "lg u = (lg s)\<lparr>l_outstanding := 3, lh_n := int m, lh_block := bl\<rparr>" and "m = LOGSIZE - 1"
  shows "(\<exists>t. begin_op s = Ret () t \<and> l_outstanding (lg t) = 3)
    \<and> m < 3 * MAXOPBLOCKS \<and> log_write b u = Panic ''too big a transaction''"
proof (intro conjI)
  show "\<exists>t. begin_op s = Ret () t \<and> l_outstanding (lg t) = 3"
    using begin_op_eq [OF assms(1,2)] assms(3,4) by (simp add: param_defs)
  show "m < 3 * MAXOPBLOCKS" using assms(8) by (simp add: param_defs)
  show "log_write b u = Panic ''too big a transaction''"
    using quietD [OF assms(6)] assms(5,7,8) by (simp add: log_write_def param_defs)
qed

theorem log_reservation_too_big_witness:
  "\<exists>t. begin_op (upd_log (\<lambda>l. l\<lparr>l_outstanding := 2\<rparr>) (demo_tx demo_disk)) = Ret () t \<and> l_outstanding (lg t) = 3
    \<and> log_write 0 (upd_log (\<lambda>l. l\<lparr>l_outstanding := 3, lh_n := 29, lh_block := (\<lambda>i. 100 + of_nat i)\<rparr>) (demo_tx demo_disk))
      = Panic ''too big a transaction''"
proof -
  let ?s = "upd_log (\<lambda>l. l\<lparr>l_outstanding := 2\<rparr>) (demo_tx demo_disk)"
  let ?u = "upd_log (\<lambda>l. l\<lparr>l_outstanding := 3, lh_n := 29, lh_block := (\<lambda>i. 100 + of_nat i)\<rparr>) (demo_tx demo_disk)"
  have q: "quiet ?s" "quiet ?u" using binvD(1) [OF demo_tx_ok(1) [of demo_disk]] by simp_all
  have s: "\<not> l_committing (lg ?s)" "l_outstanding (lg ?s) = 2" "lh_n (lg ?s) = 0" "l_size (lg ?s) = int LOGSIZE"
    by (simp_all add: demo_tx_ok(2) demo_log_def param_defs)
  have u: "lg ?u = (lg ?s)\<lparr>l_outstanding := 3, lh_n := int 29, lh_block := (\<lambda>i. 100 + of_nat i)\<rparr>" by simp
  have "(29 :: nat) = LOGSIZE - 1" by (simp add: param_defs)
  from log_reservation_too_big [OF q(1) s q(2) u this] show ?thesis by blast
qed

end
