(* ===== verification/Xv6_Pipe.thy ===== *)
theory Xv6_Pipe
  imports Xv6_File Xv6_Copy Xv6_Txn
begin

text \<open>
  The ring buffers of the kernel as queues: pipes, the transmit buffer of the UART and the input
  buffer of the console. The contract of a bounded queue is the locale \<open>fifo\<close>; the arithmetic of
  free-running counters is proved once, for words of any length, and the three buffers are
  interpretations. On top, what \<^verbatim>\<open>pipewrite\<close> and \<^verbatim>\<open>piperead\<close> do to the bytes in a pipe.
\<close>

section \<open>Bounded queues\<close>

locale fifo =
  fixes inv :: "'s \<Rightarrow> bool" and cont :: "'s \<Rightarrow> 'c list" and cap :: nat
    and put :: "'c \<Rightarrow> 's \<Rightarrow> 's" and front :: "'s \<Rightarrow> 'c" and pop :: "'s \<Rightarrow> 's"
  assumes put: "inv s \<Longrightarrow> length (cont s) < cap \<Longrightarrow> inv (put c s) \<and> cont (put c s) = cont s @ [c]"
    and pop: "inv s \<Longrightarrow> cont s \<noteq> [] \<Longrightarrow> inv (pop s) \<and> cont s = front s # cont (pop s)"
    and cap: "inv s \<Longrightarrow> length (cont s) \<le> cap"
begin

lemma put_all:
  "inv s \<Longrightarrow> length (cont s) + length cs \<le> cap \<Longrightarrow> inv (fold put cs s) \<and> cont (fold put cs s) = cont s @ cs"
proof (induction cs arbitrary: s)
  case (Cons c cs)
  then show ?case using put [of s c] by simp
qed simp

lemma pop_all:
  "inv s \<Longrightarrow> n \<le> length (cont s) \<Longrightarrow> inv ((pop ^^ n) s) \<and> cont ((pop ^^ n) s) = drop n (cont s)
     \<and> (\<forall>k < n. front ((pop ^^ k) s) = cont s ! k)"
proof (induction n)
  case (Suc n)
  then have i: "inv ((pop ^^ n) s)" "cont ((pop ^^ n) s) = drop n (cont s)" "\<forall>k < n. front ((pop ^^ k) s) = cont s ! k"
    "n < length (cont s)" by auto
  then have "cont ((pop ^^ n) s) = cont s ! n # drop (Suc n) (cont s)" by (simp add: Cons_nth_drop_Suc)
  then show ?case using pop [OF i(1)] i(3) by (auto simp: less_Suc_eq)
qed simp

end

section \<open>Free-running counters\<close>

text \<open>
  The characters between a read counter \<open>r\<close> and a write counter \<open>w\<close> in an array of \<open>N\<close>
  elements indexed by the counters modulo \<open>N\<close>. The counters wrap around; this is sound because
  \<open>N\<close> divides the number of values of the counter type.
\<close>

definition rcont :: "nat \<Rightarrow> (nat \<Rightarrow> 'c) \<Rightarrow> 'a::len word \<Rightarrow> 'a word \<Rightarrow> 'c list" where
  "rcont N d r w = map (\<lambda>k. d (unat (r + of_nat k) mod N)) [0..<unat (w - r)]"

lemma length_rcont [simp]: "length (rcont N d r w) = unat (w - r)"
  by (simp add: rcont_def)

lemma unat_add_mod:
  fixes r :: "'a::len word"
  assumes "N dvd 2 ^ LENGTH('a)"
  shows "unat (r + of_nat k) mod N = (unat r + k) mod N"
proof -
  have "unat (r + of_nat k) = (unat r + k) mod 2 ^ LENGTH('a)"
    by (simp add: unat_word_ariths unat_of_nat mod_simps)
  then show ?thesis using assms by (simp add: mod_mod_cancel)
qed

lemma rcont_put:
  fixes r w :: "'a::len word"
  assumes "N dvd 2 ^ LENGTH('a)" and "N < 2 ^ LENGTH('a)" and "unat (w - r) < N"
  shows "unat (w + 1 - r) = unat (w - r) + 1" "rcont N (d(unat w mod N := c)) r (w + 1) = rcont N d r w @ [c]"
proof -
  let ?n = "unat (w - r)"
  have n: "?n + 1 < 2 ^ LENGTH('a)" using assms by simp
  have e1: "w + 1 - r = (w - r) + 1" by simp
  show l: "unat (w + 1 - r) = ?n + 1" unfolding e1 using n unat_word_ariths(1) [of "w - r" 1] by (simp add: unat_1)
  have w: "w = r + of_nat ?n" by simp
  have "(unat r + k) mod N \<noteq> (unat r + ?n) mod N" if "k < ?n" for k
  proof
    assume "(unat r + k) mod N = (unat r + ?n) mod N"
    then have "N dvd (unat r + ?n) - (unat r + k)" using that mod_eq_dvd_iff_nat [of "unat r + k" "unat r + ?n" N] by linarith
    then have "N dvd ?n - k" by simp
    then show False using that assms(3) by (metis dvd_imp_le less_imp_diff_less not_less zero_less_diff)
  qed
  moreover have e: "unat w mod N = (unat r + ?n) mod N" using unat_add_mod [OF assms(1), of r ?n] w by simp
  ultimately have "rcont N (d(unat w mod N := c)) r (w + 1) = map (\<lambda>k. d (unat (r + of_nat k) mod N)) [0..<?n] @ [c]"
    unfolding rcont_def l unat_add_mod [OF assms(1)] by (simp add: e)
  then show "rcont N (d(unat w mod N := c)) r (w + 1) = rcont N d r w @ [c]" by (simp add: rcont_def)
qed

lemma rcont_pop:
  fixes r w :: "'a::len word"
  assumes "r \<noteq> w"
  shows "unat (w - (r + 1)) = unat (w - r) - 1" "rcont N d r w = d (unat r mod N) # rcont N d (r + 1) w"
proof -
  have n: "w - r \<noteq> 0" using assms by simp
  have e1: "w - (r + 1) = (w - r) - 1" by simp
  show l: "unat (w - (r + 1)) = unat (w - r) - 1" unfolding e1 by (rule unat_minus_one [OF n])
  have "unat (w - r) \<noteq> 0" using n unat_eq_0 by blast
  then have "unat (w - r) = Suc (unat (w - r) - 1)" by simp
  then have "[0..<unat (w - r)] = 0 # map Suc [0..<unat (w - r) - 1]" by (metis map_Suc_upt upt_conv_Cons zero_less_Suc)
  then show "rcont N d r w = d (unat r mod N) # rcont N d (r + 1) w"
    unfolding rcont_def l by (simp add: comp_def add.assoc)
qed

lemma rcont_empty: "rcont N d r w = [] \<longleftrightarrow> r = w"
proof -
  have "rcont N d r w = [] \<longleftrightarrow> w - r = 0" unfolding length_0_conv [symmetric] length_rcont unat_eq_0 ..
  then show ?thesis by auto
qed

lemma rcont_full:
  fixes r w :: "'a::len word"
  assumes "N < 2 ^ LENGTH('a)"
  shows "w = r + of_nat N \<longleftrightarrow> length (rcont N d r w) = N"
proof -
  have "w = r + of_nat N \<longleftrightarrow> w - r = of_nat N" by (auto simp: diff_eq_eq add.commute)
  also have "\<dots> \<longleftrightarrow> unat (w - r) = N" using assms by (simp add: word_unat_eq_iff unat_of_nat)
  finally show ?thesis by simp
qed


section \<open>The three buffers\<close>

definition pipe_ok :: "pipe \<Rightarrow> bool" where
  "pipe_ok x \<longleftrightarrow> unat (pi_nwrite x - pi_nread x) \<le> PIPESIZE"

definition pcont :: "pipe \<Rightarrow> byte list" where
  "pcont x = rcont PIPESIZE (pi_data x) (pi_nread x) (pi_nwrite x)"

definition pipe_put :: "byte \<Rightarrow> pipe \<Rightarrow> pipe" where
  "pipe_put c x = x\<lparr>pi_data := (pi_data x)(unat (pi_nwrite x) mod PIPESIZE := c), pi_nwrite := pi_nwrite x + 1\<rparr>"

definition pipe_front :: "pipe \<Rightarrow> byte" where
  "pipe_front x = pi_data x (unat (pi_nread x) mod PIPESIZE)"

definition pipe_pop :: "pipe \<Rightarrow> pipe" where
  "pipe_pop x = x\<lparr>pi_nread := pi_nread x + 1\<rparr>"

lemma PIPESIZE_dvd: "PIPESIZE dvd 2 ^ LENGTH(32)" "PIPESIZE < 2 ^ LENGTH(32)"
  by (simp_all add: PIPESIZE_def)

interpretation pq: fifo pipe_ok pcont PIPESIZE pipe_put pipe_front pipe_pop
proof
  show "pipe_ok (pipe_put c x) \<and> pcont (pipe_put c x) = pcont x @ [c]" if "pipe_ok x" "length (pcont x) < PIPESIZE" for c x
    using rcont_put(1) [OF PIPESIZE_dvd, of "pi_nwrite x" "pi_nread x"]
      rcont_put(2) [OF PIPESIZE_dvd, of "pi_nwrite x" "pi_nread x" "pi_data x" c] that
    by (simp add: pipe_ok_def pcont_def pipe_put_def)
  show "pipe_ok (pipe_pop x) \<and> pcont x = pipe_front x # pcont (pipe_pop x)" if "pipe_ok x" "pcont x \<noteq> []" for x
    using rcont_pop(1) [of "pi_nread x" "pi_nwrite x"] rcont_pop(2) [of "pi_nread x" "pi_nwrite x" PIPESIZE "pi_data x"] that
    by (auto simp: pipe_ok_def pcont_def pipe_pop_def pipe_front_def rcont_empty)
qed (simp add: pipe_ok_def pcont_def)

lemma pipe_tests:
  "pcont x = [] \<longleftrightarrow> pi_nread x = pi_nwrite x"
  "pi_nwrite x = pi_nread x + of_nat PIPESIZE \<longleftrightarrow> length (pcont x) = PIPESIZE"
  using rcont_empty [of PIPESIZE "pi_data x"] rcont_full [OF PIPESIZE_dvd(2)] by (simp_all add: pcont_def)


section \<open>Pipes and the lock operations\<close>

lemma filest_sel [simp]:
  "pipes (acq lk s) = pipes s" "pipes (touch s) = pipes s" "ftable (acq lk s) = ftable s" "ftable (touch s) = ftable s"
  "pipes (upd_proc p f s) = pipes s" "ftable (upd_proc p f s) = ftable s"
  by (simp_all add: acq_def touch_def push_off_def Let_def intr_defs upd_proc_def)

lemma filest_upd [locksimp]:
  "(acq lk s)\<lparr>pipes := a\<rparr> = acq lk (s\<lparr>pipes := a\<rparr>)" "(touch s)\<lparr>pipes := a\<rparr> = touch (s\<lparr>pipes := a\<rparr>)"
  "(acq lk s)\<lparr>ftable := b\<rparr> = acq lk (s\<lparr>ftable := b\<rparr>)" "(touch s)\<lparr>ftable := b\<rparr> = touch (s\<lparr>ftable := b\<rparr>)"
  by (simp_all add: acq_def touch_def push_off_def Let_def intr_defs)

lemma filest_ok [simp]:
  "cpu_ok (s\<lparr>pipes := a\<rparr>) \<longleftrightarrow> cpu_ok s" "lk_free lk (s\<lparr>pipes := a\<rparr>) \<longleftrightarrow> lk_free lk s"
  "plocks_free (s\<lparr>pipes := a\<rparr>) \<longleftrightarrow> plocks_free s"
  "cpu_ok (s\<lparr>ftable := b\<rparr>) \<longleftrightarrow> cpu_ok s" "lk_free lk (s\<lparr>ftable := b\<rparr>) \<longleftrightarrow> lk_free lk s"
  "plocks_free (s\<lparr>ftable := b\<rparr>) \<longleftrightarrow> plocks_free s"
  by (simp_all add: cpu_ok_def lk_free_def plocks_free_def)

section \<open>Writing\<close>

text \<open>The bytes of a process at user address \<open>a\<close>.\<close>

definition ubytes :: "bytes \<Rightarrow> uint64 \<Rightarrow> nat \<Rightarrow> nat \<Rightarrow> byte list" where
  "ubytes m pt a n = map (\<lambda>i. m (uaddr m pt (a + i))) [0..<n]"

text \<open>The caller: a running process that is not killed, with no lock held.\<close>

definition caller :: "nat \<Rightarrow> 'z mach_scheme \<Rightarrow> bool" where
  "caller pr s \<longleftrightarrow> cpu_ok s \<and> (\<forall>lk. lk_free lk s) \<and> cpu_proc (cpus s (tp s)) = Some pr \<and> noff (cpus s (tp s)) = 0
     \<and> p_killed (procs s pr) = 0"

lemma callerD:
  assumes "caller pr s"
  shows "cpu_ok s" "lk_free lk s" "plocks_free s" "cpu_proc (cpus s (tp s)) = Some pr" "noff (cpus s (tp s)) = 0"
    "p_killed (procs s pr) = 0"
  using assms by (auto simp: caller_def plocks_free_def)

lemma copyin_byte:
  assumes "ptwf (mem s) 2 pt" and "umapped (mem s) pt (unat va) n" and "i < n"
  shows "copyin pt (\<lambda>_. 0) 0 (va + of_nat i) 1 s = Ret (0, (\<lambda>_. 0)(0 := mem s (uaddr (mem s) pt (unat va + i)))) s"
  using copyin_mapped [OF assms(1), of "va + of_nat i" 1] umapped_at [OF assms(2,3)]
  by (auto simp: blit_def fun_eq_iff)

definition pipe_upd :: "uint64 \<Rightarrow> pipe \<Rightarrow> 'z filest_scheme \<Rightarrow> 'z filest_scheme" where
  "pipe_upd pi x s = s\<lparr>pipes := (pipes s)(pi := x)\<rparr>"

lemma pipe_upd_simps [simp]:
  "pipes (pipe_upd pi x s) = (pipes s)(pi := x)" "pipe_upd pi y (pipe_upd pi x s) = pipe_upd pi y s"
  "mem (pipe_upd pi x s) = mem s" "procs (pipe_upd pi x s) = procs s" "cpus (pipe_upd pi x s) = cpus s" "tp (pipe_upd pi x s) = tp s"
  "caller pr (pipe_upd pi x s) \<longleftrightarrow> caller pr s" "pipe_upd pi x (acq lk s) = acq lk (pipe_upd pi x s)"
  "upd_pipe pi f s = pipe_upd pi (f (pipes s pi)) s"
  by (simp_all add: pipe_upd_def upd_pipe_def caller_def locksimp)

lemma pipewrite_loop_spec:
  fixes s :: "'z filest_scheme"
  assumes "caller pr s" and "p_pagetable (procs s pr) = pt" and "ptwf (mem s) 2 pt" and "umapped (mem s) pt (unat va) n"
    and "pipe_ok (pipes s pi)" and "pi_readopen (pipes s pi)" and "j \<le> n"
  defines "room \<equiv> PIPESIZE - length (pcont (pipes s pi))"
    and "cs \<equiv> map (\<lambda>i. mem s (uaddr (mem s) pt (unat va + i))) [j..<n]"
  shows "pipewrite_loop [j..<n] pi va n pr (acq (L_pipe pi) s) =
    (if n - j \<le> room then pipewrite_end pi n (acq (L_pipe pi) (pipe_upd pi (fold pipe_put cs (pipes s pi)) s))
     else seq (wakeup (Ch_nread pi) (acq (L_pipe pi) (pipe_upd pi (fold pipe_put (take room cs) (pipes s pi)) s)))
            (\<lambda>s. sleeps (Ch_nwrite pi) (L_pipe pi) s))"
  using assms(1,5,6,7) assms(2-4) unfolding room_def cs_def
proof (induction "n - j" arbitrary: j s)
  case 0
  then show ?case by (simp add: pipe_upd_def)
next
  case (Suc k)
  have j: "j < n" using Suc.hyps(2) by simp
  note C = callerD [OF Suc.prems(1)] and Q = pq.cap [OF Suc.prems(2)]
  have l: "[j..<n] = j # [Suc j..<n]" using j by (simp add: upt_conv_Cons)
  let ?s = "acq (L_pipe pi) s" and ?c = "mem s (uaddr (mem s) pt (unat va + j))"
  show ?case
  proof (cases "length (pcont (pipes s pi)) = PIPESIZE")
    case True
    then show ?thesis using pipe_tests(2) [of "pipes s pi"] C Suc.prems(3) j unfolding l
      by (simp add: pipe_upd_def)
  next
    case False
    then have lt: "length (pcont (pipes s pi)) < PIPESIZE" using Q by simp
    let ?x = "pipe_put ?c (pipes s pi)"
    let ?t = "pipe_upd pi ?x s"
    have put: "pipe_ok ?x" "pcont ?x = pcont (pipes s pi) @ [?c]" using pq.put [OF Suc.prems(2) lt] by blast+
    have step: "pipewrite_loop [j..<n] pi va n pr ?s = pipewrite_loop [Suc j..<n] pi va n pr (acq (L_pipe pi) ?t)"
      using pipe_tests(2) [of "pipes s pi"] lt C Suc.prems(3,5) copyin_byte [of ?s pt va n j] Suc.prems(6,7) j unfolding l
      by (simp add: pipe_put_def)
    have IH: "pipewrite_loop [Suc j..<n] pi va n pr (acq (L_pipe pi) ?t) =
      (let r = PIPESIZE - length (pcont (pipes ?t pi)); cs = map (\<lambda>i. mem ?t (uaddr (mem ?t) pt (unat va + i))) [Suc j..<n] in
       if n - Suc j \<le> r then pipewrite_end pi n (acq (L_pipe pi) (pipe_upd pi (fold pipe_put cs (pipes ?t pi)) ?t))
       else seq (wakeup (Ch_nread pi) (acq (L_pipe pi) (pipe_upd pi (fold pipe_put (take r cs) (pipes ?t pi)) ?t)))
              (\<lambda>s. sleeps (Ch_nwrite pi) (L_pipe pi) s))"
      unfolding Let_def by (rule Suc.hyps(1)) (use Suc.hyps(2) Suc.prems put j in \<open>simp_all add: pipe_put_def\<close>)
    obtain r where r: "PIPESIZE - length (pcont (pipes s pi)) = Suc r" using lt by (metis Suc_diff_Suc)
    then have r': "PIPESIZE - length (pcont (pipes ?t pi)) = r" using put(2) by simp
    show ?thesis unfolding step unfolding IH r r' Let_def l using j by auto
  qed
qed


lemma caller_wake:
  fixes s :: "'z mach_scheme"
  assumes "caller pr s"
  shows "caller pr (touch (s\<lparr>procs := wake ch me A (procs s)\<rparr>))"
  using assms by (simp add: caller_def)

lemma pipewrite_end_eq:
  fixes s :: "'z filest_scheme"
  assumes "caller pr s"
  shows "pipewrite_end pi i (acq (L_pipe pi) s)
    = Ret (int i) (touch (s\<lparr>procs := wake (Ch_nread pi) (Some pr) {0..<NPROC} (procs s)\<rparr>))"
    and "piperead_end pi i (acq (L_pipe pi) s)
    = Ret (int i) (touch (s\<lparr>procs := wake (Ch_nwrite pi) (Some pr) {0..<NPROC} (procs s)\<rparr>))"
  using callerD [OF assms] by (simp_all add: pipewrite_end_def piperead_end_def locksimp)

lemma sleeps_susp:
  fixes s :: "'z mach_scheme"
  assumes "caller pr s" and "lk \<noteq> L_proc pr"
  shows "sleeps ch lk (acq lk s) = Susp (acq (L_proc pr) (upd_proc pr (\<lambda>pr. pr\<lparr>p_chan := Some ch, p_state := SLEEPING\<rparr>) s))"
  using sleep_susp [of s pr lk ch] callerD [OF assms(1)] assms(2) by (simp add: sleeps_def)

lemma pipewrite_start:
  fixes s :: "'z filest_scheme"
  assumes "caller pr s"
  shows "pipewrite pi va (int n) s = pipewrite_loop [0..<n] pi va n pr (acq (L_pipe pi) s)"
    and "piperead pi va (int n) s = piperead_wait pi va (int n) pr (acq (L_pipe pi) s)"
  using callerD [OF assms] by (simp_all add: pipewrite_def piperead_def)

text \<open>
  \<^verbatim>\<open>pipewrite\<close> against the queue of bytes in the pipe: with room for all bytes they are appended,
  readers are woken and the count is returned; otherwise the pipe is filled up, readers are woken,
  and the writer sleeps until a reader has made room.
\<close>

lemma pipewrite_spec:
  fixes s :: "'z filest_scheme"
  assumes c: "caller pr s" and pt: "p_pagetable (procs s pr) = pt" and w: "ptwf (mem s) 2 pt"
    and u: "umapped (mem s) pt (unat va) n" and ok: "pipe_ok (pipes s pi)" and r: "pi_readopen (pipes s pi)"
  defines "room \<equiv> PIPESIZE - length (pcont (pipes s pi))" and "cs \<equiv> ubytes (mem s) pt (unat va) n"
  shows "n \<le> room \<Longrightarrow> pipewrite pi va (int n) s =
      Ret (int n) (touch ((pipe_upd pi (fold pipe_put cs (pipes s pi)) s)\<lparr>procs := wake (Ch_nread pi) (Some pr) {0..<NPROC} (procs s)\<rparr>))"
    and "room < n \<Longrightarrow> pipewrite pi va (int n) s = Susp (acq (L_proc pr) (upd_proc pr (\<lambda>p. p\<lparr>p_chan := Some (Ch_nwrite pi), p_state := SLEEPING\<rparr>)
      (touch ((pipe_upd pi (fold pipe_put (take room cs) (pipes s pi)) s)\<lparr>procs := wake (Ch_nread pi) (Some pr) {0..<NPROC} (procs s)\<rparr>))))"
proof -
  note L = pipewrite_loop_spec [OF c pt w u ok r, of 0]
  have cs: "cs = map (\<lambda>i. mem s (uaddr (mem s) pt (unat va + i))) [0..<n]" by (simp add: cs_def ubytes_def)
  note C = callerD [OF c]
  show "pipewrite pi va (int n) s =
      Ret (int n) (touch ((pipe_upd pi (fold pipe_put cs (pipes s pi)) s)\<lparr>procs := wake (Ch_nread pi) (Some pr) {0..<NPROC} (procs s)\<rparr>))"
    if "n \<le> room"
    unfolding pipewrite_start [OF c] using L that c
    by (simp add: cs [symmetric] room_def [symmetric] pipewrite_end_eq)
  let ?t = "pipe_upd pi (fold pipe_put (take room cs) (pipes s pi)) s"
  let ?u = "touch (?t\<lparr>procs := wake (Ch_nread pi) (Some pr) {0..<NPROC} (procs s)\<rparr>)"
  have c': "caller pr ?t" "caller pr ?u" using c caller_wake [of pr ?t] by simp_all
  have "wakeup (Ch_nread pi) (acq (L_pipe pi) ?t) = Ret () (acq (L_pipe pi) ?u)"
    using callerD [OF c'(1)] by (simp add: locksimp)
  then show "pipewrite pi va (int n) s = Susp (acq (L_proc pr) (upd_proc pr (\<lambda>p. p\<lparr>p_chan := Some (Ch_nwrite pi), p_state := SLEEPING\<rparr>) ?u))"
    if "room < n"
    unfolding pipewrite_start [OF c] using L that sleeps_susp [OF c'(2), of "L_pipe pi" "Ch_nwrite pi", where 'a = int]
    by (simp add: cs [symmetric] room_def [symmetric])
qed

section \<open>Reading\<close>

lemma piperead_loop_spec:
  fixes s :: "'z filest_scheme"
  assumes "caller pr s" and "p_pagetable (procs s pr) = pt" and "ptwf (mem s) 2 pt" and "user_ok (mem s) pt"
    and "umapped (mem s) pt (unat va) n" and "pipe_ok (pipes s pi)" and "j \<le> n"
  defines "q \<equiv> pcont (pipes s pi)" and "k \<equiv> min (n - j) (length (pcont (pipes s pi)))"
  shows "\<exists>m. piperead_loop [j..<n] pi va n pr (acq (L_pipe pi) s)
      = piperead_end pi (j + k) (acq (L_pipe pi) ((pipe_upd pi ((pipe_pop ^^ k) (pipes s pi)) s)\<lparr>mem := m\<rparr>))
    \<and> agree_on (tpages (mem s) 2 pt) (mem s) m
    \<and> (\<forall>a < 2 ^ 64. upa (mem s) pt (pageof a) \<noteq> 0 \<longrightarrow> m (uaddr (mem s) pt a) =
        (if unat va + j \<le> a \<and> a < unat va + j + k then q ! (a - (unat va + j)) else mem s (uaddr (mem s) pt a)))"
  using assms(1,6,7) assms(2-5) unfolding q_def k_def
proof (induction "n - j" arbitrary: j s)
  case 0
  then show ?case by (intro exI [of _ "mem s"]) (auto simp: pipe_upd_def agree_on_def)
next
  case (Suc i)
  have j: "j < n" using Suc.hyps(2) by simp
  have l: "[j..<n] = j # [Suc j..<n]" using j by (simp add: upt_conv_Cons)
  let ?x = "pipes s pi" and ?m = "mem s"
  show ?case
  proof (cases "pcont ?x = []")
    case True
    then show ?thesis using pipe_tests(1) [of ?x] unfolding l
      by (intro exI [of _ "mem s"]) (auto simp: pipe_upd_def agree_on_def)
  next
    case False
    let ?y = "pipe_pop ?x" and ?c = "pipe_front ?x"
    have pop: "pipe_ok ?y" "pcont ?x = ?c # pcont ?y" using pq.pop [OF Suc.prems(2) False] by blast+
    let ?s1 = "acq (L_pipe pi) (pipe_upd pi ?y s)"
    have um: "unat (va + of_nat j) = unat va + j" "umapped ?m pt (unat (va + of_nat j)) 1"
      using umapped_at [OF Suc.prems(7) j] by blast+
    have "\<exists>m'. copyout pt (va + of_nat j) (\<lambda>_. ?c) 1 ?s1 = Ret 0 (?s1\<lparr>mem := m'\<rparr>)
      \<and> agree_on (tpages ?m 2 pt) ?m m'
      \<and> (\<forall>a < 2 ^ 64. upa ?m pt (pageof a) \<noteq> 0 \<longrightarrow>
           m' (uaddr ?m pt a) = (if unat va + j \<le> a \<and> a < unat va + j + 1 then ?c else ?m (uaddr ?m pt a)))"
      using copyout_mapped [of ?s1 pt "va + of_nat j" 1 "\<lambda>_. ?c"] Suc.prems(5,6) um by auto
    then obtain m' where m': "copyout pt (va + of_nat j) (\<lambda>_. ?c) 1 ?s1 = Ret 0 (?s1\<lparr>mem := m'\<rparr>)"
      "agree_on (tpages ?m 2 pt) ?m m'"
      "\<And>a. a < 2 ^ 64 \<Longrightarrow> upa ?m pt (pageof a) \<noteq> 0 \<Longrightarrow>
           m' (uaddr ?m pt a) = (if unat va + j \<le> a \<and> a < unat va + j + 1 then ?c else ?m (uaddr ?m pt a))" by blast
    have tp: "tpages m' 2 pt = tpages ?m 2 pt" "ptwf m' 2 pt = ptwf ?m 2 pt" using tree_cong [OF m'(2)] by blast+
    note cong = user_ok_cong [OF m'(2)] upa_cong [OF m'(2)] tp
    let ?t = "(pipe_upd pi ?y s)\<lparr>mem := m'\<rparr>"
    have sel: "pipes ?t pi = ?y" "mem ?t = m'" by (simp_all add: pipe_upd_def)
    have h: "i = n - Suc j" "caller pr ?t" "pipe_ok (pipes ?t pi)" "Suc j \<le> n" "p_pagetable (procs ?t pr) = pt"
      "ptwf (mem ?t) 2 pt" "user_ok (mem ?t) pt" "umapped (mem ?t) pt (unat va) n"
      using Suc.hyps(2) Suc.prems pop(1) j cong by (simp_all add: sel caller_def) (simp_all add: pipe_upd_def)
    from Suc.hyps(1) [OF h, unfolded sel cong] obtain m where m: "piperead_loop [Suc j..<n] pi va n pr (acq (L_pipe pi) ?t)
        = piperead_end pi (Suc j + min (n - Suc j) (length (pcont ?y)))
            (acq (L_pipe pi) ((pipe_upd pi ((pipe_pop ^^ min (n - Suc j) (length (pcont ?y))) ?y) ?t)\<lparr>mem := m\<rparr>))"
      "agree_on (tpages ?m 2 pt) m' m"
      "\<And>a. a < 2 ^ 64 \<Longrightarrow> upa ?m pt (pageof a) \<noteq> 0 \<Longrightarrow> m (uaddr ?m pt a) =
          (if unat va + Suc j \<le> a \<and> a < unat va + Suc j + min (n - Suc j) (length (pcont ?y))
           then pcont ?y ! (a - (unat va + Suc j)) else m' (uaddr ?m pt a))"
      by blast
    have k: "min (n - j) (length (pcont ?x)) = Suc (min (n - Suc j) (length (pcont ?y)))" using pop(2) j by simp
    have run: "piperead_loop [j..<n] pi va n pr (acq (L_pipe pi) s) = piperead_loop [Suc j..<n] pi va n pr (acq (L_pipe pi) ?t)"
      using m'(1) False pipe_tests(1) [of ?x] Suc.prems(4) unfolding l
      by (simp add: pipe_front_def pipe_pop_def locksimp)
    have "m (uaddr ?m pt a) = (if unat va + j \<le> a \<and> a < unat va + j + Suc (min (n - Suc j) (length (pcont ?y)))
        then (?c # pcont ?y) ! (a - (unat va + j)) else ?m (uaddr ?m pt a))"
      if a: "a < 2 ^ 64" "upa ?m pt (pageof a) \<noteq> 0" for a
    proof (cases "unat va + j < a")
      case True
      then have "a - (unat va + j) = Suc (a - (unat va + Suc j))" by simp
      then show ?thesis using m(3) [OF a] m'(3) [OF a] True by simp
    qed (use m(3) [OF a] m'(3) [OF a] in auto)
    moreover have "agree_on (tpages ?m 2 pt) ?m m" using m(2) m'(2) by (simp add: agree_on_def)
    moreover have "(pipe_upd pi ((pipe_pop ^^ Suc i) ?x) s)\<lparr>mem := m\<rparr> = (pipe_upd pi ((pipe_pop ^^ i) ?y) ?t)\<lparr>mem := m\<rparr>" for i
      by (simp add: pipe_upd_def funpow_swap1)
    ultimately show ?thesis unfolding run m(1) k pop(2) [symmetric] by (intro exI [of _ m]) (simp del: funpow.simps)
  qed
qed


lemma piperead_spec:
  fixes s :: "'z filest_scheme"
  assumes c: "caller pr s" and pt: "p_pagetable (procs s pr) = pt" and w: "ptwf (mem s) 2 pt" and uo: "user_ok (mem s) pt"
    and u: "umapped (mem s) pt (unat va) n" and ok: "pipe_ok (pipes s pi)"
    and q: "pcont (pipes s pi) \<noteq> [] \<or> \<not> pi_writeopen (pipes s pi)"
  defines "k \<equiv> min n (length (pcont (pipes s pi)))"
  shows "\<exists>m. piperead pi va (int n) s = Ret (int k)
      (touch ((pipe_upd pi ((pipe_pop ^^ k) (pipes s pi)) s)\<lparr>mem := m, procs := wake (Ch_nwrite pi) (Some pr) {0..<NPROC} (procs s)\<rparr>))
    \<and> agree_on (tpages (mem s) 2 pt) (mem s) m
    \<and> (\<forall>a < 2 ^ 64. upa (mem s) pt (pageof a) \<noteq> 0 \<longrightarrow> m (uaddr (mem s) pt a) =
        (if unat va \<le> a \<and> a < unat va + k then pcont (pipes s pi) ! (a - unat va) else mem s (uaddr (mem s) pt a)))"
proof -
  obtain m where m: "piperead_loop [0..<n] pi va n pr (acq (L_pipe pi) s)
      = piperead_end pi k (acq (L_pipe pi) ((pipe_upd pi ((pipe_pop ^^ k) (pipes s pi)) s)\<lparr>mem := m\<rparr>))"
    "agree_on (tpages (mem s) 2 pt) (mem s) m"
    "\<forall>a < 2 ^ 64. upa (mem s) pt (pageof a) \<noteq> 0 \<longrightarrow> m (uaddr (mem s) pt a) =
        (if unat va \<le> a \<and> a < unat va + k then pcont (pipes s pi) ! (a - unat va) else mem s (uaddr (mem s) pt a))"
    using piperead_loop_spec [OF c pt w uo u ok, of 0, simplified] unfolding k_def by auto
  have "caller pr ((pipe_upd pi ((pipe_pop ^^ k) (pipes s pi)) s)\<lparr>mem := m\<rparr>)" using c by (simp add: caller_def pipe_upd_def)
  note e = pipewrite_end_eq(2) [OF this]
  have "piperead pi va (int n) s = Ret (int k)
      (touch ((pipe_upd pi ((pipe_pop ^^ k) (pipes s pi)) s)\<lparr>mem := m, procs := wake (Ch_nwrite pi) (Some pr) {0..<NPROC} (procs s)\<rparr>))"
    unfolding pipewrite_start [OF c] piperead_wait_def using q m(1) e by (auto simp: pipe_tests(1))
  then show ?thesis using m by blast
qed

lemma piperead_blocks:
  fixes s :: "'z filest_scheme"
  assumes "caller pr s" and "pcont (pipes s pi) = []" and "pi_writeopen (pipes s pi)"
  shows "piperead pi va (int n) s = Susp (acq (L_proc pr) (upd_proc pr (\<lambda>p. p\<lparr>p_chan := Some (Ch_nread pi), p_state := SLEEPING\<rparr>) s))"
  unfolding pipewrite_start [OF assms(1)] piperead_wait_def
  using callerD [OF assms(1)] assms(2,3) sleeps_susp [OF assms(1), of "L_pipe pi" "Ch_nread pi", where 'a = int]
  by (simp add: pipe_tests(1))

section \<open>A pipe is a queue of bytes\<close>

text \<open>
  C20. \<^verbatim>\<open>pipewrite\<close> refines appending to a queue of at most \<^verbatim>\<open>PIPESIZE\<close> bytes, also when its 32-bit
  counters wrap around. If the \<open>n\<close> bytes at \<^verbatim>\<open>addr\<close> of the calling process fit, they are appended
  in order, \<open>n\<close> is returned and exactly the readers that sleep on the pipe are woken; otherwise as
  many as fit are appended, the readers are woken, and the writer is asleep waiting for room.
\<close>

theorem pipewrite_refines_queue:
  fixes s :: "'z filest_scheme"
  assumes "caller pr s" and "p_pagetable (procs s pr) = pt" and "ptwf (mem s) 2 pt" and "umapped (mem s) pt (unat va) n"
    and "pipe_ok (pipes s pi)" and "pi_readopen (pipes s pi)"
    and "Q = pcont (pipes s pi)" and "cs = ubytes (mem s) pt (unat va) n"
  shows "if length Q + n \<le> PIPESIZE
    then \<exists>t. pipewrite pi va (int n) s = Ret (int n) t \<and> pipe_ok (pipes t pi) \<and> pcont (pipes t pi) = Q @ cs
      \<and> mem t = mem s \<and> procs t = wake (Ch_nread pi) (Some pr) {0..<NPROC} (procs s) \<and> caller pr t
    else \<exists>t. pipewrite pi va (int n) s = Susp t \<and> pipe_ok (pipes t pi) \<and> pcont (pipes t pi) = Q @ take (PIPESIZE - length Q) cs
      \<and> mem t = mem s \<and> p_state (procs t pr) = SLEEPING \<and> p_chan (procs t pr) = Some (Ch_nwrite pi)
      \<and> (\<forall>p. p \<noteq> pr \<longrightarrow> procs t p = wake (Ch_nread pi) (Some pr) {0..<NPROC} (procs s) p)"
proof -
  note W = pipewrite_spec [OF assms(1-6), folded assms(7,8)]
  have l: "length cs = n" using assms(8) by (simp add: ubytes_def)
  have cap: "length Q \<le> PIPESIZE" using pq.cap [OF assms(5)] assms(7) by simp
  show ?thesis
  proof (cases "length Q + n \<le> PIPESIZE")
    case True
    have "pipe_ok (fold pipe_put cs (pipes s pi)) \<and> pcont (fold pipe_put cs (pipes s pi)) = Q @ cs"
      using pq.put_all [OF assms(5), of cs] assms(7) l True by simp
    moreover have "n \<le> PIPESIZE - length Q" using True by simp
    ultimately show ?thesis using True W(1) caller_wake [of pr "pipe_upd pi (fold pipe_put cs (pipes s pi)) s"] assms(1) by simp
  next
    case False
    let ?x = "fold pipe_put (take (PIPESIZE - length Q) cs) (pipes s pi)"
    have "pipe_ok ?x \<and> pcont ?x = Q @ take (PIPESIZE - length Q) cs"
      using pq.put_all [OF assms(5), of "take (PIPESIZE - length Q) cs"] assms(7) l cap by simp
    moreover have "PIPESIZE - length Q < n" using False cap by linarith
    ultimately show ?thesis using False W(2) by (simp add: upd_proc_def)
  qed
qed

definition demo_filest :: filest where
  "demo_filest = (ust.extend (fsst.extend (demo_fs (\<lambda>_ _. 0))
       (ust.fields [] [] 0 0 0 0 0 0 (\<lambda>_. 0) 0 0 False True \<lparr>c_buf = (\<lambda>_. 0), c_r = 0, c_w = 0, c_e = 0\<rparr> (\<lambda>_. None) (\<lambda>_. None)))
     \<lparr>ftable = (\<lambda>_. \<lparr>f_type = FD_NONE, f_ref = 0, f_readable = False, f_writable = False, f_pipe = 0, f_ip = None, f_off = 0, f_major = 0\<rparr>),
      pipes = (\<lambda>_. \<lparr>pi_data = (\<lambda>_. 0), pi_nread = 0xFFFFFFFE, pi_nwrite = 0xFFFFFFFE, pi_readopen = True, pi_writeopen = True\<rparr>)\<rparr>)
     \<lparr>mem := blit 0x400a 3 (\<lambda>i. of_nat (i + 1)) demo_mem, procs := (\<lambda>_. zero_proc)(1 := zero_proc\<lparr>p_state := RUNNING, p_pid := 1, p_pagetable := 0x1000\<rparr>)\<rparr>"

lemma demo_filest_sel:
  "caller 1 demo_filest" "p_pagetable (procs demo_filest 1) = 0x1000" "mem demo_filest = blit 0x400a 3 (\<lambda>i. of_nat (i + 1)) demo_mem"
  "pi_readopen (pipes demo_filest pi)" "pi_writeopen (pipes demo_filest pi)" "pipe_ok (pipes demo_filest pi)" "pcont (pipes demo_filest pi) = []"
  by (simp_all add: demo_filest_def caller_def demo_fs_def ust.defs fsst.defs lst.defs bst.defs kst.defs mach.defs cpu_ok_def lk_free_def
      demo_mach_def boot_mach_def zero_cpu_def zero_proc_def pipe_ok_def pcont_def rcont_empty)

lemma demo_filest_mem:
  "ptwf (mem demo_filest) 2 0x1000" "user_ok (mem demo_filest) 0x1000" "umapped (mem demo_filest) 0x1000 0 4096"
  "ubytes (mem demo_filest) 0x1000 10 3 = [1, 2, 3]"
proof -
  have a: "agree_on (tpages demo_mem 2 0x1000) demo_mem (mem demo_filest)"
    by (auto simp: agree_on_def demo_tree(2) demo_filest_sel(3) blit_def)
  show "ptwf (mem demo_filest) 2 0x1000" using tree_cong [OF a] demo_tree(1) by blast
  show "user_ok (mem demo_filest) 0x1000" "umapped (mem demo_filest) 0x1000 0 4096"
    using user_ok_cong [OF a] demo_user by simp_all
  have "upa demo_mem 0x1000 0 = 0x4000" unfolding demo_upa by (simp add: MAXVA_def)
  then have "uaddr (mem demo_filest) 0x1000 (10 + i) = 0x400a + i" if "i < 3" for i
    using that unfolding user_ok_cong(3) [OF a] by (simp add: uaddr_def)
  then have "ubytes (mem demo_filest) 0x1000 10 3 = map (\<lambda>i. mem demo_filest (0x400a + i)) [0..<3]"
    by (simp add: ubytes_def)
  then show "ubytes (mem demo_filest) 0x1000 10 3 = [1, 2, 3]" by (simp add: demo_filest_sel(3) blit_def upt_rec)
qed

text \<open>The counters of this pipe are two below the point where they wrap around.\<close>

theorem pipewrite_refines_queue_witness:
  "\<exists>t. pipewrite 0x5000 10 3 demo_filest = Ret 3 t \<and> pcont (pipes t 0x5000) = [1, 2, 3]"
proof -
  have u: "umapped (mem demo_filest) 0x1000 (unat (10 :: uint64)) 3" using umapped_sub [OF demo_filest_mem(3)] by simp
  show ?thesis
    using pipewrite_refines_queue [OF demo_filest_sel(1,2) demo_filest_mem(1) u demo_filest_sel(6,4) refl refl, of "0x5000"]
      demo_filest_mem(4) by (simp add: demo_filest_sel(7) PIPESIZE_def) blast
qed

text \<open>
  C21. \<^verbatim>\<open>piperead\<close> refines taking bytes from the front of the queue: from a pipe that has bytes, or has
  no writer left, it moves the oldest \<open>min n\<close> of them, in order, to \<^verbatim>\<open>addr\<close> of the calling process,
  returns their number, changes no other byte of the process, and wakes exactly the writers that
  sleep on the pipe; from an empty pipe that still has a writer it goes to sleep.
\<close>

theorem piperead_refines_queue:
  fixes s :: "'z filest_scheme"
  assumes "caller pr s" and "p_pagetable (procs s pr) = pt" and "ptwf (mem s) 2 pt" and "user_ok (mem s) pt"
    and "umapped (mem s) pt (unat va) n" and "pipe_ok (pipes s pi)" and "Q = pcont (pipes s pi)" and "k = min n (length Q)"
  shows "if Q \<noteq> [] \<or> \<not> pi_writeopen (pipes s pi)
    then \<exists>t. piperead pi va (int n) s = Ret (int k) t \<and> pipe_ok (pipes t pi) \<and> pcont (pipes t pi) = drop k Q
      \<and> ubytes (mem t) pt (unat va) k = take k Q
      \<and> (\<forall>a < 2 ^ 64. upa (mem s) pt (pageof a) \<noteq> 0 \<and> \<not> (unat va \<le> a \<and> a < unat va + k) \<longrightarrow>
           mem t (uaddr (mem t) pt a) = mem s (uaddr (mem s) pt a))
      \<and> procs t = wake (Ch_nwrite pi) (Some pr) {0..<NPROC} (procs s)
    else \<exists>t. piperead pi va (int n) s = Susp t \<and> pipes t = pipes s \<and> mem t = mem s
      \<and> p_state (procs t pr) = SLEEPING \<and> p_chan (procs t pr) = Some (Ch_nread pi) \<and> (\<forall>p. p \<noteq> pr \<longrightarrow> procs t p = procs s p)"
proof (cases "Q \<noteq> [] \<or> \<not> pi_writeopen (pipes s pi)")
  case True
  obtain m where m: "piperead pi va (int n) s = Ret (int k)
      (touch ((pipe_upd pi ((pipe_pop ^^ k) (pipes s pi)) s)\<lparr>mem := m, procs := wake (Ch_nwrite pi) (Some pr) {0..<NPROC} (procs s)\<rparr>))"
    "agree_on (tpages (mem s) 2 pt) (mem s) m"
    "\<And>a. a < 2 ^ 64 \<Longrightarrow> upa (mem s) pt (pageof a) \<noteq> 0 \<Longrightarrow> m (uaddr (mem s) pt a) =
        (if unat va \<le> a \<and> a < unat va + k then Q ! (a - unat va) else mem s (uaddr (mem s) pt a))"
    using piperead_spec [OF assms(1-6)] True assms(7,8) by auto
  have ua: "uaddr m pt = uaddr (mem s) pt" using user_ok_cong(3) [OF m(2)] .
  have pop: "pipe_ok ((pipe_pop ^^ k) (pipes s pi)) \<and> pcont ((pipe_pop ^^ k) (pipes s pi)) = drop k Q"
    using pq.pop_all [OF assms(6), of k] assms(7,8) by auto
  have "m (uaddr m pt (unat va + i)) = Q ! i" if "i < k" for i
  proof -
    have "i < n" using that assms(8) by simp
    then have "unat va + n \<le> 2 ^ 38" "upa (mem s) pt (pageof (unat va + i)) \<noteq> 0"
      using umapped_bound [OF assms(5)] assms(5) by (auto simp: umapped_def)
    then show ?thesis using m(3) [of "unat va + i"] that \<open>i < n\<close> by (simp add: ua)
  qed
  then have "ubytes m pt (unat va) k = take k Q"
    using assms(8) by (auto simp: ubytes_def intro!: nth_equalityI)
  then show ?thesis using True m pop ua by auto
next
  case False
  then show ?thesis using piperead_blocks [OF assms(1)] assms(7) by (auto simp: upd_proc_def)
qed


theorem piperead_refines_queue_witness:
  "\<exists>t. piperead 0x5000 20 3 (pipe_upd 0x5000 (fold pipe_put [7, 8] (pipes demo_filest 0x5000)) demo_filest) = Ret 2 t
     \<and> pcont (pipes t 0x5000) = [] \<and> ubytes (mem t) 0x1000 20 2 = [7, 8]"
proof -
  let ?s = "pipe_upd 0x5000 (fold pipe_put [7, 8] (pipes demo_filest 0x5000)) demo_filest"
  have u: "umapped (mem ?s) 0x1000 (unat (20 :: uint64)) 3" using umapped_sub [OF demo_filest_mem(3)] by simp
  have q: "pipe_ok (pipes ?s 0x5000) \<and> pcont (pipes ?s 0x5000) = [7, 8]"
    using pq.put_all [OF demo_filest_sel(6), of "0x5000" "[7, 8]"] by (simp add: demo_filest_sel(7) PIPESIZE_def)
  have c: "caller 1 ?s" "p_pagetable (procs ?s 1) = 0x1000" "ptwf (mem ?s) 2 0x1000" "user_ok (mem ?s) 0x1000"
    using demo_filest_sel(1,2) demo_filest_mem(1,2) by simp_all
  have k: "2 = min 3 (length [7, 8 :: byte])" by simp
  show ?thesis
    using piperead_refines_queue [OF c u conjunct1 [OF q] conjunct2 [OF q, symmetric] k] by auto
qed

end
