(* ===== verification/Xv6_Line.thy ===== *)
theory Xv6_Line
  imports Xv6_Pipe
begin

text \<open>
  The serial line: the transmit buffer of \<^verbatim>\<open>kernel/uart.c\<close> and the input buffer of
  \<^verbatim>\<open>kernel/console.c\<close> as bounded queues, the order of the bytes sent, the editing of an input line,
  and the numbers printed by \<^verbatim>\<open>kernel/printf.c\<close>.
\<close>

section \<open>The transmit buffer\<close>

definition uart_ok :: "'z ust_scheme \<Rightarrow> bool" where
  "uart_ok s \<longleftrightarrow> unat (uart_tx_w s - uart_tx_r s) \<le> UART_TX_BUF_SIZE"

definition uart_q :: "'z ust_scheme \<Rightarrow> byte list" where
  "uart_q s = rcont UART_TX_BUF_SIZE (uart_tx_buf s) (uart_tx_r s) (uart_tx_w s)"

definition uart_put :: "byte \<Rightarrow> 'z ust_scheme \<Rightarrow> 'z ust_scheme" where
  "uart_put c s = s\<lparr>uart_tx_buf := (uart_tx_buf s)(unat (uart_tx_w s) mod UART_TX_BUF_SIZE := c), uart_tx_w := uart_tx_w s + 1\<rparr>"

definition uart_front :: "'z ust_scheme \<Rightarrow> byte" where
  "uart_front s = uart_tx_buf s (unat (uart_tx_r s) mod UART_TX_BUF_SIZE)"

definition uart_pop :: "'z ust_scheme \<Rightarrow> 'z ust_scheme" where
  "uart_pop s = s\<lparr>uart_tx_r := uart_tx_r s + 1\<rparr>"

lemma UART_dvd: "UART_TX_BUF_SIZE dvd 2 ^ LENGTH(64)" "UART_TX_BUF_SIZE < 2 ^ LENGTH(64)"
  by (simp_all add: UART_TX_BUF_SIZE_def)

interpretation uq: fifo uart_ok uart_q UART_TX_BUF_SIZE uart_put uart_front uart_pop
proof
  show "uart_ok (uart_put c s) \<and> uart_q (uart_put c s) = uart_q s @ [c]" if "uart_ok s" "length (uart_q s) < UART_TX_BUF_SIZE"
    for c and s :: "'z ust_scheme"
    using rcont_put(1) [OF UART_dvd, of "uart_tx_w s" "uart_tx_r s"]
      rcont_put(2) [OF UART_dvd, of "uart_tx_w s" "uart_tx_r s" "uart_tx_buf s" c] that
    by (simp add: uart_ok_def uart_q_def uart_put_def)
  show "uart_ok (uart_pop s) \<and> uart_q s = uart_front s # uart_q (uart_pop s)" if "uart_ok s" "uart_q s \<noteq> []" for s :: "'z ust_scheme"
    using rcont_pop(1) [of "uart_tx_r s" "uart_tx_w s"] rcont_pop(2) [of "uart_tx_r s" "uart_tx_w s" UART_TX_BUF_SIZE "uart_tx_buf s"] that
    by (auto simp: uart_ok_def uart_q_def uart_pop_def uart_front_def rcont_empty)
qed (simp add: uart_ok_def uart_q_def)

lemma uart_tests:
  "uart_q s = [] \<longleftrightarrow> uart_tx_w s = uart_tx_r s"
  "uart_tx_w s = uart_tx_r s + of_nat UART_TX_BUF_SIZE \<longleftrightarrow> length (uart_q s) = UART_TX_BUF_SIZE"
proof -
  show "uart_q s = [] \<longleftrightarrow> uart_tx_w s = uart_tx_r s" unfolding uart_q_def rcont_empty by (rule eq_commute)
  show "uart_tx_w s = uart_tx_r s + of_nat UART_TX_BUF_SIZE \<longleftrightarrow> length (uart_q s) = UART_TX_BUF_SIZE"
    unfolding uart_q_def by (rule rcont_full [OF UART_dvd(2)])
qed

text \<open>The fields of the serial line and the lock operations.\<close>

lemma ust_sel [simp]:
  "uart_rx (acq lk s) = uart_rx s" "uart_out (acq lk s) = uart_out s" "uart_busy (acq lk s) = uart_busy s" "uart_speed (acq lk s) = uart_speed s"
  "uart_tx_buf (acq lk s) = uart_tx_buf s" "uart_tx_w (acq lk s) = uart_tx_w s" "uart_tx_r (acq lk s) = uart_tx_r s"
  "panicked (acq lk s) = panicked s" "pr_locking (acq lk s) = pr_locking s" "con (acq lk s) = con s"
  "uart_rx (touch s) = uart_rx s" "uart_out (touch s) = uart_out s" "uart_busy (touch s) = uart_busy s" "uart_speed (touch s) = uart_speed s"
  "uart_tx_buf (touch s) = uart_tx_buf s" "uart_tx_w (touch s) = uart_tx_w s" "uart_tx_r (touch s) = uart_tx_r s"
  "panicked (touch s) = panicked s" "pr_locking (touch s) = pr_locking s" "con (touch s) = con s"
  "uart_out (push_off s) = uart_out s" "uart_busy (push_off s) = uart_busy s" "uart_speed (push_off s) = uart_speed s" "panicked (push_off s) = panicked s"
  by (simp_all add: acq_def touch_def push_off_def Let_def intr_defs)

lemma ust_upd [locksimp]:
  "(acq lk s)\<lparr>uart_out := a\<rparr> = acq lk (s\<lparr>uart_out := a\<rparr>)" "(acq lk s)\<lparr>uart_busy := b\<rparr> = acq lk (s\<lparr>uart_busy := b\<rparr>)"
  "(acq lk s)\<lparr>uart_tx_buf := c\<rparr> = acq lk (s\<lparr>uart_tx_buf := c\<rparr>)" "(acq lk s)\<lparr>uart_tx_w := w\<rparr> = acq lk (s\<lparr>uart_tx_w := w\<rparr>)"
  "(acq lk s)\<lparr>uart_tx_r := r\<rparr> = acq lk (s\<lparr>uart_tx_r := r\<rparr>)" "(acq lk s)\<lparr>con := d\<rparr> = acq lk (s\<lparr>con := d\<rparr>)"
  "(touch s)\<lparr>uart_out := a\<rparr> = touch (s\<lparr>uart_out := a\<rparr>)" "(touch s)\<lparr>uart_busy := b\<rparr> = touch (s\<lparr>uart_busy := b\<rparr>)"
  "(touch s)\<lparr>con := d\<rparr> = touch (s\<lparr>con := d\<rparr>)"
  "(push_off s)\<lparr>uart_out := a\<rparr> = push_off (s\<lparr>uart_out := a\<rparr>)" "(push_off s)\<lparr>uart_busy := b\<rparr> = push_off (s\<lparr>uart_busy := b\<rparr>)"
  by (simp_all add: acq_def touch_def push_off_def Let_def intr_defs)

lemma ust_ok [simp]:
  "cpu_ok (s\<lparr>uart_out := a\<rparr>) \<longleftrightarrow> cpu_ok s" "cpu_ok (s\<lparr>uart_busy := b\<rparr>) \<longleftrightarrow> cpu_ok s" "cpu_ok (s\<lparr>uart_tx_buf := c\<rparr>) \<longleftrightarrow> cpu_ok s"
  "cpu_ok (s\<lparr>uart_tx_w := w\<rparr>) \<longleftrightarrow> cpu_ok s" "cpu_ok (s\<lparr>uart_tx_r := r\<rparr>) \<longleftrightarrow> cpu_ok s" "cpu_ok (s\<lparr>con := d\<rparr>) \<longleftrightarrow> cpu_ok s"
  "lk_free lk (s\<lparr>uart_out := a\<rparr>) \<longleftrightarrow> lk_free lk s" "lk_free lk (s\<lparr>uart_busy := b\<rparr>) \<longleftrightarrow> lk_free lk s" "lk_free lk (s\<lparr>uart_tx_buf := c\<rparr>) \<longleftrightarrow> lk_free lk s"
  "lk_free lk (s\<lparr>uart_tx_w := w\<rparr>) \<longleftrightarrow> lk_free lk s" "lk_free lk (s\<lparr>uart_tx_r := r\<rparr>) \<longleftrightarrow> lk_free lk s" "lk_free lk (s\<lparr>con := d\<rparr>) \<longleftrightarrow> lk_free lk s"
  "plocks_free (s\<lparr>uart_out := a\<rparr>) \<longleftrightarrow> plocks_free s" "plocks_free (s\<lparr>uart_busy := b\<rparr>) \<longleftrightarrow> plocks_free s" "plocks_free (s\<lparr>uart_tx_buf := c\<rparr>) \<longleftrightarrow> plocks_free s"
  "plocks_free (s\<lparr>uart_tx_w := w\<rparr>) \<longleftrightarrow> plocks_free s" "plocks_free (s\<lparr>uart_tx_r := r\<rparr>) \<longleftrightarrow> plocks_free s" "plocks_free (s\<lparr>con := d\<rparr>) \<longleftrightarrow> plocks_free s"
  by (simp_all add: cpu_ok_def lk_free_def plocks_free_def)

lemma read_LSR_idle: "read_LSR s = (l, t) \<Longrightarrow> l AND LSR_TX_IDLE = 0 \<longleftrightarrow> uart_busy s \<noteq> 0" "read_LSR s = (l, t) \<Longrightarrow> t = s\<lparr>uart_busy := uart_busy s - 1\<rparr>"
  by (auto simp: read_LSR_def uart_defs split: if_splits)

section \<open>Bytes leave in the order in which they were put\<close>

text \<open>What has been sent and what is waiting, in order.\<close>

definition uart_stream :: "'z ust_scheme \<Rightarrow> byte list" where
  "uart_stream s = uart_out s @ uart_q s"

definition uart_frame :: "'z ust_scheme \<Rightarrow> 'z ust_scheme \<Rightarrow> bool" where
  "uart_frame s t \<longleftrightarrow> (\<exists>r a b P. t = s\<lparr>uart_tx_r := r, procs := P, uart_out := a, uart_busy := b\<rparr>
     \<and> (\<forall>p. \<exists>st. P p = (procs s p)\<lparr>p_state := st\<rparr>))"

lemma uart_frameI:
  "t = s\<lparr>uart_tx_r := r, procs := P, uart_out := a, uart_busy := b\<rparr> \<Longrightarrow> (\<And>p. \<exists>st. P p = (procs s p)\<lparr>p_state := st\<rparr>) \<Longrightarrow> uart_frame s t"
  unfolding uart_frame_def by blast

lemma uart_frame_refl: "uart_frame s s"
  by (rule uart_frameI [where r = "uart_tx_r s" and a = "uart_out s" and b = "uart_busy s" and P = "procs s"]) (simp, rule p_state_id)

lemma uart_frame_trans:
  assumes "uart_frame s t" and "uart_frame t u"
  shows "uart_frame s u"
proof -
  obtain r a b P where t: "t = s\<lparr>uart_tx_r := r, procs := P, uart_out := a, uart_busy := b\<rparr>" "\<forall>p. \<exists>st. P p = (procs s p)\<lparr>p_state := st\<rparr>"
    using assms(1) by (auto simp: uart_frame_def)
  obtain r' a' b' P' where u: "u = t\<lparr>uart_tx_r := r', procs := P', uart_out := a', uart_busy := b'\<rparr>" "\<forall>p. \<exists>st. P' p = (procs t p)\<lparr>p_state := st\<rparr>"
    using assms(2) by (auto simp: uart_frame_def)
  have "\<exists>st. P' p = (procs s p)\<lparr>p_state := st\<rparr>" for p
  proof -
    obtain st st' where "P p = (procs s p)\<lparr>p_state := st\<rparr>" "P' p = (procs t p)\<lparr>p_state := st'\<rparr>" using t(2) u(2) by meson
    then show ?thesis using t(1) by auto
  qed
  moreover have "u = s\<lparr>uart_tx_r := r', procs := P', uart_out := a', uart_busy := b'\<rparr>" using t(1) u(1) by simp
  ultimately show ?thesis by (rule uart_frameI [rotated])
qed

lemma uart_frameD:
  assumes "uart_frame s t"
  shows "cpu_ok t \<longleftrightarrow> cpu_ok s" "lk_free lk t \<longleftrightarrow> lk_free lk s" "plocks_free t \<longleftrightarrow> plocks_free s" "panicked t = panicked s" "con t = con s"
    "uart_rx t = uart_rx s" "uart_speed t = uart_speed s" "cpu_proc (cpus t (tp t)) = cpu_proc (cpus s (tp s))"
    "caller pr t \<longleftrightarrow> caller pr s" "pr_locking t = pr_locking s"
proof -
  obtain r a b P where t: "t = s\<lparr>uart_tx_r := r, procs := P, uart_out := a, uart_busy := b\<rparr>" "\<forall>p. \<exists>st. P p = (procs s p)\<lparr>p_state := st\<rparr>"
    using assms by (auto simp: uart_frame_def)
  have k: "p_killed (P pr) = p_killed (procs s pr)" using spec [OF t(2), of pr] by auto
  show "cpu_ok t \<longleftrightarrow> cpu_ok s" "lk_free lk t \<longleftrightarrow> lk_free lk s" "plocks_free t \<longleftrightarrow> plocks_free s" "panicked t = panicked s" "con t = con s"
    "uart_rx t = uart_rx s" "uart_speed t = uart_speed s" "cpu_proc (cpus t (tp t)) = cpu_proc (cpus s (tp s))"
    "pr_locking t = pr_locking s" using t(1) by simp_all
  show "caller pr t \<longleftrightarrow> caller pr s" using t(1) k by (simp add: caller_def)
qed

lemma uartstart_loop_spec:
  fixes s :: "'z ust_scheme"
  assumes "cpu_ok s" and "plocks_free s" and "uart_ok s" and "length (uart_q s) \<le> k" and "\<And>p. lk \<noteq> L_proc p"
  shows "\<exists>t. uartstart_loop k (acq lk s) = Ret () (acq lk t) \<and> uart_frame s t \<and> uart_ok t \<and> uart_stream t = uart_stream s
    \<and> length (uart_out s) \<le> length (uart_out t) \<and> (uart_busy s = 0 \<longrightarrow> length (uart_q t) \<le> length (uart_q s) - 1)"
  using assms(1-4)
proof (induction k arbitrary: s)
  case 0
  then have "uart_tx_w s = uart_tx_r s" using uart_tests(1) [of s] by simp
  then show ?case using 0 uart_tests(1) [of s] by (intro exI [of _ s]) (simp add: uart_frame_refl)
next
  case (Suc k)
  let ?s = "acq lk s"
  show ?case
  proof (cases "uart_q s = [] \<or> uart_busy s \<noteq> 0")
    case True
    let ?t = "if uart_q s = [] then s else s\<lparr>uart_busy := uart_busy s - 1\<rparr>"
    obtain l t where l: "read_LSR ?s = (l, t)" by fastforce
    have "uartstart_loop (Suc k) ?s = Ret () (acq lk ?t)"
      using True uart_tests(1) [of s] read_LSR_idle [OF l] l by (auto simp: locksimp)
    moreover have "uart_frame s ?t"
      by (rule uart_frameI [where r = "uart_tx_r s" and a = "uart_out s" and b = "uart_busy ?t" and P = "procs s"]) (simp, rule p_state_id)
    moreover have "uart_ok ?t" "uart_stream ?t = uart_stream s" using Suc.prems(3) by (simp_all add: uart_ok_def uart_stream_def uart_q_def)
    ultimately show ?thesis using True by auto
  next
    case False
    obtain l t where l: "read_LSR ?s = (l, t)" by fastforce
    have q: "uart_tx_w s \<noteq> uart_tx_r s" using False uart_tests(1) [of s] by simp
    let ?u = "(uart_pop s)\<lparr>procs := wake Ch_uart_tx_r (cpu_proc (cpus s (tp s))) {0..<NPROC} (procs s),
      uart_out := uart_out s @ [uart_front s], uart_busy := uart_speed s\<rparr>"
    have pop: "uart_ok (uart_pop s)" "uart_q s = uart_front s # uart_q (uart_pop s)" using uq.pop [OF Suc.prems(3)] False by blast+
    have uq: "uart_q ?u = uart_q (uart_pop s)" by (simp add: uart_q_def uart_pop_def)
    have "uart_ok ?u" "uart_out ?u = uart_out s @ [uart_front s]" using pop(1) by (simp_all add: uart_pop_def uart_ok_def)
    moreover have "cpu_ok ?u" "plocks_free ?u" using Suc.prems(1,2) by (simp_all add: uart_pop_def)
    moreover have "length (uart_q ?u) \<le> k" unfolding uq using Suc.prems(4) pop(2) by simp
    ultimately have u: "cpu_ok ?u" "plocks_free ?u" "uart_ok ?u" "length (uart_q ?u) \<le> k" "uart_stream ?u = uart_stream s"
      using pop(2) uq by (simp_all add: uart_stream_def)
    have step: "uartstart_loop (Suc k) ?s = uartstart_loop k (acq lk ?u)"
      using False q read_LSR_idle [OF l] l Suc.prems(1,2) assms(5)
      by (simp add: uart_front_def uart_pop_def write_THR_def locksimp)
    obtain v where v: "uartstart_loop k (acq lk ?u) = Ret () (acq lk v)" "uart_frame ?u v" "uart_ok v" "uart_stream v = uart_stream ?u"
      "length (uart_out ?u) \<le> length (uart_out v)"
      using Suc.IH [OF u(1-4)] by blast
    have "uart_frame s ?u"
      by (rule uart_frameI [where P = "procs ?u" and r = "uart_tx_r ?u" and a = "uart_out ?u" and b = "uart_busy ?u"]) (simp add: uart_pop_def, simp add: wake_upto)
    then have "uart_frame s v" using v(2) by (rule uart_frame_trans)
    moreover have "length (uart_q v) \<le> length (uart_q s) - 1"
      using arg_cong [OF v(4) [unfolded u(5)], of length] v(5) by (simp add: uart_stream_def)
    ultimately show ?thesis using step v u(5) by auto
  qed
qed

lemma uartstart_spec:
  fixes s :: "'z ust_scheme"
  assumes "cpu_ok s" and "plocks_free s" and "uart_ok s" and "\<And>p. lk \<noteq> L_proc p"
  shows "\<exists>t. uartstart (acq lk s) = Ret () (acq lk t) \<and> uart_frame s t \<and> uart_ok t \<and> uart_stream t = uart_stream s
    \<and> (uart_busy s = 0 \<longrightarrow> length (uart_q t) \<le> length (uart_q s) - 1)"
  using uartstart_loop_spec [OF assms(1-3) _ assms(4), of "unat (uart_tx_w s - uart_tx_r s)"]
  by (auto simp: uartstart_def uart_q_def)

text \<open>
  C23. \<^verbatim>\<open>uartputc\<close> queues a byte behind all bytes queued before and starts the transmitter: what has
  been sent followed by what is buffered is extended by exactly this byte, so bytes leave in the
  order of the calls, and the 32-byte buffer never overflows. When it is full the caller sleeps,
  and nothing is lost.
\<close>

theorem uartputc_in_order:
  fixes s :: "'z ust_scheme"
  assumes "caller pr s" and "uart_ok s" and "\<not> panicked s"
  shows "if length (uart_q s) < UART_TX_BUF_SIZE
    then \<exists>t. uartputc c s = Ret () t \<and> uart_stream t = uart_stream s @ [c] \<and> uart_ok t \<and> caller pr t
    else \<exists>t. uartputc c s = Susp t \<and> uart_stream t = uart_stream s \<and> uart_ok t
      \<and> p_state (procs t pr) = SLEEPING \<and> p_chan (procs t pr) = Some Ch_uart_tx_r"
proof (cases "length (uart_q s) < UART_TX_BUF_SIZE")
  case True
  note C = callerD [OF assms(1)]
  have put: "uart_ok (uart_put c s)" "uart_q (uart_put c s) = uart_q s @ [c]" using uq.put [OF assms(2) True] by blast+
  have "cpu_ok (uart_put c s)" "plocks_free (uart_put c s)" using C by (simp_all add: uart_put_def)
  then obtain t where t: "uartstart (acq L_uart_tx (uart_put c s)) = Ret () (acq L_uart_tx t)" "uart_frame (uart_put c s) t" "uart_ok t"
    "uart_stream t = uart_stream (uart_put c s)" using uartstart_spec [OF _ _ put(1)] by blast
  note F = uart_frameD [OF t(2)]
  have "uart_tx_w s \<noteq> uart_tx_r s + of_nat UART_TX_BUF_SIZE" using uart_tests(2) [of s] True by simp
  then have "uartputc c s = Ret () (touch t)"
    unfolding uartputc_def uartputc_loop_def using C assms(3) t(1) F(1,2) by (simp add: uart_put_def locksimp)
  moreover have "uart_stream (touch t) = uart_stream s @ [c]" "uart_ok (touch t)"
    using t(3,4) put(2) by (simp_all add: uart_stream_def uart_q_def uart_ok_def uart_put_def)
  moreover have "caller pr (touch t)" using assms(1) F(9) by (simp add: caller_def uart_put_def)
  ultimately show ?thesis using True by auto
next
  case False
  note C = callerD [OF assms(1)]
  have "length (uart_q s) = UART_TX_BUF_SIZE" using uq.cap [OF assms(2)] False by simp
  then have "uart_tx_w s = uart_tx_r s + of_nat UART_TX_BUF_SIZE" using uart_tests(2) by blast
  then have "uartputc c s = Susp (acq (L_proc pr) (upd_proc pr (\<lambda>p. p\<lparr>p_chan := Some Ch_uart_tx_r, p_state := SLEEPING\<rparr>) s))"
    unfolding uartputc_def uartputc_loop_def using C assms(3) sleep_susp [of s pr L_uart_tx Ch_uart_tx_r] by simp
  then show ?thesis using False assms(2) by (simp add: uart_stream_def uart_q_def uart_ok_def upd_proc_def)
qed

text \<open>
  The transmitter finishes a byte and interrupts, and the handler runs; \<open>n\<close> times.
\<close>

primrec tx_interrupts :: "nat \<Rightarrow> 'z ust_scheme \<Rightarrow> ('z ust_scheme, unit) res" where
  "tx_interrupts 0 s = Ret () s"
| "tx_interrupts (Suc n) s = seq (uartintr (s\<lparr>uart_busy := 0\<rparr>)) (tx_interrupts n)"

lemma uartintr_tx:
  fixes s :: "'z ust_scheme"
  assumes "caller pr s" and "uart_ok s" and "uart_rx s = []"
  shows "\<exists>t. uartintr (s\<lparr>uart_busy := 0\<rparr>) = Ret () t \<and> caller pr t \<and> uart_ok t \<and> uart_rx t = [] \<and> uart_stream t = uart_stream s
    \<and> length (uart_q t) \<le> length (uart_q s) - 1"
proof -
  note C = callerD [OF assms(1)]
  let ?s = "s\<lparr>uart_busy := 0\<rparr>"
  have g: "uartgetc ?s = (None, ?s)" using assms(3) by (simp add: uartgetc_def read_LSR_def uart_defs)
  have "cpu_ok ?s" "plocks_free ?s" "uart_ok ?s" using C assms(2) by (simp_all add: uart_ok_def)
  then obtain t where t: "uartstart (acq L_uart_tx ?s) = Ret () (acq L_uart_tx t)" "uart_frame ?s t" "uart_ok t" "uart_stream t = uart_stream ?s"
    "length (uart_q t) \<le> length (uart_q ?s) - 1" using uartstart_spec [of ?s L_uart_tx] by auto
  note F = uart_frameD [OF t(2)]
  have "uartintr ?s = Ret () (touch t)"
    unfolding uartintr_def using g C t(1) F(1,2) assms(3) by simp
  moreover have "caller pr (touch t)" using assms(1) F(9) by (simp add: caller_def)
  moreover have "uart_ok (touch t)" "uart_rx (touch t) = []" "uart_stream (touch t) = uart_stream s" "length (uart_q (touch t)) \<le> length (uart_q s) - 1"
    using t(3-5) F(6) assms(3) by (simp_all add: uart_ok_def uart_stream_def uart_q_def)
  ultimately show ?thesis by blast
qed

text \<open>
  C24. Output drains: however full the transmit buffer is, as many transmit interrupts as it has
  bytes send all of them, in order, and leave it empty.
\<close>

theorem uart_drains:
  fixes s :: "'z ust_scheme"
  assumes "caller pr s" and "uart_ok s" and "uart_rx s = []" and "length (uart_q s) \<le> n"
  shows "\<exists>t. tx_interrupts n s = Ret () t \<and> uart_q t = [] \<and> uart_out t = uart_out s @ uart_q s"
  using assms
proof (induction n arbitrary: s)
  case 0
  then show ?case by simp
next
  case (Suc n)
  obtain t where t: "uartintr (s\<lparr>uart_busy := 0\<rparr>) = Ret () t" "caller pr t" "uart_ok t" "uart_rx t = []" "uart_stream t = uart_stream s"
    "length (uart_q t) \<le> length (uart_q s) - 1" using uartintr_tx [OF Suc.prems(1-3)] by blast
  have "length (uart_q t) \<le> n" using t(6) Suc.prems(4) by linarith
  then obtain u where "tx_interrupts n t = Ret () u" "uart_q u = []" "uart_out u = uart_out t @ uart_q t"
    using Suc.IH [OF t(2-4)] by blast
  then show ?case using t(1,5) by (simp add: uart_stream_def)
qed

lemma demo_uart: "caller 1 demo_filest" "uart_ok demo_filest" "\<not> panicked demo_filest" "uart_rx demo_filest = []" "uart_q demo_filest = []"
  "uart_out demo_filest = []"
  using demo_filest_sel(1)
  by (simp_all add: uart_ok_def uart_q_def rcont_empty demo_filest_def ust.defs fsst.defs)

theorem uartputc_in_order_witness:
  "\<exists>t. uartputc 65 demo_filest = Ret () t \<and> uart_stream t = [65]"
  using uartputc_in_order [OF demo_uart(1-3), of 65] demo_uart(5,6) by (auto simp: uart_stream_def UART_TX_BUF_SIZE_def)

theorem uart_drains_witness:
  "\<exists>t. tx_interrupts 3 (uart_put 66 (uart_put 65 demo_filest)) = Ret () t \<and> uart_q t = [] \<and> uart_out t = [65, 66]"
proof -
  let ?s = "uart_put 66 (uart_put 65 demo_filest)"
  have q: "uart_ok ?s \<and> uart_q ?s = [65, 66]"
    using uq.put_all [OF demo_uart(2), of "[65, 66]"] demo_uart(5) by (simp add: UART_TX_BUF_SIZE_def)
  have "caller 1 ?s" "uart_rx ?s = []" "uart_out ?s = []" using demo_uart by (simp_all add: uart_put_def caller_def)
  then show ?thesis using uart_drains [of 1 ?s 3] q by auto
qed

section \<open>Output from the kernel\<close>

definition outs :: "byte list \<Rightarrow> nat \<Rightarrow> 'z ust_scheme \<Rightarrow> 'z ust_scheme" where
  "outs a b s = s\<lparr>uart_out := a, uart_busy := b\<rparr>"

lemma outs_simps [simp]:
  "cpu_ok (outs a b s) \<longleftrightarrow> cpu_ok s" "lk_free lk (outs a b s) \<longleftrightarrow> lk_free lk s" "plocks_free (outs a b s) \<longleftrightarrow> plocks_free s"
  "panicked (outs a b s) = panicked s" "pr_locking (outs a b s) = pr_locking s" "con (outs a b s) = con s" "procs (outs a b s) = procs s"
  "outs a b (acq lk s) = acq lk (outs a b s)" "outs a' b' (outs a b s) = outs a' b' s" "uart_out (outs a b s) = a"
  "outs a b (touch s) = touch (outs a b s)" "uart_speed (outs a b s) = uart_speed s"
  by (simp_all add: outs_def locksimp)

lemma outs_id: "s = outs (uart_out s) (uart_busy s) s"
  by (simp add: outs_def)

lemma uart_wait_eq: "uart_wait (uart_busy s) s = Ret () (s\<lparr>uart_busy := 0\<rparr>)"
proof (induction "uart_busy s" arbitrary: s)
  case 0
  obtain l t where l: "read_LSR s = (l, t)" by fastforce
  then have "uart_wait 0 s = Ret () (s\<lparr>uart_busy := 0\<rparr>)" using read_LSR_idle [OF l] 0 by simp
  then show ?case using 0 by simp
next
  case (Suc k)
  obtain l t where l: "read_LSR s = (l, t)" by fastforce
  have ne: "uart_busy s \<noteq> 0" using Suc.hyps(2) by linarith
  have t: "t = s\<lparr>uart_busy := k\<rparr>" using read_LSR_idle(2) [OF l] Suc.hyps(2) [symmetric] by simp
  have "uart_wait k t = Ret () (s\<lparr>uart_busy := 0\<rparr>)" using Suc.hyps(1) [of t] t by simp
  then have "uart_wait (Suc k) s = Ret () (s\<lparr>uart_busy := 0\<rparr>)" using read_LSR_idle(1) [OF l] l ne by simp
  then show ?case by (simp only: Suc.hyps(2) [symmetric])
qed

lemma uartputc_sync_eq:
  assumes "cpu_ok s" and "\<not> panicked s"
  shows "uartputc_sync c s = Ret () (touch (outs (uart_out s @ [c]) (uart_speed s) s))"
  using uart_wait_eq [of "push_off s"] assms by (simp add: uartputc_sync_def write_THR_def outs_def locksimp Let_def)

lemma consputc_eq:
  fixes s :: "'z ust_scheme"
  assumes "cpu_ok s" and "\<not> panicked s"
  shows "\<exists>a b. consputc c (touch s) = Ret () (touch (outs a b s))"
  using assms by (simp add: consputc_def uartputc_sync_eq) blast

lemma consputs_eq:
  fixes s :: "'z ust_scheme"
  assumes "cpu_ok s" and "\<not> panicked s"
  shows "\<exists>b. consputs cs (touch s) = Ret () (touch (outs (uart_out s @ cs) b s))"
  using assms
proof (induction cs arbitrary: s)
  case Nil
  then show ?case by (intro exI [of _ "uart_busy s"]) (simp add: outs_def)
next
  case (Cons c cs)
  have "unat c < 2 ^ LENGTH(8)" by (rule unsigned_less)
  then have "unat c \<noteq> BACKSPACE" by (simp add: BACKSPACE_def)
  then have s: "consputc (unat c) (touch s) = Ret () (touch (outs (uart_out s @ [c]) (uart_speed s) s))"
    using Cons.prems by (simp add: consputc_def uartputc_sync_eq)
  obtain b where "consputs cs (touch (outs (uart_out s @ [c]) (uart_speed s) s)) =
      Ret () (touch (outs (uart_out (outs (uart_out s @ [c]) (uart_speed s) s) @ cs) b (outs (uart_out s @ [c]) (uart_speed s) s)))"
    using Cons.IH [of "outs (uart_out s @ [c]) (uart_speed s) s"] Cons.prems by auto
  then show ?case using s by auto
qed

text \<open>\<^verbatim>\<open>printf\<close> with a format that fits its arguments sends exactly the expanded text.\<close>

lemma printk_eq:
  fixes s :: "'z ust_scheme"
  assumes "cpu_ok s" and "\<not> panicked s" and "lk_free L_pr s" and "printf_chars fmt ap = Some cs"
  shows "\<exists>b. printk fmt ap (touch s) = Ret () (touch (outs (uart_out s @ cs) b s))"
proof (cases "pr_locking s")
  case True
  obtain b where "consputs cs (touch (acq L_pr s)) = Ret () (touch (outs (uart_out s @ cs) b (acq L_pr s)))"
    using consputs_eq [of "acq L_pr s" cs] assms(1,2) by auto
  then show ?thesis using True assms by (auto simp: printk_def printf_def)
next
  case False
  then show ?thesis using consputs_eq [OF assms(1,2), of cs] assms by (auto simp: printk_def printf_def)
qed

lemma procdump_loop_eq:
  fixes s :: "'z ust_scheme"
  assumes "cpu_ok s" and "\<not> panicked s" and "lk_free L_pr s"
  shows "\<exists>a b. procdump_loop ps (touch s) = Ret () (touch (outs a b s))"
  using assms
proof (induction ps arbitrary: s)
  case Nil
  then show ?case by (intro exI [of _ "uart_out s"] exI [of _ "uart_busy s"]) (simp add: outs_def)
next
  case (Cons p ps)
  show ?case
  proof (cases "p_state (procs s p) = UNUSED")
    case True
    then show ?thesis using Cons by simp
  next
    case False
    let ?ap = "[PInt (p_pid (procs s p)), PStr (Some (pbytes (procdump_state (p_state (procs s p))))), PStr (Some (cstr 16 (p_name (procs s p))))]"
    obtain cs where cs: "printf_chars (pbytes ''%d %s %s'') ?ap = Some cs" by (simp add: pbytes_def)
    obtain b where b: "printk (pbytes ''%d %s %s'') ?ap (touch s) = Ret () (touch (outs (uart_out s @ cs) b s))"
      using printk_eq [OF Cons.prems cs] by blast
    let ?t = "outs (uart_out s @ cs) b s"
    have nl: "printf_chars [10] [] = Some [10]" by simp
    obtain b' where b': "printk [10] [] (touch ?t) = Ret () (touch (outs (uart_out ?t @ [10]) b' ?t))"
      using printk_eq [of ?t "[10]" "[]", OF _ _ _ nl] Cons.prems by auto
    obtain a'' b'' where "procdump_loop ps (touch (outs (uart_out ?t @ [10]) b' ?t)) = Ret () (touch (outs a'' b'' (outs (uart_out ?t @ [10]) b' ?t)))"
      using Cons.IH [of "outs (uart_out ?t @ [10]) b' ?t"] Cons.prems by auto
    then show ?thesis using False b b' by auto
  qed
qed

lemma procdump_eq:
  fixes s :: "'z ust_scheme"
  assumes "cpu_ok s" and "\<not> panicked s" and "lk_free L_pr s"
  shows "\<exists>a b. procdump (touch s) = Ret () (touch (outs a b s))"
proof -
  have nl: "printf_chars [10] [] = Some [10]" by simp
  obtain b where "printk [10] [] (touch s) = Ret () (touch (outs (uart_out s @ [10]) b s))" using printk_eq [OF assms nl] by blast
  moreover obtain a' b' where "procdump_loop [0..<NPROC] (touch (outs (uart_out s @ [10]) b s)) = Ret () (touch (outs a' b' (outs (uart_out s @ [10]) b s)))"
    using procdump_loop_eq [of "outs (uart_out s @ [10]) b s" "[0..<NPROC]"] assms by auto
  ultimately show ?thesis by (auto simp: procdump_def)
qed

lemma rcont_append:
  fixes r w e :: "'a::len word"
  assumes "unat (w - r) \<le> unat (e - r)"
  shows "rcont N d r e = rcont N d r w @ rcont N d w e" "unat (e - w) = unat (e - r) - unat (w - r)"
proof -
  have d: "e - w = (e - r) - (w - r)" by simp
  show l: "unat (e - w) = unat (e - r) - unat (w - r)" unfolding d by (rule unat_sub) (use assms in \<open>simp only: word_le_nat_alt\<close>)
  have "w + of_nat k = r + of_nat (unat (w - r) + k)" for k by (simp add: add.assoc [symmetric])
  then have "map (\<lambda>k. d (unat (w + of_nat k) mod N)) [0..<unat (e - w)] = map (\<lambda>k. d (unat (r + of_nat k) mod N)) [unat (w - r)..<unat (e - r)]"
    unfolding l by (intro nth_equalityI) (simp_all add: add.commute)
  moreover have "[0..<unat (e - r)] = [0..<unat (w - r)] @ [unat (w - r)..<unat (e - r)]"
    using assms by (metis le_add_diff_inverse upt_add_eq_append zero_le)
  ultimately show "rcont N d r e = rcont N d r w @ rcont N d w e" by (simp add: rcont_def)
qed

lemma rcont_back:
  fixes r e :: "'a::len word"
  assumes "r \<noteq> e"
  shows "unat (e - 1 - r) = unat (e - r) - 1" "rcont N d r (e - 1) = butlast (rcont N d r e)"
    "last (rcont N d r e) = d (unat (e - 1) mod N)"
proof -
  have n: "e - r \<noteq> 0" using assms by simp
  have d: "e - 1 - r = (e - r) - 1" by simp
  show l: "unat (e - 1 - r) = unat (e - r) - 1" unfolding d by (rule unat_minus_one [OF n])
  have nz: "unat (e - r) \<noteq> 0" using n unat_eq_0 by blast
  show "rcont N d r (e - 1) = butlast (rcont N d r e)"
    using nz unfolding rcont_def l by (cases "unat (e - r)") simp_all
  have "r + of_nat (unat (e - 1 - r)) = e - 1" by simp
  then have "r + of_nat (unat (e - r) - 1) = e - 1" unfolding l .
  then show "last (rcont N d r e) = d (unat (e - 1) mod N)" using nz by (simp add: rcont_def last_map)
qed


section \<open>Editing a line of input\<close>

text \<open>
  The input buffer holds what readers may have (between \<^verbatim>\<open>r\<close> and \<^verbatim>\<open>w\<close>) and the line being edited
  (between \<^verbatim>\<open>w\<close> and \<^verbatim>\<open>e\<close>).
\<close>

definition cons_ok :: "cons \<Rightarrow> bool" where
  "cons_ok x \<longleftrightarrow> unat (c_e x - c_r x) \<le> INPUT_BUF_SIZE \<and> unat (c_w x - c_r x) \<le> unat (c_e x - c_r x)"

definition cons_all :: "cons \<Rightarrow> byte list" where
  "cons_all x = rcont INPUT_BUF_SIZE (c_buf x) (c_r x) (c_e x)"

definition cons_ready :: "cons \<Rightarrow> byte list" where
  "cons_ready x = rcont INPUT_BUF_SIZE (c_buf x) (c_r x) (c_w x)"

definition cons_edit :: "cons \<Rightarrow> byte list" where
  "cons_edit x = rcont INPUT_BUF_SIZE (c_buf x) (c_w x) (c_e x)"

lemma cons_split:
  assumes "cons_ok x"
  shows "cons_all x = cons_ready x @ cons_edit x" "length (cons_all x) \<le> INPUT_BUF_SIZE" "cons_edit x = [] \<longleftrightarrow> c_e x = c_w x"
proof -
  show "cons_all x = cons_ready x @ cons_edit x"
    using rcont_append(1) [of "c_w x" "c_r x" "c_e x" INPUT_BUF_SIZE "c_buf x"] assms by (simp add: cons_all_def cons_ready_def cons_edit_def cons_ok_def)
  show "length (cons_all x) \<le> INPUT_BUF_SIZE" using assms by (simp add: cons_all_def cons_ok_def)
  show "cons_edit x = [] \<longleftrightarrow> c_e x = c_w x" unfolding cons_edit_def rcont_empty by (rule eq_commute)
qed

lemma INPUT_dvd: "INPUT_BUF_SIZE dvd 2 ^ LENGTH(32)" "INPUT_BUF_SIZE < 2 ^ LENGTH(32)"
  by (simp_all add: INPUT_BUF_SIZE_def)

text \<open>One more character at the end, and one character less.\<close>

definition cons_put :: "byte \<Rightarrow> cons \<Rightarrow> cons" where
  "cons_put c x = x\<lparr>c_buf := (c_buf x)(unat (c_e x) mod INPUT_BUF_SIZE := c), c_e := c_e x + 1\<rparr>"

definition cons_back :: "cons \<Rightarrow> cons" where
  "cons_back x = x\<lparr>c_e := c_e x - 1\<rparr>"

lemma cons_put_spec:
  assumes "cons_ok x" and "length (cons_all x) < INPUT_BUF_SIZE"
  shows "cons_ok (cons_put c x)" "cons_ready (cons_put c x) = cons_ready x" "cons_edit (cons_put c x) = cons_edit x @ [c]"
proof -
  let ?n = INPUT_BUF_SIZE
  have len: "unat (c_e x - c_r x) < ?n" using assms(2) by (simp add: cons_all_def)
  have ok: "unat (c_w x - c_r x) \<le> unat (c_e x - c_r x)" using assms(1) by (simp add: cons_ok_def)
  note p1 = rcont_put(1) [OF INPUT_dvd len] and p2 = rcont_put(2) [OF INPUT_dvd len, of "c_buf x" c]
  show k: "cons_ok (cons_put c x)" using p1 len ok by (simp add: cons_ok_def cons_put_def)
  have all: "cons_all (cons_put c x) = cons_ready x @ cons_edit x @ [c]"
    using p2 cons_split(1) [OF assms(1)] by (simp add: cons_all_def cons_put_def)
  have "length (cons_ready (cons_put c x)) = length (cons_ready x)" by (simp add: cons_ready_def cons_put_def)
  then show "cons_ready (cons_put c x) = cons_ready x" "cons_edit (cons_put c x) = cons_edit x @ [c]"
    using cons_split(1) [OF k] all by simp_all
qed

lemma cons_back_spec:
  assumes "cons_ok x" and "c_e x \<noteq> c_w x"
  shows "cons_ok (cons_back x)" "cons_ready (cons_back x) = cons_ready x" "cons_edit (cons_back x) = butlast (cons_edit x)"
    "last (cons_edit x) = c_buf x (unat (c_e x - 1) mod INPUT_BUF_SIZE)" "cons_edit x \<noteq> []"
proof -
  have ok: "unat (c_w x - c_r x) \<le> unat (c_e x - c_r x)" "unat (c_e x - c_r x) \<le> INPUT_BUF_SIZE" using assms(1) by (simp_all add: cons_ok_def)
  show e: "cons_edit x \<noteq> []" using assms cons_split(3) by blast
  then have lt: "unat (c_w x - c_r x) < unat (c_e x - c_r x)"
    using rcont_append(2) [OF ok(1)] by (auto simp: cons_edit_def simp flip: length_greater_0_conv)
  then have "c_r x \<noteq> c_e x" by auto
  then show "cons_ok (cons_back x)" using rcont_back(1) [of "c_r x" "c_e x"] ok(2) lt by (simp add: cons_ok_def cons_back_def) linarith
  show "cons_ready (cons_back x) = cons_ready x" by (simp add: cons_ready_def cons_back_def)
  have w: "c_w x \<noteq> c_e x" using assms(2) by simp
  show "cons_edit (cons_back x) = butlast (cons_edit x)" "last (cons_edit x) = c_buf x (unat (c_e x - 1) mod INPUT_BUF_SIZE)"
    using rcont_back(2,3) [OF w, of INPUT_BUF_SIZE "c_buf x"] by (simp_all add: cons_edit_def cons_back_def)
qed

text \<open>
  What a key does to the characters that are ready and the line being edited. Control-U removes
  back to the last newline, of which there is none in a line that fits the buffer.
\<close>

definition edit_key :: "byte \<Rightarrow> byte list \<times> byte list \<Rightarrow> byte list \<times> byte list" where
  "edit_key c = (\<lambda>(ready, line).
     if c = ctrl (CHR ''P'') then (ready, line)
     else if c = ctrl (CHR ''U'') then (ready, rev (dropWhile (\<lambda>x. x \<noteq> 10) (rev line)))
     else if c = ctrl (CHR ''H'') \<or> c = 127 then (ready, butlast line)
     else if c \<noteq> 0 \<and> length ready + length line < INPUT_BUF_SIZE then
       let c = (if c = 13 then 10 else c); line = line @ [c] in
       if c = 10 \<or> c = ctrl (CHR ''D'') \<or> length ready + length line = INPUT_BUF_SIZE
       then (ready @ line, []) else (ready, line)
     else (ready, line))"

lemma killline_spec:
  fixes s :: "'z ust_scheme"
  assumes "cpu_ok s" and "\<not> panicked s" and "cons_ok (con s)" and "length (cons_edit (con s)) \<le> k"
  shows "\<exists>a b x. killline_loop k (touch s) = Ret () (touch (outs a b (s\<lparr>con := x\<rparr>))) \<and> cons_ok x \<and> cons_ready x = cons_ready (con s)
    \<and> cons_edit x = rev (dropWhile (\<lambda>x. x \<noteq> 10) (rev (cons_edit (con s))))"
  using assms
proof (induction k arbitrary: s)
  case 0
  then have "cons_edit (con s) = []" by simp
  then show ?case using 0 cons_split(3) [OF 0(3)]
    by (intro exI [of _ "uart_out s"] exI [of _ "uart_busy s"] exI [of _ "con s"]) (simp add: outs_def)
next
  case (Suc k)
  show ?case
  proof (cases "c_e (con s) \<noteq> c_w (con s) \<and> c_buf (con s) (unat (c_e (con s) - 1) mod INPUT_BUF_SIZE) \<noteq> 10")
    case False
    have "rev (dropWhile (\<lambda>x. x \<noteq> 10) (rev (cons_edit (con s)))) = cons_edit (con s)"
    proof (cases "cons_edit (con s) = []")
      case ne: False
      then have "c_e (con s) \<noteq> c_w (con s)" using cons_split(3) [OF Suc.prems(3)] by blast
      then have "last (cons_edit (con s)) = 10" using cons_back_spec(4) [OF Suc.prems(3)] False by auto
      then have "rev (cons_edit (con s)) = 10 # rev (butlast (cons_edit (con s)))" using ne
        by (metis append_butlast_last_id rev.simps(2) rev_rev_ident)
      then show ?thesis by (metis (mono_tags, lifting) dropWhile.simps(2) rev_rev_ident)
    qed simp
    then show ?thesis using False Suc.prems
      by (intro exI [of _ "uart_out s"] exI [of _ "uart_busy s"] exI [of _ "con s"]) (auto simp: outs_def)
  next
    case True
    let ?s = "s\<lparr>con := cons_back (con s)\<rparr>"
    note B = cons_back_spec [OF Suc.prems(3) conjunct1 [OF True]]
    obtain a b where b: "consputc BACKSPACE (touch ?s) = Ret () (touch (outs a b ?s))"
      using consputc_eq [of ?s BACKSPACE] Suc.prems by auto
    let ?t = "outs a b ?s"
    have "length (cons_edit (con ?t)) \<le> k" using B(3,5) Suc.prems(4) by simp
    then obtain a' b' x where IH: "killline_loop k (touch ?t) = Ret () (touch (outs a' b' (?t\<lparr>con := x\<rparr>)))" "cons_ok x"
      "cons_ready x = cons_ready (con ?t)" "cons_edit x = rev (dropWhile (\<lambda>x. x \<noteq> 10) (rev (cons_edit (con ?t))))"
      using Suc.IH [of ?t] Suc.prems B(1) by auto
    have "rev (cons_edit (con s)) = last (cons_edit (con s)) # rev (butlast (cons_edit (con s)))" using B(5)
      by (metis append_butlast_last_id rev.simps(2) rev_rev_ident)
    then have "dropWhile (\<lambda>x. x \<noteq> 10) (rev (cons_edit (con s))) = dropWhile (\<lambda>x. x \<noteq> 10) (rev (butlast (cons_edit (con s))))"
      using True B(4) by (metis (mono_tags, lifting) dropWhile.simps(2))
    moreover have "outs a' b' (?t\<lparr>con := x\<rparr>) = outs a' b' (s\<lparr>con := x\<rparr>)" by (simp add: outs_def)
    moreover have "killline_loop (Suc k) (touch s) = killline_loop k (touch ?t)"
      using True b by (simp add: upd_con_def cons_back_def locksimp)
    ultimately show ?thesis using IH B(2,3) by auto
  qed
qed


definition edit_state :: "cons \<Rightarrow> byte list \<times> byte list" where
  "edit_state x = (cons_ready x, cons_edit x)"

text \<open>\<open>edits c s t\<close>: the key \<open>c\<close> has been handled.\<close>

definition edits :: "byte \<Rightarrow> 'z ust_scheme \<Rightarrow> 'z ust_scheme \<Rightarrow> bool" where
  "edits c s t \<longleftrightarrow> cons_ok (con t) \<and> edit_state (con t) = edit_key c (edit_state (con s))
     \<and> procs t = (if cons_ready (con t) \<noteq> cons_ready (con s)
                  then wake Ch_cons_r (cpu_proc (cpus s (tp s))) {0..<NPROC} (procs s) else procs s)"

lemma cons_commit:
  assumes "cons_ok x"
  shows "cons_ok (x\<lparr>c_w := c_e x\<rparr>)" "cons_ready (x\<lparr>c_w := c_e x\<rparr>) = cons_ready x @ cons_edit x" "cons_edit (x\<lparr>c_w := c_e x\<rparr>) = []"
proof -
  show "cons_ok (x\<lparr>c_w := c_e x\<rparr>)" using assms by (simp add: cons_ok_def)
  show "cons_ready (x\<lparr>c_w := c_e x\<rparr>) = cons_ready x @ cons_edit x"
    using cons_split(1) [OF assms] by (simp add: cons_ready_def cons_all_def)
  show "cons_edit (x\<lparr>c_w := c_e x\<rparr>) = []" by (simp add: cons_edit_def rcont_empty)
qed

lemma consoleintr_erase:
  fixes s :: "'z ust_scheme"
  assumes "cpu_ok s" and "\<And>lk. lk_free lk s" and "\<not> panicked s" and "cons_ok (con s)"
    and c: "c = ctrl (CHR ''P'') \<or> c = ctrl (CHR ''U'') \<or> c = ctrl (CHR ''H'') \<or> c = 127"
  shows "\<exists>t. consoleintr c s = Ret () t \<and> edits c s t"
proof -
  let ?s = "acq L_cons s"
  have ok: "cpu_ok ?s" "\<not> panicked ?s" "lk_free L_pr ?s" "cons_ok (con ?s)" using assms by simp_all
  consider "c = ctrl (CHR ''P'')" | "c \<noteq> ctrl (CHR ''P'')" "c = ctrl (CHR ''U'')"
    | "c \<noteq> ctrl (CHR ''P'')" "c \<noteq> ctrl (CHR ''U'')" "c = ctrl (CHR ''H'') \<or> c = 127" using c by blast
  then show ?thesis
  proof cases
    case 1
    obtain a b where b: "procdump ?s = Ret () (acq L_cons (outs a b s))" using procdump_eq [OF ok(1-3)] assms(1) by auto
    then have "consoleintr c s = Ret () (touch (outs a b s))" unfolding consoleintr_def using 1 assms(1,2) by simp
    moreover have "edits c s (touch (outs a b s))" using 1 assms(4) by (simp add: edits_def edit_key_def edit_state_def)
    ultimately show ?thesis by blast
  next
    case 2
    obtain a b x where b: "killline_loop (unat (c_e (con s) - c_w (con s))) ?s = Ret () (acq L_cons (outs a b (s\<lparr>con := x\<rparr>)))" "cons_ok x"
      "cons_ready x = cons_ready (con s)" "cons_edit x = rev (dropWhile (\<lambda>x. x \<noteq> 10) (rev (cons_edit (con s))))"
      using killline_spec [OF ok(1,2,4), of "unat (c_e (con s) - c_w (con s))"] assms(1) by (auto simp: cons_edit_def locksimp)
    then have "consoleintr c s = Ret () (touch (outs a b (s\<lparr>con := x\<rparr>)))" unfolding consoleintr_def using 2 assms(1,2) by simp
    moreover have "edits c s (touch (outs a b (s\<lparr>con := x\<rparr>)))" using 2 b(2-4) by (simp add: edits_def edit_key_def edit_state_def)
    ultimately show ?thesis by blast
  next
    case 3
    show ?thesis
    proof (cases "c_e (con s) = c_w (con s)")
      case True
      then have "consoleintr c s = Ret () (touch s)" unfolding consoleintr_def using 3 assms(1,2) by auto
      moreover have "edits c s (touch s)" using 3 True assms(4) cons_split(3) [OF assms(4)] by (simp add: edits_def edit_key_def edit_state_def)
      ultimately show ?thesis by blast
    next
      case False
      note B = cons_back_spec [OF assms(4) False]
      let ?t = "s\<lparr>con := cons_back (con s)\<rparr>"
      obtain a b where b: "consputc BACKSPACE (acq L_cons ?t) = Ret () (acq L_cons (outs a b ?t))"
        using consputc_eq [of "acq L_cons ?t" BACKSPACE] assms(1,3) by auto
      then have "consoleintr c s = Ret () (touch (outs a b ?t))" unfolding consoleintr_def using 3 False assms(1,2)
        by (auto simp: upd_con_def cons_back_def locksimp)
      moreover have "edits c s (touch (outs a b ?t))" using 3 B by (simp add: edits_def edit_key_def edit_state_def)
      ultimately show ?thesis by blast
    qed
  qed
qed

text \<open>
  C22. \<^verbatim>\<open>consoleintr\<close> refines a line editor: each key changes the characters ready for readers and the
  line being edited as \<open>edit_key\<close> says (erase, kill, append, and hand over the line at a newline,
  at control-D or when the buffer is full), readers are woken exactly when characters became ready,
  and the 128-byte buffer never holds more than 128 characters, with its counters wrapping around.
\<close>

theorem consoleintr_refines_editor:
  fixes s :: "'z ust_scheme"
  assumes "cpu_ok s" and "\<And>lk. lk_free lk s" and "\<not> panicked s" and "cons_ok (con s)"
  shows "\<exists>t. consoleintr c s = Ret () t \<and> edits c s t"
proof (cases "c = ctrl (CHR ''P'') \<or> c = ctrl (CHR ''U'') \<or> c = ctrl (CHR ''H'') \<or> c = 127")
  case True
  then show ?thesis by (rule consoleintr_erase [OF assms])
next
  case False
  have len: "length (cons_ready (con s)) + length (cons_edit (con s)) = unat (c_e (con s) - c_r (con s))"
    using arg_cong [OF cons_split(1) [OF assms(4)], of length] by (simp add: cons_all_def)
  have room: "c_e (con s) - c_r (con s) < of_nat INPUT_BUF_SIZE \<longleftrightarrow> unat (c_e (con s) - c_r (con s)) < INPUT_BUF_SIZE"
    by (simp add: word_less_nat_alt INPUT_BUF_SIZE_def)
  show ?thesis
  proof (cases "c \<noteq> 0 \<and> unat (c_e (con s) - c_r (con s)) < INPUT_BUF_SIZE")
    case no: False
    then have "consoleintr c s = Ret () (touch s)" unfolding consoleintr_def using False assms(1,2) room by auto
    moreover have "edits c s (touch s)" using False no assms(4) len by (auto simp: edits_def edit_key_def edit_state_def)
    ultimately show ?thesis by blast
  next
    case True
    define d where "d = (if c = 13 then 10 else c)"
    define x where "x = cons_put d (con s)"
    have P: "cons_ok x" "cons_ready x = cons_ready (con s)" "cons_edit x = cons_edit (con s) @ [d]"
      using cons_put_spec [OF assms(4), of d] True by (simp_all add: x_def cons_all_def)
    have full: "c_e x - c_r x = of_nat INPUT_BUF_SIZE \<longleftrightarrow> length (cons_ready (con s)) + length (cons_edit x) = INPUT_BUF_SIZE"
    proof -
      have "length (cons_ready (con s)) + length (cons_edit x) = unat (c_e x - c_r x)"
        using arg_cong [OF cons_split(1) [OF P(1)], of length] P(2) by (simp add: cons_all_def)
      then show ?thesis by (simp add: word_unat_eq_iff INPUT_BUF_SIZE_def)
    qed
    obtain a b where b: "consputc (unat d) (acq L_cons s) = Ret () (acq L_cons (outs a b s))"
      using consputc_eq [of "acq L_cons s" "unat d"] assms(1,3) by auto
    let ?commit = "d = 10 \<or> d = ctrl (CHR ''D'') \<or> c_e x - c_r x = of_nat INPUT_BUF_SIZE"
    let ?t = "if ?commit then (outs a b s)\<lparr>con := x\<lparr>c_w := c_e x\<rparr>, procs := wake Ch_cons_r (cpu_proc (cpus s (tp s))) {0..<NPROC} (procs s)\<rparr>
              else (outs a b s)\<lparr>con := x\<rparr>"
    have pf: "plocks_free s" using assms(2) by (simp add: plocks_free_def)
    have sel: "cpus (outs a b s) = cpus s" "tp (outs a b s) = tp s" by (simp_all add: outs_def)
    have run: "consoleintr c s = Ret () (touch ?t)"
      unfolding consoleintr_def using False True room b assms(1,2) pf sel
      by (simp add: d_def [symmetric] Let_def upd_con_def x_def cons_put_def locksimp)
    have "edits c s (touch ?t)"
      using False True P cons_commit [OF P(1)] full len
      by (auto simp: edits_def edit_key_def edit_state_def Let_def d_def [symmetric])
    then show ?thesis using run by blast
  qed
qed


theorem consoleintr_refines_editor_witness:
  "\<exists>t. consoleintr 97 demo_filest = Ret () t \<and> edit_state (con t) = ([], [97])"
proof -
  have c: "con demo_filest = \<lparr>c_buf = (\<lambda>_. 0), c_r = 0, c_w = 0, c_e = 0\<rparr>"
    by (simp add: demo_filest_def ust.defs fsst.defs)
  have e: "edit_state (con demo_filest) = ([], [])" "cons_ok (con demo_filest)"
    unfolding c by (simp_all add: edit_state_def cons_ready_def cons_edit_def rcont_empty cons_ok_def)
  have "edit_key 97 ([], []) = ([], [97])" by (simp add: edit_key_def ctrl_def INPUT_BUF_SIZE_def)
  then show ?thesis
    using consoleintr_refines_editor [OF callerD(1,2) [OF demo_uart(1)] demo_uart(3) e(2), of 97] e(1) by (auto simp: edits_def)
qed

section \<open>Printed numbers\<close>

lemma printint_buf_length: "1 < base \<Longrightarrow> 0 < k \<Longrightarrow> x < base ^ k \<Longrightarrow> length (printint_buf x base) \<le> k"
proof (induction k arbitrary: x)
  case (Suc k)
  have u: "printint_buf x base = digits (x mod base) # (if x div base \<noteq> 0 \<and> 1 < base then printint_buf (x div base) base else [])"
    by (rule printint_buf.simps)
  show ?case
  proof (cases "x div base = 0")
    case True
    then show ?thesis unfolding u by simp
  next
    case False
    have lt: "x div base < base ^ k" using Suc.prems by (simp add: div_less_iff_less_mult mult.commute)
    then have "k \<noteq> 0" using False by (cases k) auto
    then show ?thesis unfolding u using Suc.IH [OF Suc.prems(1) _ lt] by simp
  qed
qed simp

text \<open>
  \<^verbatim>\<open>printint\<close> never writes outside its buffer of 16 bytes: in base 10 and in base 16 it produces at
  most 11 characters, for every 32-bit argument, signed or not.
\<close>

theorem printint_in_bounds:
  "length (printint_chars xx 10 sign) \<le> 11 \<and> length (printint_chars xx 16 sign) \<le> 9"
proof -
  have "unat y < 2 ^ LENGTH(32)" for y :: uint by (rule unsigned_less)
  then have "unat y < 16 ^ 8" for y :: uint by simp
  moreover from this have "unat y < 10 ^ 10" for y :: uint using less_trans [of "unat y" "16 ^ 8" "10 ^ 10"] by simp
  ultimately have b: "length (printint_buf (unat y) 10) \<le> 10" "length (printint_buf (unat y) 16) \<le> 8" for y :: uint
    using printint_buf_length [of 10 10 "unat y"] printint_buf_length [of 16 8 "unat y"] by simp_all
  show ?thesis using b [of xx] b [of "- xx"] by (simp add: printint_chars_def Let_def)
qed

lemma digits_val: "d < 10 \<Longrightarrow> 48 \<le> digits d \<and> digits d \<le> 57 \<and> ucast (digits d) = (48 :: uint) + of_nat d"
proof -
  assume "d < 10"
  then have "d \<in> {0, 1, 2, 3, 4, 5, 6, 7, 8, 9}" by auto
  then show ?thesis by (auto simp: digits_def)
qed

lemma atoi_digits:
  assumes "\<And>c. c \<in> set cs \<Longrightarrow> 48 \<le> c \<and> c \<le> (57 :: byte)" and "\<And>j. j < length cs \<Longrightarrow> s (i + j) = cs ! j"
    and "\<not> (48 \<le> s (i + length cs) \<and> s (i + length cs) \<le> 57)"
  shows "atoi_from s i n = Some (foldl (\<lambda>n c. n * 10 + ucast c - 48) n cs)"
  using assms
proof (induction cs arbitrary: i n)
  case Nil
  then show ?case by (subst atoi_from.simps) auto
next
  case (Cons c cs)
  have c: "s i = c" "48 \<le> c \<and> c \<le> 57" using Cons.prems(1) Cons.prems(2) [of 0] by simp_all
  have "atoi_from s (Suc i) (n * 10 + ucast c - 48) = Some (foldl (\<lambda>n c. n * 10 + ucast c - 48) (n * 10 + ucast c - 48) cs)"
    by (rule Cons.IH) (use Cons.prems(1,3) Cons.prems(2) [of "Suc j" for j] in auto)
  then show ?case using c by (subst atoi_from.simps) simp
qed

lemma decimal_digits:
  "(\<forall>c \<in> set (printint_buf x 10). 48 \<le> c \<and> c \<le> 57)
   \<and> foldl (\<lambda>n c. n * 10 + ucast c - 48) (0 :: uint) (rev (printint_buf x 10)) = of_nat x"
proof (induction x rule: less_induct)
  case (less x)
  have "x mod 10 < 10" by simp
  note d = digits_val [OF this]
  have u: "printint_buf x 10 = digits (x mod 10) # (if x div 10 \<noteq> 0 then printint_buf (x div 10) 10 else [])"
    by (subst printint_buf.simps) simp
  have m: "of_nat (x div 10) * 10 + of_nat (x mod 10) = (of_nat x :: uint)"
    using arg_cong [OF div_mult_mod_eq [of x 10], of "of_nat :: nat \<Rightarrow> uint"] by (simp only: of_nat_add of_nat_mult of_nat_numeral)
  show ?case
  proof (cases "x div 10 = 0")
    case True
    then show ?thesis unfolding u using d m by simp
  next
    case False
    then have "x div 10 < x" by simp
    then show ?thesis unfolding u using less [of "x div 10"] False d m by simp
  qed
qed

text \<open>
  C27. Printing a number and reading it back: \<^verbatim>\<open>atoi\<close> of the characters that \<^verbatim>\<open>printint\<close> prints for a
  non-negative number in base 10, followed by a NUL, is that number.
\<close>

theorem printint_atoi_roundtrip:
  assumes "0 \<le> sint xx"
  shows "atoi (\<lambda>i. if i < length (printint_chars xx 10 sign) then printint_chars xx 10 sign ! i else 0) = Some xx"
proof -
  let ?cs = "rev (printint_buf (unat xx) 10)"
  have p: "printint_chars xx 10 sign = ?cs" using assms by (simp add: printint_chars_def Let_def)
  have "atoi_from (\<lambda>i. if i < length ?cs then ?cs ! i else 0) 0 0 = Some (foldl (\<lambda>n c. n * 10 + ucast c - 48) 0 ?cs)"
    by (rule atoi_digits) (use decimal_digits [of "unat xx"] in auto)
  then show ?thesis unfolding p atoi_def using decimal_digits [of "unat xx"] by simp
qed

theorem printint_atoi_roundtrip_witness:
  "atoi (\<lambda>i. if i < length (printint_chars 2024 10 True) then printint_chars 2024 10 True ! i else 0) = Some 2024"
  using printint_atoi_roundtrip [of 2024 True] by simp

end
