(* ===== verification/Xv6_User.thy ===== *)
theory Xv6_User
  imports Xv6_Console
begin

text \<open>
  User programs. A program runs against the system call stubs, which the build generates
  (\<^verbatim>\<open>usys.S\<close>): they are the record \<open>usys\<close> of functions on the world \<open>'w\<close> outside the process, a
  parameter of every program. \<^verbatim>\<open>fork\<close> is seen from one process: its result is the one this process
  gets.

  A run ends by returning (\<open>UDone\<close>), by \<^verbatim>\<open>exit\<close> (\<open>UExit\<close>), by becoming another program
  (\<open>UExec\<close>) or by an access through an invalid pointer (\<open>UFault\<close>); \<open>None\<close> is a run that never
  ends. A C string is the list of its bytes before the NUL.
\<close>

section \<open>Runs\<close>

datatype ('w, 'a) ures = UDone 'a 'w | UExit int 'w | UExec "byte list" "byte list list" 'w | UFault

type_synonym ('w, 'a) urun = "('w, 'a) ures option"

definition ubnd :: "('w, 'a) urun \<Rightarrow> ('a \<Rightarrow> 'w \<Rightarrow> ('w, 'b) urun) \<Rightarrow> ('w, 'b) urun" where
  "ubnd m f = Option.bind m (\<lambda>r. case r of
     UDone a w \<Rightarrow> f a w | UExit n w \<Rightarrow> Some (UExit n w) | UExec p v w \<Rightarrow> Some (UExec p v w) | UFault \<Rightarrow> Some UFault)"

abbreviation useq :: "('w, 'a) urun \<Rightarrow> ('w \<Rightarrow> ('w, 'b) urun) \<Rightarrow> ('w, 'b) urun" where
  "useq m f \<equiv> ubnd m (\<lambda>_. f)"

abbreviation udone :: "'a \<Rightarrow> 'w \<Rightarrow> ('w, 'a) urun" where
  "udone a w \<equiv> Some (UDone a w)"

abbreviation uexit :: "int \<Rightarrow> 'w \<Rightarrow> ('w, 'a) urun" where
  "uexit n w \<equiv> Some (UExit n w)"

lemma ubnd_simps [simp]:
  "ubnd (udone a w) f = f a w" "ubnd (uexit n w) f = uexit n w" "ubnd (Some UFault) f = Some UFault"
  "ubnd (Some (UExec p v w)) f = Some (UExec p v w)" "ubnd None f = None"
  by (simp_all add: ubnd_def)

lemma ubnd_mono [partial_function_mono]:
  assumes "mono_option B" and "\<And>a w. mono_option (\<lambda>f. C a w f)"
  shows "mono_option (\<lambda>f. ubnd (B f) (\<lambda>a w. C a w f))"
  unfolding ubnd_def
proof (rule bind_mono [OF assms(1)])
  fix r :: "('c, 'd) ures"
  show "mono_option (\<lambda>f. case r of UDone a w \<Rightarrow> C a w f | UExit n w \<Rightarrow> Some (UExit n w)
      | UExec p v w \<Rightarrow> Some (UExec p v w) | UFault \<Rightarrow> Some UFault)"
    using assms(2) by (cases r) (auto intro: option.const_mono)
qed

text \<open>A system call at the beginning of a run.\<close>

definition ucall :: "('w \<Rightarrow> 'a \<times> 'w) \<Rightarrow> 'w \<Rightarrow> ('w, 'a) urun" where
  "ucall f w = (case f w of (a, w) \<Rightarrow> udone a w)"

section \<open>user/user.h: the system calls\<close>

record 'w usys =
  y_fork :: "'w \<Rightarrow> int \<times> 'w"
  y_wait :: "'w \<Rightarrow> int \<times> 'w"
  y_pipe :: "'w \<Rightarrow> (int \<times> int) option \<times> 'w"
  y_write :: "int \<Rightarrow> byte list \<Rightarrow> 'w \<Rightarrow> int \<times> 'w"
  y_read :: "int \<Rightarrow> nat \<Rightarrow> 'w \<Rightarrow> byte list option \<times> 'w"
  y_close :: "int \<Rightarrow> 'w \<Rightarrow> int \<times> 'w"
  y_kill :: "int \<Rightarrow> 'w \<Rightarrow> int \<times> 'w"
  y_exec :: "byte list \<Rightarrow> byte list list \<Rightarrow> 'w \<Rightarrow> bool \<times> 'w"
  y_open :: "byte list \<Rightarrow> int \<Rightarrow> 'w \<Rightarrow> int \<times> 'w"
  y_mknod :: "byte list \<Rightarrow> int \<Rightarrow> int \<Rightarrow> 'w \<Rightarrow> int \<times> 'w"
  y_unlink :: "byte list \<Rightarrow> 'w \<Rightarrow> int \<times> 'w"
  y_fstat :: "int \<Rightarrow> 'w \<Rightarrow> bytes option \<times> 'w"
  y_link :: "byte list \<Rightarrow> byte list \<Rightarrow> 'w \<Rightarrow> int \<times> 'w"
  y_mkdir :: "byte list \<Rightarrow> 'w \<Rightarrow> int \<times> 'w"
  y_chdir :: "byte list \<Rightarrow> 'w \<Rightarrow> int \<times> 'w"
  y_dup :: "int \<Rightarrow> 'w \<Rightarrow> int \<times> 'w"
  y_sbrk :: "int \<Rightarrow> 'w \<Rightarrow> uint64 \<times> 'w"
  y_sleep :: "int \<Rightarrow> 'w \<Rightarrow> int \<times> 'w"
  y_year :: "nat \<Rightarrow> 'w \<Rightarrow> (int \<times> (nat \<Rightarrow> int)) \<times> 'w"
  y_state :: "int \<Rightarrow> 'w \<Rightarrow> byte list \<times> 'w"
  y_procname :: "int \<Rightarrow> 'w \<Rightarrow> byte list \<times> 'w"

text \<open>\<^verbatim>\<open>exec\<close> returns only when it fails.\<close>

definition uexec :: "'w usys \<Rightarrow> byte list \<Rightarrow> byte list list \<Rightarrow> 'w \<Rightarrow> ('w, unit) urun" where
  "uexec y path argv w = (case y_exec y path argv w of (ok, w) \<Rightarrow> if ok then Some (UExec path argv w) else udone () w)"

section \<open>user/printf.c\<close>

definition putc :: "'w usys \<Rightarrow> int \<Rightarrow> byte \<Rightarrow> 'w \<Rightarrow> ('w, unit) urun" where
  "putc y fd c w = useq (ucall (y_write y fd [c]) w) (udone ())"

primrec putcs :: "'w usys \<Rightarrow> int \<Rightarrow> byte list \<Rightarrow> 'w \<Rightarrow> ('w, unit) urun" where
  "putcs y fd [] w = udone () w"
| "putcs y fd (c # cs) w = useq (putc y fd c w) (putcs y fd cs)"

definition udigits :: "nat \<Rightarrow> byte" where
  "udigits i = of_char (''0123456789ABCDEF'' ! i)"

function uprintint_buf :: "nat \<Rightarrow> nat \<Rightarrow> byte list" where
  "uprintint_buf x base =
     udigits (x mod base) # (if x div base \<noteq> 0 \<and> 1 < base then uprintint_buf (x div base) base else [])"
  by pat_completeness auto
termination by (relation "measure fst") (auto simp: div_greater_zero_iff intro!: div_less_dividend)

declare uprintint_buf.simps [simp del]

definition uprintint :: "'w usys \<Rightarrow> int \<Rightarrow> uint \<Rightarrow> nat \<Rightarrow> bool \<Rightarrow> 'w \<Rightarrow> ('w, unit) urun" where
  "uprintint y fd xx base sg w =
     (let neg = sg \<and> sint xx < 0;
          x = (if neg then - xx else xx);
          buf = uprintint_buf (unat x) base @ (if neg then [45] else [])
      in putcs y fd (rev buf) w)"

primrec uprintptr_loop :: "'w usys \<Rightarrow> int \<Rightarrow> nat \<Rightarrow> uint64 \<Rightarrow> 'w \<Rightarrow> ('w, unit) urun" where
  "uprintptr_loop y fd 0 x w = udone () w"
| "uprintptr_loop y fd (Suc k) x w =
     useq (putc y fd (udigits (unat (drop_bit 60 x))) w) (uprintptr_loop y fd k (push_bit 4 x))"

definition uprintptr :: "'w usys \<Rightarrow> int \<Rightarrow> uint64 \<Rightarrow> 'w \<Rightarrow> ('w, unit) urun" where
  "uprintptr y fd x w = useq (putc y fd 48 w) (\<lambda>w. useq (putc y fd 120 w) (uprintptr_loop y fd 16 x))"

text \<open>
  The loop over the format; \<open>st\<close> is set after a percent sign. An argument that is missing or of
  the wrong kind is a fault.
\<close>

fun vprintf :: "'w usys \<Rightarrow> int \<Rightarrow> bool \<Rightarrow> byte list \<Rightarrow> parg list \<Rightarrow> 'w \<Rightarrow> ('w, unit) urun" where
  "vprintf y fd st [] ap w = udone () w"
| "vprintf y fd False (c # fmt) ap w =
     (if c = 37 then vprintf y fd True fmt ap w
      else useq (putc y fd c w) (vprintf y fd False fmt ap))"
| "vprintf y fd True (c # fmt) ap w =
     (if c = 100 then
        (case ap of PInt x # ap \<Rightarrow> useq (uprintint y fd x 10 True w) (vprintf y fd False fmt ap) | _ \<Rightarrow> Some UFault)
      else if c = 108 then
        (case ap of PPtr x # ap \<Rightarrow> useq (uprintint y fd (ucast x) 10 False w) (vprintf y fd False fmt ap) | _ \<Rightarrow> Some UFault)
      else if c = 120 then
        (case ap of PInt x # ap \<Rightarrow> useq (uprintint y fd x 16 False w) (vprintf y fd False fmt ap) | _ \<Rightarrow> Some UFault)
      else if c = 112 then
        (case ap of PPtr x # ap \<Rightarrow> useq (uprintptr y fd x w) (vprintf y fd False fmt ap) | _ \<Rightarrow> Some UFault)
      else if c = 115 then
        (case ap of
           PStr (Some cs) # ap \<Rightarrow> useq (putcs y fd cs w) (vprintf y fd False fmt ap)
         | PStr None # ap \<Rightarrow> useq (putcs y fd (pbytes ''(null)'') w) (vprintf y fd False fmt ap)
         | _ \<Rightarrow> Some UFault)
      else if c = 99 then
        (case ap of PInt x # ap \<Rightarrow> useq (putc y fd (ucast x) w) (vprintf y fd False fmt ap) | _ \<Rightarrow> Some UFault)
      else if c = 37 then useq (putc y fd c w) (vprintf y fd False fmt ap)
      else useq (putc y fd 37 w) (\<lambda>w. useq (putc y fd c w) (vprintf y fd False fmt ap)))"

text \<open>A format that ends with a newline.\<close>

definition nl :: "string \<Rightarrow> string" where
  "nl s = s @ [CHR 0x0A]"

definition fprintf :: "'w usys \<Rightarrow> int \<Rightarrow> string \<Rightarrow> parg list \<Rightarrow> 'w \<Rightarrow> ('w, unit) urun" where
  "fprintf y fd fmt ap w = vprintf y fd False (pbytes fmt) ap w"

definition uprintf :: "'w usys \<Rightarrow> string \<Rightarrow> parg list \<Rightarrow> 'w \<Rightarrow> ('w, unit) urun" where
  "uprintf y fmt ap w = vprintf y 1 False (pbytes fmt) ap w"

section \<open>user/ulib.c: the wrapper and input\<close>

text \<open>\<^verbatim>\<open>_main\<close>: the value that \<^verbatim>\<open>main\<close> returns is dropped.\<close>

definition umain :: "('w \<Rightarrow> ('w, int) urun) \<Rightarrow> 'w \<Rightarrow> ('w, unit) urun" where
  "umain m w = ubnd (m w) (\<lambda>_ w. uexit 0 w)"

text \<open>\<open>acc\<close> are the characters read so far; \<open>k\<close> more fit.\<close>

primrec gets_loop :: "'w usys \<Rightarrow> nat \<Rightarrow> byte list \<Rightarrow> 'w \<Rightarrow> ('w, byte list) urun" where
  "gets_loop y 0 acc w = udone acc w"
| "gets_loop y (Suc k) acc w =
     ubnd (ucall (y_read y 0 1) w) (\<lambda>cc w.
     case cc of
       Some (c # _) \<Rightarrow> if c = 10 \<or> c = 13 then udone (acc @ [c]) w else gets_loop y k (acc @ [c]) w
     | _ \<Rightarrow> udone acc w)"

definition gets :: "'w usys \<Rightarrow> nat \<Rightarrow> 'w \<Rightarrow> ('w, byte list) urun" where
  "gets y mx w = gets_loop y (mx - 1) [] w"

definition ustat :: "'w usys \<Rightarrow> byte list \<Rightarrow> 'w \<Rightarrow> ('w, bytes option) urun" where
  "ustat y n w =
     ubnd (ucall (y_open y n 0) w) (\<lambda>fd w.
     if fd < 0 then udone None w
     else ubnd (ucall (y_fstat y fd) w) (\<lambda>r w.
          useq (ucall (y_close y fd) w) (udone r)))"

primrec umemcmp :: "nat \<Rightarrow> bytes \<Rightarrow> bytes \<Rightarrow> int" where
  "umemcmp 0 p1 p2 = 0"
| "umemcmp (Suc n) p1 p2 = (if p1 0 \<noteq> p2 0 then uint (p1 0) - uint (p2 0) else umemcmp n (shift p1) (shift p2))"

definition umemcpy :: "nat \<Rightarrow> nat \<Rightarrow> uint \<Rightarrow> bytes \<Rightarrow> bytes" where
  "umemcpy dst src n m = umemmove dst src (sint n) m"

end
