(* ===== verification/Xv6_Umalloc.thy ===== *)
theory Xv6_Umalloc
  imports Xv6_User
begin

text \<open>
  The memory allocator of the user library, \<^verbatim>\<open>user/umalloc.c\<close>: a circular list of free blocks in address
  order that starts at the static header \<^verbatim>\<open>base\<close>. The state has the two fields of every header by its
  address; a header is 16 bytes, and sizes count headers. Pointers are natural numbers: pointer
  arithmetic of C does not wrap around. The sizes are 32-bit words as in the source.
\<close>

record uheap =
  base :: nat
  freep :: nat
  s_ptr :: "nat \<Rightarrow> nat"
  s_size :: "nat \<Rightarrow> uint"

definition hdr_end :: "uheap \<Rightarrow> nat \<Rightarrow> nat" where
  "hdr_end h p = p + 16 * unat (s_size h p)"

definition set_ptr :: "nat \<Rightarrow> nat \<Rightarrow> uheap \<Rightarrow> uheap" where
  "set_ptr p x h = h\<lparr>s_ptr := (s_ptr h)(p := x)\<rparr>"

definition set_size :: "nat \<Rightarrow> uint \<Rightarrow> uheap \<Rightarrow> uheap" where
  "set_size p x h = h\<lparr>s_size := (s_size h)(p := x)\<rparr>"

lemmas set_hdr = set_ptr_def set_size_def

text \<open>The loop that finds the free block before \<^verbatim>\<open>bp\<close>; on a block that was freed twice it may never end.\<close>

partial_function (option) free_find :: "uheap \<Rightarrow> nat \<Rightarrow> nat \<Rightarrow> nat option" where
  "free_find h bp p =
     (if bp > p \<and> bp < s_ptr h p then Some p
      else if p \<ge> s_ptr h p \<and> (bp > p \<or> bp < s_ptr h p) then Some p
      else free_find h bp (s_ptr h p))"

definition free_join :: "nat \<Rightarrow> nat \<Rightarrow> uheap \<Rightarrow> uheap" where
  "free_join bp p h =
     (let h = (if hdr_end h bp = s_ptr h p
               then let h = set_size bp (s_size h bp + s_size h (s_ptr h p)) h in set_ptr bp (s_ptr h (s_ptr h p)) h
               else set_ptr bp (s_ptr h p) h);
          h = (if hdr_end h p = bp
               then let h = set_size p (s_size h p + s_size h bp) h in set_ptr p (s_ptr h bp) h
               else set_ptr p bp h)
      in h\<lparr>freep := p\<rparr>)"

definition free :: "nat \<Rightarrow> uheap \<Rightarrow> 'w \<Rightarrow> ('w, uheap) urun" where
  "free ap h w =
     (if freep h = 0 then Some UFault
      else let bp = ap - 16 in
           case free_find h bp (freep h) of None \<Rightarrow> None | Some p \<Rightarrow> udone (free_join bp p h) w)"

definition morecore :: "'w usys \<Rightarrow> uint \<Rightarrow> uheap \<Rightarrow> 'w \<Rightarrow> ('w, uheap \<times> nat) urun" where
  "morecore y nu h w =
     (let nu = (if nu < 4096 then 4096 else nu) in
      ubnd (ucall (y_sbrk y (sint (ucast (ucast nu * 16 :: uint64) :: uint))) w) (\<lambda>p w.
      if p = - 1 then udone (h, 0) w
      else ubnd (free (unat p + 16) (set_size (unat p) nu h) w) (\<lambda>h w. udone (h, freep h) w)))"

definition malloc_take :: "uint \<Rightarrow> nat \<Rightarrow> nat \<Rightarrow> uheap \<Rightarrow> uheap \<times> nat" where
  "malloc_take nunits prevp p h =
     (let (h, p) = (if s_size h p = nunits then (set_ptr prevp (s_ptr h p) h, p)
                    else let h = set_size p (s_size h p - nunits) h; p = hdr_end h p in (set_size p nunits h, p))
      in (h\<lparr>freep := prevp\<rparr>, p + 16))"

partial_function (option) malloc_loop :: "'w usys \<Rightarrow> uint \<Rightarrow> nat \<Rightarrow> nat \<Rightarrow> uheap \<Rightarrow> 'w \<Rightarrow> ('w, uheap \<times> nat) urun" where
  "malloc_loop y nunits prevp p h w =
     (if s_size h p \<ge> nunits then udone (malloc_take nunits prevp p h) w
      else if p = freep h then
        ubnd (morecore y nunits h w) (\<lambda>(h, p) w.
        if p = 0 then udone (h, 0) w else malloc_loop y nunits p (s_ptr h p) h w)
      else malloc_loop y nunits p (s_ptr h p) h w)"

definition malloc :: "'w usys \<Rightarrow> uint \<Rightarrow> uheap \<Rightarrow> 'w \<Rightarrow> ('w, uheap \<times> nat) urun" where
  "malloc y nbytes h w =
     (let nunits = ucast ((ucast nbytes + 16 - 1 :: uint64) div 16 + 1) :: uint;
          h = (if freep h = 0 then set_size (base h) 0 (set_ptr (base h) (base h) (h\<lparr>freep := base h\<rparr>)) else h)
      in malloc_loop y nunits (freep h) (s_ptr h (freep h)) h w)"

section \<open>The ring of free blocks\<close>

text \<open>
  \<open>ring f F\<close>: the successor function \<open>f\<close> runs through the finite set \<open>F\<close> in increasing order and
  from its largest element back to its smallest.
\<close>

definition gap :: "nat set \<Rightarrow> nat \<Rightarrow> nat \<Rightarrow> bool" where
  "gap F x y \<longleftrightarrow> (\<forall>z \<in> F. if x < y then z \<le> x \<or> y \<le> z else z \<le> x \<and> y \<le> z)"

definition ring :: "(nat \<Rightarrow> nat) \<Rightarrow> nat set \<Rightarrow> bool" where
  "ring f F \<longleftrightarrow> finite F \<and> (\<forall>x \<in> F. f x \<in> F \<and> gap F x (f x))"

lemma gapD: "gap F x y \<Longrightarrow> z \<in> F \<Longrightarrow> if x < y then z \<le> x \<or> y \<le> z else z \<le> x \<and> y \<le> z"
  unfolding gap_def by blast

lemma gapI: "(\<And>z. z \<in> F \<Longrightarrow> if x < y then z \<le> x \<or> y \<le> z else z \<le> x \<and> y \<le> z) \<Longrightarrow> gap F x y"
  unfolding gap_def by blast

lemma ringD: "ring f F \<Longrightarrow> x \<in> F \<Longrightarrow> f x \<in> F" "ring f F \<Longrightarrow> x \<in> F \<Longrightarrow> gap F x (f x)" "ring f F \<Longrightarrow> finite F"
  by (auto simp: ring_def)

lemma ring_up:
  assumes "ring f F" and "x \<in> F" and "q \<in> F" and "x \<le> q"
  shows "\<exists>n. (f ^^ n) x = q"
  using assms
proof (induction "card {z \<in> F. x < z \<and> z \<le> q}" arbitrary: x rule: less_induct)
  case less
  show ?case
  proof (cases "x = q")
    case True
    then have "(f ^^ 0) x = q" by simp
    then show ?thesis by blast
  next
    case False
    then have "x < q" using less.prems by simp
    have g: "gap F x (f x)" and m: "f x \<in> F" using ringD less.prems by blast+
    have up: "x < f x \<and> f x \<le> q" using gapD [OF g less.prems(3)] \<open>x < q\<close> by (auto split: if_splits)
    have "{z \<in> F. f x < z \<and> z \<le> q} \<subset> {z \<in> F. x < z \<and> z \<le> q}" using up m by auto
    then have "card {z \<in> F. f x < z \<and> z \<le> q} < card {z \<in> F. x < z \<and> z \<le> q}"
      using ringD(3) [OF less.prems(1)] by (intro psubset_card_mono) auto
    then obtain n where "(f ^^ n) (f x) = q" using less.hyps m up less.prems by blast
    then have "(f ^^ Suc n) x = q" by (simp add: funpow_swap1)
    then show ?thesis by blast
  qed
qed

lemma ring_reach:
  assumes "ring f F" and "x \<in> F" and "q \<in> F"
  shows "\<exists>n. (f ^^ n) x = q"
proof -
  define M where "M = Max F"
  have ne: "F \<noteq> {}" using assms(2) by blast
  have M: "M \<in> F" "\<And>z. z \<in> F \<Longrightarrow> z \<le> M" unfolding M_def using Max_in [OF ringD(3) [OF assms(1)] ne] ringD(3) [OF assms(1)] by simp_all
  obtain i where i: "(f ^^ i) x = M" using ring_up [OF assms(1,2) M(1)] M(2) assms(2) by blast
  have "f M \<in> F" "gap F M (f M)" using ringD assms(1) M(1) by blast+
  then have "f M \<le> q" using gapD [of F M "f M" q] assms(3) M(2) [of "f M"] by (auto split: if_splits)
  then obtain j where j: "(f ^^ j) (f M) = q" using ring_up assms(1,3) \<open>f M \<in> F\<close> by blast
  have "(f ^^ (j + Suc i)) x = q" unfolding funpow_add funpow.simps o_apply i by (rule j)
  then show ?thesis by blast
qed

lemma gap_mono: "gap F x y \<Longrightarrow> G \<subseteq> F \<Longrightarrow> gap G x y"
  by (auto simp: gap_def split: if_splits)

lemma gap_unique: "gap F u x \<Longrightarrow> gap F p x \<Longrightarrow> u \<in> F \<Longrightarrow> p \<in> F \<Longrightarrow> u = p"
  using gapD [of F u x p] gapD [of F p x u] by (auto split: if_splits)

lemma ring_insert:
  assumes "ring f F" and "p \<in> F" and "b \<notin> F" and "p < b" and "\<And>z. z \<in> F \<Longrightarrow> z \<le> p \<or> b < z"
  shows "ring (f(b := f p, p := b)) (insert b F)"
proof -
  have p: "f p \<in> F" "gap F p (f p)" using ringD assms(1,2) by blast+
  have 1: "gap (insert b F) b (f p)"
  proof (rule gapI)
    fix z assume "z \<in> insert b F"
    then show "if b < f p then z \<le> b \<or> f p \<le> z else z \<le> b \<and> f p \<le> z"
      using gapD [OF p(2), of z] gapD [OF p(2) assms(2)] assms(4) assms(5) [OF p(1)] by (auto split: if_splits)
  qed
  have 2: "gap (insert b F) p b"
  proof (rule gapI)
    fix z assume "z \<in> insert b F"
    then show "if p < b then z \<le> p \<or> b \<le> z else z \<le> p \<and> b \<le> z" using assms(4) assms(5) [of z] by auto
  qed
  have 3: "gap (insert b F) x (f x)" if x: "x \<in> F" "x \<noteq> p" for x
  proof (rule gapI)
    fix z assume z: "z \<in> insert b F"
    have g: "gap F x (f x)" "f x \<in> F" using ringD assms(1) x(1) by blast+
    show "if x < f x then z \<le> x \<or> f x \<le> z else z \<le> x \<and> f x \<le> z"
      using z gapD [OF g(1), of z] gapD [OF g(1) assms(2)] assms(4) assms(5) [OF x(1)] assms(5) [OF g(2)] x(2) by (auto split: if_splits)
  qed
  show ?thesis using 1 2 3 assms(1-3) p(1) by (auto simp: ring_def)
qed

lemma ring_remove:
  assumes "ring f F" and "p \<in> F" and "x = f p" and "x \<noteq> p"
  shows "ring (f(p := f x)) (F - {x})"
proof -
  have x: "x \<in> F" "gap F p x" using ringD assms(1-3) by blast+
  have y: "f x \<in> F" "gap F x (f x)" using ringD assms(1) x(1) by blast+
  have nx: "f x \<noteq> x" using gapD [OF y(2) assms(2)] gapD [OF y(2) x(1)] assms(4) by auto
  have 1: "gap (F - {x}) p (f x)"
  proof (rule gapI)
    fix z assume "z \<in> F - {x}"
    then show "if p < f x then z \<le> p \<or> f x \<le> z else z \<le> p \<and> f x \<le> z"
      using gapD [OF x(2), of z] gapD [OF y(2), of z] gapD [OF y(2) assms(2)] gapD [OF x(2) y(1)] assms(4) nx by (auto split: if_splits)
  qed
  have 2: "f u \<in> F - {x} \<and> gap (F - {x}) u (f u)" if "u \<in> F" "u \<noteq> p" for u
    using that gap_unique [OF _ x(2) _ assms(2), of u] ringD(1,2) [OF assms(1) that(1)] gap_mono [of F u "f u" "F - {x}"] by auto
  show ?thesis using 1 2 ringD(3) [OF assms(1)] y(1) nx by (auto simp: ring_def)
qed

lemma ring_cong: "ring f F \<Longrightarrow> (\<And>x. x \<in> F \<Longrightarrow> g x = f x) \<Longrightarrow> ring g F"
  by (simp add: ring_def)

section \<open>The heap invariant\<close>

text \<open>
  \<open>F\<close> are the headers of the free list: they form a ring from \<^verbatim>\<open>base\<close>, which is empty; the blocks do
  not overlap and end below \<open>2^36\<close>, so that no size overflows.
\<close>

definition blocks_ok :: "uheap \<Rightarrow> nat set \<Rightarrow> bool" where
  "blocks_ok h F \<longleftrightarrow> ring (s_ptr h) F \<and> 0 < base h \<and> base h \<in> F \<and> (\<forall>x \<in> F. base h \<le> x) \<and> s_size h (base h) = 0
     \<and> (\<forall>x \<in> F. x \<noteq> base h \<longrightarrow> s_size h x \<noteq> 0) \<and> (\<forall>x \<in> F. \<forall>y \<in> F. x < y \<longrightarrow> hdr_end h x \<le> y) \<and> (\<forall>x \<in> F. hdr_end h x \<le> 2 ^ 36)"

definition block :: "uheap \<Rightarrow> nat \<Rightarrow> nat set" where
  "block h a = {a..<hdr_end h a}"

definition free_bytes :: "uheap \<Rightarrow> nat set \<Rightarrow> nat set" where
  "free_bytes h F = (\<Union>x \<in> F. block h x)"

lemma blocksD:
  assumes "blocks_ok h F"
  shows "ring (s_ptr h) F" "0 < base h" "base h \<in> F" "s_size h (base h) = 0"
    "x \<in> F \<Longrightarrow> base h \<le> x" "x \<in> F \<Longrightarrow> x \<noteq> base h \<Longrightarrow> s_size h x \<noteq> 0" "x \<in> F \<Longrightarrow> y \<in> F \<Longrightarrow> x < y \<Longrightarrow> hdr_end h x \<le> y"
    "x \<in> F \<Longrightarrow> hdr_end h x \<le> 2 ^ 36" "x \<in> F \<Longrightarrow> s_ptr h x \<in> F" "x \<in> F \<Longrightarrow> gap F x (s_ptr h x)"
  using assms by (simp_all add: blocks_ok_def ring_def)

lemma free_find_spec:
  assumes "blocks_ok h F" and "base h < bp" and "bp \<notin> F" and "x \<in> F"
  shows "\<exists>p \<in> F. free_find h bp x = Some p \<and> p < bp \<and> (\<forall>z \<in> F. z \<le> p \<or> bp < z)"
proof -
  note B = blocksD [OF assms(1)]
  define q where "q = Max {z \<in> F. z < bp}"
  have fin: "finite {z \<in> F. z < bp}" "{z \<in> F. z < bp} \<noteq> {}" using B(3) assms(2) ringD(3) [OF B(1)] by auto
  have q: "q \<in> F" "q < bp" "\<And>z. z \<in> F \<Longrightarrow> z < bp \<Longrightarrow> z \<le> q"
    using Max_in [OF fin] Max_ge [OF fin(1)] unfolding q_def by auto
  obtain n where "(s_ptr h ^^ n) x = q" using ring_reach [OF B(1) assms(4) q(1)] by blast
  then show ?thesis using assms(4)
  proof (induction n arbitrary: x)
    case 0
    let ?y = "s_ptr h q"
    have "q < bp \<and> bp < ?y \<or> ?y \<le> q" using gapD [OF B(10) [OF q(1)] q(1)] q(2,3) B(9) [OF q(1)] assms(3) by (metis linorder_neqE_nat not_le)
    then have "free_find h bp q = Some q" using q(2) by (subst free_find.simps) auto
    moreover have "z \<le> q \<or> bp < z" if "z \<in> F" for z using q(3) [OF that] assms(3) that by (metis linorder_neqE_nat)
    ultimately show ?case using 0 q(1,2) by auto
  next
    case (Suc n)
    let ?y = "s_ptr h x"
    have y: "?y \<in> F" "gap F x ?y" using B(9,10) [OF Suc.prems(2)] by simp_all
    have st: "free_find h bp x = (if bp > x \<and> bp < ?y then Some x else if x \<ge> ?y \<and> (bp > x \<or> bp < ?y) then Some x else free_find h bp ?y)"
      by (rule free_find.simps)
    show ?case
    proof (cases "bp > x \<and> bp < ?y \<or> x \<ge> ?y \<and> (bp > x \<or> bp < ?y)")
      case True
      have "\<not> (x \<ge> ?y \<and> bp < ?y)" using gapD [OF y(2) B(3)] assms(2) by auto
      then have "x < bp" and "z \<le> x \<or> bp < z" if "z \<in> F" for z using True gapD [OF y(2) that] that by (auto split: if_splits)
      moreover have "free_find h bp x = Some x" unfolding st using True by auto
      ultimately show ?thesis using Suc.prems(2) by blast
    next
      case False
      have "(s_ptr h ^^ n) ?y = q" using Suc.prems(1) by (simp add: funpow_swap1)
      moreover have "free_find h bp x = free_find h bp ?y" using st False by presburger
      ultimately show ?thesis using Suc.IH [of ?y] y(1) by simp
    qed
  qed
qed

text \<open>\<^verbatim>\<open>free\<close> puts the block in its place in the ring and then merges it with its neighbours.\<close>

definition hlink :: "nat \<Rightarrow> nat \<Rightarrow> uheap \<Rightarrow> uheap" where
  "hlink bp p h = set_ptr p bp (set_ptr bp (s_ptr h p) h)"

definition hmerge :: "nat \<Rightarrow> uheap \<Rightarrow> uheap" where
  "hmerge x h = set_ptr x (s_ptr h (s_ptr h x)) (set_size x (s_size h x + s_size h (s_ptr h x)) h)"

lemma uheap_eqI: "base h = base k \<Longrightarrow> freep h = freep k \<Longrightarrow> s_ptr h = s_ptr k \<Longrightarrow> s_size h = s_size k \<Longrightarrow> h = (k :: uheap)"
  by simp

lemma free_join_eq:
  assumes "p < bp" and "s_size h bp \<noteq> 0"
  shows "free_join bp p h =
    (let h1 = hlink bp p h; h2 = (if hdr_end h bp = s_ptr h p then hmerge bp h1 else h1)
     in (if hdr_end h p = bp then hmerge p h2 else h2)\<lparr>freep := p\<rparr>)"
proof -
  have "bp < hdr_end h bp" using assms(2) by (simp add: hdr_end_def unat_gt_0)
  then show ?thesis using assms(1)
    by (auto simp: free_join_def hlink_def hmerge_def set_hdr hdr_end_def Let_def intro!: uheap_eqI)
qed

lemma link_ok:
  assumes "blocks_ok h F" and "p \<in> F" and "p < bp" and "\<And>z. z \<in> F \<Longrightarrow> z \<le> p \<or> bp < z" and "bp \<notin> F" and "s_size h bp \<noteq> 0"
    and "hdr_end h p \<le> bp" and "\<And>z. z \<in> F \<Longrightarrow> bp < z \<Longrightarrow> hdr_end h bp \<le> z" and "hdr_end h bp \<le> 2 ^ 36"
  shows "blocks_ok (hlink bp p h) (insert bp F)" and "free_bytes (hlink bp p h) (insert bp F) = free_bytes h F \<union> block h bp"
proof -
  note B = blocksD [OF assms(1)]
  have e: "hdr_end (hlink bp p h) x = hdr_end h x" "s_size (hlink bp p h) = s_size h" "base (hlink bp p h) = base h" for x
    by (simp_all add: hlink_def set_hdr hdr_end_def)
  have "hdr_end h x \<le> y" if "x \<in> insert bp F" "y \<in> insert bp F" "x < y" for x y
  proof -
    have "hdr_end h x \<le> bp" if "x \<in> F" "x < bp"
      using assms(4) [OF that(1)] that(2) B(7) [OF that(1) assms(2)] assms(3,7) by (cases "x = p") auto
    then show ?thesis using that B(7) assms(8) by auto
  qed
  moreover have "ring (s_ptr (hlink bp p h)) (insert bp F)"
    using ring_insert [OF B(1) assms(2,5,3,4)] by (simp add: hlink_def set_hdr)
  ultimately show "blocks_ok (hlink bp p h) (insert bp F)"
    unfolding blocks_ok_def e using B(2-6,8) assms(2,3,5,6,9) le_trans [OF B(5) [OF assms(2)] less_imp_le [OF assms(3)]] by auto
  show "free_bytes (hlink bp p h) (insert bp F) = free_bytes h F \<union> block h bp" by (auto simp: free_bytes_def block_def e)
qed

lemma merge_ok:
  assumes "blocks_ok h F" and "x \<in> F" and "hdr_end h x = s_ptr h x" and "x < s_ptr h x"
  shows "blocks_ok (hmerge x h) (F - {s_ptr h x})" and "free_bytes (hmerge x h) (F - {s_ptr h x}) = free_bytes h F"
    and "hdr_end (hmerge x h) y = (if y = x then hdr_end h (s_ptr h x) else hdr_end h y)"
proof -
  note B = blocksD [OF assms(1)]
  define m where "m = s_ptr h x"
  have m: "m \<in> F" "gap F x m" "x < m" "hdr_end h x = m" using B(9,10) [OF assms(2)] assms(3,4) by (simp_all add: m_def)
  have xb: "x \<noteq> base h" "0 < x" using m(3,4) B(2,4) B(5) [OF assms(2)] by (auto simp: hdr_end_def)
  have mb: "m \<noteq> base h" using m(3) B(5) [OF assms(2)] by simp
  have "unat (s_size h x) + unat (s_size h m) < 2 ^ 32"
    using B(8) [OF m(1)] m(4) xb(2) by (simp add: hdr_end_def)
  then have sz: "unat (s_size h x + s_size h m) = unat (s_size h x) + unat (s_size h m)" by (simp add: unat_word_ariths)
  have e: "hdr_end (hmerge x h) y = (if y = x then hdr_end h m else hdr_end h y)" for y
    using m(4) by (simp add: hmerge_def set_hdr hdr_end_def m_def [symmetric] sz)
  then show "hdr_end (hmerge x h) y = (if y = x then hdr_end h (s_ptr h x) else hdr_end h y)" by (simp add: m_def)
  have nz: "s_size (hmerge x h) y \<noteq> 0" if "y \<in> F" "y \<noteq> base h" for y
  proof -
    have "s_size h x + s_size h m \<noteq> 0" using sz B(6) [OF assms(2) xb(1)] by (metis add_is_0 unat_eq_zero)
    then show ?thesis using B(6) [OF that] by (simp add: hmerge_def set_hdr m_def)
  qed
  have "hdr_end (hmerge x h) u \<le> v" if "u \<in> F" "v \<in> F" "v \<noteq> m" "u < v" for u v
    using that B(7) [OF that(1,2,4)] B(7) [OF m(1) that(2)] gapD [OF m(2) that(2)] m(3) by (auto simp: e)
  moreover have "ring (s_ptr (hmerge x h)) (F - {m})"
    using ring_remove [OF B(1) assms(2) m_def] m(3) by (simp add: hmerge_def set_hdr m_def)
  ultimately show "blocks_ok (hmerge x h) (F - {s_ptr h x})"
    unfolding blocks_ok_def m_def [symmetric] using B(2-5,8) nz m(1) mb xb(1) by (auto simp: e) (simp_all add: hmerge_def set_hdr)
  have "block h x \<union> block h m = {x..<hdr_end h m}" using m(3,4) by (auto simp: block_def hdr_end_def)
  moreover have "F - {m} = insert x (F - {x, m})" "F = insert x (insert m (F - {x, m}))" using m(1,3) assms(2) by auto
  moreover have "block (hmerge x h) x = {x..<hdr_end h m}" "(\<Union>y \<in> F - {x, m}. block (hmerge x h) y) = (\<Union>y \<in> F - {x, m}. block h y)"
    by (simp_all add: block_def e)
  ultimately show "free_bytes (hmerge x h) (F - {s_ptr h x}) = free_bytes h F"
    unfolding free_bytes_def m_def [symmetric] by (metis (no_types, lifting) UN_insert Un_assoc)
qed

definition heap_ok :: "uheap \<Rightarrow> nat set \<Rightarrow> bool" where
  "heap_ok h F \<longleftrightarrow> blocks_ok h F \<and> freep h \<in> F"

lemma blocks_ok_freep [simp]: "blocks_ok (h\<lparr>freep := p\<rparr>) F = blocks_ok h F" "free_bytes (h\<lparr>freep := p\<rparr>) F = free_bytes h F"
  "block (h\<lparr>freep := p\<rparr>) a = block h a"
  by (simp_all add: blocks_ok_def free_bytes_def block_def hdr_end_def)

lemma block_head: "blocks_ok h F \<Longrightarrow> x \<in> F \<Longrightarrow> x \<noteq> base h \<Longrightarrow> x \<in> free_bytes h F"
  using blocksD(6) [of h F x] by (auto simp: free_bytes_def block_def hdr_end_def unat_gt_0 intro!: bexI [of _ x])

lemma hdr_end_ge: "p \<le> hdr_end h p" by (simp add: hdr_end_def)

lemma size_le: "hdr_end h b \<le> hdr_end k p \<Longrightarrow> p \<le> b \<Longrightarrow> s_size h b \<le> s_size k p"
  by (simp add: hdr_end_def word_le_nat_alt)

lemma free_join_ok:
  assumes "blocks_ok h F" and "p \<in> F" and "p < bp" and "\<And>z. z \<in> F \<Longrightarrow> z \<le> p \<or> bp < z" and "bp \<notin> F" and "s_size h bp \<noteq> 0"
    and "hdr_end h p \<le> bp" and "\<And>z. z \<in> F \<Longrightarrow> bp < z \<Longrightarrow> hdr_end h bp \<le> z" and "hdr_end h bp \<le> 2 ^ 36"
  shows "\<exists>G. heap_ok (free_join bp p h) G \<and> G \<subseteq> insert bp F \<and> free_bytes (free_join bp p h) G = free_bytes h F \<union> block h bp
    \<and> base (free_join bp p h) = base h \<and> (\<forall>a. a \<notin> insert bp F \<longrightarrow> s_size (free_join bp p h) a = s_size h a)
    \<and> (\<exists>x \<in> G. s_size h bp \<le> s_size (free_join bp p h) x)"
proof -
  note B = blocksD [OF assms(1)]
  define n where "n = s_ptr h p"
  define h1 where "h1 = hlink bp p h"
  define h2 where "h2 = (if hdr_end h bp = n then hmerge bp h1 else h1)"
  define h3 where "h3 = (if hdr_end h p = bp then hmerge p h2 else h2)"
  define F2 where "F2 = (if hdr_end h bp = n then insert bp F - {n} else insert bp F)"
  have eq: "free_join bp p h = h3\<lparr>freep := p\<rparr>"
    unfolding free_join_eq [OF assms(3,6)] by (simp add: h1_def h2_def h3_def n_def Let_def)
  have gt: "bp < hdr_end h bp" using assms(6) by (simp add: hdr_end_def unat_gt_0)
  have 1: "blocks_ok h1 (insert bp F)" "free_bytes h1 (insert bp F) = free_bytes h F \<union> block h bp" "s_ptr h1 bp = n" "s_ptr h1 p = bp"
    "s_size h1 = s_size h" "base h1 = base h"
    using link_ok [OF assms] assms(3) by (simp_all add: h1_def hlink_def set_hdr n_def)
  have e1: "hdr_end h1 x = hdr_end h x" for x by (simp add: hdr_end_def 1)
  have p: "p \<in> F2" "bp \<in> F2" using assms(2,3) gt by (auto simp: F2_def)
  have 2: "blocks_ok h2 F2 \<and> free_bytes h2 F2 = free_bytes h F \<union> block h bp \<and> s_ptr h2 p = bp \<and> hdr_end h2 p = hdr_end h p \<and> base h2 = base h
    \<and> hdr_end h bp \<le> hdr_end h2 bp \<and> (\<forall>a. a \<noteq> bp \<longrightarrow> s_size h2 a = s_size h a)"
  proof (cases "hdr_end h bp = n")
    case True
    have c: "hdr_end h1 bp = s_ptr h1 bp" "bp < s_ptr h1 bp" using True 1(3) gt e1 by simp_all
    show ?thesis using True merge_ok [OF 1(1) _ c] 1 e1 assms(3) hdr_end_ge [of n h] by (simp add: h2_def F2_def) (simp add: hmerge_def set_hdr)
  next
    case False
    then show ?thesis using 1 e1 by (simp add: h2_def F2_def)
  qed
  show ?thesis
  proof (cases "hdr_end h p = bp")
    case True
    have c: "hdr_end h2 p = s_ptr h2 p" "p < s_ptr h2 p" using True 2 assms(3) by simp_all
    note M = merge_ok [OF conjunct1 [OF 2] p(1) c]
    have h3: "h3 = hmerge p h2" "s_ptr h2 p = bp" using True 2 by (simp_all add: h3_def)
    have "p \<in> F2 - {bp}" using p assms(3) by simp
    moreover have "F2 - {bp} \<subseteq> insert bp F" by (auto simp: F2_def)
    moreover have "base h3 = base h \<and> (\<forall>a. a \<notin> insert bp F \<longrightarrow> s_size h3 a = s_size h a)"
      using 2 assms(2) by (auto simp: h3 hmerge_def set_hdr)
    moreover have "s_size h bp \<le> s_size h3 p" using size_le [of h bp h3 p] M(3) [of p] h3 2 assms(3) by simp
    ultimately show ?thesis unfolding eq heap_ok_def using M(1,2) 2 h3 by (intro exI [of _ "F2 - {bp}"]) auto
  next
    case False
    have "F2 \<subseteq> insert bp F" by (auto simp: F2_def)
    moreover have "s_size h bp \<le> s_size h3 bp" using size_le [of h bp h3 bp] False 2 by (simp add: h3_def)
    ultimately show ?thesis unfolding eq heap_ok_def using False 2 p by (intro exI [of _ F2]) (auto simp: h3_def)
  qed
qed

lemma free_spec:
  assumes "heap_ok h F" and "base h < bp" and "s_size h bp \<noteq> 0" and "hdr_end h bp \<le> 2 ^ 36" and "block h bp \<inter> free_bytes h F = {}"
  shows "\<exists>h' F'. free (bp + 16) h w = udone h' w \<and> heap_ok h' F' \<and> F' \<subseteq> insert bp F \<and> free_bytes h' F' = free_bytes h F \<union> block h bp
    \<and> base h' = base h \<and> (\<forall>a. a \<notin> insert bp F \<longrightarrow> s_size h' a = s_size h a) \<and> (\<exists>x \<in> F'. s_size h bp \<le> s_size h' x)"
proof -
  have ok: "blocks_ok h F" "freep h \<in> F" using assms(1) by (simp_all add: heap_ok_def)
  note B = blocksD [OF ok(1)]
  have bb: "bp \<in> block h bp" using assms(3) by (simp add: block_def hdr_end_def unat_gt_0)
  have nF: "bp \<notin> F" using block_head [OF ok(1)] bb assms(2,5) by auto
  obtain p where p: "p \<in> F" "free_find h bp (freep h) = Some p" "p < bp" "\<And>z. z \<in> F \<Longrightarrow> z \<le> p \<or> bp < z"
    using free_find_spec [OF ok(1) assms(2) nF ok(2)] by blast
  have 1: "hdr_end h p \<le> bp" using bb assms(5) p(1,3) by (force simp: free_bytes_def block_def)
  have 2: "hdr_end h bp \<le> z" if "z \<in> F" "bp < z" for z
  proof (rule ccontr)
    assume "\<not> hdr_end h bp \<le> z"
    then have "z \<in> block h bp" using that by (simp add: block_def)
    moreover have "z \<in> free_bytes h F" using block_head [OF ok(1) that(1)] that(2) assms(2) by simp
    ultimately show False using assms(5) by blast
  qed
  have "freep h \<noteq> 0" using B(2) B(5) [OF ok(2)] by simp
  then have "free (bp + 16) h w = udone (free_join bp p h) w" by (simp add: free_def p(2))
  then show ?thesis using free_join_ok [OF ok(1) p(1,3,4) nF assms(3) 1 2 assms(4)] by blast
qed

section \<open>Taking a block\<close>

lemma blocks_disjoint:
  assumes "blocks_ok h F" and "x \<in> F" and "y \<in> F" and "x \<noteq> y"
  shows "block h x \<inter> block h y = {}"
  using blocksD(7) [OF assms(1), of x y] blocksD(7) [OF assms(1), of y x] assms(2-4)
  by (cases "x < y") (auto simp: block_def)

lemma blocks_other:
  assumes "blocks_ok h F" and "p \<in> F"
  shows "free_bytes h (F - {p}) = free_bytes h F - block h p"
  using blocks_disjoint [OF assms(1) _ assms(2)] assms(2) unfolding free_bytes_def by blast

lemma take_ok:
  assumes "heap_ok h F" and "prevp \<in> F" and "p = s_ptr h prevp" and "N \<le> s_size h p" and "0 < N" and "malloc_take N prevp p h = (h', q)"
  shows "\<exists>b F'. q = b + 16 \<and> heap_ok h' F' \<and> F' \<subseteq> F \<and> base h < b \<and> hdr_end h' b \<le> 2 ^ 36 \<and> base h' = base h \<and> s_size h' b = N
    \<and> block h' b \<subseteq> free_bytes h F \<and> free_bytes h' F' = free_bytes h F - block h' b \<and> (\<forall>a. a \<notin> insert b F \<longrightarrow> s_size h' a = s_size h a)
    \<and> (\<forall>x \<in> F. \<exists>z \<in> F'. unat (s_size h x) - unat N \<le> unat (s_size h' z))"
proof -
  have ok: "blocks_ok h F" using assms(1) by (simp add: heap_ok_def)
  note B = blocksD [OF ok]
  have p: "p \<in> F" "gap F prevp p" using B(9,10) [OF assms(2)] assms(3) by simp_all
  have pb: "p \<noteq> base h" using assms(4,5) B(4) by auto
  then have bp: "base h < p" using B(5) [OF p(1)] by simp
  have pp: "prevp \<noteq> p" using gapD [OF p(2) B(3)] bp by auto
  show ?thesis
  proof (cases "s_size h p = N")
    case True
    have e: "h' = (set_ptr prevp (s_ptr h p) h)\<lparr>freep := prevp\<rparr>" "q = p + 16" using assms(6) True by (simp_all add: malloc_take_def)
    have s: "s_size h' = s_size h" "base h' = base h" "hdr_end h' = hdr_end h" "block h' = block h" "freep h' = prevp"
      by (simp_all add: e set_hdr hdr_end_def block_def fun_eq_iff)
    have "ring (s_ptr h') (F - {p})" using ring_remove [OF B(1) assms(2,3)] pp by (simp add: e set_hdr)
    then have "blocks_ok h' (F - {p})" using ok pb by (auto simp: blocks_ok_def s)
    moreover have "free_bytes h' (F - {p}) = free_bytes h F - block h' p"
      using blocks_other [OF ok p(1)] by (simp add: free_bytes_def s)
    moreover have "block h' p \<subseteq> free_bytes h F" using p(1) by (auto simp: free_bytes_def s)
    moreover have "\<exists>z \<in> F - {p}. unat (s_size h x) - unat N \<le> unat (s_size h' z)" if "x \<in> F" for x
      using that True pb B(3) s(1) by (cases "x = p") (auto intro!: bexI [of _ x])
    ultimately show ?thesis unfolding heap_ok_def using e(2) s bp pp assms(2) True B(8) [OF p(1)]
      by (intro exI [of _ p] exI [of _ "F - {p}"]) auto
  next
    case False
    define b where "b = p + 16 * unat (s_size h p - N)"
    have sub: "unat (s_size h p - N) = unat (s_size h p) - unat N" using assms(4) by (simp add: unat_sub)
    have lt: "unat N < unat (s_size h p)" "0 < unat N" using assms(4,5) False by (simp_all add: word_le_nat_alt word_less_nat_alt word_unat_eq_iff)
    have b: "p < b" "b + 16 * unat N = hdr_end h p" using lt by (simp_all add: b_def sub hdr_end_def)
    have e: "h' = (set_size b N (set_size p (s_size h p - N) h))\<lparr>freep := prevp\<rparr>" "q = b + 16"
      using assms(6) False by (simp_all add: malloc_take_def Let_def b_def hdr_end_def set_hdr)
    have nF: "b \<notin> F" using B(7) [OF p(1), of b] b lt(2) by auto
    have s: "s_ptr h' = s_ptr h" "base h' = base h" "freep h' = prevp" "s_size h' b = N" "hdr_end h' p = b" "hdr_end h' b = hdr_end h p"
      "s_size h' p = s_size h p - N" "\<And>x. x \<noteq> b \<Longrightarrow> x \<noteq> p \<Longrightarrow> s_size h' x = s_size h x" "\<And>x. x \<noteq> b \<Longrightarrow> x \<noteq> p \<Longrightarrow> hdr_end h' x = hdr_end h x"
      using b by (simp_all add: e set_hdr hdr_end_def b_def)
    have nz: "s_size h' p \<noteq> 0" using lt sub s(7) by (metis diff_is_0_eq not_le unat_0)
    have ends: "hdr_end h' x \<le> hdr_end h x" if "x \<in> F" for x
    proof (cases "x = p")
      case True
      then show ?thesis using s(5) b by simp
    next
      case False
      moreover have "x \<noteq> b" using that nF by blast
      ultimately show ?thesis using s(9) by simp
    qed
    have "hdr_end h' x \<le> y" if "x \<in> F" "y \<in> F" "x < y" for x y using le_trans [OF ends [OF that(1)] B(7) [OF that]] .
    moreover have "hdr_end h' x \<le> 2 ^ 36" if "x \<in> F" for x using le_trans [OF ends [OF that] B(8) [OF that]] .
    moreover have "s_size h' x \<noteq> 0" if "x \<in> F" "x \<noteq> base h" for x using that B(6) [OF that] nz s(8) [of x] nF by (cases "x = p"; cases "x = b") auto
    moreover have "s_size h' (base h) = 0" using s(8) [of "base h"] B(3,4) nF pb by auto
    ultimately have "blocks_ok h' F" unfolding blocks_ok_def s(1,2) using B(1-3,5) by blast
    moreover have "block h' b \<subseteq> free_bytes h F" using b p(1) by (auto simp: block_def free_bytes_def s(6))
    moreover have "free_bytes h' F = free_bytes h F - block h' b"
    proof -
      have "hdr_end h' x = hdr_end h x" if "x \<in> F - {p}" for x using that nF s(9) [of x] by auto
      then have "free_bytes h' (F - {p}) = free_bytes h (F - {p})" by (simp add: free_bytes_def block_def)
      then have "free_bytes h' F = (free_bytes h F - block h p) \<union> block h' p" using blocks_other [OF ok p(1)] p(1) by (auto simp: free_bytes_def)
      moreover have "block h p = block h' p \<union> block h' b" "block h' p \<inter> block h' b = {}" using b lt by (auto simp: block_def s(5,6))
      moreover have "block h p \<subseteq> free_bytes h F" using p(1) by (auto simp: free_bytes_def)
      ultimately show ?thesis by blast
    qed
    moreover have "\<exists>z \<in> F. unat (s_size h x) - unat N \<le> unat (s_size h' z)" if "x \<in> F" for x
      using that sub s(7) s(8) [of x] nF by (intro bexI [of _ x]) (cases "x = p"; cases "x = b"; auto)+
    ultimately show ?thesis unfolding heap_ok_def using e(2) s bp b(1) assms(2) B(8) [OF p(1)] p(1)
      by (intro exI [of _ b] exI [of _ F]) auto
  qed
qed

section \<open>The search\<close>

lemma ring_walk:
  assumes "ring f F" and "q \<in> F" and "(f ^^ n) (f q) = q" and "x \<in> F"
  shows "\<exists>i \<le> n. (f ^^ i) (f q) = x"
proof -
  have "\<exists>i \<le> n. (f ^^ i) (f q) = (f ^^ j) (f q)" for j
  proof (induction j)
    case (Suc j)
    then obtain i where i: "i \<le> n" "(f ^^ i) (f q) = (f ^^ j) (f q)" by blast
    then have "(f ^^ Suc j) (f q) = f ((f ^^ i) (f q))" by simp
    then show ?case using i(1) assms(3) by (cases "i = n") (auto intro: exI [of _ 0] exI [of _ "Suc i"])
  qed auto
  moreover obtain j where "(f ^^ j) (f q) = x" using ring_reach [OF assms(1) ringD(1) [OF assms(1,2)] assms(4)] by blast
  ultimately show ?thesis by metis
qed

lemma malloc_search:
  assumes "ring (s_ptr h) F" and "prevp \<in> F" and "\<And>i. i < n \<Longrightarrow> (s_ptr h ^^ i) (s_ptr h prevp) \<noteq> freep h" and "(s_ptr h ^^ n) (s_ptr h prevp) = freep h"
  shows "if \<exists>i \<le> n. N \<le> s_size h ((s_ptr h ^^ i) (s_ptr h prevp))
    then \<exists>p \<in> F. N \<le> s_size h (s_ptr h p) \<and> malloc_loop y N prevp (s_ptr h prevp) h w = udone (malloc_take N p (s_ptr h p) h) w
    else malloc_loop y N prevp (s_ptr h prevp) h w = ubnd (morecore y N h w) (\<lambda>(h, p) w.
        if p = 0 then udone (h, 0) w else malloc_loop y N p (s_ptr h p) h w)"
  using assms(2-4)
proof (induction n arbitrary: prevp)
  case 0
  then show ?case by (subst (1 2) malloc_loop.simps) (auto intro!: bexI [of _ prevp])
next
  case (Suc n)
  let ?p = "s_ptr h prevp"
  show ?case
  proof (cases "N \<le> s_size h ?p")
    case True
    then have "malloc_loop y N prevp ?p h w = udone (malloc_take N prevp ?p h) w" by (subst malloc_loop.simps) simp
    moreover have "\<exists>i \<le> Suc n. N \<le> s_size h ((s_ptr h ^^ i) ?p)" using True by (intro exI [of _ 0]) simp
    ultimately show ?thesis using True Suc.prems(1) by auto
  next
    case False
    have p: "?p \<in> F" using ringD(1) assms(1) Suc.prems(1) by blast
    have st: "(s_ptr h ^^ i) (s_ptr h ?p) = (s_ptr h ^^ Suc i) ?p" for i by (simp add: funpow_swap1)
    have "?p \<noteq> freep h" using Suc.prems(2) [of 0] by simp
    then have l: "malloc_loop y N prevp ?p h w = malloc_loop y N ?p (s_ptr h ?p) h w" using False by (subst malloc_loop.simps) simp
    have a: "(s_ptr h ^^ Suc i) ?p \<noteq> freep h" if "i < n" for i using Suc.prems(2) [of "Suc i"] that by simp
    have "(\<exists>i \<le> Suc n. N \<le> s_size h ((s_ptr h ^^ i) ?p)) \<longleftrightarrow> (\<exists>i \<le> n. N \<le> s_size h ((s_ptr h ^^ Suc i) ?p))"
      using False by (metis Suc_le_mono funpow_0 not0_implies_Suc)
    moreover note IH = Suc.IH [OF p, unfolded st]
    ultimately show ?thesis unfolding l using IH [OF a Suc.prems(3)] by presburger
  qed
qed

lemma malloc_loop_start:
  assumes "heap_ok h F" and "q = freep h"
  shows "if \<exists>x \<in> F. N \<le> s_size h x
    then \<exists>p \<in> F. N \<le> s_size h (s_ptr h p) \<and> malloc_loop y N q (s_ptr h q) h w = udone (malloc_take N p (s_ptr h p) h) w
    else malloc_loop y N q (s_ptr h q) h w = ubnd (morecore y N h w) (\<lambda>(h, p) w.
        if p = 0 then udone (h, 0) w else malloc_loop y N p (s_ptr h p) h w)"
proof -
  have ok: "blocks_ok h F" "freep h \<in> F" using assms by (simp_all add: heap_ok_def)
  note B = blocksD [OF ok(1)]
  define n where "n = (LEAST n. (s_ptr h ^^ n) (s_ptr h (freep h)) = freep h)"
  have ex: "\<exists>n. (s_ptr h ^^ n) (s_ptr h (freep h)) = freep h" using ring_reach [OF B(1) B(9) [OF ok(2)] ok(2)] .
  have n: "(s_ptr h ^^ n) (s_ptr h (freep h)) = freep h" "\<And>i. i < n \<Longrightarrow> (s_ptr h ^^ i) (s_ptr h (freep h)) \<noteq> freep h"
    unfolding n_def using LeastI_ex [OF ex] not_less_Least by blast+
  have mem: "(s_ptr h ^^ i) (s_ptr h (freep h)) \<in> F" for i by (induction i) (use B(9) ok(2) in auto)
  have "(\<exists>i \<le> n. N \<le> s_size h ((s_ptr h ^^ i) (s_ptr h (freep h)))) \<longleftrightarrow> (\<exists>x \<in> F. N \<le> s_size h x)"
    using ring_walk [OF B(1) ok(2) n(1)] mem by metis
  then show ?thesis using malloc_search [OF B(1) ok(2) n(2,1), of N y w] assms(2) by simp
qed

section \<open>The allocator keeps its blocks apart\<close>

text \<open>\<^verbatim>\<open>malloc\<close> begins by setting up the ring if it has not been used before.\<close>

definition hinit :: "uheap \<Rightarrow> uheap" where
  "hinit h = (if freep h = 0 then set_size (base h) 0 (set_ptr (base h) (base h) (h\<lparr>freep := base h\<rparr>)) else h)"

definition nunits :: "uint \<Rightarrow> uint" where
  "nunits nbytes = ucast ((ucast nbytes + 16 - 1 :: uint64) div 16 + 1)"

lemma malloc_eq: "malloc y nbytes h w = malloc_loop y (nunits nbytes) (freep (hinit h)) (s_ptr (hinit h) (freep (hinit h))) (hinit h) w"
  by (simp add: malloc_def nunits_def hinit_def Let_def)

lemma unat_nunits: "unat (nunits n) = (unat n + 15) div 16 + 1"
proof -
  have n: "unat n < 2 ^ 32" using unsigned_less [of n] by simp
  have "unat (ucast n + 16 - 1 :: uint64) = unat n + 15" using n by (simp add: unat_word_ariths unsigned_ucast_eq take_bit_eq_mod)
  then have "unat ((ucast n + 16 - 1 :: uint64) div 16 + 1) = (unat n + 15) div 16 + 1" using n by (simp add: unat_word_ariths unat_div)
  then show ?thesis using n by (simp add: nunits_def unsigned_ucast_eq take_bit_eq_mod)
qed

text \<open>
  All blocks: the free ones \<open>F\<close>, and those handed out, \<open>A\<close>; none overlaps another, and all lie
  between \<^verbatim>\<open>base\<close> and the end \<open>b\<close> of the process memory.
\<close>

definition uinv :: "uheap \<Rightarrow> nat set \<Rightarrow> nat set \<Rightarrow> nat \<Rightarrow> bool" where
  "uinv h F A b \<longleftrightarrow> heap_ok h F \<and> base h < b \<and> b \<le> 2 ^ 36 \<and> (\<forall>x \<in> F. hdr_end h x \<le> b)
     \<and> (\<forall>a \<in> A. base h < a \<and> s_size h a \<noteq> 0 \<and> hdr_end h a \<le> b \<and> block h a \<inter> free_bytes h F = {})
     \<and> (\<forall>a \<in> A. \<forall>c \<in> A. a \<noteq> c \<longrightarrow> block h a \<inter> block h c = {})"

text \<open>What \<^verbatim>\<open>sbrk\<close> of a positive amount does: it fails, or extends the memory of the process at its end.\<close>

definition sbrk_grows :: "'w usys \<Rightarrow> ('w \<Rightarrow> nat) \<Rightarrow> bool" where
  "sbrk_grows y brk \<longleftrightarrow> (\<forall>n w r w'. 0 < n \<and> y_sbrk y n w = (r, w') \<longrightarrow>
     r = - 1 \<and> brk w' = brk w \<or> r \<noteq> - 1 \<and> unat r = brk w \<and> brk w' = brk w + nat n \<and> brk w' \<le> 2 ^ 36)"

lemma sbrk_growsD:
  assumes "sbrk_grows y brk" and "0 < n" and "y_sbrk y n w = (r, w')"
  shows "if r = - 1 then brk w' = brk w else unat r = brk w \<and> brk w' = brk w + nat n \<and> brk w' \<le> 2 ^ 36"
proof -
  have "r = - 1 \<and> brk w' = brk w \<or> r \<noteq> - 1 \<and> unat r = brk w \<and> brk w' = brk w + nat n \<and> brk w' \<le> 2 ^ 36"
    using assms unfolding sbrk_grows_def by blast
  then show ?thesis by auto
qed

lemma uinvD:
  assumes "uinv h F A b"
  shows "heap_ok h F" "base h < b" "b \<le> 2 ^ 36" "x \<in> F \<Longrightarrow> hdr_end h x \<le> b" "a \<in> A \<Longrightarrow> base h < a" "a \<in> A \<Longrightarrow> s_size h a \<noteq> 0"
    "a \<in> A \<Longrightarrow> hdr_end h a \<le> b" "a \<in> A \<Longrightarrow> block h a \<inter> free_bytes h F = {}" "a \<in> A \<Longrightarrow> c \<in> A \<Longrightarrow> a \<noteq> c \<Longrightarrow> block h a \<inter> block h c = {}"
  using assms by (simp_all add: uinv_def)

lemma allocated_not_free:
  assumes "uinv h F A b" and "a \<in> A"
  shows "a \<notin> F"
proof
  assume "a \<in> F"
  have "blocks_ok h F" using uinvD(1) [OF assms(1)] by (simp add: heap_ok_def)
  then have "a \<in> free_bytes h F" using block_head \<open>a \<in> F\<close> uinvD(5) [OF assms] by blast
  moreover have "a \<in> block h a" using uinvD(6) [OF assms] by (simp add: block_def hdr_end_def unat_gt_0)
  ultimately show False using uinvD(8) [OF assms] by blast
qed

text \<open>A change of the free list that leaves the sizes of the allocated blocks alone and adds no bytes of theirs.\<close>

lemma uinv_change:
  assumes "uinv h F A b" and "heap_ok h' F'" and "base h' = base h" and "b \<le> b'" and "b' \<le> 2 ^ 36"
    and "\<And>x. x \<in> F' \<Longrightarrow> hdr_end h' x \<le> b'" and "\<And>a. a \<in> A \<Longrightarrow> s_size h' a = s_size h a"
    and "\<And>a. a \<in> A \<Longrightarrow> block h a \<inter> free_bytes h' F' = {}"
  shows "uinv h' F' A b'"
proof -
  have "hdr_end h' a = hdr_end h a" "block h' a = block h a" if "a \<in> A" for a using assms(7) [OF that] by (simp_all add: hdr_end_def block_def)
  moreover have "hdr_end h a \<le> b'" if "a \<in> A" for a using le_trans [OF uinvD(7) [OF assms(1) that] assms(4)] .
  ultimately show ?thesis using uinvD(2,5,6,9) [OF assms(1)] assms(2-8) by (auto simp: uinv_def)
qed

lemma free_bytes_below:
  assumes "blocks_ok h F" and "\<And>z. z \<in> free_bytes h F \<Longrightarrow> z < b" and "base h < b" and "x \<in> F"
  shows "hdr_end h x \<le> b"
proof (cases "x = base h")
  case True
  then show ?thesis using blocksD(4) [OF assms(1)] assms(3) by (simp add: hdr_end_def)
next
  case False
  then have "x < hdr_end h x" using blocksD(6) [OF assms(1,4)] by (simp add: hdr_end_def unat_gt_0)
  then have "hdr_end h x - 1 \<in> free_bytes h F" using assms(4) by (auto simp: free_bytes_def block_def intro!: bexI [of _ x])
  then show ?thesis using assms(2) by fastforce
qed

lemma below: "uinv h F A b \<Longrightarrow> z \<in> free_bytes h F \<Longrightarrow> z < b"
  using uinvD(4) [of h F A b] by (fastforce simp: free_bytes_def block_def)

lemma not_at_end:
  assumes "uinv h F A b"
  shows "b \<notin> F" and "b \<notin> A"
proof -
  have ok: "blocks_ok h F" using uinvD(1) [OF assms] by (simp add: heap_ok_def)
  show "b \<notin> F"
  proof
    assume b: "b \<in> F"
    then have "s_size h b = 0" using uinvD(4) [OF assms b] by (simp add: hdr_end_def unat_eq_zero)
    then show False using blocksD(6) [OF ok b] uinvD(2) [OF assms] by simp
  qed
  show "b \<notin> A" using uinvD(6,7) [OF assms, of b] by (auto simp: hdr_end_def unat_eq_zero)
qed

lemma heap_ok_cong:
  assumes "\<And>x. x \<in> F \<Longrightarrow> s_size k x = s_size h x" and "s_ptr k = s_ptr h" and "base k = base h" and "freep k = freep h"
  shows "heap_ok k F \<longleftrightarrow> heap_ok h F" and "free_bytes k F = free_bytes h F"
proof -
  have e: "hdr_end k x = hdr_end h x" if "x \<in> F" for x using assms(1) [OF that] by (simp add: hdr_end_def)
  show "heap_ok k F \<longleftrightarrow> heap_ok h F" using e assms by (auto simp: heap_ok_def blocks_ok_def)
  show "free_bytes k F = free_bytes h F" using e by (simp add: free_bytes_def block_def)
qed

lemma morecore_spec:
  assumes "uinv h F A (brk w)" and "sbrk_grows y brk" and "16 * unat N < 2 ^ 31"
  shows "\<exists>h' p w'. morecore y N h w = udone (h', p) w' \<and>
    (p = 0 \<and> h' = h \<and> brk w' = brk w \<and> fst (y_sbrk y (16 * uint (max 4096 N)) w) = - 1 \<or> p \<noteq> 0 \<and> p = freep h' \<and> base h' = base h \<and> (\<forall>a \<in> A. s_size h' a = s_size h a)
       \<and> (\<exists>F'. uinv h' F' A (brk w') \<and> (\<exists>x \<in> F'. max 4096 N \<le> s_size h' x)))"
proof -
  note I = uinvD [OF assms(1)]
  define nu where "nu = (if N < 4096 then 4096 else N)"
  have nm: "nu = max 4096 N" unfolding nu_def by (metis max.absorb1 max.absorb2 leI less_imp_le)
  have nu: "16 * unat nu < 2 ^ 31" "N \<le> nu" "0 < nu" using assms(3) by (auto simp: nu_def word_less_nat_alt word_le_nat_alt)
  have "unat (ucast nu * 16 :: uint64) = 16 * unat nu"
    using nu(1) by (simp add: unat_word_ariths unsigned_ucast_eq take_bit_eq_mod)
  then have u: "unat (ucast (ucast nu * 16 :: uint64) :: uint) = 16 * unat nu"
    using nu(1) by (simp add: unsigned_ucast_eq take_bit_eq_mod)
  have sn: "sint (ucast (ucast nu * 16 :: uint64) :: uint) = int (16 * unat nu)"
  proof -
    have "uint (ucast (ucast nu * 16 :: uint64) :: uint) = int (16 * unat nu)" using arg_cong [OF u, of int] by (simp only: of_nat_unat)
    moreover have "int (16 * unat nu) < 2 ^ 31" using nu(1) by (metis of_nat_less_iff of_nat_numeral of_nat_power)
    then have "signed_take_bit 31 (int (16 * unat nu)) = int (16 * unat nu)" by (rule signed_take_bit_int_eq_self [rotated]) (rule order_trans [of _ 0], simp_all)
    ultimately show ?thesis by (simp only: sint_uint) simp
  qed
  define m where "m = 16 * unat nu"
  obtain r w' where r: "y_sbrk y (int m) w = (r, w')" by fastforce
  have "0 < m" using nu(3) by (simp add: m_def word_less_nat_alt)
  then have pos: "0 < int m" by simp
  have M: "morecore y N h w = (if r = - 1 then udone (h, 0) w' else ubnd (free (unat r + 16) (set_size (unat r) nu h) w') (\<lambda>h w. udone (h, freep h) w))"
    unfolding morecore_def Let_def nu_def [symmetric] sn ucall_def m_def [symmetric] r by simp
  note G = sbrk_growsD [OF assms(2) pos r]
  show ?thesis
  proof (cases "r = - 1")
    case True
    moreover have "fst (y_sbrk y (16 * uint (max 4096 N)) w) = - 1" using r True by (simp add: m_def nm)
    ultimately show ?thesis using M G by auto
  next
    case False
    have g: "unat r = brk w" "brk w' = brk w + 16 * unat nu" "brk w' \<le> 2 ^ 36"
      using G False by (simp_all only: if_False nat_int m_def) simp_all
    define k where "k = set_size (unat r) nu h"
    have nr: "unat r \<notin> F" "unat r \<notin> A" using not_at_end [OF assms(1)] g(1) by simp_all
    have ks: "base k = base h" "s_ptr k = s_ptr h" "freep k = freep h" "\<And>a. a \<noteq> unat r \<Longrightarrow> s_size k a = s_size h a" "s_size k (unat r) = nu"
      by (simp_all add: k_def set_hdr)
    have kx: "s_size k x = s_size h x" if "x \<in> F" for x using ks(4) nr(1) that by metis
    have k: "heap_ok k F" "free_bytes k F = free_bytes h F" using heap_ok_cong [OF kx ks(2,1,3)] I(1) by simp_all
    have e: "hdr_end k (unat r) = brk w'" "block k (unat r) = {brk w..<brk w'}" using g ks(5) by (simp_all add: hdr_end_def block_def)
    have dis: "block k (unat r) \<inter> free_bytes k F = {}" using below [OF assms(1)] by (fastforce simp: e k(2))
    have pre: "base k < unat r" "s_size k (unat r) \<noteq> 0" "hdr_end k (unat r) \<le> 2 ^ 36" using g ks(1,5) e(1) I(2) nu(3) by auto
    obtain h' F' where f: "free (unat r + 16) k w' = udone h' w'" "heap_ok h' F'" "F' \<subseteq> insert (unat r) F"
      "free_bytes h' F' = free_bytes h F \<union> block k (unat r)" "base h' = base h" "\<And>a. a \<notin> insert (unat r) F \<Longrightarrow> s_size h' a = s_size k a"
      "\<exists>x \<in> F'. nu \<le> s_size h' x"
      using free_spec [OF k(1) pre dis, of w'] unfolding k(2) ks(1,5) by blast
    have fa: "s_size h' a = s_size h a" if "a \<in> A" for a
      using f(6) [of a] ks(4) [of a] allocated_not_free [OF assms(1) that] nr(2) that by auto
    have "block h a \<inter> free_bytes h' F' = {}" if "a \<in> A" for a
      using I(8) [OF that] I(7) [OF that] by (auto simp: f(4) e block_def [of h])
    moreover have "hdr_end h' x \<le> brk w'" if "x \<in> F'" for x
    proof (rule free_bytes_below [OF _ _ _ that])
      show "blocks_ok h' F'" using f(2) by (simp add: heap_ok_def)
      show "z < brk w'" if "z \<in> free_bytes h' F'" for z using that below [OF assms(1), of z] g(2) by (auto simp: f(4) e)
    qed (use f(5) I(2) g(2) in simp)
    ultimately have "uinv h' F' A (brk w')" using uinv_change [OF assms(1) f(2,5)] g fa by simp
    moreover have "freep h' \<noteq> 0" using f(2) blocksD(2,5) [of h' F'] by (fastforce simp: heap_ok_def)
    moreover have "\<exists>x \<in> F'. max 4096 N \<le> s_size h' x" using f(7) by (simp only: nm)
    ultimately show ?thesis using M False f(1,5) fa by (auto simp: k_def)
  qed
qed

text \<open>Taking a block off the free list hands it over to the allocated ones.\<close>

lemma take_uinv:
  assumes "uinv h F A b" and "p \<in> F" and "N \<le> s_size h (s_ptr h p)" and "0 < N" and "malloc_take N p (s_ptr h p) h = (h', q)"
  shows "\<exists>a F'. q = a + 16 \<and> a \<notin> A \<and> uinv h' F' (insert a A) b \<and> s_size h' a = N \<and> base h' = base h \<and> (\<forall>c \<in> A. s_size h' c = s_size h c)
    \<and> (\<forall>x \<in> F. \<exists>z \<in> F'. unat (s_size h x) - unat N \<le> unat (s_size h' z))"
proof -
  note I = uinvD [OF assms(1)]
  obtain a F' where t: "q = a + 16" "heap_ok h' F'" "F' \<subseteq> F" "base h < a" "hdr_end h' a \<le> 2 ^ 36" "base h' = base h" "s_size h' a = N"
    "block h' a \<subseteq> free_bytes h F" "free_bytes h' F' = free_bytes h F - block h' a" "\<And>c. c \<notin> insert a F \<Longrightarrow> s_size h' c = s_size h c"
    "\<forall>x \<in> F. \<exists>z \<in> F'. unat (s_size h x) - unat N \<le> unat (s_size h' z)"
    using take_ok [OF I(1) assms(2) refl assms(3-5)] by blast
  have aa: "a \<in> block h' a" "hdr_end h' a - 1 \<in> block h' a" "a < hdr_end h' a"
    using t(7) assms(4) by (auto simp: block_def hdr_end_def word_less_nat_alt)
  have nA: "a \<notin> A"
  proof
    assume "a \<in> A"
    then have "a \<in> block h a" using I(6) by (simp add: block_def hdr_end_def unat_gt_0)
    then show False using aa(1) t(8) I(8) [OF \<open>a \<in> A\<close>] by blast
  qed
  have sz: "s_size h' c = s_size h c" if "c \<in> A" for c using t(10) [of c] allocated_not_free [OF assms(1) that] nA that by auto
  have bl: "block h' c = block h c" if "c \<in> A" for c using sz [OF that] by (simp add: block_def hdr_end_def)
  have "uinv h' F' A b"
  proof (rule uinv_change [OF assms(1) t(2,6) order_refl I(3) _ sz])
    show "hdr_end h' x \<le> b" if "x \<in> F'" for x
      by (rule free_bytes_below [OF _ _ _ that]) (use t(2,6,9) below [OF assms(1)] I(2) in \<open>auto simp: heap_ok_def\<close>)
    show "block h c \<inter> free_bytes h' F' = {}" if "c \<in> A" for c using I(8) [OF that] by (auto simp: t(9))
  qed
  moreover have "block h' a \<inter> block h' c = {}" if "c \<in> A" for c using I(8) [OF that] t(8) bl [OF that] by blast
  moreover have "hdr_end h' a \<le> b" using below [OF assms(1)] t(8) aa(2,3) by fastforce
  ultimately have "uinv h' F' (insert a A) b"
    using t(4,6,7,9) assms(4) by (auto simp: uinv_def)
  then show ?thesis using t(1,6,7,11) nA sz by blast
qed

text \<open>
  C28. \<^verbatim>\<open>malloc\<close> returns, for every request below \<open>2^31 - 64\<close> bytes, and hands out memory of its own: the
  block of \<open>nbytes\<close> bytes at the address it returns, with its header, overlaps no block handed out
  before and not freed, nor any block of the free list, and the sizes recorded for the other blocks
  are unchanged. It returns 0 only when \<^verbatim>\<open>sbrk\<close> fails, and then nothing has changed.
\<close>

theorem malloc_fresh:
  assumes "uinv (hinit h) F A (brk w)" and "sbrk_grows y brk" and "unat nbytes < 2 ^ 31 - 64"
  shows "\<exists>h' q w'. malloc y nbytes h w = udone (h', q) w' \<and>
    (if q = 0 then h' = hinit h \<and> brk w' = brk w \<and> fst (y_sbrk y (16 * uint (max 4096 (nunits nbytes))) w) = - 1
     else \<exists>a F'. q = a + 16 \<and> a \<notin> A \<and> q + unat nbytes \<le> hdr_end h' a \<and> uinv h' F' (insert a A) (brk w')
       \<and> (\<forall>c \<in> A. s_size h' c = s_size (hinit h) c))"
proof -
  define k where "k = hinit h"
  define N where "N = nunits nbytes"
  note inv = assms(1) [folded k_def]
  have N: "16 * unat N < 2 ^ 31" "0 < N" "unat nbytes + 16 \<le> 16 * unat N"
    using assms(3) unfolding N_def by (simp_all add: unat_nunits word_less_nat_alt)
  have fits: "q + unat nbytes \<le> hdr_end h' a" if "q = a + 16" "s_size h' a = N" for q a h'
    using N(3) that by (simp add: hdr_end_def)
  have E: "malloc y nbytes h w = malloc_loop y N (freep k) (s_ptr k (freep k)) k w" unfolding k_def N_def by (rule malloc_eq)
  note S = malloc_loop_start [OF uinvD(1) [OF inv] refl, of N y w]
  show ?thesis
  proof (cases "\<exists>x \<in> F. N \<le> s_size k x")
    case True
    then obtain p where p: "p \<in> F" "N \<le> s_size k (s_ptr k p)" "malloc y nbytes h w = udone (malloc_take N p (s_ptr k p) k) w"
      using S E by auto
    obtain h' q where t: "malloc_take N p (s_ptr k p) k = (h', q)" by fastforce
    show ?thesis using take_uinv [OF inv p(1,2) N(2) t] p(3) t fits unfolding k_def by auto
  next
    case False
    then have E2: "malloc y nbytes h w = ubnd (morecore y N k w) (\<lambda>(h, p) w. if p = 0 then udone (h, 0) w else malloc_loop y N p (s_ptr h p) h w)"
      using S E by auto
    obtain h1 p1 w1 where m: "morecore y N k w = udone (h1, p1) w1"
      and r: "p1 = 0 \<and> h1 = k \<and> brk w1 = brk w \<and> fst (y_sbrk y (16 * uint (max 4096 N)) w) = - 1 \<or> p1 \<noteq> 0 \<and> p1 = freep h1 \<and> base h1 = base k \<and> (\<forall>a \<in> A. s_size h1 a = s_size k a)
       \<and> (\<exists>F'. uinv h1 F' A (brk w1) \<and> (\<exists>x \<in> F'. max 4096 N \<le> s_size h1 x))"
      using morecore_spec [OF inv assms(2) N(1)] by blast
    show ?thesis
    proof (cases "p1 = 0")
      case True
      then show ?thesis using E2 m r by (simp add: k_def N_def)
    next
      case False
      then obtain F1 where i: "uinv h1 F1 A (brk w1)" "\<exists>x \<in> F1. N \<le> s_size h1 x" "p1 = freep h1" "\<And>a. a \<in> A \<Longrightarrow> s_size h1 a = s_size k a"
        using r by fastforce
      obtain p where p: "p \<in> F1" "N \<le> s_size h1 (s_ptr h1 p)" "malloc_loop y N p1 (s_ptr h1 p1) h1 w1 = udone (malloc_take N p (s_ptr h1 p) h1) w1"
        using malloc_loop_start [OF uinvD(1) [OF i(1)] i(3), of N y w1] i(2) by auto
      obtain h' q where t: "malloc_take N p (s_ptr h1 p) h1 = (h', q)" by fastforce
      show ?thesis using take_uinv [OF i(1) p(1,2) N(2) t] p(3) t E2 m False i(4) fits unfolding k_def by auto
    qed
  qed
qed

text \<open>
  C29. \<^verbatim>\<open>free\<close> of a block that is handed out returns (its search of the free list ends), gives all bytes
  of the block back to the free list and none other, and leaves the other blocks as they are.
\<close>

theorem free_gives_back:
  assumes "uinv h F A b" and "a \<in> A"
  shows "\<exists>h' F'. free (a + 16) h w = udone h' w \<and> uinv h' F' (A - {a}) b \<and> free_bytes h' F' = free_bytes h F \<union> block h a
    \<and> (\<forall>c \<in> A - {a}. s_size h' c = s_size h c)"
proof -
  note I = uinvD [OF assms(1)]
  obtain h' F' where f: "free (a + 16) h w = udone h' w" "heap_ok h' F'" "F' \<subseteq> insert a F" "free_bytes h' F' = free_bytes h F \<union> block h a"
    "base h' = base h" "\<And>c. c \<notin> insert a F \<Longrightarrow> s_size h' c = s_size h c"
    using free_spec [OF I(1) I(5,6) [OF assms(2)] le_trans [OF I(7) [OF assms(2)] I(3)] I(8) [OF assms(2)], of w] by blast
  have sz: "s_size h' c = s_size h c" if "c \<in> A - {a}" for c using f(6) [of c] allocated_not_free [OF assms(1), of c] that by auto
  have sub: "uinv h F (A - {a}) b" using assms(1) by (auto simp: uinv_def)
  have "uinv h' F' (A - {a}) b"
  proof (rule uinv_change [OF sub f(2,5) order_refl I(3) _ sz])
    show "hdr_end h' x \<le> b" if "x \<in> F'" for x
    proof (rule free_bytes_below [OF _ _ _ that])
      show "blocks_ok h' F'" using f(2) by (simp add: heap_ok_def)
      show "z < b" if "z \<in> free_bytes h' F'" for z using that below [OF assms(1), of z] I(7) [OF assms(2)] by (auto simp: f(4) block_def)
    qed (use f(5) I(2) in simp)
    show "block h c \<inter> free_bytes h' F' = {}" if "c \<in> A - {a}" for c using I(8) [of c] I(9) [of c a] that assms(2) unfolding f(4) by blast
  qed
  then show ?thesis using f(1,4) sz by blast
qed

text \<open>
  A heap with room for \<open>n\<close> headers in one block serves requests without \<^verbatim>\<open>sbrk\<close>, and each takes at
  most its own size from that room.
\<close>

definition room :: "uheap \<Rightarrow> nat \<Rightarrow> bool" where
  "room h n \<longleftrightarrow> (\<exists>F A b. uinv h F A b \<and> (\<exists>x \<in> F. n \<le> unat (s_size h x)))"

lemma room_mono: "room h n \<Longrightarrow> m \<le> n \<Longrightarrow> room h m"
  unfolding room_def by (meson order_trans)

lemma hinit_id: "uinv h F A b \<Longrightarrow> hinit h = h"
  using uinvD(1) [of h F A b] blocksD(2,5) [of h F] by (fastforce simp: hinit_def heap_ok_def)

lemma malloc_room:
  assumes "room h n" and "unat (nunits sz) \<le> n"
  shows "\<exists>h' q. malloc y sz h w = udone (h', q) w \<and> q \<noteq> 0 \<and> room h' (n - unat (nunits sz))"
proof -
  obtain F A b x where u: "uinv h F A b" "x \<in> F" "n \<le> unat (s_size h x)" using assms(1) by (auto simp: room_def)
  have N: "0 < nunits sz" by (simp add: word_less_nat_alt unat_nunits)
  have "nunits sz \<le> s_size h x" using u(3) assms(2) by (simp add: word_le_nat_alt)
  then have "\<exists>x \<in> F. nunits sz \<le> s_size h x" using u(2) by blast
  then obtain p where p: "p \<in> F" "nunits sz \<le> s_size h (s_ptr h p)" "malloc y sz h w = udone (malloc_take (nunits sz) p (s_ptr h p) h) w"
    using malloc_loop_start [OF uinvD(1) [OF u(1)] refl, of "nunits sz" y w] unfolding malloc_eq hinit_id [OF u(1)] by auto
  obtain h' q where t: "malloc_take (nunits sz) p (s_ptr h p) h = (h', q)" by fastforce
  obtain a F' where v: "q = a + 16" "uinv h' F' (insert a A) b" "\<forall>x \<in> F. \<exists>z \<in> F'. unat (s_size h x) - unat (nunits sz) \<le> unat (s_size h' z)"
    using take_uinv [OF u(1) p(1,2) N t] by blast
  obtain z where "z \<in> F'" "unat (s_size h x) - unat (nunits sz) \<le> unat (s_size h' z)" using v(3) u(2) by blast
  then have "room h' (n - unat (nunits sz))" using v(2) u(3) by (force simp: room_def)
  then show ?thesis using p(3) t v(1) by simp
qed

text \<open>The first request of a process gets its room from \<^verbatim>\<open>sbrk\<close>.\<close>

lemma morecore_world:
  assumes "morecore y N h w = udone x w'" and "N \<le> 4096"
  shows "w' = snd (y_sbrk y 65536 w)"
proof -
  have n: "(if N < 4096 then 4096 else N) = 4096" using assms(2) by auto
  have "morecore y N h w = ubnd (ucall (y_sbrk y 65536) w) (\<lambda>p w. if p = - 1 then udone (h, 0) w
      else ubnd (free (unat p + 16) (set_size (unat p) 4096 h) w) (\<lambda>h w. udone (h, freep h) w))"
    unfolding morecore_def Let_def n by simp
  then show ?thesis using assms(1) by (auto simp: ucall_def free_def Let_def split: prod.splits if_splits option.splits)
qed

lemma malloc_first:
  assumes "uinv (hinit h) F A (brk w)" and "sbrk_grows y brk" and "\<And>x. x \<in> F \<Longrightarrow> s_size (hinit h) x = 0" and "fst (y_sbrk y 65536 w) \<noteq> - 1"
    and "unat (nunits sz) \<le> 4096"
  shows "\<exists>h' q w'. malloc y sz h w = udone (h', q) w' \<and> q \<noteq> 0 \<and> room h' (4096 - unat (nunits sz)) \<and> w' = snd (y_sbrk y 65536 w)"
proof -
  define N where "N = nunits sz"
  have N: "0 < N" "N \<le> 4096" "16 * unat N < 2 ^ 31" using assms(5) by (simp_all add: N_def word_less_nat_alt word_le_nat_alt unat_nunits)
  have mx: "max 4096 N = 4096" using N(2) by (simp add: max_def)
  have "\<not> (\<exists>x \<in> F. N \<le> s_size (hinit h) x)" using assms(3) N(1) by auto
  then have E: "malloc y sz h w = ubnd (morecore y N (hinit h) w) (\<lambda>(h, p) w. if p = 0 then udone (h, 0) w else malloc_loop y N p (s_ptr h p) h w)"
    using malloc_loop_start [OF uinvD(1) [OF assms(1)] refl, of N y w] unfolding malloc_eq N_def by auto
  obtain h1 p1 w1 F1 x where m: "morecore y N (hinit h) w = udone (h1, p1) w1" "p1 \<noteq> 0" "p1 = freep h1" "uinv h1 F1 A (brk w1)" "x \<in> F1" "4096 \<le> s_size h1 x"
    using morecore_spec [OF assms(1,2) N(3)] assms(4) unfolding mx by auto
  have "\<exists>x \<in> F1. N \<le> s_size h1 x" using m(5,6) N(2) by (meson order_trans)
  then obtain p where p: "p \<in> F1" "N \<le> s_size h1 (s_ptr h1 p)" "malloc_loop y N p1 (s_ptr h1 p1) h1 w1 = udone (malloc_take N p (s_ptr h1 p) h1) w1"
    using malloc_loop_start [OF uinvD(1) [OF m(4)] m(3), of N y w1] by auto
  obtain h' q where t: "malloc_take N p (s_ptr h1 p) h1 = (h', q)" by fastforce
  obtain a F' z where v: "q = a + 16" "uinv h' F' (insert a A) (brk w1)" "z \<in> F'" "unat (s_size h1 x) - unat N \<le> unat (s_size h' z)"
    using take_uinv [OF m(4) p(1,2) N(1) t] m(5) by blast
  have "4096 - unat N \<le> unat (s_size h' z)" using v(4) m(6) by (simp add: word_le_nat_alt)
  then have "room h' (4096 - unat N)" using v(2,3) by (auto simp: room_def)
  then show ?thesis using E m(1,2) p(3) t v(1) morecore_world [OF m(1) N(2)] by (simp add: N_def)
qed

section \<open>Examples\<close>

text \<open>A kernel of which only \<^verbatim>\<open>sbrk\<close> is used, and one where the memory of the process ends at \<open>w\<close>.\<close>

definition sbrk_sys :: "(int \<Rightarrow> 'w \<Rightarrow> uint64 \<times> 'w) \<Rightarrow> 'w usys" where
  "sbrk_sys f = \<lparr>y_fork = Pair 0, y_wait = Pair 0, y_pipe = Pair None, y_write = (\<lambda>fd bs. Pair (int (length bs))),
     y_read = (\<lambda>fd n. Pair None), y_close = (\<lambda>_. Pair 0), y_kill = (\<lambda>_. Pair 0),
     y_exec = (\<lambda>_ _. Pair False), y_open = (\<lambda>_ _. Pair 3), y_mknod = (\<lambda>_ _ _. Pair 0), y_unlink = (\<lambda>_. Pair 0), y_fstat = (\<lambda>_. Pair None),
     y_link = (\<lambda>_ _. Pair 0), y_mkdir = (\<lambda>_. Pair 0), y_chdir = (\<lambda>_. Pair 0), y_dup = (\<lambda>_. Pair 0), y_sbrk = f,
     y_sleep = (\<lambda>_. Pair 0), y_year = (\<lambda>_. Pair (0, (\<lambda>_. 0))), y_state = (\<lambda>_. Pair []), y_procname = (\<lambda>_. Pair [])\<rparr>"

definition brk_sys :: "nat usys" where
  "brk_sys = sbrk_sys (\<lambda>n w. if 0 < n \<and> w + nat n \<le> 2 ^ 36 then (of_nat w, w + nat n) else (- 1, w))"

lemma brk_addr: "w \<le> 2 ^ 36 \<Longrightarrow> unat (of_nat w :: uint64) = w" "w \<le> 2 ^ 36 \<Longrightarrow> (of_nat w :: uint64) \<noteq> - 1"
proof -
  show u: "unat (of_nat w :: uint64) = w" if "w \<le> 2 ^ 36" using that by (simp add: unat_of_nat take_bit_eq_mod)
  have "unat (- 1 :: uint64) = 2 ^ 64 - 1" by (simp add: unsigned_minus_1_eq_mask mask_eq_exp_minus_1)
  then show "(of_nat w :: uint64) \<noteq> - 1" if "w \<le> 2 ^ 36" using u that by auto
qed

lemma brk_sys_grows: "sbrk_grows brk_sys (\<lambda>w. w)"
  using brk_addr by (auto simp: sbrk_grows_def brk_sys_def sbrk_sys_def split: if_splits)

definition new_heap :: uheap where
  "new_heap = \<lparr>base = 4096, freep = 0, s_ptr = (\<lambda>_. 0), s_size = (\<lambda>_. 0)\<rparr>"

lemma new_heap_uinv: "uinv (hinit new_heap) {4096} {} 8192"
  by (simp add: uinv_def heap_ok_def blocks_ok_def ring_def gap_def hinit_def new_heap_def set_hdr hdr_end_def)

theorem malloc_fresh_witness:
  "\<exists>h' q w'. malloc brk_sys 100 new_heap 8192 = udone (h', q) w' \<and> (if q = 0 then w' = 8192 else \<exists>a F'. q = a + 16 \<and> uinv h' F' {a} w')"
proof -
  obtain h' q w' where m: "malloc brk_sys 100 new_heap 8192 = udone (h', q) w'"
    and c: "if q = 0 then h' = hinit new_heap \<and> w' = 8192 \<and> fst (y_sbrk brk_sys (16 * uint (max 4096 (nunits 100))) 8192) = - 1 else \<exists>a F'. q = a + 16 \<and> a \<notin> {} \<and> q + unat (100 :: uint) \<le> hdr_end h' a
      \<and> uinv h' F' {a} w' \<and> (\<forall>c \<in> {}. s_size h' c = s_size (hinit new_heap) c)"
    using malloc_fresh [OF new_heap_uinv brk_sys_grows, of 100] by auto
  have "if q = 0 then w' = 8192 else \<exists>a F'. q = a + 16 \<and> uinv h' F' {a} w'" using c by (cases "q = 0") auto
  then show ?thesis using m by blast
qed

theorem free_gives_back_witness:
  "\<exists>h F A. 8352 \<in> A \<and> uinv h F A 8432 \<and> (\<exists>h' F'. free 8368 h () = udone h' () \<and> uinv h' F' (A - {8352}) 8432 \<and> 8431 \<in> free_bytes h' F')"
proof -
  define h where "h = \<lparr>base = 4096, freep = 4096, s_ptr = (\<lambda>_. 4096)(4096 := 8192), s_size = (\<lambda>_. 0)(8192 := 10, 8352 := 5)\<rparr>"
  have "uinv h {4096, 8192} {8352} 8432"
    by (simp add: uinv_def heap_ok_def blocks_ok_def ring_def gap_def h_def hdr_end_def block_def free_bytes_def)
  moreover have "8431 \<in> block h 8352" by (simp add: h_def block_def hdr_end_def)
  ultimately show ?thesis using free_gives_back [of h "{4096, 8192}" "{8352}" 8432 8352 "()"] by (intro exI [of _ h] exI [of _ "{4096, 8192}"] exI [of _ "{8352}"]) auto
qed

section \<open>Requests that do not fit an int\<close>

text \<open>The number of bytes asked of \<^verbatim>\<open>sbrk\<close> is an \<^verbatim>\<open>int\<close>; for a request of \<open>2^31\<close> bytes it is negative.\<close>

lemma malloc_huge:
  assumes "freep h = 0" and "0 < base h" and "y_sbrk y (- 2147483632) w = (r, w')" and "r \<noteq> - 1" and "base h < unat r"
  shows "\<exists>h'. malloc y 0x80000000 h w = udone (h', unat r + 16) w'"
proof -
  define k where "k = hinit h"
  have k: "freep k = base h" "s_ptr k (base h) = base h" "s_size k (base h) = 0" "base k = base h"
    using assms(1) by (simp_all add: k_def hinit_def set_hdr)
  have N: "nunits 0x80000000 = 0x8000001" by (simp add: nunits_def)
  define b where "b = unat r"
  define k1 where "k1 = set_size b 0x8000001 k"
  define k2 where "k2 = (set_ptr (base h) b (set_ptr b (base h) k1))\<lparr>freep := base h\<rparr>"
  have b: "base h < b" using assms(5) by (simp add: b_def)
  have k1: "freep k1 = base h" "s_ptr k1 (base h) = base h" "s_size k1 (base h) = 0" "s_size k1 b = 0x8000001"
    using k b by (simp_all add: k1_def set_hdr)
  have "free_find k1 b (base h) = Some (base h)" using k1 b by (subst free_find.simps) simp
  moreover have "free_join b (base h) k1 = k2" using k1 b by (simp add: free_join_def k2_def hdr_end_def set_hdr Let_def)
  ultimately have f: "free (b + 16) k1 w' = udone k2 w'" using k1(1) assms(2) by (simp add: free_def)
  have m: "morecore y 0x8000001 k w = udone (k2, base h) w'"
    using assms(3,4) f by (simp add: morecore_def ucall_def b_def [symmetric] k1_def [symmetric]) (simp add: k2_def)
  have k2: "s_ptr k2 (base h) = b" "s_size k2 b = 0x8000001" using b k1(4) by (simp_all add: k2_def set_hdr)
  have "malloc_loop y 0x8000001 (base h) (base h) k w = malloc_loop y 0x8000001 (base h) b k2 w'"
    using k m k2(1) assms(2) by (subst malloc_loop.simps) simp
  also have "\<dots> = udone (malloc_take 0x8000001 (base h) b k2) w'" using k2(2) by (subst malloc_loop.simps) simp
  finally show ?thesis unfolding malloc_eq N k_def [symmetric] using k k2(2) by (simp add: malloc_take_def b_def)
qed

end
