(* ===== verification/Xv6_Progs.thy ===== *)
theory Xv6_Progs
  imports Xv6_Umalloc "HOL-Library.Monad_Syntax"
begin

text \<open>
  The programs \<^verbatim>\<open>cat\<close>, \<^verbatim>\<open>wc\<close>, \<^verbatim>\<open>grep\<close>, \<^verbatim>\<open>echo\<close>, \<^verbatim>\<open>kill\<close>, \<^verbatim>\<open>ln\<close>, \<^verbatim>\<open>rm\<close>, \<^verbatim>\<open>mkdir\<close>, \<^verbatim>\<open>zombie\<close>, \<^verbatim>\<open>hello\<close>, \<^verbatim>\<open>ps\<close>,
  \<^verbatim>\<open>ls\<close>, \<^verbatim>\<open>init\<close>, \<^verbatim>\<open>stressfs\<close>, \<^verbatim>\<open>forktest\<close> and the random numbers of \<^verbatim>\<open>grind\<close>. Each \<^verbatim>\<open>main\<close> gets the
  arguments with \<^verbatim>\<open>argv[0]\<close> first.
\<close>

section \<open>user/cat.c\<close>

partial_function (option) cat :: "'w usys \<Rightarrow> int \<Rightarrow> 'w \<Rightarrow> ('w, unit) urun" where
  "cat y fd w =
     ubnd (ucall (y_read y fd 512) w) (\<lambda>n w.
     case n of
       None \<Rightarrow> useq (fprintf y 2 (nl ''cat: read error'') [] w) (uexit 1)
     | Some [] \<Rightarrow> udone () w
     | Some (b # bs) \<Rightarrow>
         ubnd (ucall (y_write y 1 (b # bs)) w) (\<lambda>r w.
         if r \<noteq> int (length (b # bs)) then useq (fprintf y 2 (nl ''cat: write error'') [] w) (uexit 1)
         else cat y fd w))"

primrec cat_files :: "'w usys \<Rightarrow> byte list list \<Rightarrow> 'w \<Rightarrow> ('w, unit) urun" where
  "cat_files y [] w = uexit 0 w"
| "cat_files y (a # as) w =
     ubnd (ucall (y_open y a 0) w) (\<lambda>fd w.
     if fd < 0 then useq (fprintf y 2 (nl ''cat: cannot open %s'') [PStr (Some a)] w) (uexit 1)
     else useq (cat y fd w) (\<lambda>w. useq (ucall (y_close y fd) w) (cat_files y as)))"

definition cat_main :: "'w usys \<Rightarrow> byte list list \<Rightarrow> 'w \<Rightarrow> ('w, unit) urun" where
  "cat_main y argv w =
     (if length argv \<le> 1 then useq (cat y 0 w) (uexit 0) else cat_files y (tl argv) w)"

section \<open>user/wc.c\<close>

record wcst =
  wc_l :: uint
  wc_w :: uint
  wc_c :: uint
  wc_in :: bool

definition wc_blank :: "byte \<Rightarrow> bool" where
  "wc_blank b \<longleftrightarrow> b \<in> {32, 13, 9, 10, 11}"

definition wc_step :: "byte \<Rightarrow> wcst \<Rightarrow> wcst" where
  "wc_step b t =
     (let t = t\<lparr>wc_c := wc_c t + 1\<rparr>;
          t = (if b = 10 then t\<lparr>wc_l := wc_l t + 1\<rparr> else t)
      in if wc_blank b then t\<lparr>wc_in := False\<rparr>
         else if \<not> wc_in t then t\<lparr>wc_w := wc_w t + 1, wc_in := True\<rparr> else t)"

partial_function (option) wc_loop :: "'w usys \<Rightarrow> int \<Rightarrow> wcst \<Rightarrow> 'w \<Rightarrow> ('w, wcst option) urun" where
  "wc_loop y fd t w =
     ubnd (ucall (y_read y fd 512) w) (\<lambda>n w.
     case n of None \<Rightarrow> udone None w | Some [] \<Rightarrow> udone (Some t) w
     | Some (b # bs) \<Rightarrow> wc_loop y fd (fold wc_step (b # bs) t) w)"

definition wc :: "'w usys \<Rightarrow> int \<Rightarrow> byte list \<Rightarrow> 'w \<Rightarrow> ('w, unit) urun" where
  "wc y fd name w =
     ubnd (wc_loop y fd \<lparr>wc_l = 0, wc_w = 0, wc_c = 0, wc_in = False\<rparr> w) (\<lambda>r w.
     case r of
       None \<Rightarrow> useq (uprintf y (nl ''wc: read error'') [] w) (uexit 1)
     | Some t \<Rightarrow> uprintf y (nl ''%d %d %d %s'') [PInt (wc_l t), PInt (wc_w t), PInt (wc_c t), PStr (Some name)] w)"

primrec wc_files :: "'w usys \<Rightarrow> byte list list \<Rightarrow> 'w \<Rightarrow> ('w, unit) urun" where
  "wc_files y [] w = uexit 0 w"
| "wc_files y (a # as) w =
     ubnd (ucall (y_open y a 0) w) (\<lambda>fd w.
     if fd < 0 then useq (uprintf y (nl ''wc: cannot open %s'') [PStr (Some a)] w) (uexit 1)
     else useq (wc y fd a w) (\<lambda>w. useq (ucall (y_close y fd) w) (wc_files y as)))"

definition wc_main :: "'w usys \<Rightarrow> byte list list \<Rightarrow> 'w \<Rightarrow> ('w, unit) urun" where
  "wc_main y argv w =
     (if length argv \<le> 1 then useq (wc y 0 [] w) (uexit 0) else wc_files y (tl argv) w)"

section \<open>user/grep.c\<close>

text \<open>\<open>94\<close>, \<open>42\<close>, \<open>36\<close> and \<open>46\<close> are \<open>^\<close>, \<open>*\<close>, \<open>$\<close> and \<open>.\<close>\<close>

function (sequential) matchhere :: "byte list \<Rightarrow> byte list \<Rightarrow> bool"
and matchstar :: "byte \<Rightarrow> byte list \<Rightarrow> byte list \<Rightarrow> bool" where
  "matchhere [] tx = True"
| "matchhere (c # re) tx =
     (if re \<noteq> [] \<and> hd re = 42 then matchstar c (tl re) tx
      else if c = 36 \<and> re = [] then tx = []
      else if tx \<noteq> [] \<and> (c = 46 \<or> c = hd tx) then matchhere re (tl tx)
      else False)"
| "matchstar c re tx =
     (if matchhere re tx then True
      else if tx \<noteq> [] \<and> (hd tx = c \<or> c = 46) then matchstar c re (tl tx)
      else False)"
  by pat_completeness auto
termination
  by (relation "measure (\<lambda>x. case x of Inl (re, tx) \<Rightarrow> 2 * length re + 2 * length tx
        | Inr (c, re, tx) \<Rightarrow> 2 * length re + 2 * length tx + 1)")
    (auto simp: neq_Nil_conv)

declare matchstar.simps [simp del]

primrec match_from :: "byte list \<Rightarrow> byte list \<Rightarrow> bool" where
  "match_from re [] = matchhere re []"
| "match_from re (t # tx) = (matchhere re (t # tx) \<or> match_from re tx)"

definition match :: "byte list \<Rightarrow> byte list \<Rightarrow> bool" where
  "match re tx = (if re \<noteq> [] \<and> hd re = 94 then matchhere (tl re) tx else match_from re tx)"

text \<open>
  The loop over the lines in the buffer from \<open>p\<close> on; \<^verbatim>\<open>strchr\<close> finds the next newline before the
  NUL. It ends with the position of the first incomplete line.
\<close>

partial_function (option) grep_lines :: "'w usys \<Rightarrow> byte list \<Rightarrow> bytes \<Rightarrow> nat \<Rightarrow> 'w \<Rightarrow> ('w, nat) urun" where
  "grep_lines y pattern buf p w =
     (case strchr_from buf 10 p of
        None \<Rightarrow> None
      | Some None \<Rightarrow> udone p w
      | Some (Some q) \<Rightarrow>
          let line = map buf [p..<q] in
          useq (if match pattern line then ucall (y_write y 1 (line @ [10])) w else udone 0 w) (\<lambda>w.
          grep_lines y pattern buf (q + 1) w))"

partial_function (option) grep_loop :: "'w usys \<Rightarrow> byte list \<Rightarrow> int \<Rightarrow> bytes \<Rightarrow> nat \<Rightarrow> 'w \<Rightarrow> ('w, bytes) urun" where
  "grep_loop y pattern fd buf m w =
     ubnd (ucall (y_read y fd (1024 - m - 1)) w) (\<lambda>n w.
     case n of None \<Rightarrow> udone buf w | Some [] \<Rightarrow> udone buf w
     | Some (b # bs) \<Rightarrow>
         let buf = blit m (length (b # bs)) (\<lambda>i. (b # bs) ! i) buf;
             m = m + length (b # bs);
             buf = buf(m := 0)
         in ubnd (grep_lines y pattern buf 0 w) (\<lambda>p w.
            grep_loop y pattern fd (umemmove 0 p (int (m - p)) buf) (m - p) w))"

definition grep :: "'w usys \<Rightarrow> byte list \<Rightarrow> int \<Rightarrow> bytes \<Rightarrow> 'w \<Rightarrow> ('w, bytes) urun" where
  "grep y pattern fd buf w = grep_loop y pattern fd buf 0 w"

primrec grep_files :: "'w usys \<Rightarrow> byte list \<Rightarrow> byte list list \<Rightarrow> bytes \<Rightarrow> 'w \<Rightarrow> ('w, unit) urun" where
  "grep_files y pattern [] buf w = uexit 0 w"
| "grep_files y pattern (a # as) buf w =
     ubnd (ucall (y_open y a 0) w) (\<lambda>fd w.
     if fd < 0 then useq (uprintf y (nl ''grep: cannot open %s'') [PStr (Some a)] w) (uexit 1)
     else ubnd (grep y pattern fd buf w) (\<lambda>buf w. useq (ucall (y_close y fd) w) (grep_files y pattern as buf)))"

definition grep_main :: "'w usys \<Rightarrow> byte list list \<Rightarrow> 'w \<Rightarrow> ('w, unit) urun" where
  "grep_main y argv w =
     (if length argv \<le> 1 then useq (fprintf y 2 (nl ''usage: grep pattern [file ...]'') [] w) (uexit 1)
      else if length argv \<le> 2 then useq (grep y (argv ! 1) 0 (\<lambda>_. 0) w) (uexit 0)
      else grep_files y (argv ! 1) (drop 2 argv) (\<lambda>_. 0) w)"


section \<open>echo, kill, ln, rm, mkdir, zombie and hello\<close>

primrec echo_args :: "'w usys \<Rightarrow> byte list list \<Rightarrow> 'w \<Rightarrow> ('w, unit) urun" where
  "echo_args y [] w = uexit 0 w"
| "echo_args y (a # as) w =
     useq (ucall (y_write y 1 a) w) (\<lambda>w.
     useq (ucall (y_write y 1 (if as \<noteq> [] then [32] else [10])) w) (echo_args y as))"

definition echo_main :: "'w usys \<Rightarrow> byte list list \<Rightarrow> 'w \<Rightarrow> ('w, unit) urun" where
  "echo_main y argv w = echo_args y (tl argv) w"

primrec kill_args :: "'w usys \<Rightarrow> byte list list \<Rightarrow> 'w \<Rightarrow> ('w, unit) urun" where
  "kill_args y [] w = uexit 0 w"
| "kill_args y (a # as) w =
     (case atoi (\<lambda>i. if i < length a then a ! i else 0) of
        None \<Rightarrow> None
      | Some n \<Rightarrow> useq (ucall (y_kill y (sint n)) w) (kill_args y as))"

definition kill_main :: "'w usys \<Rightarrow> byte list list \<Rightarrow> 'w \<Rightarrow> ('w, unit) urun" where
  "kill_main y argv w =
     (if length argv < 2 then useq (fprintf y 2 (nl ''usage: kill pid...'') [] w) (uexit 1)
      else kill_args y (tl argv) w)"

definition ln_main :: "'w usys \<Rightarrow> byte list list \<Rightarrow> 'w \<Rightarrow> ('w, unit) urun" where
  "ln_main y argv w =
     (if length argv \<noteq> 3 then useq (fprintf y 2 (nl ''Usage: ln old new'') [] w) (uexit 1)
      else ubnd (ucall (y_link y (argv ! 1) (argv ! 2)) w) (\<lambda>r w.
           useq (if r < 0 then fprintf y 2 (nl ''link %s %s: failed'') [PStr (Some (argv ! 1)), PStr (Some (argv ! 2))] w
                 else udone () w) (uexit 0)))"

primrec rm_args :: "'w usys \<Rightarrow> byte list list \<Rightarrow> 'w \<Rightarrow> ('w, unit) urun" where
  "rm_args y [] w = uexit 0 w"
| "rm_args y (a # as) w =
     ubnd (ucall (y_unlink y a) w) (\<lambda>r w.
     if r < 0 then useq (fprintf y 2 (nl ''rm: %s failed to delete'') [PStr (Some a)] w) (uexit 0)
     else rm_args y as w)"

definition rm_main :: "'w usys \<Rightarrow> byte list list \<Rightarrow> 'w \<Rightarrow> ('w, unit) urun" where
  "rm_main y argv w =
     (if length argv < 2 then useq (fprintf y 2 (nl ''Usage: rm files...'') [] w) (uexit 1)
      else rm_args y (tl argv) w)"

primrec mkdir_args :: "'w usys \<Rightarrow> byte list list \<Rightarrow> 'w \<Rightarrow> ('w, unit) urun" where
  "mkdir_args y [] w = uexit 0 w"
| "mkdir_args y (a # as) w =
     ubnd (ucall (y_mkdir y a) w) (\<lambda>r w.
     if r < 0 then useq (fprintf y 2 (nl ''mkdir: %s failed to create'') [PStr (Some a)] w) (uexit 0)
     else mkdir_args y as w)"

definition mkdir_main :: "'w usys \<Rightarrow> byte list list \<Rightarrow> 'w \<Rightarrow> ('w, unit) urun" where
  "mkdir_main y argv w =
     (if length argv < 2 then useq (fprintf y 2 (nl ''Usage: mkdir files...'') [] w) (uexit 1)
      else mkdir_args y (tl argv) w)"

definition zombie_main :: "'w usys \<Rightarrow> 'w \<Rightarrow> ('w, unit) urun" where
  "zombie_main y w =
     ubnd (ucall (y_fork y) w) (\<lambda>pid w.
     useq (if pid > 0 then ucall (y_sleep y 5) w else udone 0 w) (uexit 0))"

definition hello_main :: "'w usys \<Rightarrow> byte list list \<Rightarrow> 'w \<Rightarrow> ('w, int) urun" where
  "hello_main y argv w =
     (if length argv < 2 then useq (uprintf y (nl ''Hello World'') [] w) (udone 1)
      else useq (uprintf y (CHR 0x0A # nl ''Hello %s, nice to meet you!'') [PStr (Some (argv ! 1))] w) (udone 0))"

section \<open>user/ps.c\<close>

text \<open>A string of user memory, with its NUL.\<close>

definition zstr :: "byte list \<Rightarrow> bytes" where
  "zstr xs = (\<lambda>i. if i < length xs then xs ! i else 0)"

definition string_state_to_int :: "bytes \<Rightarrow> int option" where
  "string_state_to_int stateStr =
     do { r \<leftarrow> strcmp stateStr (str ''UNUSED''); if r = 0 then Some 0
     else do { r \<leftarrow> strcmp stateStr (str ''USED''); if r = 0 then Some 1
     else do { r \<leftarrow> strcmp stateStr (str ''SLEEPING''); if r = 0 then Some 2
     else do { r \<leftarrow> strcmp stateStr (str ''RUNNABLE''); if r = 0 then Some 3
     else do { r \<leftarrow> strcmp stateStr (str ''RUNNING''); if r = 0 then Some 4
     else do { r \<leftarrow> strcmp stateStr (str ''ZOMBIE''); if r = 0 then Some 5
     else Some (-1) }}}}}}"

text \<open>
  The two buffers come from \<^verbatim>\<open>malloc\<close> and are never freed. When it returns 0 the program goes on to
  use a null pointer, which is a fault.
\<close>

primrec ps_loop :: "'w usys \<Rightarrow> int list \<Rightarrow> uheap \<Rightarrow> 'w \<Rightarrow> ('w, unit) urun" where
  "ps_loop y [] h w = uexit 0 w"
| "ps_loop y (p # ps) h w =
     ubnd (malloc y 16 h w) (\<lambda>(h, stateStr) w.
     ubnd (malloc y 16 h w) (\<lambda>(h, nameStr) w.
     if stateStr = 0 \<or> nameStr = 0 then Some UFault
     else
       ubnd (ucall (y_state y p) w) (\<lambda>st w.
       ubnd (ucall (y_procname y p) w) (\<lambda>nm w.
       useq (uprintf y ''%s '' [PStr (Some nm)] w) (\<lambda>w.
       useq (uprintf y ''(%d):'' [PInt (word_of_int p)] w) (\<lambda>w.
       case string_state_to_int (zstr st) of
         None \<Rightarrow> None
       | Some v \<Rightarrow> useq (uprintf y (nl '' %d'') [PInt (word_of_int v)] w) (ps_loop y ps h)))))))"

definition ps_main :: "'w usys \<Rightarrow> uheap \<Rightarrow> 'w \<Rightarrow> ('w, unit) urun" where
  "ps_main y h w =
     ubnd (ucall (y_year y 100) w) (\<lambda>(num_pids, pid_array) w.
     if num_pids < 0 then useq (uprintf y (nl ''Error in sys_year'') [] w) (uexit 0)
     else ps_loop y (map pid_array [0..<nat num_pids]) h w)"

section \<open>user/ls.c\<close>

definition fmtname :: "byte list \<Rightarrow> byte list" where
  "fmtname path =
     (let p = rev (takeWhile (\<lambda>c. c \<noteq> 47) (rev path)) in
      if length p \<ge> DIRSIZ then p else p @ replicate (DIRSIZ - length p) 32)"

text \<open>The fields of \<^verbatim>\<open>struct stat\<close>.\<close>

definition st_ino :: "bytes \<Rightarrow> uint" where "st_ino st = ld32 st 4"
definition st_type :: "bytes \<Rightarrow> uint16" where "st_type st = ld16 st 8"
definition st_size :: "bytes \<Rightarrow> uint64" where "st_size st = ld64 st 16"

definition sint16 :: "uint16 \<Rightarrow> uint" where "sint16 x = word_of_int (sint x)"

partial_function (option) ls_dir :: "'w usys \<Rightarrow> byte list \<Rightarrow> int \<Rightarrow> 'w \<Rightarrow> ('w, unit) urun" where
  "ls_dir y path fd w =
     ubnd (ucall (y_read y fd 16) w) (\<lambda>r w.
     case r of None \<Rightarrow> udone () w
     | Some de \<Rightarrow>
         if length de \<noteq> 16 then udone () w
         else if de ! 0 = 0 \<and> de ! 1 = 0 then ls_dir y path fd w
         else let buf = path @ [47] @ takeWhile (\<lambda>c. c \<noteq> 0) (drop 2 de) in
              ubnd (ustat y buf w) (\<lambda>st w.
              useq (case st of
                      None \<Rightarrow> uprintf y (nl ''ls: cannot stat %s'') [PStr (Some buf)] w
                    | Some st \<Rightarrow> uprintf y (nl ''%s %d %d %d'')
                        [PStr (Some (fmtname buf)), PInt (sint16 (st_type st)), PInt (st_ino st), PInt (ucast (st_size st))] w) (\<lambda>w.
              ls_dir y path fd w)))"

definition ls :: "'w usys \<Rightarrow> byte list \<Rightarrow> 'w \<Rightarrow> ('w, unit) urun" where
  "ls y path w =
     ubnd (ucall (y_open y path 0) w) (\<lambda>fd w.
     if fd < 0 then fprintf y 2 (nl ''ls: cannot open %s'') [PStr (Some path)] w
     else ubnd (ucall (y_fstat y fd) w) (\<lambda>st w.
     case st of
       None \<Rightarrow> useq (fprintf y 2 (nl ''ls: cannot stat %s'') [PStr (Some path)] w) (\<lambda>w.
               useq (ucall (y_close y fd) w) (udone ()))
     | Some st \<Rightarrow>
         useq (if st_type st = T_DEVICE \<or> st_type st = T_FILE
               then uprintf y (nl ''%s %d %d %l'')
                      [PStr (Some (fmtname path)), PInt (sint16 (st_type st)), PInt (st_ino st), PPtr (st_size st)] w
               else if st_type st = T_DIR then
                 (if length path + 1 + DIRSIZ + 1 > 512 then uprintf y (nl ''ls: path too long'') [] w
                  else ls_dir y path fd w)
               else udone () w) (\<lambda>w.
         useq (ucall (y_close y fd) w) (udone ()))))"

primrec ls_args :: "'w usys \<Rightarrow> byte list list \<Rightarrow> 'w \<Rightarrow> ('w, unit) urun" where
  "ls_args y [] w = uexit 0 w"
| "ls_args y (a # as) w = useq (ls y a w) (ls_args y as)"

definition ls_main :: "'w usys \<Rightarrow> byte list list \<Rightarrow> 'w \<Rightarrow> ('w, unit) urun" where
  "ls_main y argv w =
     (if length argv < 2 then useq (ls y (pbytes ''.'') w) (uexit 0) else ls_args y (tl argv) w)"

section \<open>user/init.c\<close>

text \<open>The loop of \<^verbatim>\<open>wait\<close>, until the shell has exited.\<close>

partial_function (option) init_wait :: "'w usys \<Rightarrow> int \<Rightarrow> 'w \<Rightarrow> ('w, unit) urun" where
  "init_wait y pid w =
     ubnd (ucall (y_wait y) w) (\<lambda>wpid w.
     if wpid = pid then udone () w
     else if wpid < 0 then useq (uprintf y (nl ''init: wait returned an error'') [] w) (uexit 1)
     else init_wait y pid w)"

partial_function (option) init_loop :: "'w usys \<Rightarrow> 'w \<Rightarrow> ('w, unit) urun" where
  "init_loop y w =
     useq (uprintf y (nl ''init: starting sh'') [] w) (\<lambda>w.
     ubnd (ucall (y_fork y) w) (\<lambda>pid w.
     if pid < 0 then useq (uprintf y (nl ''init: fork failed'') [] w) (uexit 1)
     else if pid = 0 then
       useq (uexec y (pbytes ''sh'') [pbytes ''sh''] w) (\<lambda>w.
       useq (uprintf y (nl ''init: exec sh failed'') [] w) (uexit 1))
     else useq (init_wait y pid w) (\<lambda>w. init_loop y w)))"

definition init_main :: "'w usys \<Rightarrow> 'w \<Rightarrow> ('w, unit) urun" where
  "init_main y w =
     ubnd (ucall (y_open y (pbytes ''console'') 2) w) (\<lambda>fd w.
     useq (if fd < 0 then useq (ucall (y_mknod y (pbytes ''console'') 1 0) w) (\<lambda>w.
                           ucall (y_open y (pbytes ''console'') 2) w)
           else udone fd w) (\<lambda>w.
     useq (ucall (y_dup y 0) w) (\<lambda>w.
     useq (ucall (y_dup y 0) w) (\<lambda>w.
     init_loop y w))))"

section \<open>user/stressfs.c and user/forktest.c\<close>

primrec stressfs_fork :: "'w usys \<Rightarrow> nat list \<Rightarrow> 'w \<Rightarrow> ('w, nat) urun" where
  "stressfs_fork y [] w = udone 4 w"
| "stressfs_fork y (i # is) w =
     ubnd (ucall (y_fork y) w) (\<lambda>pid w. if pid > 0 then udone i w else stressfs_fork y is w)"

primrec utimes :: "nat \<Rightarrow> ('w \<Rightarrow> ('w, 'a) urun) \<Rightarrow> 'w \<Rightarrow> ('w, unit) urun" where
  "utimes 0 f w = udone () w"
| "utimes (Suc n) f w = useq (f w) (utimes n f)"

definition stressfs_main :: "'w usys \<Rightarrow> 'w \<Rightarrow> ('w, unit) urun" where
  "stressfs_main y w =
     useq (uprintf y (nl ''stressfs starting'') [] w) (\<lambda>w.
     ubnd (stressfs_fork y [0, 1, 2, 3] w) (\<lambda>i w.
     useq (uprintf y (nl ''write %d'') [PInt (of_nat i)] w) (\<lambda>w.
     let path = pbytes ''stressfs'' @ [48 + of_nat i] in
     ubnd (ucall (y_open y path 0x202) w) (\<lambda>fd w.
     useq (utimes 20 (ucall (y_write y fd (replicate 512 97))) w) (\<lambda>w.
     useq (ucall (y_close y fd) w) (\<lambda>w.
     useq (uprintf y (nl ''read'') [] w) (\<lambda>w.
     ubnd (ucall (y_open y path 0) w) (\<lambda>fd w.
     useq (utimes 20 (ucall (y_read y fd 512)) w) (\<lambda>w.
     useq (ucall (y_close y fd) w) (\<lambda>w.
     useq (ucall (y_wait y) w) (uexit 0)))))))))))"

definition print_str :: "'w usys \<Rightarrow> byte list \<Rightarrow> 'w \<Rightarrow> ('w, unit) urun" where
  "print_str y s w = useq (ucall (y_write y 1 s) w) (udone ())"

text \<open>\<open>k\<close> forks are still to be tried; the value is the number that succeeded.\<close>

primrec forktest_fork :: "'w usys \<Rightarrow> nat \<Rightarrow> nat \<Rightarrow> 'w \<Rightarrow> ('w, nat) urun" where
  "forktest_fork y 0 n w = udone n w"
| "forktest_fork y (Suc k) n w =
     ubnd (ucall (y_fork y) w) (\<lambda>pid w.
     if pid < 0 then udone n w else if pid = 0 then uexit 0 w else forktest_fork y k (n + 1) w)"

primrec forktest_wait :: "'w usys \<Rightarrow> nat \<Rightarrow> 'w \<Rightarrow> ('w, unit) urun" where
  "forktest_wait y 0 w = udone () w"
| "forktest_wait y (Suc n) w =
     ubnd (ucall (y_wait y) w) (\<lambda>r w.
     if r < 0 then useq (print_str y (pbytes (nl ''wait stopped early'')) w) (uexit 1)
     else forktest_wait y n w)"

definition forktest :: "'w usys \<Rightarrow> 'w \<Rightarrow> ('w, unit) urun" where
  "forktest y w =
     useq (print_str y (pbytes (nl ''fork test'')) w) (\<lambda>w.
     ubnd (forktest_fork y 1000 0 w) (\<lambda>n w.
     if n = 1000 then useq (print_str y (pbytes (nl ''fork claimed to work N times!'')) w) (uexit 1)
     else useq (forktest_wait y n w) (\<lambda>w.
     ubnd (ucall (y_wait y) w) (\<lambda>r w.
     if r \<noteq> -1 then useq (print_str y (pbytes (nl ''wait got too many'')) w) (uexit 1)
     else print_str y (pbytes (nl ''fork test OK'')) w))))"

definition forktest_main :: "'w usys \<Rightarrow> 'w \<Rightarrow> ('w, unit) urun" where
  "forktest_main y w = useq (forktest y w) (uexit 0)"

section \<open>user/grind.c: random numbers\<close>

text \<open>
  The variables of type \<^verbatim>\<open>long\<close> are signed numbers of \<open>w\<close> bits. A result that does not fit is undefined in C: it is \<open>None\<close>.
  On this machine \<open>w\<close> is 64.
\<close>

definition fits :: "nat \<Rightarrow> int \<Rightarrow> int option" where
  "fits w x = (if - (2 ^ (w - 1)) \<le> x \<and> x < 2 ^ (w - 1) then Some x else None)"

definition do_rand_long :: "nat \<Rightarrow> uint64 \<Rightarrow> (uint64 \<times> int) option" where
  "do_rand_long w ctx =
     do {
       x \<leftarrow> fits w (uint (ctx mod 0x7ffffffe + 1));
       hi \<leftarrow> fits w (x div 127773);
       lo \<leftarrow> fits w (x mod 127773);
       a \<leftarrow> fits w (16807 * lo);
       b \<leftarrow> fits w (2836 * hi);
       x \<leftarrow> fits w (a - b);
       x \<leftarrow> (if x < 0 then fits w (x + 0x7fffffff) else Some x);
       x \<leftarrow> fits w (x - 1);
       Some (word_of_int x, sint (word_of_int x :: uint))
     }"

definition do_rand :: "uint64 \<Rightarrow> (uint64 \<times> int) option" where
  "do_rand ctx = do_rand_long 64 ctx"

section \<open>The language of a grep pattern\<close>

datatype ritem = RLit byte | RAny | RStar byte | RStarAny

definition rone :: "byte \<Rightarrow> ritem" where "rone c = (if c = 46 then RAny else RLit c)"
definition rstar :: "byte \<Rightarrow> ritem" where "rstar c = (if c = 46 then RStarAny else RStar c)"

text \<open>The items of a pattern after \<open>^\<close>, and whether it ends with \<open>$\<close>.\<close>

fun ritems :: "byte list \<Rightarrow> ritem list \<times> bool" where
  "ritems [] = ([], False)"
| "ritems [c] = (if c = 36 then ([], True) else ([rone c], False))"
| "ritems (c # d # re) =
     (if d = 42 then (case ritems re of (is, a) \<Rightarrow> (rstar c # is, a))
      else (case ritems (d # re) of (is, a) \<Rightarrow> (rone c # is, a)))"

primrec rlang1 :: "ritem \<Rightarrow> byte list set" where
  "rlang1 (RLit c) = {[c]}"
| "rlang1 RAny = {[c] | c. True}"
| "rlang1 (RStar c) = {replicate k c | k. True}"
| "rlang1 RStarAny = UNIV"

primrec rlang :: "ritem list \<Rightarrow> byte list set" where
  "rlang [] = {[]}"
| "rlang (i # is) = {u @ v | u v. u \<in> rlang1 i \<and> v \<in> rlang is}"

definition rprefix :: "byte list \<Rightarrow> byte list \<Rightarrow> bool" where
  "rprefix re tx \<longleftrightarrow> (\<exists>u v. tx = u @ v \<and> u \<in> rlang (fst (ritems re)) \<and> (snd (ritems re) \<longrightarrow> v = []))"

lemma matchstar_iff:
  "matchstar c re tx \<longleftrightarrow> (\<exists>p s. tx = p @ s \<and> (\<forall>x \<in> set p. x = c \<or> c = 46) \<and> matchhere re s)"
proof (induction tx)
  case Nil
  then show ?case by (subst matchstar.simps) auto
next
  case (Cons t tx)
  have "(\<exists>p s. t # tx = p @ s \<and> (\<forall>x \<in> set p. x = c \<or> c = 46) \<and> matchhere re s) \<longleftrightarrow>
    matchhere re (t # tx) \<or> (t = c \<or> c = 46) \<and> (\<exists>p s. tx = p @ s \<and> (\<forall>x \<in> set p. x = c \<or> c = 46) \<and> matchhere re s)"
    (is "?l \<longleftrightarrow> ?r")
  proof
    assume ?l
    then obtain p s where "t # tx = p @ s" "\<forall>x \<in> set p. x = c \<or> c = 46" "matchhere re s" by blast
    then show ?r by (cases p) auto
  next
    assume ?r
    then show ?l by (metis (no_types, lifting) append_Cons append_Nil empty_iff list.set(1) set_ConsD)
  qed
  then show ?case using Cons by (subst matchstar.simps) auto
qed

lemma rstar_set: "(\<forall>x \<in> set p. x = c \<or> c = 46) \<longleftrightarrow> p \<in> rlang1 (rstar c)"
  by (auto simp: rstar_def dest: replicate_eqI [of p "length p" c, symmetric]) (metis replicate_eqI)

lemma split_assoc:
  "(\<exists>p s. tx = p @ s \<and> P p \<and> (\<exists>u v. s = u @ v \<and> Q u \<and> R v)) \<longleftrightarrow> (\<exists>u v. tx = u @ v \<and> (\<exists>p q. u = p @ q \<and> P p \<and> Q q) \<and> R v)"
  (is "?l \<longleftrightarrow> ?r")
proof
  assume ?l
  then obtain p u v where "tx = p @ u @ v" "P p" "Q u" "R v" by blast
  then have "tx = (p @ u) @ v \<and> (\<exists>p' q. p @ u = p' @ q \<and> P p' \<and> Q q) \<and> R v" by auto
  then show ?r by blast
next
  assume ?r
  then show ?l by force
qed

lemma rone_split:
  "(\<exists>p s. tx = p @ s \<and> p \<in> rlang1 (rone c) \<and> P s) \<longleftrightarrow> (\<exists>t s. tx = t # s \<and> (c = 46 \<or> c = t) \<and> P s)" (is "?l \<longleftrightarrow> ?r")
proof
  assume ?l
  then show ?r by (auto simp: rone_def split: if_splits)
next
  assume ?r
  then obtain t s where "tx = [t] @ s" "[t] \<in> rlang1 (rone c)" "P s" by (auto simp: rone_def)
  then show ?l by blast
qed

lemma matchhere_rprefix: "matchhere re tx \<longleftrightarrow> rprefix re tx"
proof (induction re arbitrary: tx rule: ritems.induct)
  case 1
  then show ?case by (simp add: rprefix_def)
next
  case (2 c)
  have "(\<exists>u v. t # l = u @ v \<and> (\<exists>c. u = [c])) \<longleftrightarrow> True" for t :: byte and l by (metis append_Cons append_Nil)
  then show ?case by (cases tx) (auto simp: rprefix_def rone_def)
next
  case (3 c d re)
  show ?case
  proof (cases "d = 42")
    case True
    obtain "is" a where i: "ritems re = (is, a)" by fastforce
    have "matchhere (c # d # re) tx \<longleftrightarrow> (\<exists>p s. tx = p @ s \<and> p \<in> rlang1 (rstar c) \<and> rprefix re s)"
      using True 3(1) [OF True] by (simp add: matchstar_iff [unfolded rstar_set])
    also have "\<dots> \<longleftrightarrow> rprefix (c # d # re) tx"
      using True i by (simp add: rprefix_def split_assoc)
    finally show ?thesis .
  next
    case False
    obtain "is" a where i: "ritems (d # re) = (is, a)" by fastforce
    have "matchhere (c # d # re) tx \<longleftrightarrow> (\<exists>p s. tx = p @ s \<and> p \<in> rlang1 (rone c) \<and> rprefix (d # re) s)"
      unfolding rone_split using False 3(2) [OF False] by (cases tx) auto
    also have "\<dots> \<longleftrightarrow> rprefix (c # d # re) tx"
      using False i by (simp add: rprefix_def split_assoc)
    finally show ?thesis .
  qed
qed

text \<open>
  C26. \<^verbatim>\<open>match\<close> of \<^verbatim>\<open>grep\<close>, which backtracks over the text, decides the language of the pattern: with a
  leading \<open>^\<close>, whether a prefix of the text is in the language of the rest; otherwise, whether some
  part of it is; and a closing \<open>$\<close> asks that this part reaches the end of the text. A dot is any
  byte, and a star repeats the character before it any number of times.
\<close>

theorem grep_match_language:
  "match re tx \<longleftrightarrow> (if re \<noteq> [] \<and> hd re = 94 then rprefix (tl re) tx else (\<exists>p s. tx = p @ s \<and> rprefix re s))"
proof -
  have "match_from re tx \<longleftrightarrow> (\<exists>p s. tx = p @ s \<and> matchhere re s)"
  proof (induction tx)
    case (Cons t tx)
    then show ?case by (auto simp: Cons_eq_append_conv)
  qed simp
  then show ?thesis by (auto simp: match_def matchhere_rprefix)
qed

section \<open>Other programs\<close>

text \<open>
  The random numbers of \<^verbatim>\<open>grind\<close> are those of Park and Miller: with \<open>x\<close> the seed brought into range, one step
  computes \<open>7^5 x mod (2^31 - 1)\<close>. As the comment in the code promises, no intermediate value needs more than 31 bits
  and a sign, so the same holds for every width of \<^verbatim>\<open>long\<close> from 32 on, and the value returned fits \<^verbatim>\<open>int\<close>.
\<close>

lemma fits_ok: "32 \<le> w \<Longrightarrow> - (2 ^ 31) \<le> x \<Longrightarrow> x < 2 ^ 31 \<Longrightarrow> fits w x = Some x"
proof -
  assume w: "32 \<le> w" and x: "- (2 ^ 31) \<le> x" "x < 2 ^ 31"
  have "(2 :: int) ^ 31 \<le> 2 ^ (w - 1)" using w by (intro power_increasing) simp_all
  then have "- (2 ^ (w - 1)) \<le> x" "x < 2 ^ (w - 1)" using x by linarith+
  then show ?thesis by (simp add: fits_def)
qed

theorem do_rand_park_miller:
  assumes "32 \<le> w"
  shows "\<exists>r. do_rand_long w ctx = Some (word_of_int r, r) \<and> 0 \<le> r \<and> r \<le> 0x7ffffffd
    \<and> r + 1 = (7 ^ 5 * (uint ctx mod 0x7ffffffe + 1)) mod (2 ^ 31 - 1)"
proof -
  define x where "x = uint ctx mod 0x7ffffffe + 1"
  define hi where "hi = x div 127773"
  define lo where "lo = x mod 127773"
  define z where "z = 16807 * lo - 2836 * hi"
  define r where "r = (if z < 0 then z + 0x7fffffff else z)"
  have x: "1 \<le> x" "x \<le> 0x7ffffffe" by (simp_all add: x_def zless_imp_add1_zle)
  have xe: "x = 127773 * hi + lo" by (simp add: hi_def lo_def)
  have lo: "0 \<le> lo" "lo < 127773" and hi: "0 \<le> hi" "hi \<le> 16807" using x by (auto simp: lo_def hi_def)
  have "16807 * x = 0x7fffffff * hi + z" unfolding z_def xe by simp
  then have c: "16807 * x mod 0x7fffffff = z mod 0x7fffffff" by simp
  have zr: "- 0x7fffffff < z" "z < 0x7fffffff" using lo hi unfolding z_def by linarith+
  have zn: "z \<noteq> 0"
  proof
    assume "z = 0"
    then have e: "16807 * lo = 2836 * hi" by (simp add: z_def)
    have "coprime (16807 :: int) 2836" by code_simp
    moreover have "16807 dvd 2836 * hi" using e by (metis dvd_triv_left)
    ultimately have "16807 dvd hi" by (simp add: coprime_dvd_mult_right_iff)
    then obtain k where k: "hi = 16807 * k" by (elim dvdE)
    then have "x = 2147483647 * k" using e xe by simp
    then show False using x by (cases "k \<le> 0") linarith+
  qed
  have r: "1 \<le> r" "r \<le> 0x7ffffffe" using zr zn by (auto simp: r_def)
  have rz: "r = z mod 0x7fffffff"
  proof (cases "z < 0")
    case True
    then have "(z + 0x7fffffff) mod 0x7fffffff = z + 0x7fffffff" using zr by (intro mod_pos_pos_trivial) auto
    then show ?thesis using True by (simp add: r_def)
  qed (use zr in \<open>simp add: r_def\<close>)
  have ux: "uint (ctx mod 0x7ffffffe + 1) = x"
  proof -
    have "uint (ctx mod 0x7ffffffe) = uint ctx mod 0x7ffffffe" by (simp add: uint_mod)
    then show ?thesis using x by (simp add: uint_word_ariths x_def)
  qed
  note f = fits_ok [OF assms]
  have "do_rand_long w ctx = Some (word_of_int (r - 1), sint (word_of_int (r - 1) :: uint))"
    unfolding do_rand_long_def ux using f [of x] f [of hi] f [of lo] f [of "16807 * lo"] f [of "2836 * hi"] f [of z] f [of "z + 0x7fffffff"] f [of "r - 1"] x lo hi zr r
    by (simp add: hi_def [symmetric] lo_def [symmetric] z_def [symmetric]) (simp add: r_def split: if_splits)
  moreover have "sint (word_of_int q :: uint) = q" if "0 \<le> q" "q < 2 ^ 31" for q
  proof -
    have "uint (word_of_int q :: uint) = q" using that by (intro uint_word_of_int_eq [THEN trans]) (simp add: take_bit_int_eq_self)
    then show ?thesis using that by (simp add: sint_uint signed_take_bit_int_eq_self)
  qed
  from this [of "r - 1"] have "sint (word_of_int (r - 1) :: uint) = r - 1" using r by (simp del: of_int_diff)
  moreover have "r = 7 ^ 5 * x mod (2 ^ 31 - 1)" using c rz by simp
  ultimately show ?thesis using r unfolding x_def [symmetric] by (intro exI [of _ "r - 1"]) simp
qed

text \<open>
  A file seen through successive reads of at most \<open>n\<close> bytes: \<open>cs\<close> is what they deliver, in pieces
  of any sizes, before the end of the file.
\<close>

inductive ureads :: "'w usys \<Rightarrow> int \<Rightarrow> nat \<Rightarrow> 'w \<Rightarrow> byte list \<Rightarrow> 'w \<Rightarrow> bool" where
  eof: "y_read y fd n w = (Some [], w') \<Longrightarrow> ureads y fd n w [] w'"
| more: "y_read y fd n w = (Some (b # bs), v) \<Longrightarrow> ureads y fd n v cs w' \<Longrightarrow> ureads y fd n w ((b # bs) @ cs) w'"

lemma wc_loop_reads: "ureads y fd n w cs w' \<Longrightarrow> n = 512 \<Longrightarrow> wc_loop y fd t w = udone (Some (fold wc_step cs t)) w'"
proof (induction arbitrary: t rule: ureads.induct)
  case (eof y fd n w w')
  then show ?case by (subst wc_loop.simps) (simp add: ucall_def)
next
  case (more y fd n w b bs v cs w')
  then show ?case by (subst wc_loop.simps) (simp add: ucall_def)
qed

text \<open>Lines, words and characters: a word begins at a character that is no blank after one that is.\<close>

fun count_words :: "bool \<Rightarrow> byte list \<Rightarrow> nat" where
  "count_words i [] = 0"
| "count_words i (b # bs) = (if \<not> wc_blank b \<and> \<not> i then 1 else 0) + count_words (\<not> wc_blank b) bs"

lemma wc_fold:
  "wc_l (fold wc_step cs t) = wc_l t + of_nat (length (filter (\<lambda>b. b = 10) cs))"
  "wc_w (fold wc_step cs t) = wc_w t + of_nat (count_words (wc_in t) cs)"
  "wc_c (fold wc_step cs t) = wc_c t + of_nat (length cs)"
  by (induction cs arbitrary: t) (auto simp: wc_step_def Let_def wc_blank_def)

lemma count_words_span:
  "count_words True cs = count_words False (dropWhile (\<lambda>b. \<not> wc_blank b) cs)"
  by (induction cs) auto

text \<open>The words of a text, separated by blanks.\<close>

function words_of :: "byte list \<Rightarrow> byte list list" where
  "words_of cs =
     (case dropWhile wc_blank cs of
        [] \<Rightarrow> []
      | c # cs' \<Rightarrow> (c # takeWhile (\<lambda>b. \<not> wc_blank b) cs') # words_of (dropWhile (\<lambda>b. \<not> wc_blank b) cs'))"
  by pat_completeness auto
termination
proof (relation "measure length")
  show "(dropWhile (\<lambda>b. \<not> wc_blank b) cs', cs) \<in> measure length" if "dropWhile wc_blank cs = c # cs'" for cs c cs'
  proof -
    have "length (dropWhile (\<lambda>b. \<not> wc_blank b) cs') \<le> length cs'" by (rule length_dropWhile_le)
    moreover have "length (c # cs') \<le> length cs" unfolding that [symmetric] by (rule length_dropWhile_le)
    ultimately show ?thesis by simp
  qed
qed simp

declare words_of.simps [simp del]

lemma count_words_of: "count_words False cs = length (words_of cs)"
proof (induction cs rule: words_of.induct)
  case (1 cs)
  have skip: "count_words False cs = count_words False (dropWhile wc_blank cs)"
    by (induction cs) auto
  show ?case
  proof (cases "dropWhile wc_blank cs")
    case Nil
    show ?thesis unfolding skip words_of.simps [of cs] Nil by simp
  next
    case (Cons c cs')
    then have "\<not> wc_blank c" by (metis hd_dropWhile list.discI list.sel(1))
    then show ?thesis using Cons 1 [OF Cons] count_words_span [of cs'] by (simp add: skip words_of.simps [of cs])
  qed
qed

text \<open>
  C25. \<^verbatim>\<open>wc\<close> counts independently of how the kernel cuts the file into reads: the loop returns, and its
  counters are, modulo \<open>2^32\<close>, the number of newlines, of blank-separated words and of bytes of the
  whole contents.
\<close>

theorem wc_counts:
  assumes "ureads y fd 512 w cs w'"
  shows "\<exists>t. wc_loop y fd \<lparr>wc_l = 0, wc_w = 0, wc_c = 0, wc_in = False\<rparr> w = udone (Some t) w'
    \<and> wc_l t = of_nat (length (filter (\<lambda>b. b = 10) cs)) \<and> wc_w t = of_nat (length (words_of cs)) \<and> wc_c t = of_nat (length cs)"
  using wc_loop_reads [OF assms refl] by (simp add: wc_fold count_words_of)

text \<open>The world of this example is the list of pieces that are still to be read.\<close>

definition piece_sys :: "byte list list usys" where
  "piece_sys = \<lparr>y_fork = Pair 0, y_wait = Pair 0, y_pipe = Pair None, y_write = (\<lambda>fd bs. Pair (int (length bs))),
     y_read = (\<lambda>fd n w. case w of [] \<Rightarrow> (Some [], []) | p # ps \<Rightarrow> (Some p, ps)), y_close = (\<lambda>_. Pair 0), y_kill = (\<lambda>_. Pair 0),
     y_exec = (\<lambda>_ _. Pair False), y_open = (\<lambda>_ _. Pair 3), y_mknod = (\<lambda>_ _ _. Pair 0), y_unlink = (\<lambda>_. Pair 0), y_fstat = (\<lambda>_. Pair None),
     y_link = (\<lambda>_ _. Pair 0), y_mkdir = (\<lambda>_. Pair 0), y_chdir = (\<lambda>_. Pair 0), y_dup = (\<lambda>_. Pair 0), y_sbrk = (\<lambda>_. Pair 0),
     y_sleep = (\<lambda>_. Pair 0), y_year = (\<lambda>_. Pair (0, (\<lambda>_. 0))), y_state = (\<lambda>_. Pair []), y_procname = (\<lambda>_. Pair [])\<rparr>"

theorem wc_counts_witness:
  "\<exists>t. wc_loop piece_sys 0 \<lparr>wc_l = 0, wc_w = 0, wc_c = 0, wc_in = False\<rparr> [[97, 98], [32, 99, 10]] = udone (Some t) []
    \<and> wc_l t = 1 \<and> wc_w t = 2 \<and> wc_c t = 5"
proof -
  have "ureads piece_sys 0 512 [[97, 98], [32, 99, 10]] ([97, 98] @ [32, 99, 10] @ []) []"
    by (simp del: append_Cons append_Nil append_Nil2 add: piece_sys_def ureads.more ureads.eof)
  from wc_counts [OF this] show ?thesis by (simp add: words_of.simps wc_blank_def)
qed

section \<open>The lines of ps\<close>

lemma zstr_Nil: "zstr [] = (\<lambda>_. 0)"
  by (simp add: zstr_def)

lemma zstr_Cons: "zstr (x # xs) 0 = x" "shift (zstr (x # xs)) = zstr xs"
  by (auto simp: zstr_def)

lemma zstr_pbytes: "str xs = zstr (pbytes xs)"
  by (auto simp: str_def zstr_def pbytes_def)

lemma strcmp_zstr:
  assumes "0 \<notin> set xs" and "0 \<notin> set ys"
  shows "\<exists>r. strcmp (zstr xs) (zstr ys) = Some r \<and> (r = 0 \<longleftrightarrow> xs = ys)"
  using assms
proof (induction xs arbitrary: ys)
  case Nil
  then show ?case by (subst strcmp.simps, cases ys) (auto simp: zstr_Nil zstr_Cons uint_0_iff)
next
  case (Cons x xs)
  show ?case
  proof (cases ys)
    case Nil
    then show ?thesis using Cons.prems by (subst strcmp.simps) (auto simp: zstr_Nil zstr_Cons uint_0_iff)
  next
    case (Cons y zs)
    have "\<exists>r. strcmp (zstr xs) (zstr zs) = Some r \<and> (r = 0 \<longleftrightarrow> xs = zs)" using Cons.prems Cons.IH Cons by simp
    then show ?thesis using Cons Cons.prems by (subst strcmp.simps) (auto simp: zstr_Cons dest: unsigned_word_eqI)
  qed
qed

text \<open>The number of a state in \<^verbatim>\<open>enum procstate\<close>.\<close>

definition state_num :: "procstate \<Rightarrow> nat" where
  "state_num st = (case st of UNUSED \<Rightarrow> 0 | USED \<Rightarrow> 1 | SLEEPING \<Rightarrow> 2 | RUNNABLE \<Rightarrow> 3 | RUNNING \<Rightarrow> 4 | ZOMBIE \<Rightarrow> 5)"

lemma state_string: "string_state_to_int (zstr (pbytes (procstate2str st))) = Some (int (state_num st))"
proof -
  have c: "Option.bind (strcmp (str xs) (str ys)) (\<lambda>r. if r = 0 then a else b) = (if pbytes xs = pbytes ys then a else b)"
    if "0 \<notin> set (pbytes xs)" "0 \<notin> set (pbytes ys)" for xs ys and a b :: "int option"
    using strcmp_zstr [OF that] unfolding zstr_pbytes by (auto split: if_splits)
  show ?thesis unfolding zstr_pbytes [symmetric]
    by (cases st) (simp_all add: string_state_to_int_def procstate2str_def state_num_def c pbytes_def)
qed

text \<open>A number in decimal.\<close>

fun decimal :: "nat \<Rightarrow> byte list" where
  "decimal n = (if n < 10 then [] else decimal (n div 10)) @ [48 + of_nat (n mod 10)]"

declare decimal.simps [simp del]

lemma udigits_dec: "d < 10 \<Longrightarrow> udigits d = 48 + of_nat d"
proof -
  assume "d < 10"
  then have "d \<in> {0, 1, 2, 3, 4, 5, 6, 7, 8, 9}" by auto
  then show ?thesis by (auto simp: udigits_def)
qed

lemma uprintint_decimal: "rev (uprintint_buf n 10) = decimal n"
  by (induction n rule: decimal.induct) (subst uprintint_buf.simps, subst decimal.simps, simp add: udigits_dec div_eq_0_iff)

lemma uprintint_pos: "n < 2 ^ 31 \<Longrightarrow> uprintint y fd (word_of_int (int n)) 10 True w = putcs y fd (decimal n) w"
proof -
  assume n: "n < 2 ^ 31"
  have u: "unat (word_of_nat n :: uint) = n" using n by (intro unat_of_nat32) simp
  have "uint (word_of_nat n :: uint) = int n" using u by (metis uint_nat)
  then have "sint (word_of_nat n :: uint) = int n" using n by (simp add: sint_uint signed_take_bit_int_eq_self)
  then show ?thesis by (simp add: uprintint_def u uprintint_decimal Let_def)
qed

lemma ubnd_assoc: "ubnd (ubnd m f) g = ubnd m (\<lambda>a w. ubnd (f a w) g)"
  by (cases m) (auto simp: ubnd_def split: ures.splits)

lemma putcs_append: "putcs y fd (as @ bs) w = useq (putcs y fd as w) (putcs y fd bs)"
proof (induction as arbitrary: w)
  case (Cons a as)
  have "putcs y fd (as @ bs) = (\<lambda>w. useq (putcs y fd as w) (putcs y fd bs))" by (rule ext) (rule Cons.IH)
  then show ?case by (simp add: ubnd_assoc)
qed simp

lemma vprintf_plain: "37 \<notin> set cs \<Longrightarrow> vprintf y fd False cs [] = putcs y fd cs"
proof (induction cs)
  case (Cons c cs)
  then show ?case by (intro ext) simp
qed (intro ext, simp)

text \<open>The line for a process: its name, its id in parentheses and the number of its state.\<close>

definition ps_line :: "byte list \<Rightarrow> nat \<Rightarrow> procstate \<Rightarrow> byte list" where
  "ps_line nm n st = nm @ pbytes '' ('' @ decimal n @ pbytes ''): '' @ decimal (state_num st) @ [10]"

lemma ps_turn:
  assumes "malloc y 16 h w = udone (h1, a) w1" and "a \<noteq> 0" and "malloc y 16 h1 w1 = udone (h2, b) w2" and "b \<noteq> 0"
    and "y_state y (int n) w2 = (pbytes (procstate2str st), w3)" and "y_procname y (int n) w3 = (nm, w4)" and "n < 2 ^ 31"
  shows "ps_loop y (int n # ps) h w = useq (putcs y 1 (ps_line nm n st) w4) (ps_loop y ps h2)"
proof -
  have "state_num st < 2 ^ 31" by (simp add: state_num_def split: procstate.split)
  note d = uprintint_pos [OF this, where y = y and fd = 1] uprintint_pos [OF assms(7), where y = y and fd = 1]
  have p: "uprintf y ''%s '' [PStr (Some nm)] v = putcs y 1 (nm @ [32]) v"
    "uprintf y ''(%d):'' [PInt (word_of_int (int n))] v = putcs y 1 ([40] @ decimal n @ [41, 58]) v"
    "uprintf y (nl '' %d'') [PInt (word_of_int (int (state_num st)))] v = putcs y 1 ([32] @ decimal (state_num st) @ [10]) v" for v
    using d by (simp_all add: uprintf_def pbytes_def nl_def putcs_append putc_def ubnd_assoc vprintf_plain del: of_int_of_nat_eq)
  have l: "ps_line nm n st = (nm @ [32]) @ ([40] @ decimal n @ [41, 58]) @ ([32] @ decimal (state_num st) @ [10])" by (simp add: ps_line_def pbytes_def)
  show ?thesis unfolding l using assms(1-6) by (simp only: ps_loop.simps) (simp add: ucall_def state_string p putcs_append ubnd_assoc del: of_int_of_nat_eq)
qed

text \<open>The kernel answers for the processes \<open>xs\<close>, triples of a name, an id and a state, without changing what the program sees.\<close>

definition answers :: "'w usys \<Rightarrow> (byte list \<times> nat \<times> procstate) list \<Rightarrow> bool" where
  "answers y xs \<longleftrightarrow> (\<forall>(nm, n, st) \<in> set xs. n < 2 ^ 31
     \<and> (\<forall>w. y_state y (int n) w = (pbytes (procstate2str st), w) \<and> y_procname y (int n) w = (nm, w)))"

abbreviation ps_text :: "(byte list \<times> nat \<times> procstate) list \<Rightarrow> byte list" where
  "ps_text xs \<equiv> concat (map (\<lambda>(nm, n, st). ps_line nm n st) xs)"

lemma nunits_16: "unat (nunits 16) = 2"
  by (simp add: unat_nunits)

lemma ps_loop_room: "room h (4 * length xs) \<Longrightarrow> answers y xs \<Longrightarrow>
  ps_loop y (map (\<lambda>(nm, n, st). int n) xs) h w = useq (putcs y 1 (ps_text xs) w) (uexit 0)"
proof (induction xs arbitrary: h w)
  case (Cons x xs)
  obtain nm n st where x: "x = (nm, n, st)" by (cases x)
  have a: "n < 2 ^ 31" "\<And>w. y_state y (int n) w = (pbytes (procstate2str st), w)" "\<And>w. y_procname y (int n) w = (nm, w)" "answers y xs"
    using Cons.prems(2) by (auto simp: answers_def x)
  obtain h1 q1 where m1: "malloc y 16 h w = udone (h1, q1) w" "q1 \<noteq> 0" "room h1 (4 * length (x # xs) - 2)"
    using malloc_room [OF Cons.prems(1), of 16 y w] by (auto simp: nunits_16)
  obtain h2 q2 where m2: "malloc y 16 h1 w = udone (h2, q2) w" "q2 \<noteq> 0" "room h2 (4 * length (x # xs) - 2 - 2)"
    using malloc_room [OF m1(3), of 16 y w] by (auto simp: nunits_16)
  have "room h2 (4 * length xs)" by (rule room_mono [OF m2(3)]) simp
  then have "ps_loop y (map (\<lambda>(nm, n, st). int n) xs) h2 = (\<lambda>w. useq (putcs y 1 (ps_text xs) w) (uexit 0))" using Cons.IH a(4) by blast
  then show ?case using ps_turn [OF m1(1,2) m2(1,2) a(2,3,1)] by (simp add: x putcs_append ubnd_assoc)
qed simp

text \<open>
  C36. \<^verbatim>\<open>ps\<close> prints the table of processes. When \<^verbatim>\<open>year\<close> returns the ids of at most 100 processes and the kernel answers each
  with its name and the name of its state, the program, started with an empty heap that \<^verbatim>\<open>sbrk\<close> can extend, ends with
  status 0 after it has written exactly one line for each process, in the order of the ids: the name, the id in parentheses and the
  number of the state, in decimal.
\<close>

theorem ps_prints:
  assumes "y_year y 100 w = ((int (length xs), pids), w1)" and "map pids [0..<length xs] = map (\<lambda>(nm, n, st). int n) xs" and "length xs \<le> 100"
    and "answers y xs" and "uinv (hinit h) F A (brk w1)" and "sbrk_grows y brk" and "\<And>x. x \<in> F \<Longrightarrow> s_size (hinit h) x = 0"
    and "fst (y_sbrk y 65536 w1) \<noteq> - 1"
  shows "ps_main y h w = useq (putcs y 1 (ps_text xs) (if xs = [] then w1 else snd (y_sbrk y 65536 w1))) (uexit 0)"
proof (cases xs)
  case Nil
  then show ?thesis using assms(1) by (simp add: ps_main_def ucall_def)
next
  case (Cons x ys)
  obtain nm n st where x: "x = (nm, n, st)" by (cases x)
  have a: "n < 2 ^ 31" "\<And>w. y_state y (int n) w = (pbytes (procstate2str st), w)" "\<And>w. y_procname y (int n) w = (nm, w)" "answers y ys"
    using assms(4) by (auto simp: answers_def x Cons)
  obtain h1 q1 w2 where m1: "malloc y 16 h w1 = udone (h1, q1) w2" "q1 \<noteq> 0" "room h1 4094" "w2 = snd (y_sbrk y 65536 w1)"
    using malloc_first [OF assms(5-8), of 16] by (auto simp: nunits_16)
  obtain h2 q2 where m2: "malloc y 16 h1 w2 = udone (h2, q2) w2" "q2 \<noteq> 0" "room h2 4092"
    using malloc_room [OF m1(3), of 16 y w2] by (auto simp: nunits_16)
  have "room h2 (4 * length ys)" using assms(3) Cons by (intro room_mono [OF m2(3)]) simp
  then have l: "ps_loop y (map (\<lambda>(nm, n, st). int n) ys) h2 = (\<lambda>w. useq (putcs y 1 (ps_text ys) w) (uexit 0))" using a(4) by (intro ext ps_loop_room)
  have "ps_main y h w = ps_loop y (map (\<lambda>(nm, n, st). int n) xs) h w1" using assms(1,2) by (simp add: ps_main_def ucall_def)
  also have "\<dots> = useq (putcs y 1 (ps_text xs) w2) (uexit 0)" using ps_turn [OF m1(1,2) m2(1,2) a(2,3,1)] l by (simp add: Cons x putcs_append ubnd_assoc)
  finally show ?thesis using m1(4) by (simp add: Cons)
qed

text \<open>A kernel with two processes; its world is the program break and what was written.\<close>

definition ps_sys :: "(nat \<times> byte list) usys" where
  "ps_sys = (sbrk_sys (\<lambda>n w. if 0 < n \<and> fst w + nat n \<le> 2 ^ 36 then (of_nat (fst w), (fst w + nat n, snd w)) else (- 1, w)))
     \<lparr>y_write := (\<lambda>fd bs w. (int (length bs), (fst w, snd w @ bs))), y_year := (\<lambda>_. Pair (2, (\<lambda>i. if i = 0 then 1 else 17))),
      y_state := (\<lambda>p. Pair (pbytes (procstate2str (if p = 1 then SLEEPING else RUNNING)))),
      y_procname := (\<lambda>p. Pair (pbytes (if p = 1 then ''init'' else ''ps'')))\<rparr>"

lemma ps_sys_putcs: "putcs ps_sys fd cs w = udone () (fst w, snd w @ cs)"
  by (induction cs arbitrary: w) (simp_all add: putc_def ucall_def ps_sys_def)

theorem ps_prints_witness:
  "ps_main ps_sys new_heap (8192, []) = uexit 0 (73728, pbytes (''init (1): 2'' @ [CHR 0x0A] @ ''ps (17): 4'' @ [CHR 0x0A]))"
proof -
  let ?xs = "[(pbytes ''init'', 1 :: nat, SLEEPING), (pbytes ''ps'', 17, RUNNING)]"
  have b: "unat (of_nat w :: uint64) = w" "(of_nat w :: uint64) \<noteq> - 1" if "w \<le> 2 ^ 36" for w by (rule brk_addr [OF that])+
  have g: "sbrk_grows ps_sys fst" using b by (auto simp: sbrk_grows_def ps_sys_def sbrk_sys_def split: if_splits)
  have y: "y_year ps_sys 100 (8192, []) = ((int (length ?xs), (\<lambda>i. if i = 0 then 1 else 17)), (8192, []))" "answers ps_sys ?xs"
    by (simp_all add: ps_sys_def answers_def)
  have s: "y_sbrk ps_sys 65536 (8192, []) = (8192, (73728, []))" by (simp add: ps_sys_def sbrk_sys_def)
  have "ps_main ps_sys new_heap (8192, []) = useq (putcs ps_sys 1 (ps_text ?xs) (if ?xs = [] then (8192, []) else snd (y_sbrk ps_sys 65536 (8192, [])))) (uexit 0)"
    by (rule ps_prints [OF y(1) _ _ y(2) _ g]) (use new_heap_uinv s in \<open>simp_all add: hinit_def new_heap_def set_hdr\<close>)
  then show ?thesis by (simp add: s ps_sys_putcs ps_line_def decimal.simps state_num_def pbytes_def del: putcs.simps)
qed

end
