(* ===== verification/Xv6_Sh.thy ===== *)
theory Xv6_Sh
  imports Xv6_Umalloc
begin

text \<open>
  The shell, \<^verbatim>\<open>user/sh.c\<close>. The line is a byte buffer and pointers into it are positions. A command node
  has the constructor of its type field; \<^verbatim>\<open>argv\<close> and \<^verbatim>\<open>eargv\<close> are one list of pairs, \<^verbatim>\<open>file\<close> and \<^verbatim>\<open>efile\<close>
  one pair. Every node is taken from \<^verbatim>\<open>malloc\<close>, whose result is used without a test: a null pointer
  is a fault. The functions of the parser call each other through a bound on the depth of the calls and
  the length of the loops, with \<open>None\<close> when it is used up; \<^verbatim>\<open>parsecmd\<close> takes a bound that suffices for
  every line, which is proved.
\<close>

section \<open>Commands\<close>

datatype 'f cmd = EXEC "'f list" | REDIR "'f cmd" 'f int int | PIPE "'f cmd" "'f cmd" | LIST "'f cmd" "'f cmd" | BACK "'f cmd"

type_synonym pcmd = "(nat \<times> nat) cmd"

definition MAXARGS :: nat where "MAXARGS = 10"

definition sh_panic :: "'w usys \<Rightarrow> string \<Rightarrow> 'w \<Rightarrow> ('w, 'a) urun" where
  "sh_panic y s w = useq (fprintf y 2 (nl ''%s'') [PStr (Some (pbytes s))] w) (uexit 1)"

definition fork1 :: "'w usys \<Rightarrow> 'w \<Rightarrow> ('w, int) urun" where
  "fork1 y w = ubnd (ucall (y_fork y) w) (\<lambda>pid w. if pid = -1 then sh_panic y ''fork'' w else udone pid w)"

text \<open>The constructors: \<^verbatim>\<open>malloc\<close> of the size of the struct, cleared and filled in.\<close>

definition node :: "'w usys \<Rightarrow> uint \<Rightarrow> 'c \<Rightarrow> uheap \<Rightarrow> 'w \<Rightarrow> ('w, uheap \<times> 'c) urun" where
  "node y sz c h w = ubnd (malloc y sz h w) (\<lambda>(h, p) w. if p = 0 then Some UFault else udone (h, c) w)"

definition execcmd :: "'w usys \<Rightarrow> uheap \<Rightarrow> 'w \<Rightarrow> ('w, uheap \<times> pcmd) urun" where
  "execcmd y h w = node y 168 (EXEC []) h w"

definition redircmd :: "'w usys \<Rightarrow> pcmd \<Rightarrow> nat \<times> nat \<Rightarrow> int \<Rightarrow> int \<Rightarrow> uheap \<Rightarrow> 'w \<Rightarrow> ('w, uheap \<times> pcmd) urun" where
  "redircmd y subcmd f mode fd h w = node y 40 (REDIR subcmd f mode fd) h w"

definition pipecmd :: "'w usys \<Rightarrow> pcmd \<Rightarrow> pcmd \<Rightarrow> uheap \<Rightarrow> 'w \<Rightarrow> ('w, uheap \<times> pcmd) urun" where
  "pipecmd y left right h w = node y 24 (PIPE left right) h w"

definition listcmd :: "'w usys \<Rightarrow> pcmd \<Rightarrow> pcmd \<Rightarrow> uheap \<Rightarrow> 'w \<Rightarrow> ('w, uheap \<times> pcmd) urun" where
  "listcmd y left right h w = node y 24 (LIST left right) h w"

definition backcmd :: "'w usys \<Rightarrow> pcmd \<Rightarrow> uheap \<Rightarrow> 'w \<Rightarrow> ('w, uheap \<times> pcmd) urun" where
  "backcmd y subcmd h w = node y 16 (BACK subcmd) h w"

section \<open>Tokens\<close>

definition whitespace :: "byte \<Rightarrow> bool" where
  "whitespace c \<longleftrightarrow> c \<in> {32, 9, 13, 10, 11}"

definition symbols :: "byte \<Rightarrow> bool" where
  "symbols c \<longleftrightarrow> c \<in> {60, 124, 62, 38, 59, 40, 41}"

function skip_ws :: "bytes \<Rightarrow> nat \<Rightarrow> nat \<Rightarrow> nat" where
  "skip_ws buf es s = (if s < es then if whitespace (buf s) then skip_ws buf es (s + 1) else s else s)"
  by pat_completeness auto
termination by (relation "measure (\<lambda>(buf, es, s). es - s)") auto

function word_end :: "bytes \<Rightarrow> nat \<Rightarrow> nat \<Rightarrow> nat" where
  "word_end buf es s = (if s < es then if \<not> whitespace (buf s) \<and> \<not> symbols (buf s) then word_end buf es (s + 1) else s else s)"
  by pat_completeness auto
termination by (relation "measure (\<lambda>(buf, es, s). es - s)") auto

declare skip_ws.simps [simp del] word_end.simps [simp del]

text \<open>The token's kind, where it starts and ends, and the position after the blanks that follow it.\<close>

definition gettoken :: "bytes \<Rightarrow> nat \<Rightarrow> nat \<Rightarrow> byte \<times> (nat \<times> nat) \<times> nat" where
  "gettoken buf es s =
     (let s = skip_ws buf es s;
          q = s;
          (ret, s) =
            (if buf s = 0 then (0, s)
             else if buf s \<in> {124, 40, 41, 59, 38, 60} then (buf s, s + 1)
             else if buf s = 62 then (if buf (s + 1) = 62 then (43, s + 2) else (62, s + 1))
             else (97, word_end buf es s));
          eq = s
      in (ret, (q, eq), skip_ws buf es s))"

definition peek :: "bytes \<Rightarrow> nat \<Rightarrow> nat \<Rightarrow> string \<Rightarrow> nat \<times> bool" where
  "peek buf es s toks = (let s = skip_ws buf es s in (s, buf s \<noteq> 0 \<and> buf s \<in> set (pbytes toks)))"

section \<open>Parsing\<close>

text \<open>What a function of the parser is given and gives: the heap, the position and the command.\<close>

type_synonym 'w parser = "nat \<Rightarrow> uheap \<Rightarrow> 'w \<Rightarrow> ('w, uheap \<times> nat \<times> pcmd) urun"

primrec parseredirs :: "nat \<Rightarrow> 'w usys \<Rightarrow> bytes \<Rightarrow> nat \<Rightarrow> pcmd \<Rightarrow> 'w parser" where
  "parseredirs 0 y buf es cmd s h w = None"
| "parseredirs (Suc k) y buf es cmd s h w =
     (let (s, more) = peek buf es s ''<>'' in
      if \<not> more then udone (h, s, cmd) w
      else
        let (tok, _, s) = gettoken buf es s;
            (t, f, s) = gettoken buf es s in
        if t \<noteq> 97 then sh_panic y ''missing file for redirection'' w
        else
          ubnd (if tok = 60 then redircmd y cmd f 0 0 h w
                else if tok = 62 then redircmd y cmd f 0x601 1 h w
                else if tok = 43 then redircmd y cmd f 0x201 1 h w
                else udone (h, cmd) w) (\<lambda>(h, cmd) w.
          parseredirs k y buf es cmd s h w))"

text \<open>\<^verbatim>\<open>parseexec\<close> stores the arguments in the \<^verbatim>\<open>execcmd\<close> at the core of the redirections made so far.\<close>

primrec add_arg :: "'f \<Rightarrow> 'f cmd \<Rightarrow> 'f cmd" where
  "add_arg a (EXEC argv) = EXEC (argv @ [a])"
| "add_arg a (REDIR cmd f mode fd) = REDIR (add_arg a cmd) f mode fd"
| "add_arg a (PIPE left right) = PIPE left right"
| "add_arg a (LIST left right) = LIST left right"
| "add_arg a (BACK cmd) = BACK cmd"

primrec parseargs :: "nat \<Rightarrow> 'w usys \<Rightarrow> bytes \<Rightarrow> nat \<Rightarrow> nat \<Rightarrow> pcmd \<Rightarrow> 'w parser" where
  "parseargs 0 y buf es argc ret s h w = None"
| "parseargs (Suc k) y buf es argc ret s h w =
     (let (s, stop) = peek buf es s ''|)&;'' in
      if stop then udone (h, s, ret) w
      else
        let (tok, a, s) = gettoken buf es s in
        if tok = 0 then udone (h, s, ret) w
        else if tok \<noteq> 97 then sh_panic y ''syntax'' w
        else if argc + 1 \<ge> MAXARGS then sh_panic y ''too many args'' w
        else ubnd (parseredirs k y buf es (add_arg a ret) s h w) (\<lambda>(h, s, ret) w.
             parseargs k y buf es (argc + 1) ret s h w))"

primrec parseback :: "nat \<Rightarrow> 'w usys \<Rightarrow> bytes \<Rightarrow> nat \<Rightarrow> pcmd \<Rightarrow> 'w parser" where
  "parseback 0 y buf es cmd s h w = None"
| "parseback (Suc k) y buf es cmd s h w =
     (let (s, more) = peek buf es s ''&'' in
      if \<not> more then udone (h, s, cmd) w
      else
        let (_, _, s) = gettoken buf es s in
        ubnd (backcmd y cmd h w) (\<lambda>(h, cmd) w. parseback k y buf es cmd s h w))"

text \<open>
  \<^verbatim>\<open>parseblock\<close> calls \<^verbatim>\<open>parseline\<close> again; the parser for the line inside the parentheses is an argument of
  the functions between the two calls.
\<close>

definition parseblock :: "'w parser \<Rightarrow> nat \<Rightarrow> 'w usys \<Rightarrow> bytes \<Rightarrow> nat \<Rightarrow> 'w parser" where
  "parseblock line k y buf es s h w =
     (let (s, ok) = peek buf es s ''('' in
      if \<not> ok then sh_panic y ''parseblock'' w
      else
        let (_, _, s) = gettoken buf es s in
        ubnd (line s h w) (\<lambda>(h, s, cmd) w.
        let (s, ok) = peek buf es s '')'' in
        if \<not> ok then sh_panic y ''syntax - missing )'' w
        else
          let (_, _, s) = gettoken buf es s in
          parseredirs k y buf es cmd s h w))"

definition parseexec :: "'w parser \<Rightarrow> nat \<Rightarrow> 'w usys \<Rightarrow> bytes \<Rightarrow> nat \<Rightarrow> 'w parser" where
  "parseexec line k y buf es s h w =
     (let (s, block) = peek buf es s ''('' in
      if block then parseblock line k y buf es s h w
      else
        ubnd (execcmd y h w) (\<lambda>(h, ret) w.
        ubnd (parseredirs k y buf es ret s h w) (\<lambda>(h, s, ret) w.
        parseargs k y buf es 0 ret s h w)))"

primrec parsepipe :: "nat \<Rightarrow> 'w parser \<Rightarrow> 'w usys \<Rightarrow> bytes \<Rightarrow> nat \<Rightarrow> 'w parser" where
  "parsepipe 0 line y buf es s h w = None"
| "parsepipe (Suc k) line y buf es s h w =
     ubnd (parseexec line k y buf es s h w) (\<lambda>(h, s, cmd) w.
     let (s, more) = peek buf es s ''|'' in
     if more then
       let (_, _, s) = gettoken buf es s in
       ubnd (parsepipe k line y buf es s h w) (\<lambda>(h, s, right) w.
       ubnd (pipecmd y cmd right h w) (\<lambda>(h, cmd) w. udone (h, s, cmd) w))
     else udone (h, s, cmd) w)"

primrec parseline :: "nat \<Rightarrow> 'w usys \<Rightarrow> bytes \<Rightarrow> nat \<Rightarrow> 'w parser" where
  "parseline 0 y buf es s h w = None"
| "parseline (Suc k) y buf es s h w =
     ubnd (parsepipe k (parseline k y buf es) y buf es s h w) (\<lambda>(h, s, cmd) w.
     ubnd (parseback k y buf es cmd s h w) (\<lambda>(h, s, cmd) w.
     let (s, more) = peek buf es s '';'' in
     if more then
       let (_, _, s) = gettoken buf es s in
       ubnd (parseline k y buf es s h w) (\<lambda>(h, s, right) w.
       ubnd (listcmd y cmd right h w) (\<lambda>(h, cmd) w. udone (h, s, cmd) w))
     else udone (h, s, cmd) w))"

text \<open>\<^verbatim>\<open>nulterminate\<close> stores into the line.\<close>

primrec nulterminate :: "pcmd \<Rightarrow> bytes \<Rightarrow> bytes" where
  "nulterminate (EXEC argv) buf = fold (\<lambda>a b. b(snd a := 0)) argv buf"
| "nulterminate (REDIR cmd f mode fd) buf = (nulterminate cmd buf)(snd f := 0)"
| "nulterminate (PIPE left right) buf = nulterminate right (nulterminate left buf)"
| "nulterminate (LIST left right) buf = nulterminate right (nulterminate left buf)"
| "nulterminate (BACK cmd) buf = nulterminate cmd buf"

text \<open>The C string at a position of a line that ends at \<open>es\<close>.\<close>

definition string_at :: "nat \<Rightarrow> bytes \<Rightarrow> nat \<Rightarrow> byte list" where
  "string_at es buf s = takeWhile (\<lambda>c. c \<noteq> 0) (map buf [s..<es])"

definition parse_bound :: "nat \<Rightarrow> nat" where
  "parse_bound n = n + 3"

definition parsecmd :: "'w usys \<Rightarrow> bytes \<Rightarrow> uheap \<Rightarrow> 'w \<Rightarrow> ('w, uheap \<times> pcmd \<times> bytes) urun" where
  "parsecmd y buf h w =
     (case strlen buf of
        None \<Rightarrow> None
      | Some es \<Rightarrow>
          ubnd (parseline (parse_bound es) y buf es 0 h w) (\<lambda>(h, s, cmd) w.
          let (s, _) = peek buf es s '''' in
          if s \<noteq> es then
            useq (fprintf y 2 (nl ''leftovers: %s'') [PStr (Some (string_at es buf s))] w) (sh_panic y ''syntax'')
          else udone (h, cmd, nulterminate cmd buf) w))"

section \<open>Running commands\<close>

text \<open>The strings are read from the line \<open>buf\<close>, which ends at \<open>es\<close>.\<close>

primrec runcmd :: "'w usys \<Rightarrow> nat \<Rightarrow> bytes \<Rightarrow> pcmd \<Rightarrow> 'w \<Rightarrow> ('w, unit) urun" where
  "runcmd y es buf (EXEC argv) w =
     (case map (\<lambda>a. string_at es buf (fst a)) argv of
        [] \<Rightarrow> uexit 1 w
      | v # vs \<Rightarrow>
          useq (uexec y v (v # vs) w) (\<lambda>w.
          useq (fprintf y 2 (nl ''exec %s failed'') [PStr (Some v)] w) (uexit 0)))"
| "runcmd y es buf (REDIR cmd f mode fd) w =
     useq (ucall (y_close y fd) w) (\<lambda>w.
     ubnd (ucall (y_open y (string_at es buf (fst f)) mode) w) (\<lambda>r w.
     if r < 0 then useq (fprintf y 2 (nl ''open %s failed'') [PStr (Some (string_at es buf (fst f)))] w) (uexit 1)
     else runcmd y es buf cmd w))"
| "runcmd y es buf (LIST left right) w =
     ubnd (fork1 y w) (\<lambda>pid w.
     if pid = 0 then runcmd y es buf left w
     else useq (ucall (y_wait y) w) (runcmd y es buf right))"
| "runcmd y es buf (PIPE left right) w =
     ubnd (ucall (y_pipe y) w) (\<lambda>p w.
     case p of
       None \<Rightarrow> sh_panic y ''pipe'' w
     | Some (p0, p1) \<Rightarrow>
         ubnd (fork1 y w) (\<lambda>pid w.
         if pid = 0 then
           useq (ucall (y_close y 1) w) (\<lambda>w. useq (ucall (y_dup y p1) w) (\<lambda>w.
           useq (ucall (y_close y p0) w) (\<lambda>w. useq (ucall (y_close y p1) w) (runcmd y es buf left))))
         else
           ubnd (fork1 y w) (\<lambda>pid w.
           if pid = 0 then
             useq (ucall (y_close y 0) w) (\<lambda>w. useq (ucall (y_dup y p0) w) (\<lambda>w.
             useq (ucall (y_close y p0) w) (\<lambda>w. useq (ucall (y_close y p1) w) (runcmd y es buf right))))
           else
             useq (ucall (y_close y p0) w) (\<lambda>w. useq (ucall (y_close y p1) w) (\<lambda>w.
             useq (ucall (y_wait y) w) (\<lambda>w. useq (ucall (y_wait y) w) (uexit 0)))))))"
| "runcmd y es buf (BACK cmd) w =
     ubnd (fork1 y w) (\<lambda>pid w. if pid = 0 then runcmd y es buf cmd w else uexit 0 w)"

text \<open>The line read, or none at the end of the input.\<close>

definition getcmd :: "'w usys \<Rightarrow> nat \<Rightarrow> 'w \<Rightarrow> ('w, bytes option) urun" where
  "getcmd y nbuf w =
     useq (ucall (y_write y 2 (pbytes ''$ '')) w) (\<lambda>w.
     ubnd (gets y nbuf w) (\<lambda>l w.
     let buf = (\<lambda>i. if i < length l then l ! i else 0) in
     udone (if buf 0 = 0 then None else Some buf) w))"

partial_function (option) sh_open :: "'w usys \<Rightarrow> 'w \<Rightarrow> ('w, unit) urun" where
  "sh_open y w =
     ubnd (ucall (y_open y (pbytes ''console'') 2) w) (\<lambda>fd w.
     if fd \<ge> 0 then if fd \<ge> 3 then useq (ucall (y_close y fd) w) (udone ()) else sh_open y w
     else udone () w)"

partial_function (option) sh_loop :: "'w usys \<Rightarrow> uheap \<Rightarrow> 'w \<Rightarrow> ('w, unit) urun" where
  "sh_loop y h w =
     ubnd (getcmd y 100 w) (\<lambda>l w.
     case l of
       None \<Rightarrow> uexit 0 w
     | Some buf \<Rightarrow>
         (case strlen buf of
            None \<Rightarrow> None
          | Some es \<Rightarrow>
              if buf 0 = 99 \<and> buf 1 = 100 \<and> buf 2 = 32 then
                let path = string_at (es - 1) buf 3 in
                ubnd (ucall (y_chdir y path) w) (\<lambda>r w.
                if r < 0 then useq (fprintf y 2 (nl ''cannot cd %s'') [PStr (Some path)] w) (sh_loop y h)
                else sh_loop y h w)
              else
                ubnd (fork1 y w) (\<lambda>pid w.
                if pid = 0 then ubnd (parsecmd y buf h w) (\<lambda>(h, cmd, buf) w. runcmd y es buf cmd w)
                else useq (ucall (y_wait y) w) (sh_loop y h))))"

definition sh_main :: "'w usys \<Rightarrow> uheap \<Rightarrow> 'w \<Rightarrow> ('w, unit) urun" where
  "sh_main y h w = useq (sh_open y w) (sh_loop y h)"

section \<open>Runs that end\<close>

text \<open>\<open>upost r Q\<close>: the run \<open>r\<close> ends, and if it returns then \<open>Q\<close> holds of the result.\<close>

definition upost :: "('w, 'a) urun \<Rightarrow> ('a \<Rightarrow> 'w \<Rightarrow> bool) \<Rightarrow> bool" where
  "upost r Q = (case r of None \<Rightarrow> False | Some (UDone a w) \<Rightarrow> Q a w | Some _ \<Rightarrow> True)"

lemma upost_simps [simp]:
  "upost (udone a w) Q = Q a w" "upost (uexit n w) Q = True" "upost (Some UFault) Q = True" "upost (Some (UExec p v w)) Q = True" "upost None Q = False"
  by (simp_all add: upost_def)

lemma upost_ubnd: "upost (ubnd r f) Q \<longleftrightarrow> upost r (\<lambda>a w. upost (f a w) Q)"
proof (cases r)
  case (Some x)
  then show ?thesis by (cases x) simp_all
qed simp

lemma upost_ends: "upost r Q \<Longrightarrow> r \<noteq> None"
  by (cases r) simp_all

lemma upost_mono: "upost r P \<Longrightarrow> (\<And>a w. P a w \<Longrightarrow> Q a w) \<Longrightarrow> upost r Q"
  by (auto simp: upost_def split: option.splits ures.splits)

lemma upost_bind: "upost r P \<Longrightarrow> (\<And>a w. P a w \<Longrightarrow> upost (f a w) Q) \<Longrightarrow> upost (ubnd r f) Q"
  unfolding upost_ubnd by (rule upost_mono)

lemma ucall_post: "upost (ucall f w) (\<lambda>_ _. True)"
  by (simp add: ucall_def split: prod.splits)

lemma putc_post: "upost (putc y fd c w) (\<lambda>_ _. True)"
  by (simp add: putc_def upost_ubnd ucall_post)

lemma putcs_post: "upost (putcs y fd cs w) (\<lambda>_ _. True)"
  by (induction cs arbitrary: w) (auto intro: upost_bind [OF putc_post])

lemma uprintptr_post: "upost (uprintptr y fd x w) (\<lambda>_ _. True)"
proof -
  have "upost (uprintptr_loop y fd k x w) (\<lambda>_ _. True)" for k x w
    by (induction k arbitrary: x w) (auto intro: upost_bind [OF putc_post])
  then show ?thesis unfolding uprintptr_def by (intro upost_bind [OF putc_post]) simp
qed

lemma fprintf_line_post: "37 \<notin> set (pbytes l) \<Longrightarrow> upost (fprintf y fd (l @ nl ''%s'') [PStr (Some x)] w) (\<lambda>_ _. True)"
  unfolding fprintf_def pbytes_def
proof (induction l arbitrary: w)
  case Nil
  then show ?case by (simp add: nl_def) (rule upost_bind [OF putcs_post], simp, rule upost_bind [OF putc_post], simp)
next
  case (Cons c l)
  then show ?case by simp (rule upost_bind [OF putc_post], simp)
qed

lemma sh_panic_post: "upost (sh_panic y s w) Q"
  using fprintf_line_post [of "[]" y 2 "pbytes s" w] unfolding sh_panic_def by (auto simp: pbytes_def intro: upost_bind)

text \<open>The heap of the shell.\<close>

definition heapinv :: "('w \<Rightarrow> nat) \<Rightarrow> uheap \<Rightarrow> 'w \<Rightarrow> bool" where
  "heapinv brk h w \<longleftrightarrow> (\<exists>F A. uinv (hinit h) F A (brk w))"

lemma node_post:
  assumes "heapinv brk h w" and "sbrk_grows y brk" and "unat sz < 2 ^ 31 - 64"
  shows "upost (node y sz c h w) (\<lambda>(h', c') w'. c' = c \<and> heapinv brk h' w')"
proof -
  obtain F A where "uinv (hinit h) F A (brk w)" using assms(1) by (auto simp: heapinv_def)
  then obtain h' q w' where m: "malloc y sz h w = udone (h', q) w'" and q: "q \<noteq> 0 \<Longrightarrow> \<exists>F' A'. uinv h' F' A' (brk w')"
    using malloc_fresh [OF _ assms(2,3)] by (fastforce split: if_splits)
  show ?thesis
  proof (cases "q = 0")
    case False
    then obtain F' A' where u: "uinv h' F' A' (brk w')" using q by blast
    then have "heapinv brk h' w'" using hinit_id [OF u] by (auto simp: heapinv_def)
    then show ?thesis using m False by (simp add: node_def)
  qed (use m in \<open>simp add: node_def\<close>)
qed

section \<open>Tokens\<close>

definition wordch :: "byte \<Rightarrow> bool" where
  "wordch c \<longleftrightarrow> \<not> whitespace c \<and> \<not> symbols c \<and> c \<noteq> 0"

definition is_line :: "bytes \<Rightarrow> nat \<Rightarrow> bool" where
  "is_line buf es \<longleftrightarrow> buf es = 0 \<and> (\<forall>i < es. buf i \<noteq> 0)"

text \<open>A word of the line, as a pair of positions.\<close>

definition isword :: "bytes \<Rightarrow> nat \<Rightarrow> nat \<times> nat \<Rightarrow> bool" where
  "isword buf es f \<longleftrightarrow> fst f < snd f \<and> snd f \<le> es \<and> (\<forall>i. fst f \<le> i \<and> i < snd f \<longrightarrow> wordch (buf i)) \<and> \<not> wordch (buf (snd f))"

lemma skip_ws_range: "s \<le> es \<Longrightarrow> s \<le> skip_ws buf es s \<and> skip_ws buf es s \<le> es"
proof (induction buf es s rule: skip_ws.induct)
  case (1 buf es s)
  then show ?case by (subst (1 2) skip_ws.simps) auto
qed

lemma skip_ws_stop: "s \<le> es \<Longrightarrow> skip_ws buf es s = es \<or> \<not> whitespace (buf (skip_ws buf es s))"
proof (induction buf es s rule: skip_ws.induct)
  case (1 buf es s)
  then show ?case by (subst (1 2) skip_ws.simps) auto
qed

lemma skip_ws_idem: "s \<le> es \<Longrightarrow> skip_ws buf es (skip_ws buf es s) = skip_ws buf es s"
  using skip_ws_stop [of s es buf] by (subst skip_ws.simps) auto

lemma word_end_range:
  "s \<le> es \<Longrightarrow> s \<le> word_end buf es s \<and> word_end buf es s \<le> es \<and> (\<forall>i. s \<le> i \<and> i < word_end buf es s \<longrightarrow> \<not> whitespace (buf i) \<and> \<not> symbols (buf i))
   \<and> (word_end buf es s = es \<or> whitespace (buf (word_end buf es s)) \<or> symbols (buf (word_end buf es s)))"
proof (induction buf es s rule: word_end.induct)
  case (1 buf es s)
  show ?case
  proof (cases "s < es \<and> \<not> whitespace (buf s) \<and> \<not> symbols (buf s)")
    case True
    then have e: "word_end buf es s = word_end buf es (s + 1)" by (subst word_end.simps) simp
    have I: "s + 1 \<le> word_end buf es (s + 1)" "word_end buf es (s + 1) \<le> es"
      "\<And>i. s + 1 \<le> i \<Longrightarrow> i < word_end buf es (s + 1) \<Longrightarrow> \<not> whitespace (buf i) \<and> \<not> symbols (buf i)"
      "word_end buf es (s + 1) = es \<or> whitespace (buf (word_end buf es (s + 1))) \<or> symbols (buf (word_end buf es (s + 1)))"
      using 1(1) True by auto
    have "\<not> whitespace (buf i) \<and> \<not> symbols (buf i)" if "s \<le> i" "i < word_end buf es (s + 1)" for i
      using I(3) [of i] True that by (cases "i = s") auto
    then show ?thesis unfolding e using I by auto
  next
    case False
    then have "word_end buf es s = s" by (subst word_end.simps) auto
    then show ?thesis using 1(2) False by auto
  qed
qed

lemma word_end_isword:
  assumes "is_line buf es" and "s < es" and "wordch (buf s)"
  shows "isword buf es (s, word_end buf es s)"
proof -
  note W = word_end_range [of s es buf, OF less_imp_le [OF assms(2)]]
  have "word_end buf es s = word_end buf es (s + 1)" using assms(2,3) by (subst word_end.simps) (simp add: wordch_def)
  then have "s < word_end buf es s" using word_end_range [of "s + 1" es buf] assms(2) by auto
  moreover have "wordch (buf i)" if "s \<le> i" "i < word_end buf es s" for i
    using W that assms(1) by (auto simp: wordch_def is_line_def)
  moreover have "\<not> wordch (buf (word_end buf es s))" using W assms(1) by (auto simp: wordch_def is_line_def)
  ultimately show ?thesis using W by (auto simp: isword_def)
qed

text \<open>What a token is, and that reading one makes progress.\<close>

lemma gettoken_spec:
  assumes "is_line buf es" and "s \<le> es" and "gettoken buf es s = (t, f, s')"
  shows "s \<le> s'" "s' \<le> es" "t \<noteq> 0 \<Longrightarrow> s < s'" "t = 97 \<Longrightarrow> isword buf es f" "skip_ws buf es s' = s'" "t = 0 \<longleftrightarrow> skip_ws buf es s = es"
proof -
  define r where "r = skip_ws buf es s"
  have r: "s \<le> r" "r \<le> es" "r = es \<or> \<not> whitespace (buf r)"
    using skip_ws_range [OF assms(2), of buf] skip_ws_stop [OF assms(2), of buf] by (auto simp: r_def)
  have z: "buf r = 0 \<longleftrightarrow> r = es" using assms(1) r(2) by (auto simp: is_line_def le_less)
  define e where "e = (if buf r = 0 then r else if buf r \<in> {124, 40, 41, 59, 38, 60} then r + 1
    else if buf r = 62 then if buf (r + 1) = 62 then r + 2 else r + 1 else word_end buf es r)"
  have g: "t = (if buf r = 0 then 0 else if buf r \<in> {124, 40, 41, 59, 38, 60} then buf r
    else if buf r = 62 then if buf (r + 1) = 62 then 43 else 62 else 97)" "f = (r, e)" "s' = skip_ws buf es e"
    using assms(3) by (auto simp: gettoken_def Let_def r_def [symmetric] e_def split: if_splits)
  have w: "isword buf es (r, word_end buf es r)" if "buf r \<noteq> 0" "buf r \<notin> {124, 40, 41, 59, 38, 60}" "buf r \<noteq> 62"
    using word_end_isword [OF assms(1), of r] that r z by (auto simp: wordch_def symbols_def)
  have e: "r \<le> e" "e \<le> es" "buf r \<noteq> 0 \<Longrightarrow> r < e"
  proof -
    have "r + 2 \<le> es" if "buf r \<noteq> 0" "buf (r + 1) = 62"
    proof -
      have "r + 1 \<noteq> es" using that(2) assms(1) by (auto simp: is_line_def)
      then show ?thesis using that(1) z r(2) by linarith
    qed
    then show "r \<le> e" "e \<le> es" "buf r \<noteq> 0 \<Longrightarrow> r < e"
      using w z r(2) by (auto simp: e_def isword_def)
  qed
  have s': "e \<le> s'" "s' \<le> es" using skip_ws_range [OF e(2), of buf] by (auto simp: g(3))
  show "s \<le> s'" "s' \<le> es" using r(1) e(1) s' by auto
  show "t \<noteq> 0 \<Longrightarrow> s < s'" using g(1) r(1) e(3) s'(1) by (auto split: if_splits)
  show "t = 97 \<Longrightarrow> isword buf es f" using g(1,2) w by (auto simp: e_def split: if_splits)
  show "skip_ws buf es s' = s'" unfolding g(3) by (rule skip_ws_idem [OF e(2)])
  show "t = 0 \<longleftrightarrow> skip_ws buf es s = es" using g(1) z by (auto simp: r_def [symmetric] split: if_splits)
qed

lemma peek_spec:
  assumes "is_line buf es" and "s \<le> es" and "peek buf es s toks = (s', b)"
  shows "s \<le> s'" "s' \<le> es" "b \<Longrightarrow> gettoken buf es s' = (t, f, s'') \<Longrightarrow> s' < s''" "s' = skip_ws buf es s"
proof -
  show e: "s' = skip_ws buf es s" using assms(3) by (simp add: peek_def Let_def)
  show "s \<le> s'" "s' \<le> es" using skip_ws_range [OF assms(2), of buf] e by auto
  assume b: b and g: "gettoken buf es s' = (t, f, s'')"
  have "buf s' \<noteq> 0" using assms(3) b by (auto simp: peek_def Let_def)
  then have "s' \<noteq> es" using assms(1) by (auto simp: is_line_def)
  then have "t \<noteq> 0" using gettoken_spec(6) [OF assms(1) \<open>s' \<le> es\<close> g] skip_ws_idem [OF assms(2), of buf] e by simp
  then show "s' < s''" using gettoken_spec(3) [OF assms(1) \<open>s' \<le> es\<close> g] by simp
qed

section \<open>The parser ends, and finds words of the line\<close>

definition pinv :: "('w \<Rightarrow> nat) \<Rightarrow> bytes \<Rightarrow> nat \<Rightarrow> nat \<Rightarrow> uheap \<times> nat \<times> pcmd \<Rightarrow> 'w \<Rightarrow> bool" where
  "pinv brk buf es s r w \<longleftrightarrow> (case r of (h, s', c) \<Rightarrow> s \<le> s' \<and> s' \<le> es \<and> (\<forall>f \<in> set_cmd c. isword buf es f) \<and> heapinv brk h w)"

lemma pinvI: "s \<le> s' \<Longrightarrow> s' \<le> es \<Longrightarrow> (\<And>f. f \<in> set_cmd c \<Longrightarrow> isword buf es f) \<Longrightarrow> heapinv brk h w \<Longrightarrow> pinv brk buf es s (h, s', c) w"
  by (simp add: pinv_def)

lemma pinvD: "pinv brk buf es s (h, s', c) w \<Longrightarrow> s \<le> s'" "pinv brk buf es s (h, s', c) w \<Longrightarrow> s' \<le> es"
  "pinv brk buf es s (h, s', c) w \<Longrightarrow> f \<in> set_cmd c \<Longrightarrow> isword buf es f" "pinv brk buf es s (h, s', c) w \<Longrightarrow> heapinv brk h w"
  by (simp_all add: pinv_def)

lemma pinv_mono: "pinv brk buf es s r w \<Longrightarrow> s0 \<le> s \<Longrightarrow> pinv brk buf es s0 r w"
  by (auto simp: pinv_def)

lemma set_add_arg: "set_cmd (add_arg a c) \<subseteq> insert a (set_cmd c)"
  by (induction c) auto

lemma upost_bind3:
  assumes "upost r (pinv brk buf es s)" and "\<And>h s' c w. pinv brk buf es s (h, s', c) w \<Longrightarrow> upost (f h s' c w) Q"
  shows "upost (ubnd r (\<lambda>(h, s', c) w. f h s' c w)) Q"
  by (rule upost_bind [OF assms(1)]) (use assms(2) in \<open>auto split: prod.split\<close>)

lemma node_bind:
  assumes "heapinv brk h w" and "sbrk_grows y brk" and "unat sz < 2 ^ 31 - 64" and "\<And>h w. heapinv brk h w \<Longrightarrow> upost (f h c w) Q"
  shows "upost (ubnd (node y sz c h w) (\<lambda>(h, c) w. f h c w)) Q"
  by (rule upost_bind [OF node_post [OF assms(1-3)]]) (use assms(4) in auto)

lemma parseredirs_post:
  assumes "is_line buf es" and "sbrk_grows y brk" and "s \<le> es" and "es - s < k" and "heapinv brk h w" and "\<And>f. f \<in> set_cmd c \<Longrightarrow> isword buf es f"
  shows "upost (parseredirs k y buf es c s h w) (pinv brk buf es s)"
  using assms(3-6)
proof (induction k arbitrary: c s h w)
  case (Suc k)
  obtain s1 more where p: "peek buf es s ''<>'' = (s1, more)" by fastforce
  note P = peek_spec [OF assms(1) Suc.prems(1) p]
  show ?case
  proof (cases more)
    case False
    then show ?thesis using p P(1,2) Suc.prems by (simp add: pinv_def)
  next
    case True
    obtain tok f0 s2 where t: "gettoken buf es s1 = (tok, f0, s2)" by (metis prod_cases3)
    obtain t3 f s3 where g: "gettoken buf es s2 = (t3, f, s3)" by (metis prod_cases3)
    have s2: "s1 < s2" "s2 \<le> es" using P(3) [OF True t] gettoken_spec(2) [OF assms(1) P(2) t] by simp_all
    note G = gettoken_spec [OF assms(1) s2(2) g]
    show ?thesis
    proof (cases "t3 = 97")
      case False
      then show ?thesis using p True t g by (simp add: sh_panic_post)
    next
      case w: True
      have rec: "upost (parseredirs k y buf es d s3 h w) (pinv brk buf es s)"
        if "heapinv brk h w" "\<And>f. f \<in> set_cmd d \<Longrightarrow> isword buf es f" for d h w
        by (rule upost_mono [OF Suc.IH]) (use that G(1,2) s2 P(1) Suc.prems(2) in \<open>auto intro: pinv_mono\<close>)
      have "upost (ubnd (redircmd y c f m d h w) (\<lambda>(h, cmd) w. parseredirs k y buf es cmd s3 h w)) (pinv brk buf es s)" for m d
        unfolding redircmd_def by (rule node_bind [OF Suc.prems(3) assms(2)], simp, rule rec, assumption) (use G(4) w Suc.prems(4) in auto)
      then show ?thesis using p True t g w rec [OF Suc.prems(3,4)] by simp
    qed
  qed
qed simp

lemma parseargs_post:
  assumes "is_line buf es" and "sbrk_grows y brk" and "s \<le> es" and "es - s < k" and "heapinv brk h w" and "\<And>f. f \<in> set_cmd c \<Longrightarrow> isword buf es f"
  shows "upost (parseargs k y buf es n c s h w) (pinv brk buf es s)"
  using assms(3-6)
proof (induction k arbitrary: n c s h w)
  case (Suc k)
  obtain s1 stop where p: "peek buf es s ''|)&;'' = (s1, stop)" by fastforce
  note P = peek_spec [OF assms(1) Suc.prems(1) p]
  obtain t a s2 where t: "gettoken buf es s1 = (t, a, s2)" by (metis prod_cases3)
  note G = gettoken_spec [OF assms(1) P(2) t]
  show ?case
  proof (cases "stop \<or> t = 0 \<or> t \<noteq> 97 \<or> n + 1 \<ge> MAXARGS")
    case True
    then show ?thesis using p t P(1,2) G(1,2) Suc.prems by (auto simp: sh_panic_post pinv_def)
  next
    case False
    have "upost (parseredirs k y buf es (add_arg a c) s2 h w) (pinv brk buf es s2)"
      by (rule parseredirs_post [OF assms(1,2)]) (use False G P(1) Suc.prems set_add_arg [of a c] in auto)
    then have "upost (ubnd (parseredirs k y buf es (add_arg a c) s2 h w) (\<lambda>(h, s, ret) w. parseargs k y buf es (n + 1) ret s h w)) (pinv brk buf es s)"
    proof (rule upost_bind3)
      fix h' s' c' w'
      assume q: "pinv brk buf es s2 (h', s', c') w'"
      have "s < s2" using False G(3) P(1) by simp
      then have "upost (parseargs k y buf es (n + 1) c' s' h' w') (pinv brk buf es s')"
        by (intro Suc.IH) (use pinvD [OF q] Suc.prems(2) in auto)
      then show "upost (parseargs k y buf es (n + 1) c' s' h' w') (pinv brk buf es s)"
        by (rule upost_mono) (use pinvD(1) [OF q] \<open>s < s2\<close> in \<open>auto intro: pinv_mono\<close>)
    qed
    then show ?thesis using p t False by simp
  qed
qed simp

lemma parseback_post:
  assumes "is_line buf es" and "sbrk_grows y brk" and "s \<le> es" and "es - s < k" and "heapinv brk h w" and "\<And>f. f \<in> set_cmd c \<Longrightarrow> isword buf es f"
  shows "upost (parseback k y buf es c s h w) (pinv brk buf es s)"
  using assms(3-6)
proof (induction k arbitrary: c s h w)
  case (Suc k)
  obtain s1 more where p: "peek buf es s ''&'' = (s1, more)" by fastforce
  note P = peek_spec [OF assms(1) Suc.prems(1) p]
  obtain t a s2 where t: "gettoken buf es s1 = (t, a, s2)" by (metis prod_cases3)
  note G = gettoken_spec [OF assms(1) P(2) t]
  show ?case
  proof (cases more)
    case False
    then show ?thesis using p P(1,2) Suc.prems by (simp add: pinv_def)
  next
    case True
    have "upost (ubnd (backcmd y c h w) (\<lambda>(h, cmd) w. parseback k y buf es cmd s2 h w)) (pinv brk buf es s)"
      unfolding backcmd_def by (rule node_bind [OF Suc.prems(3) assms(2)], simp, rule upost_mono [OF Suc.IH])
        (use P(1) P(3) [OF True t] G(2) Suc.prems(2,4) in \<open>auto intro: pinv_mono\<close>)
    then show ?thesis using p t True by simp
  qed
qed simp

lemma upost_le: "upost r (pinv brk buf es s') \<Longrightarrow> s \<le> s' \<Longrightarrow> upost r (pinv brk buf es s)"
  by (erule upost_mono) (erule pinv_mono)

definition line_post :: "('w \<Rightarrow> nat) \<Rightarrow> bytes \<Rightarrow> nat \<Rightarrow> nat \<Rightarrow> 'w parser \<Rightarrow> bool" where
  "line_post brk buf es s line \<longleftrightarrow> (\<forall>s0 h w. s < s0 \<and> s0 \<le> es \<and> heapinv brk h w \<longrightarrow> upost (line s0 h w) (pinv brk buf es s0))"

lemma parseblock_post:
  assumes "is_line buf es" and "sbrk_grows y brk" and "s \<le> es" and "es - s < k" and "heapinv brk h w" and "line_post brk buf es s line"
  shows "upost (parseblock line k y buf es s h w) (pinv brk buf es s)"
proof -
  obtain s1 ok where p: "peek buf es s ''('' = (s1, ok)" by fastforce
  note P = peek_spec [OF assms(1,3) p]
  obtain t a s2 where t: "gettoken buf es s1 = (t, a, s2)" by (metis prod_cases3)
  note G = gettoken_spec [OF assms(1) P(2) t]
  show ?thesis
  proof (cases ok)
    case False
    then show ?thesis using p by (simp add: parseblock_def sh_panic_post)
  next
    case True
    have s2: "s < s2" using P(1) P(3) [OF True t] by simp
    then have l: "upost (line s2 h w) (pinv brk buf es s2)" using assms(5,6) G(2) by (auto simp: line_post_def)
    have "upost (ubnd (line s2 h w) (\<lambda>(h, s, cmd) w. let (s, ok) = peek buf es s '')'' in
        if \<not> ok then sh_panic y ''syntax - missing )'' w
        else let (_, _, s) = gettoken buf es s in parseredirs k y buf es cmd s h w)) (pinv brk buf es s)"
    proof (rule upost_bind3 [OF l])
      fix h' s' c' w'
      assume q: "pinv brk buf es s2 (h', s', c') w'"
      note Q = pinvD [OF q]
      obtain s3 ok' where p': "peek buf es s' '')'' = (s3, ok')" by fastforce
      note P' = peek_spec [OF assms(1) Q(2) p']
      obtain t' a' s4 where t': "gettoken buf es s3 = (t', a', s4)" by (metis prod_cases3)
      note G' = gettoken_spec [OF assms(1) P'(2) t']
      have "upost (parseredirs k y buf es c' s4 h' w') (pinv brk buf es s)"
        by (rule upost_le [OF parseredirs_post [OF assms(1,2) G'(2)]]) (use Q s2 P'(1) G'(1) assms(4) in auto)
      then show "upost (let (s, ok) = peek buf es s' '')'' in
        if \<not> ok then sh_panic y ''syntax - missing )'' w'
        else let (_, _, s) = gettoken buf es s in parseredirs k y buf es c' s h' w') (pinv brk buf es s)"
        using p' t' by (simp add: sh_panic_post)
    qed
    then show ?thesis using p True t by (simp add: parseblock_def)
  qed
qed

lemma parseexec_post:
  assumes "is_line buf es" and "sbrk_grows y brk" and "s \<le> es" and "es - s < k" and "heapinv brk h w" and "line_post brk buf es s line"
  shows "upost (parseexec line k y buf es s h w) (pinv brk buf es s)"
proof -
  obtain s1 b where p: "peek buf es s ''('' = (s1, b)" by fastforce
  note P = peek_spec [OF assms(1,3) p]
  show ?thesis
  proof (cases b)
    case True
    have "line_post brk buf es s1 line" using assms(6) P(1) by (auto simp: line_post_def)
    then have "upost (parseblock line k y buf es s1 h w) (pinv brk buf es s)"
      by (intro upost_le [OF parseblock_post [OF assms(1,2) P(2) _ assms(5)] P(1)]) (use P(1) assms(4) in auto)
    then show ?thesis using p True by (simp add: parseexec_def)
  next
    case False
    have "upost (ubnd (execcmd y h w) (\<lambda>(h, ret) w. ubnd (parseredirs k y buf es ret s1 h w) (\<lambda>(h, s, ret) w. parseargs k y buf es 0 ret s h w)))
      (pinv brk buf es s)"
      unfolding execcmd_def
    proof (rule node_bind [OF assms(5,2)])
      fix h' :: uheap and w' :: 'a
      assume hv: "heapinv brk h' w'"
      have "upost (parseredirs k y buf es (EXEC []) s1 h' w') (pinv brk buf es s1)"
        by (rule parseredirs_post [OF assms(1,2) P(2)]) (use P(1) assms(4) hv in auto)
      then show "upost (ubnd (parseredirs k y buf es (EXEC []) s1 h' w') (\<lambda>(h, s, ret) w. parseargs k y buf es 0 ret s h w)) (pinv brk buf es s)"
      proof (rule upost_bind3)
        fix h2 s2 c2 w2
        assume q: "pinv brk buf es s1 (h2, s2, c2) w2"
        note Q = pinvD [OF q]
        show "upost (parseargs k y buf es 0 c2 s2 h2 w2) (pinv brk buf es s)"
          by (rule upost_le [OF parseargs_post [OF assms(1,2) Q(2)]]) (use Q P(1) assms(4) in auto)
      qed
    qed simp
    then show ?thesis using p False by (simp add: parseexec_def)
  qed
qed

text \<open>The tail of \<^verbatim>\<open>parsepipe\<close> and \<^verbatim>\<open>parseline\<close>: after the symbol the same kind of command again.\<close>

lemma tail_post:
  assumes "is_line buf es" and "sbrk_grows y brk" and "pinv brk buf es s (h, s1, c) w"
    and "\<And>s2 h w. s1 < s2 \<Longrightarrow> s2 \<le> es \<Longrightarrow> heapinv brk h w \<Longrightarrow> upost (rest s2 h w) (pinv brk buf es s2)"
    and "\<And>l r. set_cmd (mk l r) = set_cmd l \<union> set_cmd r" and "unat sz < 2 ^ 31 - 64"
  shows "upost (let (s, more) = peek buf es s1 toks in
     if more then let (_, _, s) = gettoken buf es s in
       ubnd (rest s h w) (\<lambda>(h, s, right) w. ubnd (node y sz (mk c right) h w) (\<lambda>(h, cmd) w. udone (h, s, cmd) w))
     else udone (h, s, c) w) (pinv brk buf es s)"
proof -
  note Q = pinvD [OF assms(3)]
  obtain s2 more where p: "peek buf es s1 toks = (s2, more)" by fastforce
  note P = peek_spec [OF assms(1) Q(2) p]
  obtain t a s3 where t: "gettoken buf es s2 = (t, a, s3)" by (metis prod_cases3)
  note G = gettoken_spec [OF assms(1) P(2) t]
  show ?thesis
  proof (cases more)
    case False
    then show ?thesis using p P Q by (auto simp: pinv_def)
  next
    case True
    have "s1 < s3" using P(1) P(3) [OF True t] by simp
    then have r: "upost (rest s3 h w) (pinv brk buf es s3)" using assms(4) G(2) Q(4) by blast
    have "upost (ubnd (rest s3 h w) (\<lambda>(h, s, right) w. ubnd (node y sz (mk c right) h w) (\<lambda>(h, cmd) w. udone (h, s, cmd) w))) (pinv brk buf es s)"
    proof (rule upost_bind3 [OF r])
      fix h' s' c' w'
      assume q: "pinv brk buf es s3 (h', s', c') w'"
      show "upost (ubnd (node y sz (mk c c') h' w') (\<lambda>(h, cmd) w. udone (h, s', cmd) w)) (pinv brk buf es s)"
        by (rule node_bind [OF pinvD(4) [OF q] assms(2,6)]) (use pinvD(1-3) [OF q] Q(1,3) \<open>s1 < s3\<close> assms(5) in \<open>auto simp: pinv_def\<close>)
    qed
    then show ?thesis using p True t by simp
  qed
qed

lemma parsepipe_post:
  assumes "is_line buf es" and "sbrk_grows y brk" and "s \<le> es" and "es - s + 1 < k" and "heapinv brk h w" and "line_post brk buf es s line"
  shows "upost (parsepipe k line y buf es s h w) (pinv brk buf es s)"
  using assms(3-6)
proof (induction k arbitrary: s h w)
  case (Suc k)
  have "upost (parseexec line k y buf es s h w) (pinv brk buf es s)"
    by (rule parseexec_post [OF assms(1,2)]) (use Suc.prems in auto)
  then show ?case unfolding parsepipe.simps pipecmd_def
  proof (rule upost_bind3)
    fix h' s' c' w'
    assume q: "pinv brk buf es s (h', s', c') w'"
    show "upost (let (s, more) = peek buf es s' ''|'' in
       if more then let (_, _, s) = gettoken buf es s in
         ubnd (parsepipe k line y buf es s h' w') (\<lambda>(h, s, right) w. ubnd (node y 24 (PIPE c' right) h w) (\<lambda>(h, cmd) w. udone (h, s, cmd) w))
       else udone (h', s, c') w') (pinv brk buf es s)"
      by (rule tail_post [OF assms(1,2) q]) (use pinvD [OF q] Suc.prems Suc.IH in \<open>auto simp: line_post_def\<close>)
  qed
qed simp

lemma parseline_post:
  assumes "is_line buf es" and "sbrk_grows y brk" and "s \<le> es" and "es - s + 2 < k" and "heapinv brk h w"
  shows "upost (parseline k y buf es s h w) (pinv brk buf es s)"
  using assms(3-5)
proof (induction k arbitrary: s h w)
  case (Suc k)
  have "line_post brk buf es s (parseline k y buf es)" using Suc by (auto simp: line_post_def)
  then have "upost (parsepipe k (parseline k y buf es) y buf es s h w) (pinv brk buf es s)"
    by (intro parsepipe_post [OF assms(1,2)]) (use Suc.prems in auto)
  then show ?case unfolding parseline.simps listcmd_def
  proof (rule upost_bind3)
    fix h' s' c' w'
    assume q: "pinv brk buf es s (h', s', c') w'"
    have "upost (parseback k y buf es c' s' h' w') (pinv brk buf es s)"
      by (rule upost_le [OF parseback_post [OF assms(1,2)]]) (use pinvD [OF q] Suc.prems in auto)
    then show "upost (ubnd (parseback k y buf es c' s' h' w') (\<lambda>(h, s, cmd) w. let (s, more) = peek buf es s '';'' in
       if more then let (_, _, s) = gettoken buf es s in
         ubnd (parseline k y buf es s h w) (\<lambda>(h, s, right) w. ubnd (node y 24 (LIST cmd right) h w) (\<lambda>(h, cmd) w. udone (h, s, cmd) w))
       else udone (h, s, cmd) w)) (pinv brk buf es s)"
    proof (rule upost_bind3)
      fix h2 s2 c2 w2
      assume q2: "pinv brk buf es s (h2, s2, c2) w2"
      show "upost (let (s, more) = peek buf es s2 '';'' in
       if more then let (_, _, s) = gettoken buf es s in
         ubnd (parseline k y buf es s h2 w2) (\<lambda>(h, s, right) w. ubnd (node y 24 (LIST c2 right) h w) (\<lambda>(h, cmd) w. udone (h, s, cmd) w))
       else udone (h2, s, c2) w2) (pinv brk buf es s)"
        by (rule tail_post [OF assms(1,2) q2]) (use pinvD [OF q2] Suc.prems Suc.IH in auto)
    qed
  qed
qed simp

section \<open>The strings of a command\<close>

lemma nulterminate_apply: "nulterminate c buf i = (if i \<in> snd ` set_cmd c then 0 else buf i)"
proof (induction c arbitrary: buf)
  case (EXEC argv)
  have "fold (\<lambda>a b. b(snd a := 0)) argv buf i = (if i \<in> snd ` set argv then 0 else buf i)"
    by (induction argv arbitrary: buf) auto
  then show ?case by simp
qed auto

lemma string_word:
  assumes "isword buf es f" and "\<And>g. g \<in> W \<Longrightarrow> isword buf es g" and "f \<in> W" and "\<And>i. b i = (if i \<in> snd ` W then 0 else buf i)"
  shows "string_at es b (fst f) = map buf [fst f..<snd f]"
proof -
  have f: "fst f < snd f" "snd f \<le> es" "\<And>i. fst f \<le> i \<Longrightarrow> i < snd f \<Longrightarrow> wordch (buf i)" using assms(1) by (auto simp: isword_def)
  have same: "b i = buf i \<and> b i \<noteq> 0" if "fst f \<le> i" "i < snd f" for i
  proof -
    have "i \<notin> snd ` W" using f(3) [OF that] assms(2) by (auto simp: isword_def)
    then show ?thesis using f(3) [OF that] assms(4) by (simp add: wordch_def)
  qed
  have m: "map b [fst f..<snd f] = map buf [fst f..<snd f]" using same by simp
  have z: "snd f < es \<Longrightarrow> b (snd f) = 0" using assms(3,4) by auto
  have "[fst f..<es] = [fst f..<snd f] @ [snd f..<es]" using f(1,2) by (metis le_add_diff_inverse less_imp_le upt_add_eq_append)
  then have "string_at es b (fst f) = takeWhile (\<lambda>c. c \<noteq> 0) (map b [fst f..<snd f] @ map b [snd f..<es])" by (simp add: string_at_def)
  also have "\<dots> = map b [fst f..<snd f] @ takeWhile (\<lambda>c. c \<noteq> 0) (map b [snd f..<es])" by (rule takeWhile_append2) (use same in fastforce)
  also have "takeWhile (\<lambda>c. c \<noteq> 0) (map b [snd f..<es]) = []" using z by (cases "snd f < es") (simp_all add: upt_conv_Cons)
  finally show ?thesis using m by simp
qed

lemma is_line_strlen: "is_line buf es \<Longrightarrow> strlen buf = Some es"
  unfolding is_line_def by (subst strlen_eq) (auto intro!: Least_equality leI)

lemma parsecmd_post:
  assumes "is_line buf es" and "heapinv brk h w" and "sbrk_grows y brk"
  shows "upost (parsecmd y buf h w) (\<lambda>(h', c, buf') w'. \<forall>f \<in> set_cmd c. isword buf es f \<and> string_at es buf' (fst f) = map buf [fst f..<snd f])"
proof -
  have l: "upost (parseline (parse_bound es) y buf es 0 h w) (pinv brk buf es 0)"
    by (rule parseline_post [OF assms(1,3)]) (use assms(2) in \<open>auto simp: parse_bound_def\<close>)
  show ?thesis unfolding parsecmd_def is_line_strlen [OF assms(1)] option.case
  proof (rule upost_bind3 [OF l])
    fix h' s' c w'
    assume q: "pinv brk buf es 0 (h', s', c) w'"
    have "string_at es (nulterminate c buf) (fst f) = map buf [fst f..<snd f]" if "f \<in> set_cmd c" for f
      by (rule string_word [where W = "set_cmd c", OF pinvD(3) [OF q that]]) (erule pinvD(3) [OF q], rule that, rule nulterminate_apply)
    moreover have "upost (useq (fprintf y 2 (nl ''leftovers: %s'') [PStr (Some x)] w') (sh_panic y ''syntax'')) Q" for x and Q :: "uheap \<times> pcmd \<times> bytes \<Rightarrow> 'a \<Rightarrow> bool"
      using fprintf_line_post [of "''leftovers: ''" y 2 x w'] by (auto simp: nl_def pbytes_def intro: upost_bind sh_panic_post)
    ultimately show "upost (let (s, _) = peek buf es s' '''' in
          if s \<noteq> es then useq (fprintf y 2 (nl ''leftovers: %s'') [PStr (Some (string_at es buf s))] w') (sh_panic y ''syntax'')
          else udone (h', c, nulterminate c buf) w')
        (\<lambda>(h', c, buf') w'. \<forall>f \<in> set_cmd c. isword buf es f \<and> string_at es buf' (fst f) = map buf [fst f..<snd f])"
      using pinvD(3) [OF q] by (simp split: prod.split)
  qed
qed

section \<open>Tokens of a line\<close>

datatype 'f tk = Sym byte | Word 'f

text \<open>The tokens from position \<open>s\<close> on.\<close>

fun toks :: "bytes \<Rightarrow> nat \<Rightarrow> nat \<Rightarrow> (nat \<times> nat) tk list \<Rightarrow> bool" where
  "toks buf es s [] \<longleftrightarrow> skip_ws buf es s = es"
| "toks buf es s (Sym c # ts) \<longleftrightarrow> (case gettoken buf es s of (t, _, s') \<Rightarrow> t = c \<and> c \<noteq> 0 \<and> c \<noteq> 97 \<and> toks buf es s' ts)"
| "toks buf es s (Word f # ts) \<longleftrightarrow> (case gettoken buf es s of (t, g, s') \<Rightarrow> t = 97 \<and> g = f \<and> toks buf es s' ts)"

lemma toks_Sym:
  assumes "is_line buf es" and "s \<le> es" and "toks buf es s (Sym c # ts)"
  shows "\<exists>f s'. gettoken buf es s = (c, f, s') \<and> s' \<le> es \<and> s < s' \<and> toks buf es s' ts \<and> c \<noteq> 97 \<and> c \<noteq> 0"
proof -
  obtain t f s' where g: "gettoken buf es s = (t, f, s')" by (metis prod_cases3)
  then show ?thesis using assms(3) gettoken_spec(2,3) [OF assms(1,2) g] by auto
qed

lemma toks_Word:
  assumes "is_line buf es" and "s \<le> es" and "toks buf es s (Word f # ts)"
  shows "\<exists>s'. gettoken buf es s = (97, f, s') \<and> s' \<le> es \<and> s < s' \<and> toks buf es s' ts"
proof -
  obtain t g s' where g: "gettoken buf es s = (t, g, s')" by (metis prod_cases3)
  then show ?thesis using assms(3) gettoken_spec(2,3) [OF assms(1,2) g] by auto
qed

text \<open>The first character of a token decides what \<^verbatim>\<open>peek\<close> answers.\<close>

definition lead :: "byte \<Rightarrow> byte" where
  "lead c = (if c = 43 then 62 else c)"

definition begins :: "byte set \<Rightarrow> 'f tk list \<Rightarrow> bool" where
  "begins C ts \<longleftrightarrow> (case ts of Sym c # _ \<Rightarrow> lead c \<in> C | _ \<Rightarrow> False)"

lemma begins_simps [simp]: "begins C [] = False" "begins C (Word f # ts) = False" "begins C (Sym c # ts) = (lead c \<in> C)"
  by (simp_all add: begins_def)

lemma gettoken_skip: "s \<le> es \<Longrightarrow> gettoken buf es (skip_ws buf es s) = gettoken buf es s"
  by (simp add: gettoken_def skip_ws_idem)

lemma toks_skip: "s \<le> es \<Longrightarrow> toks buf es (skip_ws buf es s) ts = toks buf es s ts"
proof (cases ts)
  case (Cons t ts')
  assume "s \<le> es"
  then show ?thesis by (cases t) (simp_all add: Cons gettoken_skip)
qed (simp add: skip_ws_idem)

lemma peek_toks:
  assumes "is_line buf es" and "s \<le> es" and "toks buf es s ts" and "\<And>c. c \<in> set (pbytes toks_str) \<Longrightarrow> symbols c"
  shows "\<exists>s'. peek buf es s toks_str = (s', begins (set (pbytes toks_str)) ts) \<and> s' \<le> es \<and> toks buf es s' ts"
proof -
  define r where "r = skip_ws buf es s"
  have r: "r \<le> es" "toks buf es r ts" using skip_ws_range [OF assms(2), of buf] toks_skip [OF assms(2), of buf ts] assms(3) by (auto simp: r_def)
  have z: "buf es = 0" using assms(1) by (simp add: is_line_def)
  have "(buf r \<noteq> 0 \<and> buf r \<in> set (pbytes toks_str)) = begins (set (pbytes toks_str)) ts"
  proof (cases ts)
    case Nil
    then show ?thesis using assms(3) z by (simp add: r_def)
  next
    case (Cons t ts')
    obtain x f s' where g: "gettoken buf es s = (x, f, s')" by (metis prod_cases3)
    have x: "x = (if buf r = 0 then 0 else if buf r \<in> {124, 40, 41, 59, 38, 60} then buf r
      else if buf r = 62 then if buf (r + 1) = 62 then 43 else 62 else 97)"
      using g by (auto simp: gettoken_def Let_def r_def [symmetric] split: if_splits)
    show ?thesis
    proof (cases t)
      case (Sym c)
      then have c: "x = c" "c \<noteq> 0" "c \<noteq> 97" using assms(3) Cons g by auto
      have "c = 43 \<or> c \<in> {124, 40, 41, 59, 38, 60, 62}" using x c by (auto split: if_splits)
      then have "buf r = lead c" using x c by (auto simp: lead_def split: if_splits)
      moreover have "lead c \<noteq> 0" using c by (simp add: lead_def)
      ultimately show ?thesis using Cons Sym by simp
    next
      case (Word a)
      then have "x = 97" using assms(3) Cons g by auto
      then have "\<not> symbols (buf r)" using x by (auto simp: symbols_def split: if_splits)
      then show ?thesis using Cons Word assms(4) by auto
    qed
  qed
  then show ?thesis using r by (auto simp: peek_def Let_def r_def [symmetric])
qed

lemma toks_length:
  assumes "is_line buf es" and "s \<le> es" and "toks buf es s ts"
  shows "length ts \<le> es - s"
  using assms(2,3)
proof (induction ts arbitrary: s)
  case (Cons t ts)
  obtain s' where "s' \<le> es" "s < s'" "toks buf es s' ts"
    using toks_Sym [OF assms(1) Cons.prems(1)] toks_Word [OF assms(1) Cons.prems(1)] Cons.prems(2) by (cases t) blast+
  then show ?case using Cons.IH [of s'] by simp
qed simp

section \<open>Printing and parsing\<close>

text \<open>Redirections, outermost last, and how they are written.\<close>

definition redir :: "'f cmd \<Rightarrow> 'f \<times> int \<times> int \<Rightarrow> 'f cmd" where
  "redir c r = (case r of (f, mode, fd) \<Rightarrow> REDIR c f mode fd)"

definition rsym :: "int \<Rightarrow> byte" where
  "rsym mode = (if mode = 0 then 60 else if mode = 0x601 then 62 else 43)"

definition redir_ok :: "int \<Rightarrow> int \<Rightarrow> bool" where
  "redir_ok mode fd \<longleftrightarrow> (mode, fd) \<in> {(0, 0), (0x601, 1), (0x201, 1)}"

definition rtoks :: "('f \<times> int \<times> int) list \<Rightarrow> 'f tk list" where
  "rtoks R = concat (map (\<lambda>(f, mode, fd). [Sym (rsym mode), Word f]) R)"

definition paren :: "bool \<Rightarrow> 'f tk list \<Rightarrow> 'f tk list" where
  "paren b ts = (if b then Sym 40 # ts @ [Sym 41] else ts)"

text \<open>
  The tokens of a command where a line (0), a pipeline with ampersands (1), a pipeline (2) or a simple
  command (3) is expected; parentheses where they are needed.
\<close>

primrec pr :: "nat \<Rightarrow> 'f cmd \<Rightarrow> 'f tk list" where
  "pr l (EXEC argv) = map Word argv"
| "pr l (REDIR c f mode fd) = pr 3 c @ [Sym (rsym mode), Word f]"
| "pr l (PIPE a b) = paren (l = 3) (pr 3 a @ Sym 124 # pr 2 b)"
| "pr l (BACK c) = paren (2 \<le> l) (pr 1 c @ [Sym 38])"
| "pr l (LIST a b) = paren (1 \<le> l) (pr 1 a @ Sym 59 # pr 0 b)"

text \<open>Commands that can be written: at most nine arguments, and the redirections of the shell.\<close>

primrec cmd_ok :: "'f cmd \<Rightarrow> bool" where
  "cmd_ok (EXEC argv) \<longleftrightarrow> length argv < MAXARGS"
| "cmd_ok (REDIR c f mode fd) \<longleftrightarrow> cmd_ok c \<and> redir_ok mode fd"
| "cmd_ok (PIPE a b) \<longleftrightarrow> cmd_ok a \<and> cmd_ok b"
| "cmd_ok (BACK c) \<longleftrightarrow> cmd_ok c"
| "cmd_ok (LIST a b) \<longleftrightarrow> cmd_ok a \<and> cmd_ok b"

primrec nodes :: "'f cmd \<Rightarrow> nat" where
  "nodes (EXEC argv) = 1"
| "nodes (REDIR c f mode fd) = nodes c + 1"
| "nodes (PIPE a b) = nodes a + nodes b + 1"
| "nodes (BACK c) = nodes c + 1"
| "nodes (LIST a b) = nodes a + nodes b + 1"

text \<open>The next \<open>n\<close> requests for the memory of a node are met.\<close>

primrec ready :: "'w usys \<Rightarrow> nat \<Rightarrow> uheap \<Rightarrow> 'w \<Rightarrow> bool" where
  "ready y 0 h w \<longleftrightarrow> True"
| "ready y (Suc n) h w \<longleftrightarrow> (\<forall>sz. unat sz \<le> 176 \<longrightarrow> (\<exists>h' q w'. malloc y sz h w = udone (h', q) w' \<and> q \<noteq> 0 \<and> ready y n h' w'))"

text \<open>The parser returns \<open>c\<close> and stops before the tokens \<open>ts\<close>, ready for \<open>n\<close> more nodes.\<close>

definition gives :: "'w usys \<Rightarrow> bytes \<Rightarrow> nat \<Rightarrow> ('w, uheap \<times> nat \<times> pcmd) urun \<Rightarrow> nat \<Rightarrow> pcmd \<Rightarrow> (nat \<times> nat) tk list \<Rightarrow> bool" where
  "gives y buf es r n c ts \<longleftrightarrow> (\<exists>h s w. r = udone (h, s, c) w \<and> ready y n h w \<and> s \<le> es \<and> toks buf es s ts)"

lemma gives_bind:
  assumes "gives y buf es r n c ts" and "\<And>h s w. ready y n h w \<Longrightarrow> s \<le> es \<Longrightarrow> toks buf es s ts \<Longrightarrow> gives y buf es (f h s c w) n' c' ts'"
  shows "gives y buf es (ubnd r (\<lambda>(h, s, c) w. f h s c w)) n' c' ts'"
  using assms(1) unfolding gives_def using assms(2) by (auto simp: gives_def)

lemma node_ready:
  assumes "ready y (n + 1) h w" and "unat sz \<le> 176"
  shows "\<exists>h' w'. node y sz c h w = udone (h', c) w' \<and> ready y n h' w'"
  using assms by (auto simp: node_def)

lemma gives_node:
  assumes "ready y (n + 1) h w" and "unat sz \<le> 176" and "\<And>h w. ready y n h w \<Longrightarrow> gives y buf es (f h c w) n' c' ts"
  shows "gives y buf es (ubnd (node y sz c h w) (\<lambda>(h, c) w. f h c w)) n' c' ts"
  using node_ready [OF assms(1,2), of c] assms(3) by auto

lemma gives_done: "ready y n h w \<Longrightarrow> s \<le> es \<Longrightarrow> toks buf es s ts \<Longrightarrow> gives y buf es (udone (h, s, c) w) n c ts"
  by (auto simp: gives_def)

lemma symbol_toks: "c \<in> set (pbytes ''<>'') \<Longrightarrow> symbols c" "c \<in> set (pbytes ''|)&;'') \<Longrightarrow> symbols c" "c \<in> set (pbytes ''&'') \<Longrightarrow> symbols c"
  "c \<in> set (pbytes '';'') \<Longrightarrow> symbols c" "c \<in> set (pbytes ''|'') \<Longrightarrow> symbols c" "c \<in> set (pbytes ''('') \<Longrightarrow> symbols c" "c \<in> set (pbytes '')'') \<Longrightarrow> symbols c"
  by (auto simp: pbytes_def symbols_def)

lemma symbol_sets: "set (pbytes ''<>'') = {60, 62}" "set (pbytes ''|)&;'') = {124, 41, 38, 59}" "set (pbytes ''&'') = {38}"
  "set (pbytes '';'') = {59}" "set (pbytes ''|'') = {124}" "set (pbytes ''('') = {40}" "set (pbytes '')'') = {41}"
  by (auto simp: pbytes_def)

lemma redir_simp [simp]: "redir c (f, mode, fd) = REDIR c f mode fd"
  by (simp add: redir_def)

lemma rtoks_simps [simp]: "rtoks [] = []" "rtoks ((f, mode, fd) # R) = Sym (rsym mode) # Word f # rtoks R"
  by (simp_all add: rtoks_def)

lemma parseredirs_gives:
  assumes "is_line buf es" and "s \<le> es" and "toks buf es s (rtoks R @ ts)" and "\<not> begins {60, 62} ts" and "length R < k"
    and "ready y (n + length R) h w" and "\<And>f mode fd. (f, mode, fd) \<in> set R \<Longrightarrow> redir_ok mode fd"
  shows "gives y buf es (parseredirs k y buf es c s h w) n (foldl redir c R) ts"
  using assms(2-7)
proof (induction R arbitrary: k c s h w)
  case Nil
  obtain k' where k: "k = Suc k'" using Nil.prems(4) by (cases k) auto
  obtain s' where "peek buf es s ''<>'' = (s', False)" "s' \<le> es" "toks buf es s' ts"
    using peek_toks [OF assms(1) Nil.prems(1), of ts "''<>''"] symbol_toks(1) Nil.prems(2,3) symbol_sets(1) by auto
  then show ?case using Nil.prems(5) by (simp add: k gives_done)
next
  case (Cons r R)
  obtain f mode fd where r: "r = (f, mode, fd)" by (metis prod_cases3)
  have ok: "redir_ok mode fd" using Cons.prems(6) [of f mode fd] r by simp
  obtain k' where k: "k = Suc k'" "length R < k'" using Cons.prems(4) by (cases k) auto
  have l: "lead (rsym mode) \<in> {60, 62}" using ok by (auto simp: redir_ok_def rsym_def lead_def)
  have t0: "toks buf es s (Sym (rsym mode) # Word f # rtoks R @ ts)" using Cons.prems(2) r by simp
  obtain s1 where p: "peek buf es s ''<>'' = (s1, True)" "s1 \<le> es" "toks buf es s1 (Sym (rsym mode) # Word f # rtoks R @ ts)"
    using peek_toks [OF assms(1) Cons.prems(1) t0, of "''<>''"] symbol_toks(1) l symbol_sets(1) by auto
  obtain g s2 where g: "gettoken buf es s1 = (rsym mode, g, s2)" "s2 \<le> es" "toks buf es s2 (Word f # rtoks R @ ts)"
    using toks_Sym [OF assms(1) p(2,3)] by blast
  obtain s3 where g3: "gettoken buf es s2 = (97, f, s3)" "s3 \<le> es" "toks buf es s3 (rtoks R @ ts)"
    using toks_Word [OF assms(1) g(2,3)] by blast
  have "gives y buf es (ubnd (redircmd y c f mode fd h w) (\<lambda>(h, cmd) w. parseredirs k' y buf es cmd s3 h w)) n (foldl redir (REDIR c f mode fd) R) ts"
    unfolding redircmd_def
  proof (rule gives_node)
    show "ready y ((n + length R) + 1) h w" using Cons.prems(5) by simp
    show "gives y buf es (parseredirs k' y buf es (REDIR c f mode fd) s3 h w) n (foldl redir (REDIR c f mode fd) R) ts"
      if "ready y (n + length R) h w" for h w
      by (rule Cons.IH [OF g3(2,3) Cons.prems(3) k(2) that]) (rule Cons.prems(6), rule list.set_intros(2))
  qed simp
  then show ?case using ok p(1) g(1) g3(1) by (auto simp: k r redir_ok_def rsym_def)
qed


lemma peek_at:
  assumes "is_line buf es" and "s \<le> es" and "toks buf es s ts" and "q \<in> {''<>'', ''|)&;'', ''&'', '';'', ''|'', ''('', '')''}"
  shows "\<exists>s'. peek buf es s q = (s', begins (set (pbytes q)) ts) \<and> s' \<le> es \<and> toks buf es s' ts"
  by (rule peek_toks [OF assms(1-3)]) (use assms(4) symbol_toks in blast)

definition follows :: "byte set \<Rightarrow> 'f tk list \<Rightarrow> bool" where
  "follows C ts \<longleftrightarrow> ts = [] \<or> begins C ts"

lemma follows_not: "follows C ts \<Longrightarrow> C \<inter> D = {} \<Longrightarrow> \<not> begins D ts"
  by (auto simp: follows_def begins_def split: list.splits tk.splits)

lemma follows_mono: "follows C ts \<Longrightarrow> C \<subseteq> D \<Longrightarrow> follows D ts"
  by (auto simp: follows_def begins_def split: list.splits tk.splits)

lemma toks_end:
  assumes "is_line buf es" and "s \<le> es" and "toks buf es s []"
  shows "\<exists>f s'. gettoken buf es s = (0, f, s') \<and> s' \<le> es \<and> toks buf es s' []"
proof -
  obtain t f s' where g: "gettoken buf es s = (t, f, s')" by (metis prod_cases3)
  note G = gettoken_spec [OF assms(1,2) g]
  have t: "t = 0" using G(6) assms(3) by simp
  have "buf es = 0" using assms(1) by (simp add: is_line_def)
  then have "s' = skip_ws buf es es" using g assms(3) by (auto simp: gettoken_def)
  then show ?thesis using g t G(2) assms(2) skip_ws_idem [of es es buf] by (auto simp: skip_ws.simps)
qed

lemma parseargs_end:
  assumes "is_line buf es" and "s \<le> es" and "toks buf es s ts" and "follows {124, 41, 38, 59} ts" and "ready y n h w" and "0 < k"
  shows "gives y buf es (parseargs k y buf es argc ret s h w) n ret ts"
proof -
  obtain k' where k: "k = Suc k'" using assms(6) by (cases k) auto
  obtain s1 where p: "peek buf es s ''|)&;'' = (s1, begins {124, 41, 38, 59} ts)" "s1 \<le> es" "toks buf es s1 ts"
    using peek_at [OF assms(1-3), of "''|)&;''"] symbol_sets(2) by auto
  show ?thesis
  proof (cases "ts = []")
    case True
    obtain f s2 where "gettoken buf es s1 = (0, f, s2)" "s2 \<le> es" "toks buf es s2 []" using toks_end [OF assms(1) p(2)] p(3) True by blast
    then show ?thesis using p True assms(5) by (simp add: gives_done k)
  next
    case False
    then have "begins {124, 41, 38, 59} ts" using assms(4) by (simp add: follows_def)
    then show ?thesis using p assms(5) by (simp add: gives_done k)
  qed
qed

lemma parseargs_gives:
  assumes "is_line buf es" and "s \<le> es" and "toks buf es s (map Word (a # ws) @ rtoks R @ ts)" and "follows {124, 41, 38, 59} ts"
    and "length as + length (a # ws) < MAXARGS" and "length (a # ws) + length R < k"
    and "ready y (n + length R) h w" and ok: "\<And>f mode fd. (f, mode, fd) \<in> set R \<Longrightarrow> redir_ok mode fd"
  shows "gives y buf es (parseargs k y buf es (length as) (EXEC as) s h w) n (foldl redir (EXEC (as @ a # ws)) R) ts"
  using assms(2,3,5-7)
proof (induction ws arbitrary: a "as" k s h w)
  case Nil
  obtain k' where k: "k = Suc k'" "length R < k'" "0 < k'" using Nil.prems(4) by (cases k) auto
  obtain s1 where p: "peek buf es s ''|)&;'' = (s1, False)" "s1 \<le> es" "toks buf es s1 (Word a # rtoks R @ ts)"
    using peek_at [OF assms(1) Nil.prems(1,2), of "''|)&;''"] by auto
  obtain s2 where g: "gettoken buf es s1 = (97, a, s2)" "s2 \<le> es" "toks buf es s2 (rtoks R @ ts)" using toks_Word [OF assms(1) p(2,3)] by blast
  have "gives y buf es (parseredirs k' y buf es (EXEC (as @ [a])) s2 h w) n (foldl redir (EXEC (as @ [a])) R) ts"
    by (rule parseredirs_gives [OF assms(1) g(2,3) follows_not [OF assms(4)] k(2) Nil.prems(5) ok]) auto
  then have "gives y buf es (ubnd (parseredirs k' y buf es (EXEC (as @ [a])) s2 h w) (\<lambda>(h, s, ret) w. parseargs k' y buf es (Suc (length as)) ret s h w))
      n (foldl redir (EXEC (as @ [a])) R) ts"
    by (rule gives_bind) (rule parseargs_end [OF assms(1) _ _ assms(4) _ k(3)])
  then show ?case using p(1) g(1) Nil.prems(3) by (simp add: k)
next
  case (Cons b ws)
  obtain k' where k: "k = Suc k'" "length (b # ws) + length R < k'" using Cons.prems(4) by (cases k) auto
  obtain s1 where p: "peek buf es s ''|)&;'' = (s1, False)" "s1 \<le> es" "toks buf es s1 (Word a # Word b # map Word ws @ rtoks R @ ts)"
    using peek_at [OF assms(1) Cons.prems(1,2), of "''|)&;''"] by auto
  obtain s2 where g: "gettoken buf es s1 = (97, a, s2)" "s2 \<le> es" "toks buf es s2 (map Word (b # ws) @ rtoks R @ ts)"
    using toks_Word [OF assms(1) p(2,3)] by auto
  have "gives y buf es (parseredirs k' y buf es (EXEC (as @ [a])) s2 h w) (n + length R) (foldl redir (EXEC (as @ [a])) []) (map Word (b # ws) @ rtoks R @ ts)"
    by (rule parseredirs_gives [OF assms(1) g(2)]) (use g(3) k(2) Cons.prems(5) in auto)
  then have "gives y buf es (ubnd (parseredirs k' y buf es (EXEC (as @ [a])) s2 h w) (\<lambda>(h, s, ret) w. parseargs k' y buf es (length (as @ [a])) ret s h w))
      n (foldl redir (EXEC ((as @ [a]) @ b # ws)) R) ts"
    unfolding foldl.simps by (rule gives_bind) (rule Cons.IH, use Cons.prems(3) k(2) in simp_all)
  then show ?case using p(1) g(1) Cons.prems(3) by (simp add: k)
qed


text \<open>A simple command is a core, not a redirection, under redirections.\<close>

primrec core :: "pcmd \<Rightarrow> pcmd \<times> ((nat \<times> nat) \<times> int \<times> int) list" where
  "core (EXEC argv) = (EXEC argv, [])"
| "core (REDIR c f mode fd) = (fst (core c), snd (core c) @ [(f, mode, fd)])"
| "core (PIPE a b) = (PIPE a b, [])"
| "core (BACK c) = (BACK c, [])"
| "core (LIST a b) = (LIST a b, [])"

lemma core_spec:
  assumes "cmd_ok c" and "core c = (d, R)"
  shows "c = foldl redir d R" "pr 3 c = pr 3 d @ rtoks R" "nodes c = nodes d + length R" "cmd_ok d"
    "(\<exists>argv. d = EXEC argv) \<or> pr 3 d = Sym 40 # pr 0 d @ [Sym 41]" "(f, mode, fd) \<in> set R \<Longrightarrow> redir_ok mode fd"
  using assms
proof (induction c arbitrary: R)
  case (REDIR c g m i)
  {
    case 1 then show ?case using REDIR(1) [of "snd (core c)"] by (auto simp: prod_eq_iff)
  next
    case 2 then show ?case using REDIR(2) [of "snd (core c)"] by (auto simp: prod_eq_iff rtoks_def)
  next
    case 3 then show ?case using REDIR(3) [of "snd (core c)"] by (auto simp: prod_eq_iff)
  next
    case 4 then show ?case using REDIR(4) [of "snd (core c)"] by (auto simp: prod_eq_iff)
  next
    case 5 then show ?case using REDIR(5) [of "snd (core c)"] by (auto simp: prod_eq_iff)
  next
    case 6 then show ?case using REDIR(6) [of "snd (core c)"] by (auto simp: prod_eq_iff)
  }
qed (auto simp: paren_def)

text \<open>The parser \<open>line\<close> reads the command \<open>c\<close> where a line is expected; all commands of fewer than \<open>m - 1\<close> tokens.\<close>

definition reads :: "'w usys \<Rightarrow> bytes \<Rightarrow> nat \<Rightarrow> pcmd \<Rightarrow> 'w parser \<Rightarrow> bool" where
  "reads y buf es c line \<longleftrightarrow> (\<forall>s h w ts n. s \<le> es \<longrightarrow> toks buf es s (pr 0 c @ ts) \<longrightarrow> follows {41} ts \<longrightarrow> ready y (n + nodes c) h w
     \<longrightarrow> gives y buf es (line s h w) n c ts)"

definition reads_below :: "'w usys \<Rightarrow> bytes \<Rightarrow> nat \<Rightarrow> nat \<Rightarrow> 'w parser \<Rightarrow> bool" where
  "reads_below y buf es m line \<longleftrightarrow> (\<forall>c. cmd_ok c \<longrightarrow> length (pr 0 c) + 2 \<le> m \<longrightarrow> reads y buf es c line)"

lemma reads_below_mono: "reads_below y buf es m line \<Longrightarrow> m' \<le> m \<Longrightarrow> reads_below y buf es m' line"
  by (auto simp: reads_below_def)

lemma readsD: "reads y buf es c line \<Longrightarrow> s \<le> es \<Longrightarrow> toks buf es s (pr 0 c @ ts) \<Longrightarrow> follows {41} ts \<Longrightarrow> ready y (n + nodes c) h w
    \<Longrightarrow> gives y buf es (line s h w) n c ts"
  unfolding reads_def by blast

lemma parseblock_gives:
  assumes "is_line buf es" and "s \<le> es" and "toks buf es s (Sym 40 # pr 0 d @ Sym 41 # rtoks R @ ts)" and "\<not> begins {60, 62} ts" and "length R < k"
    and "ready y (n + nodes d + length R) h w" and "reads y buf es d line" and "\<And>f mode fd. (f, mode, fd) \<in> set R \<Longrightarrow> redir_ok mode fd"
  shows "gives y buf es (parseblock line k y buf es s h w) n (foldl redir d R) ts"
proof -
  obtain s1 where p: "peek buf es s ''('' = (s1, True)" "s1 \<le> es" "toks buf es s1 (Sym 40 # pr 0 d @ Sym 41 # rtoks R @ ts)"
    using peek_at [OF assms(1-3), of "''(''"] symbol_sets(6) by (auto simp: lead_def)
  obtain f s2 where g: "gettoken buf es s1 = (40, f, s2)" "s2 \<le> es" "toks buf es s2 (pr 0 d @ Sym 41 # rtoks R @ ts)"
    using toks_Sym [OF assms(1) p(2,3)] by blast
  have l: "gives y buf es (line s2 h w) (n + length R) d (Sym 41 # rtoks R @ ts)"
    using assms(6,7) g(2,3) by (auto simp: reads_def follows_def lead_def add.assoc add.commute [of "nodes d"])
  have "gives y buf es (ubnd (line s2 h w) (\<lambda>(h, s, cmd) w.
        let (s, ok) = peek buf es s '')'' in
        if \<not> ok then sh_panic y ''syntax - missing )'' w
        else let (_, _, s) = gettoken buf es s in parseredirs k y buf es cmd s h w)) n (foldl redir d R) ts"
  proof (rule gives_bind [OF l])
    fix h s w
    assume a: "ready y (n + length R) h w" "s \<le> es" "toks buf es s (Sym 41 # rtoks R @ ts)"
    obtain s3 where p3: "peek buf es s '')'' = (s3, True)" "s3 \<le> es" "toks buf es s3 (Sym 41 # rtoks R @ ts)"
      using peek_at [OF assms(1) a(2,3), of "'')''"] symbol_sets(7) by (auto simp: lead_def)
    obtain f s4 where g4: "gettoken buf es s3 = (41, f, s4)" "s4 \<le> es" "toks buf es s4 (rtoks R @ ts)" using toks_Sym [OF assms(1) p3(2,3)] by blast
    show "gives y buf es (let (s, ok) = peek buf es s '')'' in
        if \<not> ok then sh_panic y ''syntax - missing )'' w
        else let (_, _, s) = gettoken buf es s in parseredirs k y buf es d s h w) n (foldl redir d R) ts"
      using parseredirs_gives [OF assms(1) g4(2,3) assms(4,5) a(1) assms(8)] p3(1) g4(1) by simp
  qed
  then show ?thesis using p(1) g(1) by (simp add: parseblock_def)
qed

lemma parseexec_gives:
  assumes "is_line buf es" and "s \<le> es" and "toks buf es s (pr 3 c @ ts)" and "follows {124, 41, 38, 59} ts" and "cmd_ok c" and "length (pr 3 c) < k"
    and "ready y (n + nodes c) h w" and "reads_below y buf es (length (pr 3 c)) line"
  shows "gives y buf es (parseexec line k y buf es s h w) n c ts"
proof -
  obtain d R where d: "core c = (d, R)" by fastforce
  note D = core_spec [OF assms(5) d]
  have R: "length R \<le> length (rtoks R)" by (induction R) (auto simp: rtoks_def)
  obtain s1 where p: "peek buf es s ''('' = (s1, begins {40} (pr 3 c @ ts))" "s1 \<le> es" "toks buf es s1 (pr 3 d @ rtoks R @ ts)"
    using peek_at [OF assms(1-3), of "''(''"] symbol_sets(6) D(2) by auto
  have nr: "\<not> begins {60, 62} ts" using follows_not [OF assms(4)] by simp
  show ?thesis
  proof (cases "\<exists>argv. d = EXEC argv")
    case False
    then have d3: "pr 3 d = Sym 40 # pr 0 d @ [Sym 41]" using D(5) by blast
    have "reads y buf es d line" using assms(8) D(2,4) d3 by (simp add: reads_below_def)
    then have "gives y buf es (parseblock line k y buf es s1 h w) n (foldl redir d R) ts"
      using p(3) assms(6,7) D(2,3) R d3 by (intro parseblock_gives [OF assms(1) p(2) _ nr _ _ _ D(6)]) (auto simp: add.assoc)
    then show ?thesis using p(1) D(1,2) d3 by (simp add: parseexec_def lead_def)
  next
    case True
    then obtain argv where e: "d = EXEC argv" by blast
    have nb: "\<not> begins {40} (pr 3 c @ ts)"
      using follows_not [OF assms(4), of "{40}"] D(2) e by (cases argv; cases R) (auto simp: lead_def rsym_def split: if_splits)
    have "gives y buf es (ubnd (execcmd y h w) (\<lambda>(h, ret) w. ubnd (parseredirs k y buf es ret s1 h w) (\<lambda>(h, s, ret) w. parseargs k y buf es 0 ret s h w)))
        n (foldl redir d R) ts"
      unfolding execcmd_def
    proof (rule gives_node)
      show "ready y ((n + length R) + 1) h w" using assms(7) D(3) e by (simp add: add.assoc)
      fix h :: uheap and w
      assume h: "ready y (n + length R) h w"
      show "gives y buf es (ubnd (parseredirs k y buf es (EXEC []) s1 h w) (\<lambda>(h, s, ret) w. parseargs k y buf es 0 ret s h w)) n (foldl redir d R) ts"
      proof (cases argv)
        case Nil
        have "gives y buf es (parseredirs k y buf es (EXEC []) s1 h w) n (foldl redir (EXEC []) R) ts"
          by (rule parseredirs_gives [OF assms(1) p(2) _ nr _ h D(6)]) (use p(3) assms(6) D(2) R e Nil in auto)
        then show ?thesis unfolding e Nil by (rule gives_bind) (rule parseargs_end [OF assms(1) _ _ assms(4)], use assms(6) in auto)
      next
        case (Cons a ws)
        have "gives y buf es (parseredirs k y buf es (EXEC []) s1 h w) (n + length R) (foldl redir (EXEC []) []) (map Word (a # ws) @ rtoks R @ ts)"
          by (rule parseredirs_gives [OF assms(1) p(2)]) (use p(3) assms(6) h e Cons in auto)
        then show ?thesis unfolding e Cons foldl.simps(1)
        proof (rule gives_bind)
          fix h s w
          assume a: "ready y (n + length R) h w" "s \<le> es" "toks buf es s (map Word (a # ws) @ rtoks R @ ts)"
          show "gives y buf es (parseargs k y buf es 0 (EXEC []) s h w) n (foldl redir (EXEC (a # ws)) R) ts"
            using parseargs_gives [OF assms(1) a(2,3) assms(4) _ _ a(1) D(6), where as = "[]" and k = k] D(2,4) R assms(6) e Cons by simp
        qed
      qed
    qed simp
    then show ?thesis using p(1) nb D(1) by (simp add: parseexec_def)
  qed
qed


lemma parsepipe_gives:
  assumes "is_line buf es" and "s \<le> es" and "toks buf es s (pr 2 c @ ts)" and "follows {41, 38, 59} ts" and "cmd_ok c" and "length (pr 2 c) + 1 < k"
    and "ready y (n + nodes c) h w" and "reads_below y buf es (length (pr 2 c)) line"
  shows "gives y buf es (parsepipe k line y buf es s h w) n c ts"
  using assms(2,3,5-8)
proof (induction k arbitrary: c s h w n)
  case (Suc k)
  show ?case
  proof (cases "\<exists>a b. c = PIPE a b")
    case True
    then obtain a b where c: "c = PIPE a b" by blast
    have l: "pr 2 c = pr 3 a @ Sym 124 # pr 2 b" by (simp add: c paren_def)
    have f: "follows {124, 41, 38, 59} (Sym 124 # pr 2 b @ ts)" by (simp add: follows_def lead_def)
    have e: "gives y buf es (parseexec line k y buf es s h w) (n + 1 + nodes b) a (Sym 124 # pr 2 b @ ts)"
      by (rule parseexec_gives [OF assms(1) Suc.prems(1) _ f])
        (use Suc.prems l c in \<open>auto simp: ac_simps intro: reads_below_mono\<close>)
    show ?thesis unfolding parsepipe.simps
    proof (rule gives_bind [OF e])
      fix h s w
      assume a: "ready y (n + 1 + nodes b) h w" "s \<le> es" "toks buf es s (Sym 124 # pr 2 b @ ts)"
      obtain s1 where p: "peek buf es s ''|'' = (s1, True)" "s1 \<le> es" "toks buf es s1 (Sym 124 # pr 2 b @ ts)"
        using peek_at [OF assms(1) a(2,3), of "''|''"] symbol_sets(5) by (auto simp: lead_def)
      obtain f s2 where g: "gettoken buf es s1 = (124, f, s2)" "s2 \<le> es" "toks buf es s2 (pr 2 b @ ts)" using toks_Sym [OF assms(1) p(2,3)] by blast
      have r: "gives y buf es (parsepipe k line y buf es s2 h w) (n + 1) b ts"
        by (rule Suc.IH [OF g(2,3)]) (use Suc.prems l c a(1) in \<open>auto intro: reads_below_mono\<close>)
      have "gives y buf es (ubnd (parsepipe k line y buf es s2 h w) (\<lambda>(h, s, right) w. ubnd (pipecmd y a right h w) (\<lambda>(h, cmd) w. udone (h, s, cmd) w))) n c ts"
        by (rule gives_bind [OF r], unfold pipecmd_def c, rule gives_node) (auto intro: gives_done)
      then show "gives y buf es (let (s, more) = peek buf es s ''|'' in
           if more then let (_, _, s) = gettoken buf es s in
             ubnd (parsepipe k line y buf es s h w) (\<lambda>(h, s, right) w. ubnd (pipecmd y a right h w) (\<lambda>(h, cmd) w. udone (h, s, cmd) w))
           else udone (h, s, a) w) n c ts"
        using p(1) g(1) by simp
    qed
  next
    case False
    then have l: "pr 2 c = pr 3 c" by (cases c) (auto simp: paren_def)
    have e: "gives y buf es (parseexec line k y buf es s h w) n c ts"
      by (rule parseexec_gives [OF assms(1) Suc.prems(1)]) (use Suc.prems l assms(4) in \<open>auto intro: follows_mono\<close>)
    show ?thesis unfolding parsepipe.simps
    proof (rule gives_bind [OF e])
      fix h s w
      assume a: "ready y n h w" "s \<le> es" "toks buf es s ts"
      obtain s1 where "peek buf es s ''|'' = (s1, False)" "s1 \<le> es" "toks buf es s1 ts"
        using peek_at [OF assms(1) a(2,3), of "''|''"] symbol_sets(5) follows_not [OF assms(4), of "{124}"] by auto
      then show "gives y buf es (let (s, more) = peek buf es s ''|'' in
           if more then let (_, _, s) = gettoken buf es s in
             ubnd (parsepipe k line y buf es s h w) (\<lambda>(h, s, right) w. ubnd (pipecmd y c right h w) (\<lambda>(h, cmd) w. udone (h, s, cmd) w))
           else udone (h, s, c) w) n c ts"
        using a(1) by (simp add: gives_done)
    qed
  qed
qed simp

lemma parseback_gives:
  assumes "is_line buf es" and "s \<le> es" and "toks buf es s (replicate j (Sym 38) @ ts)" and "\<not> begins {38} ts" and "j < k" and "ready y (n + j) h w"
  shows "gives y buf es (parseback k y buf es c s h w) n ((BACK ^^ j) c) ts"
  using assms(2,3,5,6)
proof (induction j arbitrary: k c s h w)
  case 0
  obtain k' where k: "k = Suc k'" using 0 by (cases k) auto
  obtain s1 where "peek buf es s ''&'' = (s1, False)" "s1 \<le> es" "toks buf es s1 ts"
    using peek_at [OF assms(1) 0(1), of ts "''&''"] symbol_sets(3) assms(4) 0(2) by auto
  then show ?case using 0(4) by (simp add: k gives_done)
next
  case (Suc j)
  obtain k' where k: "k = Suc k'" "j < k'" using Suc.prems(3) by (cases k) auto
  have t: "toks buf es s (Sym 38 # replicate j (Sym 38) @ ts)" using Suc.prems(2) by simp
  obtain s1 where p: "peek buf es s ''&'' = (s1, True)" "s1 \<le> es" "toks buf es s1 (Sym 38 # replicate j (Sym 38) @ ts)"
    using peek_at [OF assms(1) Suc.prems(1) t, of "''&''"] symbol_sets(3) by (auto simp: lead_def)
  obtain f s2 where g: "gettoken buf es s1 = (38, f, s2)" "s2 \<le> es" "toks buf es s2 (replicate j (Sym 38) @ ts)" using toks_Sym [OF assms(1) p(2,3)] by blast
  have "gives y buf es (ubnd (backcmd y c h w) (\<lambda>(h, cmd) w. parseback k' y buf es cmd s2 h w)) n ((BACK ^^ j) (BACK c)) ts"
    unfolding backcmd_def
    by (rule gives_node [of _ "n + j"], use Suc.prems(4) in simp) (auto intro: Suc.IH [OF g(2,3) k(2)])
  then show ?case using p(1) g(1) by (simp add: k funpow_swap1)
qed


lemma back_split:
  "cmd_ok c \<Longrightarrow> \<exists>j d. c = (BACK ^^ j) d \<and> pr 1 c = pr 2 d @ replicate j (Sym 38) \<and> nodes c = nodes d + j \<and> cmd_ok d"
proof (induction c)
  case (BACK c)
  then obtain j d where d: "c = (BACK ^^ j) d" "pr 1 c = pr 2 d @ replicate j (Sym 38)" "nodes c = nodes d + j" "cmd_ok d" by auto
  have "pr 1 (BACK c) = pr 2 d @ replicate (Suc j) (Sym 38)" using d(2) by (simp add: paren_def replicate_append_same)
  moreover have "BACK c = (BACK ^^ Suc j) d" "nodes (BACK c) = nodes d + Suc j" using d(1,3) by simp_all
  ultimately show ?case using d(4) by blast
qed (auto simp: paren_def intro!: exI [of _ 0])

lemma parsefirst_gives:
  assumes "is_line buf es" and "s \<le> es" and "toks buf es s (pr 1 a @ ts)" and "follows {41, 59} ts" and "cmd_ok a" and "length (pr 1 a) + 1 < k"
    and "ready y (n + nodes a) h w" and "reads_below y buf es (length (pr 1 a)) line"
    and "\<And>h s w. ready y n h w \<Longrightarrow> s \<le> es \<Longrightarrow> toks buf es s ts \<Longrightarrow> gives y buf es (f h s a w) n' c ts'"
  shows "gives y buf es (ubnd (parsepipe k line y buf es s h w) (\<lambda>(h, s, cmd) w. ubnd (parseback k y buf es cmd s h w) (\<lambda>(h, s, cmd) w. f h s cmd w))) n' c ts'"
proof -
  obtain j d where d: "a = (BACK ^^ j) d" "pr 1 a = pr 2 d @ replicate j (Sym 38)" "nodes a = nodes d + j" "cmd_ok d"
    using back_split [OF assms(5)] by blast
  have f: "follows {41, 38, 59} (replicate j (Sym 38) @ ts)" using follows_mono [OF assms(4)] by (cases j) (auto simp: follows_def lead_def)
  have p: "gives y buf es (parsepipe k line y buf es s h w) (n + j) d (replicate j (Sym 38) @ ts)"
    by (rule parsepipe_gives [OF assms(1,2) _ f d(4)]) (use assms(3,6,7,8) d(2,3) in \<open>auto simp: ac_simps intro: reads_below_mono\<close>)
  show ?thesis
  proof (rule gives_bind [OF p])
    fix h s w
    assume a: "ready y (n + j) h w" "s \<le> es" "toks buf es s (replicate j (Sym 38) @ ts)"
    have "gives y buf es (parseback k y buf es d s h w) n a ts" unfolding d(1)
      by (rule parseback_gives [OF assms(1) a(2,3) follows_not [OF assms(4)] _ a(1)]) (use assms(6) d(2) in auto)
    then show "gives y buf es (ubnd (parseback k y buf es d s h w) (\<lambda>(h, s, cmd) w. f h s cmd w)) n' c ts'"
      by (rule gives_bind) (rule assms(9))
  qed
qed

lemma parseline_reads:
  assumes "is_line buf es"
  shows "cmd_ok c \<Longrightarrow> length (pr 0 c) + 3 \<le> k \<Longrightarrow> reads y buf es c (parseline k y buf es)"
proof (induction k arbitrary: c)
  case (Suc k)
  have below: "reads_below y buf es m (parseline k y buf es)" if "m \<le> length (pr 0 c)" for m
    using Suc that by (auto simp: reads_below_def)
  have "gives y buf es (parseline (Suc k) y buf es s h w) n c ts"
    if a: "s \<le> es" "toks buf es s (pr 0 c @ ts)" "follows {41} ts" "ready y (n + nodes c) h w" for s h w ts n
  proof (cases "\<exists>a b. c = LIST a b")
    case True
    then obtain a b where c: "c = LIST a b" by blast
    have l: "pr 0 c = pr 1 a @ Sym 59 # pr 0 b" by (simp add: c paren_def)
    have f: "follows {41, 59} (Sym 59 # pr 0 b @ ts)" by (simp add: follows_def lead_def)
    show ?thesis unfolding parseline.simps
    proof (rule parsefirst_gives [OF assms a(1) _ f])
      fix h s w
      assume b: "ready y (n + 1 + nodes b) h w" "s \<le> es" "toks buf es s (Sym 59 # pr 0 b @ ts)"
      obtain s1 where p: "peek buf es s '';'' = (s1, True)" "s1 \<le> es" "toks buf es s1 (Sym 59 # pr 0 b @ ts)"
        using peek_at [OF assms b(2,3), of "'';''"] symbol_sets(4) by (auto simp: lead_def)
      obtain g s2 where g: "gettoken buf es s1 = (59, g, s2)" "s2 \<le> es" "toks buf es s2 (pr 0 b @ ts)" using toks_Sym [OF assms p(2,3)] by blast
      have "reads y buf es b (parseline k y buf es)" by (rule Suc.IH) (use Suc.prems l c in auto)
      then have r: "gives y buf es (parseline k y buf es s2 h w) (n + 1) b ts" using a(3) b(1) g(2,3) by (intro readsD)
      have "gives y buf es (ubnd (parseline k y buf es s2 h w) (\<lambda>(h, s, right) w. ubnd (listcmd y a right h w) (\<lambda>(h, cmd) w. udone (h, s, cmd) w))) n c ts"
        by (rule gives_bind [OF r], unfold listcmd_def c, rule gives_node) (auto intro: gives_done)
      then show "gives y buf es (let (s, more) = peek buf es s '';'' in
           if more then let (_, _, s) = gettoken buf es s in
             ubnd (parseline k y buf es s h w) (\<lambda>(h, s, right) w. ubnd (listcmd y a right h w) (\<lambda>(h, cmd) w. udone (h, s, cmd) w))
           else udone (h, s, a) w) n c ts"
        using p(1) g(1) by simp
    qed (use Suc.prems l c a(2,4) below in \<open>auto simp: ac_simps\<close>)
  next
    case False
    then have l: "pr 1 c = pr 0 c" by (cases c) (auto simp: paren_def)
    show ?thesis unfolding parseline.simps
    proof (rule parsefirst_gives [OF assms a(1) _ follows_mono [OF a(3)] _ _ a(4)])
      fix h s w
      assume b: "ready y n h w" "s \<le> es" "toks buf es s ts"
      obtain s1 where "peek buf es s '';'' = (s1, False)" "s1 \<le> es" "toks buf es s1 ts"
        using peek_at [OF assms b(2,3), of "'';''"] symbol_sets(4) follows_not [OF a(3), of "{59}"] by auto
      then show "gives y buf es (let (s, more) = peek buf es s '';'' in
           if more then let (_, _, s) = gettoken buf es s in
             ubnd (parseline k y buf es s h w) (\<lambda>(h, s, right) w. ubnd (listcmd y c right h w) (\<lambda>(h, cmd) w. udone (h, s, cmd) w))
           else udone (h, s, c) w) n c ts"
        using b(1) by (simp add: gives_done)
    qed (use Suc.prems l a(2) below in auto)
  qed
  then show ?case unfolding reads_def by blast
qed simp

lemma parsecmd_toks:
  assumes "is_line buf es" and "toks buf es 0 (pr 0 c)" and "cmd_ok c" and "ready y (nodes c) h w"
  shows "\<exists>h' w'. parsecmd y buf h w = udone (h', c, nulterminate c buf) w'"
proof -
  have "length (pr 0 c) + 3 \<le> parse_bound es" using toks_length [OF assms(1) _ assms(2)] by (simp add: parse_bound_def)
  then have "reads y buf es c (parseline (parse_bound es) y buf es)" by (rule parseline_reads [OF assms(1,3)])
  then have "gives y buf es (parseline (parse_bound es) y buf es 0 h w) 0 c []"
    by (rule readsD) (use assms(2,4) in \<open>auto simp: follows_def\<close>)
  then show ?thesis unfolding gives_def by (auto simp: parsecmd_def is_line_strlen [OF assms(1)] peek_def)
qed


section \<open>Commands as text\<close>

text \<open>A command whose words are strings, and the line that writes it: a blank after every token and a newline at the end.\<close>

primrec tk_text :: "byte list tk \<Rightarrow> byte list" where
  "tk_text (Sym c) = (if c = 43 then [62, 62] else [c])"
| "tk_text (Word v) = v"

definition print_cmd :: "byte list cmd \<Rightarrow> byte list" where
  "print_cmd c = concat (map (\<lambda>t. tk_text t @ [32]) (pr 0 c)) @ [10]"

definition line_of :: "byte list \<Rightarrow> bytes" where
  "line_of l i = (if i < length l then l ! i else 0)"

definition word_ok :: "byte list \<Rightarrow> bool" where
  "word_ok v \<longleftrightarrow> v \<noteq> [] \<and> list_all wordch v"

definition tk_ok :: "byte list tk \<Rightarrow> bool" where
  "tk_ok t = (case t of Sym c \<Rightarrow> c \<in> {60, 124, 62, 38, 59, 40, 41, 43} | Word v \<Rightarrow> word_ok v)"

abbreviation spells :: "bytes \<Rightarrow> byte list \<Rightarrow> nat \<times> nat \<Rightarrow> bool" where
  "spells buf v f \<equiv> v = map buf [fst f..<snd f]"

lemma word_end_text:
  assumes "\<And>i. s \<le> i \<Longrightarrow> i < e \<Longrightarrow> wordch (buf i)" and "s \<le> e" and "e < es" and "buf e = 32"
  shows "word_end buf es s = e"
proof -
  have "s \<le> es" using assms(2,3) by simp
  note W = word_end_range [OF this, of buf]
  have "\<not> word_end buf es s < e"
  proof
    assume "word_end buf es s < e"
    then show False using W assms(1) [of "word_end buf es s"] assms(3) by (auto simp: wordch_def)
  qed
  moreover have "\<not> e < word_end buf es s"
  proof
    assume "e < word_end buf es s"
    then show False using W assms(2,4) by (auto simp: whitespace_def)
  qed
  ultimately show ?thesis by simp
qed

lemma skip_ws_step: "s < es \<Longrightarrow> skip_ws buf es s = (if whitespace (buf s) then skip_ws buf es (s + 1) else s)"
  by (subst skip_ws.simps) simp

lemma text_step:
  assumes "is_line buf es" and "s + length (tk_text t) < es" and "\<And>i. i < length (tk_text t) \<Longrightarrow> buf (s + i) = tk_text t ! i"
    and "buf (s + length (tk_text t)) = 32" and "tk_ok t"
  shows "\<exists>t'. rel_tk (spells buf) t t' \<and> (\<forall>ts. toks buf es s (t' # ts) = toks buf es (s + length (tk_text t) + 1) ts)"
proof -
  define e where "e = s + length (tk_text t)"
  have e: "e < es" "buf e = 32" using assms(2,4) by (auto simp: e_def)
  have se: "skip_ws buf es e = skip_ws buf es (e + 1)" using e by (subst skip_ws_step) (simp_all add: whitespace_def)
  have tl: "toks buf es (skip_ws buf es e) ts = toks buf es (e + 1) ts" for ts unfolding se by (rule toks_skip) (use e(1) in simp)
  show ?thesis
  proof (cases t)
    case (Sym c)
    have b: "buf s = lead c" using assms(3) [of 0] Sym by (simp add: lead_def)
    have c: "c \<in> {60, 124, 62, 38, 59, 40, 41, 43}" using assms(5) Sym by (simp add: tk_ok_def)
    have "skip_ws buf es s = s" using assms(2) b c by (subst skip_ws_step) (auto simp: whitespace_def lead_def)
    moreover have "c = 43 \<Longrightarrow> buf (s + 1) = 62 \<and> e = s + 2" using assms(3) [of 1] Sym by (simp add: e_def)
    moreover have "c \<noteq> 43 \<Longrightarrow> buf (s + 1) = 32 \<and> e = s + 1" using assms(4) Sym by (simp add: e_def)
    ultimately have "gettoken buf es s = (c, (s, e), skip_ws buf es e)" using b c by (auto simp: gettoken_def lead_def)
    then have "toks buf es s (Sym c # ts) = toks buf es (e + 1) ts" for ts using tl c by auto
    then show ?thesis using Sym by (intro exI [of _ "Sym c"]) (simp add: e_def)
  next
    case (Word v)
    have v: "v \<noteq> []" "list_all wordch v" using assms(5) Word by (auto simp: tk_ok_def word_ok_def)
    have m: "buf i = v ! (i - s)" if "s \<le> i" "i < e" for i using assms(3) [of "i - s"] that Word by (simp add: e_def)
    have w: "wordch (buf i)" if "s \<le> i" "i < e" for i using m [OF that] v(2) that Word by (simp add: list_all_length e_def less_diff_conv2)
    have s: "s < e" using v(1) Word by (simp add: e_def)
    have ws: "wordch (buf s)" using w s by simp
    have sk: "skip_ws buf es s = s" using ws s e(1) by (subst skip_ws_step) (auto simp: wordch_def)
    have "word_end buf es s = e" by (rule word_end_text) (use w s e in auto)
    then have "gettoken buf es s = (97, (s, e), skip_ws buf es e)" using sk ws by (auto simp: gettoken_def wordch_def symbols_def)
    then have "toks buf es s (Word (s, e) # ts) = toks buf es (e + 1) ts" for ts using tl by simp
    moreover have lv: "length v = e - s" using Word by (simp add: e_def)
    have "v ! i = map buf [s..<e] ! i" if "i < length v" for i using m [of "s + i"] that lv by simp
    then have "v = map buf [s..<e]" using lv by (intro nth_equalityI) simp_all
    then have "rel_tk (spells buf) t (Word (s, e))" unfolding Word tk.rel_inject by simp
    ultimately show ?thesis unfolding e_def [symmetric] by blast
  qed
qed

lemma text_toks:
  assumes "is_line buf es"
  shows "map buf [s..<es] = concat (map (\<lambda>t. tk_text t @ [32]) ts) @ [10] \<Longrightarrow> s \<le> es \<Longrightarrow> list_all tk_ok ts
    \<Longrightarrow> \<exists>ts'. list_all2 (rel_tk (spells buf)) ts ts' \<and> toks buf es s ts'"
proof (induction ts arbitrary: s)
  case Nil
  have "es - s = 1" using arg_cong [OF Nil(1), of length] by simp
  then have "es = s + 1" by simp
  moreover have "buf s = 10" using Nil(1) calculation by simp
  moreover have "skip_ws buf es es = es" by (subst skip_ws.simps) simp
  ultimately have "skip_ws buf es s = es" by (simp add: skip_ws_step whitespace_def)
  then show ?case by auto
next
  case (Cons t ts)
  define rest where "rest = concat (map (\<lambda>t. tk_text t @ [32]) ts) @ [10]"
  define n where "n = length (tk_text t)"
  have x: "map buf [s..<es] = tk_text t @ 32 # rest" using Cons.prems(1) by (simp add: rest_def)
  have len: "es - s = n + 1 + length rest" using arg_cong [OF x, of length] by (simp add: n_def)
  have es: "s + n + 1 < es" using len by (simp add: rest_def)
  have at: "buf (s + i) = (tk_text t @ 32 # rest) ! i" if "s + i < es" for i
    using arg_cong [OF x, of "\<lambda>l. l ! i"] that by simp
  have "drop (n + 1) (map buf [s..<es]) = rest" unfolding x by (simp add: n_def)
  then have r: "map buf [s + n + 1..<es] = rest" by (simp add: drop_map)
  have b: "s + length (tk_text t) < es" "\<And>i. i < length (tk_text t) \<Longrightarrow> buf (s + i) = tk_text t ! i" "buf (s + length (tk_text t)) = 32" "tk_ok t"
    using at es Cons.prems(3) by (simp_all add: n_def nth_append)
  obtain t' where t': "rel_tk (spells buf) t t'" "\<And>ts. toks buf es s (t' # ts) = toks buf es (s + n + 1) ts"
    using text_step [OF assms b(1) b(2) b(3) b(4)] unfolding n_def by blast
  obtain ts' where "list_all2 (rel_tk (spells buf)) ts ts'" "toks buf es (s + n + 1) ts'"
    using Cons.IH [of "s + n + 1"] r es Cons.prems(3) by (auto simp: rest_def)
  then have "list_all2 (rel_tk (spells buf)) (t # ts) (t' # ts')" "toks buf es s (t' # ts')" unfolding t'(2) using t'(1) by simp_all
  then show ?case by blast
qed


text \<open>Tokens that spell the tokens of a command are the tokens of a command that spells it.\<close>

lemma rel_words: "list_all2 (rel_tk R) (map Word vs) ts \<Longrightarrow> \<exists>fs. ts = map Word fs \<and> list_all2 R vs fs"
proof (induction vs arbitrary: ts)
  case (Cons v vs)
  obtain t ts' where ts: "ts = t # ts'" "rel_tk R (Word v) t" "list_all2 (rel_tk R) (map Word vs) ts'"
    using Cons.prems by (auto simp: list_all2_Cons1)
  obtain fs where "ts' = map Word fs" "list_all2 R vs fs" using Cons.IH [OF ts(3)] by blast
  moreover obtain f where "t = Word f" "R v f" using ts(2) by (cases t) auto
  ultimately have "ts = map Word (f # fs)" "list_all2 R (v # vs) (f # fs)" using ts(1) by auto
  then show ?case by blast
qed simp

lemma rel_sym: "list_all2 (rel_tk R) (Sym c # ts) us \<Longrightarrow> \<exists>vs. us = Sym c # vs \<and> list_all2 (rel_tk R) ts vs"
proof -
  assume "list_all2 (rel_tk R) (Sym c # ts) us"
  then obtain u vs where u: "us = u # vs" "rel_tk R (Sym c) u" "list_all2 (rel_tk R) ts vs" by (auto simp: list_all2_Cons1)
  then show ?thesis by (cases u) auto
qed

lemma rel_paren: "list_all2 (rel_tk R) (paren b ts) us \<Longrightarrow> \<exists>vs. us = paren b vs \<and> list_all2 (rel_tk R) ts vs"
proof (cases b)
  case True
  assume "list_all2 (rel_tk R) (paren b ts) us"
  then obtain us' where u: "us = Sym 40 # us'" "list_all2 (rel_tk R) (ts @ [Sym 41]) us'" using True rel_sym [of R 40 "ts @ [Sym 41]" us] by (auto simp: paren_def)
  then obtain vs xs where v: "us' = vs @ xs" "list_all2 (rel_tk R) ts vs" "list_all2 (rel_tk R) [Sym 41] xs" by (auto simp: list_all2_append1)
  obtain ys where "xs = Sym 41 # ys" "list_all2 (rel_tk R) [] ys" using rel_sym [OF v(3)] by blast
  then have "us = paren b vs" using True u(1) v(1) by (simp add: paren_def)
  then show ?thesis using v(2) by blast
qed (auto simp: paren_def)

lemma rel_two:
  assumes "list_all2 (rel_tk R) (xs @ Sym s # ys) us"
  shows "\<exists>xs' ys'. us = xs' @ Sym s # ys' \<and> list_all2 (rel_tk R) xs xs' \<and> list_all2 (rel_tk R) ys ys'"
proof -
  obtain xs' zs where z: "us = xs' @ zs" "list_all2 (rel_tk R) xs xs'" "list_all2 (rel_tk R) (Sym s # ys) zs" using assms by (auto simp: list_all2_append1)
  then show ?thesis using rel_sym [OF z(3)] by blast
qed

lemma pr_rel: "list_all2 (rel_tk R) (pr l c) ts \<Longrightarrow> \<exists>d. rel_cmd R c d \<and> ts = pr l d"
proof (induction c arbitrary: l ts)
  case (EXEC argv)
  then obtain fs where "ts = map Word fs" "list_all2 R argv fs" using rel_words [of R argv ts] by auto
  then show ?case by (intro exI [of _ "EXEC fs"]) simp
next
  case (REDIR c f mode fd)
  obtain xs ys where x: "ts = xs @ Sym (rsym mode) # ys" "list_all2 (rel_tk R) (pr 3 c) xs" "list_all2 (rel_tk R) (map Word [f]) ys"
    using rel_two [of R "pr 3 c" "rsym mode" "[Word f]" ts] REDIR.prems by auto
  obtain d where "rel_cmd R c d" "xs = pr 3 d" using REDIR.IH x(2) by blast
  moreover obtain g where "ys = [Word g]" "R f g" using rel_words [OF x(3)] by (auto simp: list_all2_Cons1)
  ultimately show ?case using x(1) by (intro exI [of _ "REDIR d g mode fd"]) simp
next
  case (PIPE a b)
  obtain vs where v: "ts = paren (l = 3) vs" "list_all2 (rel_tk R) (pr 3 a @ Sym 124 # pr 2 b) vs" using rel_paren PIPE.prems by (metis pr.simps(3))
  obtain xs ys where x: "vs = xs @ Sym 124 # ys" "list_all2 (rel_tk R) (pr 3 a) xs" "list_all2 (rel_tk R) (pr 2 b) ys" using rel_two [OF v(2)] by blast
  obtain a' b' where "rel_cmd R a a'" "xs = pr 3 a'" "rel_cmd R b b'" "ys = pr 2 b'" using PIPE.IH(1) [OF x(2)] PIPE.IH(2) [OF x(3)] by blast
  then show ?case using v(1) x(1) by (intro exI [of _ "PIPE a' b'"]) simp
next
  case (LIST a b)
  obtain vs where v: "ts = paren (1 \<le> l) vs" "list_all2 (rel_tk R) (pr 1 a @ Sym 59 # pr 0 b) vs" using rel_paren LIST.prems by (metis pr.simps(5))
  obtain xs ys where x: "vs = xs @ Sym 59 # ys" "list_all2 (rel_tk R) (pr 1 a) xs" "list_all2 (rel_tk R) (pr 0 b) ys" using rel_two [OF v(2)] by blast
  obtain a' b' where "rel_cmd R a a'" "xs = pr 1 a'" "rel_cmd R b b'" "ys = pr 0 b'" using LIST.IH(1) [OF x(2)] LIST.IH(2) [OF x(3)] by blast
  then show ?case using v(1) x(1) by (intro exI [of _ "LIST a' b'"]) simp
next
  case (BACK c)
  obtain vs where v: "ts = paren (2 \<le> l) vs" "list_all2 (rel_tk R) (pr 1 c @ [Sym 38]) vs" using rel_paren BACK.prems by (metis pr.simps(4))
  obtain xs ys where x: "vs = xs @ Sym 38 # ys" "list_all2 (rel_tk R) (pr 1 c) xs" "list_all2 (rel_tk R) [] ys" using rel_two [OF v(2)] by blast
  obtain d where "rel_cmd R c d" "xs = pr 1 d" using BACK.IH [OF x(2)] by blast
  then show ?case using v(1) x(1,3) by (intro exI [of _ "BACK d"]) simp
qed

lemma rel_cmd_same: "rel_cmd R c d \<Longrightarrow> cmd_ok d = cmd_ok c \<and> nodes d = nodes c"
  by (induction rule: cmd.rel_induct) (auto dest: list_all2_lengthD)

lemma pr_words: "Word f \<in> set (pr l c) \<longleftrightarrow> f \<in> set_cmd c"
  by (induction c arbitrary: l) (auto simp: paren_def)

lemma toks_words:
  assumes "is_line buf es"
  shows "toks buf es s ts \<Longrightarrow> s \<le> es \<Longrightarrow> Word f \<in> set ts \<Longrightarrow> isword buf es f"
proof (induction ts arbitrary: s)
  case (Cons t ts)
  obtain x g s' where g: "gettoken buf es s = (x, g, s')" by (metis prod_cases3)
  note G = gettoken_spec [OF assms Cons.prems(2) g]
  show ?case using Cons.prems(1,3) Cons.IH [of s'] G(2,4) g by (cases t) auto
qed simp

lemma pr_tk_ok: "cmd_ok c \<Longrightarrow> (\<And>v. v \<in> set_cmd c \<Longrightarrow> word_ok v) \<Longrightarrow> list_all tk_ok (pr l c)"
proof (induction c arbitrary: l)
  case (EXEC argv)
  then show ?case by (auto simp: list_all_iff tk_ok_def)
qed (auto simp: paren_def tk_ok_def rsym_def)

lemma print_cmd_nonzero:
  assumes "cmd_ok c" and "\<And>v. v \<in> set_cmd c \<Longrightarrow> word_ok v"
  shows "0 \<notin> set (print_cmd c)"
proof -
  have "0 \<notin> set (tk_text t)" if "t \<in> set (pr 0 c)" for t
  proof -
    have "tk_ok t" using pr_tk_ok [OF assms, of 0] that by (simp add: list_all_iff)
    then show ?thesis by (cases t) (auto simp: tk_ok_def word_ok_def list_all_iff wordch_def)
  qed
  then show ?thesis by (auto simp: print_cmd_def)
qed

lemma line_of_is_line: "0 \<notin> set l \<Longrightarrow> is_line (line_of l) (length l)"
  by (auto simp: is_line_def line_of_def in_set_conv_nth)

lemma room_ready: "room h (12 * n) \<Longrightarrow> ready y n h w"
proof (induction n arbitrary: h w)
  case (Suc n)
  have "\<exists>h' q w'. malloc y sz h w = udone (h', q) w' \<and> q \<noteq> 0 \<and> ready y n h' w'" if sz: "unat sz \<le> 176" for sz w
  proof -
    have u: "unat (nunits sz) \<le> 12" using sz by (simp add: unat_nunits)
    then obtain h' q where m: "malloc y sz h w = udone (h', q) w" "q \<noteq> 0" "room h' (12 * Suc n - unat (nunits sz))"
      using malloc_room [OF Suc.prems, of sz y w] by auto
    have "room h' (12 * n)" using u by (intro room_mono [OF m(3)]) simp
    then show ?thesis using m(1,2) Suc.IH by blast
  qed
  then show ?case by simp
qed simp

text \<open>A process that has not called \<^verbatim>\<open>malloc\<close> is ready for 341 nodes if its first \<^verbatim>\<open>sbrk\<close> succeeds.\<close>

lemma first_ready:
  assumes "uinv (hinit h) F A (brk w)" and "sbrk_grows y brk" and "\<And>x. x \<in> F \<Longrightarrow> s_size (hinit h) x = 0" and "fst (y_sbrk y 65536 w) \<noteq> - 1" and "n \<le> 341"
  shows "ready y n h w"
proof (cases n)
  case (Suc m)
  have "\<exists>h' q w'. malloc y sz h w = udone (h', q) w' \<and> q \<noteq> 0 \<and> ready y m h' w'" if sz: "unat sz \<le> 176" for sz
  proof -
    have u: "unat (nunits sz) \<le> 12" using sz by (simp add: unat_nunits)
    then obtain h' q w' where q: "malloc y sz h w = udone (h', q) w'" "q \<noteq> 0" "room h' (4096 - unat (nunits sz))"
      using malloc_first [OF assms(1-4), of sz] by auto
    have "room h' (12 * m)" using u assms(5) Suc by (intro room_mono [OF q(3)]) simp
    then have "ready y m h' w'" by (rule room_ready)
    then show ?thesis using q(1,2) by blast
  qed
  then show ?thesis by (simp add: Suc)
qed simp


section \<open>Properties\<close>

text \<open>
  C32. The parser of the shell ends: on every line, of any length and however malformed, \<^verbatim>\<open>parsecmd\<close> returns
  a command or exits with a message; it never runs forever. The recursion bound of the model, \<^const>\<open>parse_bound\<close>
  of the length of the line, is therefore never what stops it.
\<close>

theorem sh_parser_ends:
  assumes "is_line buf es" and "heapinv brk h w" and "sbrk_grows y brk"
  shows "parsecmd y buf h w \<noteq> None"
  by (rule upost_ends [OF parsecmd_post [OF assms]])

lemma new_heapinv: "heapinv (\<lambda>w. w) new_heap 8192"
  unfolding heapinv_def using new_heap_uinv by blast

lemma line_of_at: "0 \<notin> set l \<Longrightarrow> n = length l \<Longrightarrow> is_line (line_of l) n"
  by (simp add: line_of_is_line)

lemma line_example: "is_line (line_of (pbytes ''ls | ((wc>'')) 10" "is_line (line_of (pbytes ''ls -l>f'')) 7"
  by (rule line_of_at; simp add: pbytes_def)+

theorem sh_parser_ends_witness: "parsecmd brk_sys (line_of (pbytes ''ls | ((wc>'')) new_heap 8192 \<noteq> None"
  by (rule sh_parser_ends [OF line_example(1) new_heapinv brk_sys_grows])

lemma new_heap_ready: "n \<le> 341 \<Longrightarrow> ready brk_sys n new_heap 8192"
  by (rule first_ready [where brk = "\<lambda>w. w", OF new_heap_uinv brk_sys_grows]) (auto simp: hinit_def new_heap_def set_hdr brk_sys_def sbrk_sys_def)

lemma parse_example: "\<exists>h' w'. parsecmd brk_sys (line_of (pbytes ''ls -l>f'')) new_heap 8192
    = udone (h', REDIR (EXEC [(0, 2), (3, 5)]) (6, 7) 0x601 1, nulterminate (REDIR (EXEC [(0, 2), (3, 5)]) (6, 7) 0x601 1) (line_of (pbytes ''ls -l>f''))) w'"
proof (rule parsecmd_toks [OF line_example(2)])
  show "toks (line_of (pbytes ''ls -l>f'')) 7 0 (pr 0 (REDIR (EXEC [(0, 2), (3, 5)]) (6, 7) 0x601 1))" by code_simp
  show "cmd_ok (REDIR (EXEC [(0, 2), (3, 5)]) (6, 7) 0x601 1)" by (simp add: redir_ok_def MAXARGS_def)
  show "ready brk_sys (nodes (REDIR (EXEC [(0, 2), (3, 5)]) (6, 7) 0x601 1)) new_heap 8192" by (rule new_heap_ready) simp
qed

text \<open>
  C31. The strings of a parsed command are the words of the line: if \<^verbatim>\<open>parsecmd\<close> returns, every argument and
  every file name of the command it returns points at a maximal run of characters that are neither
  blanks nor symbols, and the string read there from the line that \<^verbatim>\<open>nulterminate\<close> has cut is exactly that
  word, although all the terminating zeros are stored only after the whole line is parsed.
\<close>

theorem sh_words_exact:
  assumes "is_line buf es" and "heapinv brk h w" and "sbrk_grows y brk" and "parsecmd y buf h w = udone (h', c, buf') w'" and "f \<in> set_cmd c"
  shows "isword buf es f \<and> string_at es buf' (fst f) = map buf [fst f..<snd f]"
  using parsecmd_post [OF assms(1-3)] assms(4,5) by simp

theorem sh_words_exact_witness: "\<exists>h' c buf' w'. parsecmd brk_sys (line_of (pbytes ''ls -l>f'')) new_heap 8192 = udone (h', c, buf') w'
    \<and> (3, 5) \<in> set_cmd c \<and> string_at 7 buf' 3 = pbytes ''-l''"
proof -
  obtain h' c buf' w' where p: "parsecmd brk_sys (line_of (pbytes ''ls -l>f'')) new_heap 8192 = udone (h', c, buf') w'" "(3, 5) \<in> set_cmd c"
    using parse_example by fastforce
  have "map (line_of (pbytes ''ls -l>f'')) [3..<5] = pbytes ''-l''" by code_simp
  then show ?thesis using sh_words_exact [OF line_example(2) new_heapinv brk_sys_grows p] p by auto
qed

text \<open>
  C30. Parsing is the inverse of printing. A command written out with a blank after every token, with
  parentheses where the grammar needs them, is parsed back to itself: \<^verbatim>\<open>parsecmd\<close> returns a command of the
  same shape, with the same modes and descriptors, whose strings are the words that were written. The command has
  at most nine arguments in each simple command, words that are not empty and hold no blank, symbol or
  zero, and memory is there for its nodes.
\<close>

theorem sh_parse_print:
  assumes "cmd_ok c" and "\<And>v. v \<in> set_cmd c \<Longrightarrow> word_ok v" and "ready y (nodes c) h w"
  shows "\<exists>h' d buf' w'. parsecmd y (line_of (print_cmd c)) h w = udone (h', d, buf') w'
    \<and> map_cmd (\<lambda>f. string_at (length (print_cmd c)) buf' (fst f)) d = c"
proof -
  define buf where "buf = line_of (print_cmd c)"
  define es where "es = length (print_cmd c)"
  have line: "is_line buf es" unfolding buf_def es_def by (rule line_of_is_line [OF print_cmd_nonzero [OF assms(1,2)]])
  have "map buf [0..<es] = print_cmd c" by (rule nth_equalityI) (simp_all add: buf_def es_def line_of_def)
  then obtain ts where ts: "list_all2 (rel_tk (spells buf)) (pr 0 c) ts" "toks buf es 0 ts"
    using text_toks [OF line, of 0 "pr 0 c"] pr_tk_ok [OF assms(1,2)] by (auto simp: print_cmd_def)
  obtain d where d: "rel_cmd (spells buf) c d" "ts = pr 0 d" using pr_rel [OF ts(1)] by blast
  have same: "cmd_ok d" "ready y (nodes d) h w" using rel_cmd_same [OF d(1)] assms(1,3) by simp_all
  obtain h' w' where p: "parsecmd y buf h w = udone (h', d, nulterminate d buf) w'"
    using parsecmd_toks [OF line _ same] ts(2) d(2) by blast
  have w: "isword buf es f" if "f \<in> set_cmd d" for f using toks_words [OF line ts(2)] that by (simp add: d(2) pr_words)
  have "string_at es (nulterminate d buf) (fst f) = map buf [fst f..<snd f]" if "f \<in> set_cmd d" for f
    by (rule string_word [where W = "set_cmd d", OF w [OF that]]) (erule w, rule that, rule nulterminate_apply)
  then have "rel_cmd (\<lambda>v f. v = string_at es (nulterminate d buf) (fst f)) c d" by (intro cmd.rel_mono_strong [OF d(1)]) simp
  then have "map_cmd (\<lambda>f. string_at es (nulterminate d buf) (fst f)) d = c" using cmd.rel_map(2) [of "(=)" c "\<lambda>f. string_at es (nulterminate d buf) (fst f)" d] by (simp add: cmd.rel_eq)
  then show ?thesis using p unfolding buf_def es_def by blast
qed


definition sh_example :: "byte list cmd" where
  "sh_example = LIST (BACK (PIPE (EXEC [pbytes ''ls'']) (REDIR (EXEC [pbytes ''wc'', pbytes ''-l'']) (pbytes ''out'') 0x601 1)))
     (REDIR (LIST (EXEC [pbytes ''a'']) (EXEC [pbytes ''b''])) (pbytes ''log'') 0x201 1)"

theorem sh_parse_print_witness:
  "print_cmd sh_example = pbytes ''ls | wc -l > out & ; ( a ; b ) >> log '' @ [10]
   \<and> (\<exists>h' d buf' w'. parsecmd brk_sys (line_of (print_cmd sh_example)) new_heap 8192 = udone (h', d, buf') w'
     \<and> map_cmd (\<lambda>f. string_at (length (print_cmd sh_example)) buf' (fst f)) d = sh_example)"
proof
  show "print_cmd sh_example = pbytes ''ls | wc -l > out & ; ( a ; b ) >> log '' @ [10]" by code_simp
  have "cmd_ok sh_example" by code_simp
  moreover have "word_ok v" if "v \<in> set_cmd sh_example" for v
    using that by (auto simp: sh_example_def pbytes_def word_ok_def wordch_def whitespace_def symbols_def)
  moreover have "ready brk_sys (nodes sh_example) new_heap 8192" by (rule new_heap_ready) (simp add: sh_example_def)
  ultimately show "\<exists>h' d buf' w'. parsecmd brk_sys (line_of (print_cmd sh_example)) new_heap 8192 = udone (h', d, buf') w'
     \<and> map_cmd (\<lambda>f. string_at (length (print_cmd sh_example)) buf' (fst f)) d = sh_example"
    by (rule sh_parse_print)
qed

end
