(* ===== verification/Xv6_Ps.thy ===== *)
theory Xv6_Ps
  imports Xv6_Syscall Xv6_Pipe
begin

text \<open>
  The process listing: the system calls \<^verbatim>\<open>sys_year\<close>, \<^verbatim>\<open>sys_procname\<close> and \<^verbatim>\<open>sys_state\<close> of
  \<^verbatim>\<open>kernel/sysproc.c\<close>, which \<^verbatim>\<open>user/ps.c\<close> calls, on top of \<^verbatim>\<open>copyout\<close> and of the process table.
\<close>

section \<open>Arguments\<close>

lemma caller_simps [simp]: "caller pr (touch s) \<longleftrightarrow> caller pr s" "caller pr (s\<lparr>mem := m\<rparr>) \<longleftrightarrow> caller pr s"
  by (auto simp: caller_def)

lemma tf_load_touch [simp]: "tf_load off p (touch s) = tf_load off p s" "tf_load off p (acq lk s) = tf_load off p s"
  by (simp_all add: tf_load_def)

lemma argraw_eq:
  assumes "caller pr s"
  shows "argraw 0 s = Ret (tf_load TF_a0 pr s) (touch s)" "argraw 1 s = Ret (tf_load TF_a1 pr s) (touch s)"
  using callerD(1,4) [OF assms] by (simp_all add: argraw_def)

lemma argint_eq: "caller pr s \<Longrightarrow> argint 0 s = Ret (sint (ucast (tf_load TF_a0 pr s) :: uint)) (touch s)"
  "caller pr s \<Longrightarrow> argint 1 s = Ret (sint (ucast (tf_load TF_a1 pr s) :: uint)) (touch s)"
  "caller pr s \<Longrightarrow> argaddr 0 s = Ret (tf_load TF_a0 pr s) (touch s)" "caller pr s \<Longrightarrow> argaddr 1 s = Ret (tf_load TF_a1 pr s) (touch s)"
  by (simp_all add: argint_def argaddr_def argraw_eq del: One_nat_def)

lemmas args = argint_eq argint_eq [unfolded One_nat_def]

section \<open>The list of processes\<close>

definition live :: "(nat \<Rightarrow> proc) \<Rightarrow> nat list \<Rightarrow> nat list" where
  "live P ps = filter (\<lambda>p. p_state (P p) \<noteq> UNUSED) ps"

text \<open>The bytes of an array of 32-bit numbers.\<close>

definition words32 :: "uint list \<Rightarrow> bytes" where
  "words32 xs i = st32 (xs ! (i div 4)) (\<lambda>_. 0) 0 (i mod 4)"

lemma words32_Cons: "words32 (x # xs) i = (if i < 4 then st32 x (\<lambda>_. 0) 0 i else words32 xs (i - 4))"
  by (simp add: words32_def le_div_geq le_mod_geq)

lemma sys_year_loop_spec:
  assumes "caller pr s" and "p_pagetable (procs s pr) = pt" and "ptwf (mem s) 2 pt" and "user_ok (mem s) pt"
    and "k = min (length (live (procs s) ps)) (nat sz - c)" and "umapped (mem s) pt (unat buf) (4 * (c + k))"
  shows "\<exists>t. sys_year_loop ps buf sz c s = Ret (of_nat (c + k)) t \<and> caller pr t \<and> procs t = procs s
    \<and> wrote pt (unat buf + 4 * c) (4 * k) (words32 (map (\<lambda>p. p_pid (procs s p)) (live (procs s) ps))) (mem s) (mem t)"
  using assms
proof (induction ps arbitrary: c s k)
  case Nil
  then show ?case by (simp add: live_def wrote_none)
next
  case (Cons p ps)
  show ?case
  proof (cases "int c < sz \<and> p_state (procs s p) \<noteq> UNUSED")
    case False
    show ?thesis
    proof (cases "int c < sz")
      case True
      then have l: "live (procs s) (p # ps) = live (procs s) ps" using False by (simp add: live_def)
      show ?thesis using Cons.IH [OF Cons.prems(1-4), of k c] Cons.prems(5,6) True False unfolding l by simp
    next
      case F: False
      then have "k = 0" using Cons.prems(5) by simp
      then show ?thesis using F Cons.prems(1) by (auto simp: wrote_none)
    qed
  next
    case True
    let ?L = "live (procs s) ps" and ?b = "buf + of_nat (4 * c)"
    have l: "live (procs s) (p # ps) = p # ?L" using True by (simp add: live_def)
    define j where "j = min (length ?L) (nat sz - Suc c)"
    have k: "k = Suc j" using Cons.prems(5) True unfolding l j_def by auto
    have ub: "unat ?b = unat buf + 4 * c" using umapped_at(1) [OF Cons.prems(6), of "4 * c"] k by simp
    have u: "umapped (mem s) pt (unat ?b) (unat (4 :: uint64))" unfolding ub by (rule umapped_sub [OF Cons.prems(6)]) (use k in simp_all)
    let ?w = "st32 (p_pid (procs s p)) (\<lambda>_. 0) 0"
    note T = callerD(1,4) [OF Cons.prems(1)]
    obtain m where m: "copyout pt ?b ?w 4 (touch s) = Ret 0 ((touch s)\<lparr>mem := m\<rparr>)" "wrote pt (unat ?b) (unat (4 :: uint64)) ?w (mem s) m"
      using copyout_wrote [of "touch s" pt ?b 4 ?w] Cons.prems(3,4) u by auto
    note S = wrote_space [OF m(2) Cons.prems(3,4)]
    let ?s = "(touch s)\<lparr>mem := m\<rparr>"
    have "\<exists>t. sys_year_loop ps buf sz (Suc c) ?s = Ret (of_nat (Suc c + j)) t \<and> caller pr t \<and> procs t = procs ?s
      \<and> wrote pt (unat buf + 4 * Suc c) (4 * j) (words32 (map (\<lambda>p. p_pid (procs ?s p)) (live (procs ?s) ps))) (mem ?s) (mem t)"
      by (rule Cons.IH) (use Cons.prems(1,2,6) S k j_def in auto)
    then obtain t where t: "sys_year_loop ps buf sz (Suc c) ?s = Ret (of_nat (c + k)) t" "caller pr t" "procs t = procs s"
      "wrote pt (unat buf + 4 * c + 4) (4 * j) (words32 (map (\<lambda>p. p_pid (procs s p)) ?L)) m (mem t)"
      using k by (auto simp: add.assoc add.commute [of 4])
    have "wrote pt (unat buf + 4 * c) (4 + 4 * j) (\<lambda>i. if i < 4 then ?w i else words32 (map (\<lambda>p. p_pid (procs s p)) ?L) (i - 4)) (mem s) (mem t)"
      by (rule wrote_append [OF _ t(4) Cons.prems(3,4)]) (use m(2) ub in simp)
    then have "wrote pt (unat buf + 4 * c) (4 * k) (words32 (map (\<lambda>p. p_pid (procs s p)) (live (procs s) (p # ps)))) (mem s) (mem t)"
      by (simp add: l k words32_Cons [abs_def])
    then show ?thesis using t(1-3) True m(1) T Cons.prems(2) by auto
  qed
qed


lemma stn_shift: "j < k \<Longrightarrow> stn k v m a (a + j) = stn k v m' b (b + j)"
proof (induction k arbitrary: v a b j)
  case (Suc k)
  show ?case
  proof (cases j)
    case (Suc i)
    then show ?thesis using Suc.IH [of i "drop_bit 8 v" "Suc a" "Suc b"] Suc.prems by simp
  qed simp
qed simp

lemma words32_ld32:
  assumes "\<And>j. j < 4 \<Longrightarrow> m (a + 4 * i + j) = words32 xs (4 * i + j)"
  shows "ld32 m (a + 4 * i) = xs ! i"
proof -
  have "m (a + 4 * i + j) = st32 (xs ! i) m (a + 4 * i) (a + 4 * i + j)" if "j < 4" for j
    using assms [OF that] that stn_shift [OF that, of "xs ! i" m "a + 4 * i" "\<lambda>_. 0" 0] by (simp add: words32_def st32_def)
  then have "ld32 m (a + 4 * i) = ld32 (st32 (xs ! i) m (a + 4 * i)) (a + 4 * i)" by (intro ld32_cong) simp
  then show ?thesis by simp
qed

section \<open>Names and states\<close>

lemma pname_eq: "caller pr s \<Longrightarrow> pname pid s = Ret (find (\<lambda>p. p_pid (procs s p) = pid) [0..<NPROC]) (touch s)"
proof -
  assume c: "caller pr s"
  have "pname_loop pid ps (acq L_wait s) = Ret (find (\<lambda>p. p_pid (procs s p) = pid) ps) (touch s)" for ps
    by (induction ps) (use callerD(1,2) [OF c] in simp_all)
  then show ?thesis using callerD(2) [OF c] by (simp add: pname_def)
qed

lemma pstate_eq: "caller pr s \<Longrightarrow>
  pstate pid s = Ret (map_option (\<lambda>p. procstate2str (p_state (procs s p))) (find (\<lambda>p. p_pid (procs s p) = pid) [0..<NPROC])) (touch s)"
proof -
  assume c: "caller pr s"
  have "pstate_loop pid ps (acq L_wait s) = Ret (map_option (\<lambda>p. procstate2str (p_state (procs s p))) (find (\<lambda>p. p_pid (procs s p) = pid) ps)) (touch s)" for ps
    by (induction ps) (use callerD(1,2) [OF c] in simp_all)
  then show ?thesis using callerD(2) [OF c] by (simp add: pstate_def)
qed

text \<open>What the two calls do once the string \<open>f\<close> of \<open>n\<close> characters is found.\<close>

lemma copy_string:
  assumes "caller pr s" and "p_pagetable (procs s pr) = pt" and "ptwf (mem s) 2 pt" and "user_ok (mem s) pt"
    and "n < 2 ^ 32" and "umapped (mem s) pt (unat ptr) (n + 1)"
  shows "\<exists>t. bnd (copyout pt ptr f (of_nat n + 1) s) (\<lambda>r s. Ret (if r < 0 then - 1 else 1) s) = Ret (1 :: uint64) t \<and> procs t = procs s
    \<and> wrote pt (unat ptr) (n + 1) f (mem s) (mem t)"
proof -
  have "unat (of_nat (n + 1) :: uint64) = n + 1" using assms(5) by (intro unat_of_nat64) simp
  then have u: "unat (of_nat n + 1 :: uint64) = n + 1" by (simp add: add.commute)
  obtain m where "copyout pt ptr f (of_nat n + 1) s = Ret 0 (s\<lparr>mem := m\<rparr>)" "wrote pt (unat ptr) (n + 1) f (mem s) m"
    using copyout_wrote [OF assms(3,4), of ptr "of_nat n + 1" f] assms(6) unfolding u by blast
  then show ?thesis by simp
qed

section \<open>Properties\<close>

text \<open>
  C37. \<^verbatim>\<open>sys_year\<close> lists the processes: given a buffer of \<open>sz > 0\<close> numbers whose used part is mapped, it
  stores the process ids of the slots of the process table that are not \<^verbatim>\<open>UNUSED\<close>, in the order
  of the table and at most \<open>sz\<close> of them, as 32-bit numbers one after the other, returns how many it
  stored, and changes no other byte of the process and no process.
\<close>

theorem sys_year_lists:
  assumes "caller pr s" and "p_pagetable (procs s pr) = pt" and "ptwf (mem s) 2 pt" and "user_ok (mem s) pt"
    and "buf = tf_load TF_a0 pr s" and "sz = sint (ucast (tf_load TF_a1 pr s) :: uint)" and "0 < sz"
    and "ids = take (nat sz) (map (\<lambda>p. p_pid (procs s p)) (live (procs s) [0..<NPROC]))"
    and "umapped (mem s) pt (unat buf) (4 * length ids)"
  shows "\<exists>t. sys_year s = Ret (of_nat (length ids)) t \<and> procs t = procs s
    \<and> (\<forall>i < length ids. ld32 (uview (mem t) pt) (unat buf + 4 * i) = ids ! i)
    \<and> (\<forall>a < 2 ^ 64. upa (mem s) pt (pageof a) \<noteq> 0 \<longrightarrow> \<not> (unat buf \<le> a \<and> a < unat buf + 4 * length ids) \<longrightarrow> uview (mem t) pt a = uview (mem s) pt a)"
proof -
  define L where "L = map (\<lambda>p. p_pid (procs s p)) (live (procs s) [0..<NPROC])"
  define k where "k = length ids"
  have k: "k = min (length (live (procs s) [0..<NPROC])) (nat sz - 0)" unfolding k_def assms(8) by simp
  have idn: "ids ! i = L ! i" if "i < k" for i using that unfolding k_def L_def assms(8) by simp
  let ?s = "touch (touch s)"
  have "sys_year s = sys_year_loop [0..<NPROC] buf sz 0 (touch s)"
    using assms(1,5,6,7) callerD(1) [OF assms(1)] by (simp add: sys_year_def args)
  moreover obtain t where t: "sys_year_loop [0..<NPROC] buf sz 0 (touch s) = Ret (of_nat (0 + k)) t" "procs t = procs s"
      "wrote pt (unat buf + 4 * 0) (4 * k) (words32 L) (mem s) (mem t)"
    using sys_year_loop_spec [of pr "touch s" pt k "[0..<NPROC]" sz 0 buf] assms(1-4,9) k unfolding L_def k_def by auto
  moreover have "ld32 (uview (mem t) pt) (unat buf + 4 * i) = ids ! i" if i: "i < k" for i
  proof -
    have "uview (mem t) pt (unat buf + 4 * i + j) = words32 L (4 * i + j)" if j: "j < 4" for j
    proof -
      have b: "4 * i + j < 4 * k" using i j by simp
      moreover have "unat buf + 4 * k \<le> 2 ^ 38" using umapped_bound [OF assms(9)] i unfolding k_def by (cases "ids = []") auto
      moreover have "upa (mem s) pt (pageof (unat buf + (4 * i + j))) \<noteq> 0" using assms(9) b unfolding umapped_def k_def by blast
      ultimately show ?thesis using t(3) by (simp add: wrote_def add.assoc)
    qed
    then show ?thesis using words32_ld32 idn [OF i] by simp
  qed
  moreover have "uview (mem t) pt a = uview (mem s) pt a" if "a < 2 ^ 64" "upa (mem s) pt (pageof a) \<noteq> 0" "\<not> (unat buf \<le> a \<and> a < unat buf + 4 * k)" for a
    using t(3) that by (auto simp: wrote_def)
  ultimately show ?thesis unfolding k_def by auto
qed

text \<open>
  C39. \<^verbatim>\<open>sys_procname\<close> and \<^verbatim>\<open>sys_state\<close> called with a number that is the id of no slot of the process table
  stop the kernel: \<^verbatim>\<open>name\<close> and \<^verbatim>\<open>state\<close> return a null pointer, and \<^verbatim>\<open>strlen\<close> of it traps inside the kernel.
  Any user program can do this.
\<close>

theorem unknown_pid_panics:
  assumes "caller pr s" and "0 \<le> sint (ucast (tf_load TF_a0 pr s) :: uint)"
    and "\<And>p. p < NPROC \<Longrightarrow> p_pid (procs s p) \<noteq> ucast (tf_load TF_a0 pr s)"
  shows "sys_procname s = Panic ''kerneltrap'' \<and> sys_state s = Panic ''kerneltrap''"
proof -
  have "find (\<lambda>p. p_pid (procs s p) = word_of_int (sint (ucast (tf_load TF_a0 pr s) :: uint))) [0..<NPROC] = None"
    using assms(3) by (auto simp: find_None_iff)
  then show ?thesis using assms(1,2) callerD(1,4) [OF assms(1)]
    by (simp add: sys_procname_def sys_state_def args pname_eq pstate_eq)
qed


text \<open>
  C38. \<^verbatim>\<open>sys_procname\<close> and \<^verbatim>\<open>sys_state\<close> of the id of a process copy the name, or the name of the state, of the
  first slot of the process table with that id to the buffer of the caller, with the terminating
  zero, return 1, and change no other byte of the caller and no process.
\<close>

theorem ps_strings_copied:
  assumes "caller pr s" and "p_pagetable (procs s pr) = pt" and "ptwf (mem s) 2 pt" and "user_ok (mem s) pt"
    and "0 \<le> sint (ucast (tf_load TF_a0 pr s) :: uint)" and "find (\<lambda>p. p_pid (procs s p) = ucast (tf_load TF_a0 pr s)) [0..<NPROC] = Some q"
    and "ptr = tf_load TF_a1 pr s" and "strlen (p_name (procs s q)) = Some n" and "n < 16" and "umapped (mem s) pt (unat ptr) 16"
  shows "(\<exists>t. sys_procname s = Ret 1 t \<and> procs t = procs s \<and> wrote pt (unat ptr) (n + 1) (p_name (procs s q)) (mem s) (mem t))
    \<and> (\<exists>t. sys_state s = Ret 1 t \<and> procs t = procs s
       \<and> wrote pt (unat ptr) (length (procstate2str (p_state (procs s q))) + 1) (str (procstate2str (p_state (procs s q)))) (mem s) (mem t))"
proof
  have c: "caller pr (touch s)" using assms(1) by simp
  have um: "umapped (mem (touch s)) pt (unat ptr) (k + 1)" if "k < 16" for k using umapped_sub [OF assms(10)] that by simp
  note C = callerD(1,4) [OF assms(1)]
  obtain t where t: "bnd (copyout pt ptr (p_name (procs s q)) (of_nat n + 1) (touch s)) (\<lambda>r s. Ret (if r < 0 then - 1 else 1) s) = Ret (1 :: uint64) t"
    "procs t = procs s" "wrote pt (unat ptr) (n + 1) (p_name (procs s q)) (mem s) (mem t)"
    using copy_string [OF c _ _ _ _ um [OF assms(9)], of "p_name (procs s q)"] assms(2-4,9) by auto
  have "sys_procname s = Ret 1 t" using t(1) assms(1,2,5-8) C by (simp add: sys_procname_def args pname_eq)
  then show "\<exists>t. sys_procname s = Ret 1 t \<and> procs t = procs s \<and> wrote pt (unat ptr) (n + 1) (p_name (procs s q)) (mem s) (mem t)" using t by blast
  let ?st = "procstate2str (p_state (procs s q))"
  have l: "length ?st < 16" by (simp add: procstate2str_def split: procstate.split)
  obtain t where t: "bnd (copyout pt ptr (str ?st) (of_nat (length ?st) + 1) (touch s)) (\<lambda>r s. Ret (if r < 0 then - 1 else 1) s) = Ret (1 :: uint64) t"
    "procs t = procs s" "wrote pt (unat ptr) (length ?st + 1) (str ?st) (mem s) (mem t)"
    using copy_string [OF c _ _ _ _ um [OF l], of "str ?st"] assms(2-4) l by auto
  have "sys_state s = Ret 1 t" using t(1) assms(1,2,5-7) C by (simp add: sys_state_def args pstate_eq)
  then show "\<exists>t. sys_state s = Ret 1 t \<and> procs t = procs s \<and> wrote pt (unat ptr) (length ?st + 1) (str ?st) (mem s) (mem t)" using t by blast
qed

section \<open>Examples\<close>

text \<open>Process 1 with a trapframe at \<open>0x6000\<close> and the user page 0; it calls with the arguments \<open>x\<close> and \<open>y\<close>.\<close>

definition demo_ps :: "uint64 \<Rightarrow> uint64 \<Rightarrow> psst" where
  "demo_ps x y = (filest.extend demo_filest (psst.fields 0 0 0 0 0 False))
     \<lparr>mem := st64 y (st64 x (mem demo_filest) 0x6070) 0x6078,
      procs := (\<lambda>_. zero_proc)(1 := zero_proc\<lparr>p_state := RUNNING, p_pid := 7, p_pagetable := 0x1000, p_trapframe := 0x6000, p_sz := 0x3000, p_name := str ''sh''\<rparr>,
                               3 := zero_proc\<lparr>p_state := ZOMBIE, p_pid := 9\<rparr>)\<rparr>"

lemma demo_ps_sel:
  "caller 1 (demo_ps x y)" "p_pagetable (procs (demo_ps x y) 1) = 0x1000" "tf_load TF_a0 1 (demo_ps x y) = x" "tf_load TF_a1 1 (demo_ps x y) = y"
  using demo_filest_sel(1) by (simp_all add: demo_ps_def filest.defs caller_def cpu_ok_def lk_free_def zero_proc_def tf_load_def ld_st_other)

lemma demo_ps_pid: "p_pid (procs (demo_ps x y) p) = (if p = 1 then 7 else if p = 3 then 9 else 0)" "p_name (procs (demo_ps x y) 1) = str ''sh''"
    "p_state (procs (demo_ps x y) p) = (if p = 1 then RUNNING else if p = 3 then ZOMBIE else UNUSED)"
  by (simp_all add: demo_ps_def filest.defs zero_proc_def)

lemma demo_ps_mem:
  "ptwf (mem (demo_ps x y)) 2 0x1000" "user_ok (mem (demo_ps x y)) 0x1000" "umapped (mem (demo_ps x y)) 0x1000 0 4096"
proof -
  have a: "agree_on (tpages demo_mem 2 0x1000) demo_mem (mem (demo_ps x y))"
    by (auto simp: agree_on_def demo_tree(2) demo_ps_def demo_filest_sel(3) st64_other blit_def)
  show "ptwf (mem (demo_ps x y)) 2 0x1000" using tree_cong [OF a] demo_tree(1) by blast
  show "user_ok (mem (demo_ps x y)) 0x1000" "umapped (mem (demo_ps x y)) 0x1000 0 4096" using user_ok_cong [OF a] demo_user by simp_all
qed

lemma demo_ps_live: "live (procs (demo_ps x y)) [0..<NPROC] = [1, 3]"
proof -
  have "[0..<NPROC] = [0, 1, 2, 3] @ [4..<NPROC]" by (simp add: NPROC_def upt_rec)
  moreover have "filter (\<lambda>p. p_state (procs (demo_ps x y) p) \<noteq> UNUSED) [4..<NPROC] = []"
    by (auto simp: filter_empty_conv demo_ps_pid)
  ultimately show ?thesis by (simp add: live_def demo_ps_pid)
qed

theorem sys_year_lists_witness:
  "\<exists>t. sys_year (demo_ps 16 10) = Ret 2 t \<and> ld32 (uview (mem t) 0x1000) 16 = 7 \<and> ld32 (uview (mem t) 0x1000) 20 = 9"
proof -
  let ?s = "demo_ps 16 10"
  have ids: "[7, 9] = take (nat 10) (map (\<lambda>p. p_pid (procs ?s p)) (live (procs ?s) [0..<NPROC]))"
    unfolding demo_ps_live by (simp add: demo_ps_pid)
  have u: "umapped (mem ?s) 0x1000 (unat (16 :: uint64)) (4 * length [7 :: uint, 9])" by (rule umapped_sub [OF demo_ps_mem(3)]) simp_all
  have sz: "(10 :: int) = sint (ucast (tf_load TF_a1 1 ?s) :: uint)" unfolding demo_ps_sel by simp
  obtain t where t: "sys_year ?s = Ret (of_nat (length [7 :: uint, 9])) t"
    "\<And>i. i < length [7 :: uint, 9] \<Longrightarrow> ld32 (uview (mem t) 0x1000) (unat (16 :: uint64) + 4 * i) = [7, 9] ! i"
    using sys_year_lists [OF demo_ps_sel(1,2) demo_ps_mem(1,2) demo_ps_sel(3) [symmetric] sz _ ids u] by auto
  show ?thesis using t(1) t(2) [of 0] t(2) [of 1] by simp
qed

theorem unknown_pid_panics_witness: "sys_procname (demo_ps 1234 16) = Panic ''kerneltrap'' \<and> sys_state (demo_ps 1234 16) = Panic ''kerneltrap''"
  by (rule unknown_pid_panics [OF demo_ps_sel(1)]) (unfold demo_ps_sel(3) demo_ps_pid(1), simp_all)

theorem ps_strings_copied_witness:
  "\<exists>t. sys_procname (demo_ps 7 32) = Ret 1 t \<and> wrote 0x1000 32 3 (str ''sh'') (mem (demo_ps 7 32)) (mem t)"
proof -
  let ?s = "demo_ps 7 32"
  have "[0..<NPROC] = 0 # 1 # [2..<NPROC]" by (simp add: NPROC_def upt_rec)
  then have f: "find (\<lambda>p. p_pid (procs ?s p) = ucast (tf_load TF_a0 1 ?s)) [0..<NPROC] = Some 1" unfolding demo_ps_sel(3) demo_ps_pid(1) by simp
  have "(LEAST k. str ''sh'' k = 0) = 2"
  proof (rule Least_equality)
    fix k assume "str ''sh'' k = 0"
    then show "2 \<le> k" by (cases k; cases "k - 1") (simp_all add: str_def)
  qed (simp add: str_def)
  then have n: "strlen (p_name (procs ?s 1)) = Some 2" unfolding demo_ps_pid(2) using strlen_eq [of "str ''sh''" 2] by (simp add: str_def)
  have u: "umapped (mem ?s) 0x1000 (unat (32 :: uint64)) 16" by (rule umapped_sub [OF demo_ps_mem(3)]) simp_all
  have z: "0 \<le> sint (ucast (tf_load TF_a0 1 ?s) :: uint)" unfolding demo_ps_sel by simp
  show ?thesis
    using ps_strings_copied [OF demo_ps_sel(1,2) demo_ps_mem(1,2) z f demo_ps_sel(4) [symmetric] n _ u] unfolding demo_ps_pid(2) by auto
qed

end
