(* ===== verification/Xv6_Alloc.thy ===== *)
theory Xv6_Alloc
  imports Xv6_Txn
begin

text \<open>
  The block allocator of \<^verbatim>\<open>kernel/fs.c\<close> on top of transactions: \<^verbatim>\<open>balloc\<close> finds the first free block in
  the bitmap, marks it and clears it; \<^verbatim>\<open>bfree\<close> clears the mark. Both go through the buffer cache and
  the log, so their effect is on the contents of blocks as \<^const>\<open>block_of\<close> gives them.
\<close>

section \<open>Several updates in one transaction\<close>

definition free_bufs :: "'z bst_scheme \<Rightarrow> nat set" where
  "free_bufs s = {j. j < NBUF \<and> b_refcnt (bufs s j) = 0}"

text \<open>Room for \<open>r\<close> more blocks.\<close>

definition tx_rooms :: "nat \<Rightarrow> nat \<Rightarrow> 'z lst_scheme \<Rightarrow> bool" where
  "tx_rooms r n s \<longleftrightarrow> n + r \<le> LOGSIZE \<and> int (n + r) < l_size (lg s) \<and> 1 \<le> l_outstanding (lg s) \<and> r \<le> card (free_bufs s)
     \<and> (\<forall>j < NBUF. unat (b_refcnt (bufs s j)) + r + 2 < 2 ^ 32)"

lemma tx_rooms_room:
  assumes "tx_rooms (Suc r) n s"
  shows "tx_room n s"
proof -
  have "free_bufs s \<noteq> {}" using assms by (auto simp: tx_rooms_def)
  then have "free1 s" by (auto simp: free_bufs_def free1_def)
  moreover have "b_refcnt (bufs s j) + 1 \<noteq> 0 \<and> b_refcnt (bufs s j) + 2 \<noteq> 0" if "j < NBUF" for j
  proof -
    have u: "unat (b_refcnt (bufs s j)) + 3 < 2 ^ 32" using assms that by (fastforce simp: tx_rooms_def)
    have "unat (b_refcnt (bufs s j) + 1) = unat (b_refcnt (bufs s j)) + 1" "unat (b_refcnt (bufs s j) + 2) = unat (b_refcnt (bufs s j)) + 2"
      using u by (simp_all add: unat_add32)
    then show ?thesis by (metis add_is_0 unat_0 zero_neq_numeral zero_neq_one)
  qed
  ultimately show ?thesis using assms by (simp add: tx_rooms_def tx_room_def)
qed

lemma tx_rooms_step:
  assumes "tx_rooms (Suc r) n s" and "tx_step n b d s m t"
  shows "tx_rooms r m t"
proof -
  obtain k where k: "k < NBUF" "\<And>j. b_refcnt (bufs t j) = b_refcnt (bufs s j) + (if m \<noteq> n \<and> j = k then 1 else 0)"
    using assms(2) by (auto simp: tx_step_def)
  have m: "m \<le> n + 1" "l_size (lg t) = l_size (lg s)" "l_outstanding (lg t) = l_outstanding (lg s)" using assms(2) by (auto simp: tx_step_def)
  have "free_bufs s - {k} \<subseteq> free_bufs t" using k(2) by (auto simp: free_bufs_def)
  moreover have f: "finite (free_bufs s)" "finite (free_bufs t)" by (simp_all add: free_bufs_def)
  ultimately have "card (free_bufs s - {k}) \<le> card (free_bufs t)" by (intro card_mono)
  then have "r \<le> card (free_bufs t)" using assms(1) card_Diff1_le [of "free_bufs s" k] f(1) by (cases "k \<in> free_bufs s") (auto simp: tx_rooms_def)
  moreover have "unat (b_refcnt (bufs t j)) + r + 2 < 2 ^ 32" if "j < NBUF" for j
  proof -
    have u: "unat (b_refcnt (bufs s j)) + r + 3 < 2 ^ 32" using assms(1) that by (fastforce simp: tx_rooms_def)
    then have "unat (b_refcnt (bufs s j) + 1) = unat (b_refcnt (bufs s j)) + 1" by (simp add: unat_add32)
    then show ?thesis using k(2) [of j] u by (auto split: if_splits)
  qed
  ultimately show ?thesis using assms(1) m by (auto simp: tx_rooms_def)
qed

text \<open>Reading a block and releasing it again changes nothing.\<close>

lemma log_open_wstep:
  assumes "log_open n {} s" and "wstep [] {} s t"
  shows "log_open n {} t"
proof -
  note L = log_openD [OF assms(1)] and W = wstepD [OF assms(2)]
  have "pinned_by {} c t" if "pinned_by {} c s" for c
    using that wstep_pin [OF assms(2), of c] by (auto simp: pinned_by_def)
  then show ?thesis using L W(1,3) wstep_lg [OF assms(2)] by (simp add: log_open_def)
qed

lemma tx_look:
  fixes s :: "'z lst_scheme"
  assumes "log_open n {} s" and "tx_rooms (Suc r) n s"
  shows "\<exists>i u t. bread ROOTDEV b s = Ret i u \<and> b_data (bufs u i) = block_of b s \<and> lst.more u = lst.more s \<and> brelse i u = Ret () t
    \<and> log_open n {} t \<and> tx_rooms (Suc r) n t \<and> (\<forall>c. block_of c t = block_of c s) \<and> lst.more t = lst.more s \<and> lg t = lg s"
proof -
  note L = log_openD [OF assms(1)]
  have no: "noovf s" "free1 s" using tx_rooms_room [OF assms(2)] by (auto simp: tx_room_def noovf_def)
  obtain i u where u: "bread ROOTDEV b s = Ret i u" "reads {} b i s u"
    using bread_spec [OF L(1) mayread_any [OF no(2,1)]] by blast
  obtain t where t: "brelse i u = Ret () t" "wstep [] {} s t" using reads_release [OF L(1) u(2)] by blast
  note W = wstepD [OF t(2)]
  have "b_refcnt (bufs t j) = b_refcnt (bufs s j)" for j using W(6) [of j] by simp
  then have "tx_rooms (Suc r) n t" using assms(2) wstep_lg [OF t(2)] by (simp add: tx_rooms_def free_bufs_def)
  moreover have "bframe s u" "b_data (bufs u i) = block_of b s" using u(2) by (auto simp: reads_def)
  ultimately show ?thesis using u(1) t log_open_wstep [OF assms(1) t(2)] W(5) lst_more(4) [OF W(2)] lst_more(4) [of s u] wstep_lg [OF t(2)] by auto
qed

section \<open>The bitmap\<close>

text \<open>Whether block \<open>b\<close> is marked in the bitmap that starts at block \<open>start\<close>, for the contents \<open>B\<close> of the disk.\<close>

definition marked :: "superblock \<Rightarrow> (uint \<Rightarrow> bytes) \<Rightarrow> nat \<Rightarrow> bool" where
  "marked sbk B b \<longleftrightarrow> B (BBLOCK (of_nat b) sbk) (b mod BPB div 8) AND bitmask (b mod BPB) \<noteq> 0"

lemma bitmask_bit: "x AND bitmask i \<noteq> 0 \<longleftrightarrow> bit x (i mod 8)"
  by (simp add: bitmask_def bit_iff_and_push_bit_not_eq_0)

lemma bitmask_or: "(x OR bitmask i) AND bitmask j \<noteq> 0 \<longleftrightarrow> x AND bitmask j \<noteq> 0 \<or> i mod 8 = j mod 8"
  unfolding bitmask_bit by (auto simp: bitmask_def bit_or_iff bit_exp_iff)

lemma bitmask_clear: "(x AND NOT (bitmask i)) AND bitmask j \<noteq> 0 \<longleftrightarrow> x AND bitmask j \<noteq> 0 \<and> i mod 8 \<noteq> j mod 8"
  unfolding bitmask_bit by (auto simp: bitmask_def bit_and_iff bit_not_iff bit_exp_iff)

lemma bitmask_nonzero [simp]: "bitmask i \<noteq> 0"
  using bitmask_or [of 0 i i] by simp

lemma BPB_val: "BPB = 8192"
  by (simp add: BPB_def BSIZE_def)

lemma BBLOCK_eq: "b < 2 ^ 32 \<Longrightarrow> BBLOCK (of_nat b) sbk = of_nat (b div BPB) + sb_bmapstart sbk"
proof -
  assume b: "b < 2 ^ 32"
  have "unat (of_nat b div 8192 :: uint) = b div 8192" using b by (simp add: unat_div unat_of_nat32)
  moreover have "unat (of_nat (b div 8192) :: uint) = b div 8192" using b by (simp add: unat_of_nat32)
  ultimately have "of_nat b div 8192 = (of_nat (b div 8192) :: uint)" by (simp only: unat_inj [symmetric])
  then show ?thesis by (simp add: BBLOCK_def BPB_val)
qed

lemma balloc_scan_spec:
  "case balloc_scan [a..<c] b sz d of
     Some i \<Rightarrow> a \<le> i \<and> i < c \<and> b + i < sz \<and> d (i div 8) AND bitmask i = 0 \<and> (\<forall>j. a \<le> j \<and> j < i \<longrightarrow> d (j div 8) AND bitmask j \<noteq> 0)
   | None \<Rightarrow> \<forall>j. a \<le> j \<and> j < c \<and> b + j < sz \<longrightarrow> d (j div 8) AND bitmask j \<noteq> 0"
proof (induction "c - a" arbitrary: a)
  case (Suc k)
  then have "[a..<c] = a # [Suc a..<c]" by (simp add: upt_conv_Cons)
  moreover have "case balloc_scan [Suc a..<c] b sz d of
     Some i \<Rightarrow> Suc a \<le> i \<and> i < c \<and> b + i < sz \<and> d (i div 8) AND bitmask i = 0 \<and> (\<forall>j. Suc a \<le> j \<and> j < i \<longrightarrow> d (j div 8) AND bitmask j \<noteq> 0)
   | None \<Rightarrow> \<forall>j. Suc a \<le> j \<and> j < c \<and> b + j < sz \<longrightarrow> d (j div 8) AND bitmask j \<noteq> 0"
    by (rule Suc(1)) (use Suc(2) in simp)
  moreover have "\<not> b + a < sz \<Longrightarrow> a \<le> j \<Longrightarrow> \<not> b + j < sz" for j by simp
  moreover have "a \<le> j \<longleftrightarrow> j = a \<or> Suc a \<le> j" for j by auto
  ultimately show ?case by (auto split: option.splits)
qed auto


section \<open>Allocating a block\<close>

lemma sb_more: "lst.more t = lst.more s \<Longrightarrow> sb t = sb (s :: 'z fsst_scheme)"
  by (cases s, cases t) simp

lemma kmsg_cache [simp]: "block_of c (kmsg m s) = block_of c s" "sb (kmsg m s) = sb s" "log_open n H (kmsg m s) \<longleftrightarrow> log_open n H s"
  by (simp_all add: kmsg_def block_of_def lookup_def log_open_def binv_def quiet_def mypid_def pinned_by_def cpu_ok_def lk_free_def split: option.split)

text \<open>
  The bitmap of a file system with its log: the blocks of the bitmap lie outside the log, and the blocks of the
  log and of the bitmap are marked.
\<close>

definition bmap_ok :: "uint \<Rightarrow> int \<Rightarrow> superblock \<Rightarrow> (uint \<Rightarrow> bytes) \<Rightarrow> bool" where
  "bmap_ok start z sbk B \<longleftrightarrow> (\<forall>b < unat (sb_size sbk). BBLOCK (of_nat b) sbk \<notin> logarea start z
     \<and> (of_nat b \<in> logarea start z \<or> (\<exists>c < unat (sb_size sbk). of_nat b = BBLOCK (of_nat c) sbk) \<longrightarrow> marked sbk B b))"

definition mark :: "superblock \<Rightarrow> (uint \<Rightarrow> bytes) \<Rightarrow> nat \<Rightarrow> bytes" where
  "mark sbk B b = (B (BBLOCK (of_nat b) sbk))
     (b mod BPB div 8 := B (BBLOCK (of_nat b) sbk) (b mod BPB div 8) OR bitmask (b mod BPB))"

text \<open>What \<^verbatim>\<open>balloc\<close> leaves when it takes block \<open>b\<close>.\<close>

definition taken :: "nat \<Rightarrow> 'z fsst_scheme \<Rightarrow> 'z fsst_scheme \<Rightarrow> bool" where
  "taken b s t \<longleftrightarrow> lst.more t = lst.more s \<and> (\<forall>c. block_of c t =
     (if c = of_nat b then memset 0 0 BSIZE (block_of c s) else if c = BBLOCK (of_nat b) (sb s) then mark (sb s) (\<lambda>c. block_of c s) b else block_of c s))"

lemma balloc_take:
  fixes s :: "'z fsst_scheme"
  assumes open_: "log_open n {} s" and room: "tx_rooms 2 n s" and ok: "bmap_ok (l_start (lg s)) (l_size (lg s)) (sb s) (\<lambda>c. block_of c s)"
    and b: "b < unat (sb_size (sb s))" "\<not> marked (sb s) (\<lambda>c. block_of c s) b"
    and d: "d = mark (sb s) (\<lambda>c. block_of c s) b"
  shows "\<exists>i u m t. bread ROOTDEV (BBLOCK (of_nat b) (sb s)) s = Ret i u \<and> b_data (bufs u i) = block_of (BBLOCK (of_nat b) (sb s)) s \<and> sb u = sb s
    \<and> seq (log_write i (upd_buf i (\<lambda>x. x\<lparr>b_data := d\<rparr>) u)) (\<lambda>s. seq (brelse i s) (\<lambda>s. seq (bzero ROOTDEV (of_nat b) s) (\<lambda>s. Ret (of_nat b) s)))
       = Ret (of_nat b :: uint) t \<and> log_open m {} t \<and> m \<le> n + 2 \<and> taken b s t"
proof -
  let ?c = "BBLOCK (of_nat b) (sb s)"
  have r2: "tx_rooms (Suc 1) n s" "tx_rooms (Suc (Suc 0)) n s" using room by (simp_all add: numeral_2_eq_2)
  have c: "?c \<notin> logarea (l_start (lg s)) (l_size (lg s))" "of_nat b \<notin> logarea (l_start (lg s)) (l_size (lg s))" "of_nat b \<noteq> ?c" using ok b by (auto simp: bmap_ok_def)
  obtain i u m1 t1 where u: "bread ROOTDEV ?c s = Ret i u" "b_data (bufs u i) = block_of ?c s"
    "seq (log_write i (upd_buf i (\<lambda>x. x\<lparr>b_data := d\<rparr>) u)) (\<lambda>s. brelse i s) = Ret () t1" "tx_step n ?c d s m1 t1"
    using tx_update [OF open_ tx_rooms_room [OF r2(1)] c(1), of d] by blast
  have T: "log_open m1 {} t1" "m1 \<le> n + 1" "\<And>x. block_of x t1 = (if x = ?c then d else block_of x s)" "lst.more t1 = lst.more s"
    "l_start (lg t1) = l_start (lg s)" "l_size (lg t1) = l_size (lg s)" using u(4) by (auto simp: tx_step_def)
  obtain m t where t: "bzero ROOTDEV (of_nat b) t1 = Ret () t" "tx_step m1 (of_nat b) (memset 0 0 BSIZE (block_of (of_nat b) t1)) t1 m t"
    using bzero_tx [OF T(1) tx_rooms_room [OF tx_rooms_step [OF r2(2) u(4)]]] c(2) T(5,6) by metis
  have Z: "log_open m {} t" "m \<le> m1 + 1" "lst.more t = lst.more t1"
    "\<And>x. block_of x t = (if x = of_nat b then memset 0 0 BSIZE (block_of (of_nat b) t1) else block_of x t1)" using t(2) by (auto simp: tx_step_def)
  have "taken b s t" unfolding taken_def using Z(3,4) T(3,4) c(3) d by auto
  moreover have "sb u = sb s" using tx_look [OF open_ r2(1), of ?c] u(1) sb_more [of u s] by auto
  moreover have "seq (log_write i (upd_buf i (\<lambda>x. x\<lparr>b_data := d\<rparr>) u)) (\<lambda>s. seq (brelse i s) (\<lambda>s. seq (bzero ROOTDEV (of_nat b) s) (\<lambda>s. Ret (of_nat b) s)))
       = Ret (of_nat b :: uint) t"
    unfolding seq_assoc [symmetric] u(3) using t(1) by simp
  ultimately show ?thesis using u(1,2) Z(1,2) T(2) by (intro exI [of _ i] exI [of _ u] exI [of _ m] exI [of _ t]) simp
qed

lemma balloc_loop_spec:
  fixes s :: "'z fsst_scheme"
  assumes "log_open n {} s" and "tx_rooms 2 n s" and "bmap_ok (l_start (lg s)) (l_size (lg s)) (sb s) (\<lambda>c. block_of c s)"
    and "sz = unat (sb_size (sb s))" and "K = (sz + BPB - 1) div BPB" and "k \<le> K" and "\<And>b. b < k * BPB \<Longrightarrow> b < sz \<Longrightarrow> marked (sb s) (\<lambda>c. block_of c s) b"
  shows "(\<exists>b < sz. \<not> marked (sb s) (\<lambda>c. block_of c s) b \<and> (\<forall>c < b. marked (sb s) (\<lambda>c. block_of c s) c)
      \<and> (\<exists>m t. balloc_loop (map (\<lambda>k. k * BPB) [k..<K]) ROOTDEV s = Ret (of_nat b) t \<and> log_open m {} t \<and> m \<le> n + 2 \<and> taken b s t))
    \<or> (\<forall>b < sz. marked (sb s) (\<lambda>c. block_of c s) b)
      \<and> (\<exists>t. balloc_loop (map (\<lambda>k. k * BPB) [k..<K]) ROOTDEV s = Ret 0 t \<and> log_open n {} t \<and> (\<forall>c. block_of c t = block_of c s) \<and> sb t = sb s)"
  using assms(1-3,4,6,7)
proof (induction "K - k" arbitrary: k s)
  case 0
  have "sz \<le> K * BPB" unfolding assms(5) BPB_val by simp
  then have "\<forall>b < sz. marked (sb s) (\<lambda>c. block_of c s) b" using 0 by simp
  then show ?case using 0 by simp
next
  case (Suc j)
  have kK: "k < K" using Suc.hyps(2) by simp
  then have up: "[k..<K] = k # [Suc k..<K]" by (simp add: upt_conv_Cons)
  have szw: "sz < 2 ^ 32" using Suc.prems(4) unsigned_less [of "sb_size (sb s)"] by simp
  have ksz: "k * BPB < sz" using kK unfolding assms(5) BPB_val by simp
  let ?B = "\<lambda>c. block_of c s" and ?c = "BBLOCK (of_nat (k * BPB)) (sb s)"
  have at: "BBLOCK (of_nat (k * BPB + i)) (sb s) = ?c" "marked (sb s) ?B (k * BPB + i) \<longleftrightarrow> ?B ?c (i div 8) AND bitmask i \<noteq> 0" if "i < BPB" "k * BPB + i < sz" for i
  proof -
    show e: "BBLOCK (of_nat (k * BPB + i)) (sb s) = ?c"
      using that szw ksz by (subst (1 2) BBLOCK_eq) (simp_all add: BPB_val)
    show "marked (sb s) ?B (k * BPB + i) \<longleftrightarrow> ?B ?c (i div 8) AND bitmask i \<noteq> 0" unfolding marked_def e using that(1) by simp
  qed
  note S = balloc_scan_spec [of 0 BPB "k * BPB" sz "?B ?c"]
  show ?case
  proof (cases "balloc_scan [0..<BPB] (k * BPB) sz (?B ?c)")
    case (Some i)
    define b where "b = k * BPB + i"
    have i: "i < BPB" "b < sz" "?B ?c (i div 8) AND bitmask i = 0" "\<And>j. j < i \<Longrightarrow> ?B ?c (j div 8) AND bitmask j \<noteq> 0" using S Some by (auto simp: b_def)
    have nm: "\<not> marked (sb s) ?B b" using at(2) [OF i(1)] i(2,3) by (simp add: b_def)
    have low: "marked (sb s) ?B c" if "c < b" for c
    proof (cases "c < k * BPB")
      case True
      then show ?thesis using Suc.prems(6) that i(2) by simp
    next
      case False
      then show ?thesis using at(2) [of "c - k * BPB"] i(1,2,4) that by (simp add: b_def)
    qed
    have cb: "BBLOCK (of_nat b) (sb s) = ?c" "b mod BPB = i" using at(1) [OF i(1)] i(1,2) by (simp_all add: b_def)
    define d where "d = mark (sb s) ?B b"
    obtain p u m t where u: "bread ROOTDEV ?c s = Ret p u" "b_data (bufs u p) = ?B ?c" "sb u = sb s"
      "seq (log_write p (upd_buf p (\<lambda>x. x\<lparr>b_data := d\<rparr>) u)) (\<lambda>s. seq (brelse p s) (\<lambda>s. seq (bzero ROOTDEV (of_nat b) s) (\<lambda>s. Ret (of_nat b) s))) = Ret (of_nat b :: uint) t"
      "log_open m {} t" "m \<le> n + 2" "taken b s t"
      using balloc_take [OF Suc.prems(1-3) i(2) [unfolded Suc.prems(4)] nm d_def] unfolding cb(1) by blast
    have "upd_buf p (\<lambda>x. x\<lparr>b_data := (b_data x)(i div 8 := b_data x (i div 8) OR bitmask i)\<rparr>) u = upd_buf p (\<lambda>x. x\<lparr>b_data := d\<rparr>) u"
      using u(2) by (simp add: upd_buf_def d_def mark_def cb)
    then have "balloc_loop (map (\<lambda>k. k * BPB) [k..<K]) ROOTDEV s = Ret (of_nat b) t"
      unfolding up using u(1-4) Some Suc.prems(4) by (simp add: Let_def b_def)
    then show ?thesis using nm low i(2) u(5-7) by blast
  next
    case None
    have r2: "tx_rooms (Suc 1) n s" using Suc.prems(2) by (simp add: numeral_2_eq_2)
    obtain p u t where u: "bread ROOTDEV ?c s = Ret p u" "b_data (bufs u p) = ?B ?c" "lst.more u = lst.more s" "brelse p u = Ret () t"
      "log_open n {} t" "tx_rooms (Suc 1) n t" "\<And>c. block_of c t = block_of c s" "lst.more t = lst.more s" "lg t = lg s"
      using tx_look [OF Suc.prems(1) r2] by blast
    have sb: "sb u = sb s" "sb t = sb s" using sb_more u(3,8) by blast+
    have mk: "marked (sb s) ?B b" if "b < Suc k * BPB" "b < sz" for b
    proof (cases "b < k * BPB")
      case False
      then show ?thesis using at(2) [of "b - k * BPB"] S None that by simp
    qed (use Suc.prems(6) that in simp)
    have "balloc_loop (map (\<lambda>k. k * BPB) [k..<K]) ROOTDEV s = balloc_loop (map (\<lambda>k. k * BPB) [Suc k..<K]) ROOTDEV t"
      unfolding up using u(1,2,4) None Suc.prems(4) sb(1) by simp
    moreover have B: "(\<lambda>c. block_of c t) = ?B" using u(7) by auto
    moreover have tk: "taken b t v = taken b s v" for b v using u(7,8) sb(2) B by (simp add: taken_def)
    moreover have "(\<exists>b < sz. \<not> marked (sb t) (\<lambda>c. block_of c t) b \<and> (\<forall>c < b. marked (sb t) (\<lambda>c. block_of c t) c)
        \<and> (\<exists>m v. balloc_loop (map (\<lambda>k. k * BPB) [Suc k..<K]) ROOTDEV t = Ret (of_nat b) v \<and> log_open m {} v \<and> m \<le> n + 2 \<and> taken b t v))
      \<or> (\<forall>b < sz. marked (sb t) (\<lambda>c. block_of c t) b)
        \<and> (\<exists>v. balloc_loop (map (\<lambda>k. k * BPB) [Suc k..<K]) ROOTDEV t = Ret 0 v \<and> log_open n {} v \<and> (\<forall>c. block_of c v = block_of c t) \<and> sb v = sb t)"
    proof (rule Suc.hyps(1))
      show "j = K - Suc k" using Suc.hyps(2) by simp
      show "tx_rooms 2 n t" using u(6) by (simp add: numeral_2_eq_2)
      show "bmap_ok (l_start (lg t)) (l_size (lg t)) (sb t) (\<lambda>c. block_of c t)" unfolding B u(9) sb(2) by (rule Suc.prems(3))
      show "marked (sb t) (\<lambda>c. block_of c t) b" if "b < Suc k * BPB" "b < sz" for b unfolding B sb(2) by (rule mk [OF that])
    qed (use u(5) sb(2) Suc.prems(4) kK in simp_all)
    ultimately show ?thesis unfolding B sb(2) u(7) by simp
  qed
qed


section \<open>The effect on the bitmap\<close>

lemma BBLOCK_inj: "a < 2 ^ 32 \<Longrightarrow> b < 2 ^ 32 \<Longrightarrow> BBLOCK (of_nat a) sbk = BBLOCK (of_nat b) sbk \<longleftrightarrow> a div BPB = b div BPB"
proof -
  assume ab: "a < 2 ^ 32" "b < 2 ^ 32"
  have "unat (of_nat (a div BPB) :: uint) = a div BPB" "unat (of_nat (b div BPB) :: uint) = b div BPB"
    using ab by (simp_all add: unat_of_nat32 BPB_val)
  then have "(of_nat (a div BPB) :: uint) = of_nat (b div BPB) \<longleftrightarrow> a div BPB = b div BPB" by metis
  then show ?thesis using ab by (simp add: BBLOCK_eq)
qed

lemma same_bit: "a div BPB = b div BPB \<Longrightarrow> a mod BPB div 8 = b mod BPB div 8 \<Longrightarrow> a mod BPB mod 8 = b mod BPB mod 8 \<Longrightarrow> a = b"
  by (metis div_mult_mod_eq)

lemma marked_upd:
  assumes "a < 2 ^ 32" and "b < 2 ^ 32" and "B' (BBLOCK (of_nat b) sbk) = (B (BBLOCK (of_nat b) sbk))(b mod BPB div 8 := y)"
    and "\<And>c. c < 2 ^ 32 \<Longrightarrow> c div BPB \<noteq> b div BPB \<Longrightarrow> c = a \<Longrightarrow> B' (BBLOCK (of_nat c) sbk) = B (BBLOCK (of_nat c) sbk)"
    and "\<And>j. j mod 8 \<noteq> b mod BPB mod 8 \<Longrightarrow> (y AND bitmask j \<noteq> 0) = (B (BBLOCK (of_nat b) sbk) (b mod BPB div 8) AND bitmask j \<noteq> 0)"
  shows "marked sbk B' a \<longleftrightarrow> (if a = b then y AND bitmask (b mod BPB) \<noteq> 0 else marked sbk B a)"
proof (cases "a div BPB = b div BPB")
  case True
  then have e: "BBLOCK (of_nat a) sbk = BBLOCK (of_nat b) sbk" using BBLOCK_inj [OF assms(1,2)] by simp
  show ?thesis
  proof (cases "a mod BPB div 8 = b mod BPB div 8 \<and> a \<noteq> b")
    case t: True
    then have "a mod BPB mod 8 \<noteq> b mod BPB mod 8" using same_bit [OF True] by blast
    then show ?thesis using assms(5) [of "a mod BPB"] t by (simp add: marked_def e assms(3))
  qed (auto simp: marked_def e assms(3))
next
  case False
  then show ?thesis using assms(4) [OF assms(1)] by (auto simp: marked_def)
qed

lemma taken_marked:
  assumes "taken b s t" and "bmap_ok start z (sb s) (\<lambda>c. block_of c s)" and "b < unat (sb_size (sb s))" and "\<not> marked (sb s) (\<lambda>c. block_of c s) b"
    and "a < unat (sb_size (sb s))"
  shows "marked (sb s) (\<lambda>c. block_of c t) a \<longleftrightarrow> a = b \<or> marked (sb s) (\<lambda>c. block_of c s) a"
proof -
  have "unat (sb_size (sb s)) < 2 ^ LENGTH(32)" by (rule unsigned_less)
  then have w: "a < 2 ^ 32" "b < 2 ^ 32" using assms(3,5) by simp_all
  have nb: "BBLOCK (of_nat c) (sb s) \<noteq> of_nat b" if "c < unat (sb_size (sb s))" for c using assms(2-4) that unfolding bmap_ok_def by metis
  have T: "block_of c t = (if c = of_nat b then memset 0 0 BSIZE (block_of c s) else if c = BBLOCK (of_nat b) (sb s) then mark (sb s) (\<lambda>c. block_of c s) b else block_of c s)" for c
    using assms(1) by (simp add: taken_def)
  have "marked (sb s) (\<lambda>c. block_of c t) a \<longleftrightarrow> (if a = b then (block_of (BBLOCK (of_nat b) (sb s)) s (b mod BPB div 8) OR bitmask (b mod BPB)) AND bitmask (b mod BPB) \<noteq> 0
      else marked (sb s) (\<lambda>c. block_of c s) a)"
  proof (rule marked_upd [OF w])
    show "block_of (BBLOCK (of_nat b) (sb s)) t = (block_of (BBLOCK (of_nat b) (sb s)) s)
        (b mod BPB div 8 := block_of (BBLOCK (of_nat b) (sb s)) s (b mod BPB div 8) OR bitmask (b mod BPB))"
      unfolding T using nb [OF assms(3)] by (simp add: mark_def)
    show "block_of (BBLOCK (of_nat c) (sb s)) t = block_of (BBLOCK (of_nat c) (sb s)) s" if "c < 2 ^ 32" "c div BPB \<noteq> b div BPB" "c = a" for c
      unfolding T using nb [OF assms(5)] that BBLOCK_inj [OF that(1) w(2)] by simp
  qed (auto simp: bitmask_or)
  then show ?thesis by (simp add: bitmask_or)
qed


text \<open>
  C35. \<^verbatim>\<open>balloc\<close> inside a transaction takes the first block that is not marked in the bitmap: it marks exactly
  this block, fills it with zeros, changes no other block, and leaves a transaction with at most two
  more blocks; when every block of the file system is marked it returns 0 and changes no block. Blocks
  of the log and of the bitmap are never handed out.
\<close>

theorem balloc_correct:
  fixes s :: "'z fsst_scheme"
  assumes "log_open n {} s" and "tx_rooms 2 n s" and "bmap_ok (l_start (lg s)) (l_size (lg s)) (sb s) (\<lambda>c. block_of c s)" and "sz = unat (sb_size (sb s))"
  shows "\<exists>t m. log_open m {} t \<and> m \<le> n + 2 \<and> sb t = sb s \<and>
    (if \<exists>b < sz. \<not> marked (sb s) (\<lambda>c. block_of c s) b
     then \<exists>b < sz. balloc ROOTDEV s = Ret (of_nat b) t \<and> \<not> marked (sb s) (\<lambda>c. block_of c s) b
       \<and> (\<forall>a < b. marked (sb s) (\<lambda>c. block_of c s) a)
       \<and> (\<forall>a < sz. marked (sb s) (\<lambda>c. block_of c t) a \<longleftrightarrow> a = b \<or> marked (sb s) (\<lambda>c. block_of c s) a)
       \<and> (\<forall>i < BSIZE. block_of (of_nat b) t i = 0)
       \<and> (\<forall>c. c \<noteq> of_nat b \<longrightarrow> c \<noteq> BBLOCK (of_nat b) (sb s) \<longrightarrow> block_of c t = block_of c s)
     else balloc ROOTDEV s = Ret 0 t \<and> (\<forall>c. block_of c t = block_of c s))"
proof -
  let ?B = "\<lambda>c. block_of c s"
  have run: "balloc ROOTDEV s = balloc_loop (map (\<lambda>k. k * BPB) [0..<(sz + BPB - 1) div BPB]) ROOTDEV s" by (simp add: balloc_def assms(4))
  note S = balloc_loop_spec [OF assms refl le0]
  show ?thesis
  proof (cases "\<exists>b < sz. \<not> marked (sb s) ?B b")
    case True
    then obtain b m t where b: "b < sz" "\<not> marked (sb s) ?B b" "\<forall>a < b. marked (sb s) ?B a" "balloc ROOTDEV s = Ret (of_nat b) t"
      "log_open m {} t" "m \<le> n + 2" "taken b s t"
      using S unfolding run by fastforce
    have "\<forall>a < sz. marked (sb s) (\<lambda>c. block_of c t) a \<longleftrightarrow> a = b \<or> marked (sb s) ?B a"
      using taken_marked [OF b(7) assms(3) _ b(2)] b(1) assms(4) by blast
    moreover have "\<forall>i < BSIZE. block_of (of_nat b) t i = 0" "sb t = sb s"
      "\<forall>c. c \<noteq> of_nat b \<longrightarrow> c \<noteq> BBLOCK (of_nat b) (sb s) \<longrightarrow> block_of c t = block_of c s"
      using b(7) sb_more [of t s] by (auto simp: taken_def memset_eq blit_def)
    ultimately show ?thesis using True b by auto
  next
    case False
    then obtain t where "balloc ROOTDEV s = Ret 0 t" "log_open n {} t" "\<forall>c. block_of c t = block_of c s" "sb t = sb s"
      using S unfolding run by auto
    then show ?thesis using False by (intro exI [of _ t] exI [of _ n]) auto
  qed
qed

text \<open>
  \<^verbatim>\<open>bfree\<close> of a block that is marked clears exactly its mark, in the running transaction, and changes no block
  but that one of the bitmap; of a block that is not marked it panics.
\<close>

theorem bfree_correct:
  fixes s :: "'z fsst_scheme"
  assumes "log_open n {} s" and "tx_rooms 1 n s" and "bmap_ok (l_start (lg s)) (l_size (lg s)) (sb s) (\<lambda>c. block_of c s)" and "sz = unat (sb_size (sb s))" and "b < sz"
  shows "if marked (sb s) (\<lambda>c. block_of c s) b
    then \<exists>t m. bfree ROOTDEV (of_nat b) s = Ret () t \<and> log_open m {} t \<and> m \<le> n + 1 \<and> sb t = sb s
      \<and> (\<forall>a < sz. marked (sb s) (\<lambda>c. block_of c t) a \<longleftrightarrow> a \<noteq> b \<and> marked (sb s) (\<lambda>c. block_of c s) a)
      \<and> (\<forall>c. c \<noteq> BBLOCK (of_nat b) (sb s) \<longrightarrow> block_of c t = block_of c s)
    else bfree ROOTDEV (of_nat b) s = Panic ''freeing free block''"
proof -
  let ?c = "BBLOCK (of_nat b) (sb s)" and ?B = "\<lambda>c. block_of c s"
  let ?y = "?B ?c (b mod BPB div 8) AND NOT (bitmask (b mod BPB))"
  have r: "tx_rooms (Suc 0) n s" using assms(2) by simp
  have c: "?c \<notin> logarea (l_start (lg s)) (l_size (lg s))" using assms(3-5) by (simp add: bmap_ok_def)
  have "sz < 2 ^ LENGTH(32)" unfolding assms(4) by (rule unsigned_less)
  then have sz: "sz < 2 ^ 32" by simp
  have ub: "unat (of_nat b :: uint) = b" using assms(5) sz by (simp add: unat_of_nat32)
  obtain i u m t where u: "bread ROOTDEV ?c s = Ret i u" "b_data (bufs u i) = ?B ?c"
    "seq (log_write i (upd_buf i (\<lambda>x. x\<lparr>b_data := (?B ?c)(b mod BPB div 8 := ?y)\<rparr>) u)) (\<lambda>s. brelse i s) = Ret () t"
    "tx_step n ?c ((?B ?c)(b mod BPB div 8 := ?y)) s m t"
    using tx_update [OF assms(1) tx_rooms_room [OF r] c] by blast
  show ?thesis
  proof (cases "marked (sb s) ?B b")
    case False
    then show ?thesis using u(1,2) by (simp add: bfree_def ub marked_def Let_def)
  next
    case True
    have "upd_buf i (\<lambda>x. x\<lparr>b_data := (b_data x)(b mod BPB div 8 := b_data x (b mod BPB div 8) AND NOT (bitmask (b mod BPB)))\<rparr>) u
      = upd_buf i (\<lambda>x. x\<lparr>b_data := (?B ?c)(b mod BPB div 8 := ?y)\<rparr>) u" using u(2) by (simp add: upd_buf_def)
    then have run: "bfree ROOTDEV (of_nat b) s = Ret () t" using True u(1-3) by (simp add: bfree_def ub marked_def Let_def)
    have T: "log_open m {} t" "m \<le> n + 1" "\<And>x. block_of x t = (if x = ?c then (?B ?c)(b mod BPB div 8 := ?y) else ?B x)" "lst.more t = lst.more s"
      using u(4) by (auto simp: tx_step_def)
    have "marked (sb s) (\<lambda>c. block_of c t) a \<longleftrightarrow> (if a = b then ?y AND bitmask (b mod BPB) \<noteq> 0 else marked (sb s) ?B a)" if "a < sz" for a
    proof (rule marked_upd)
      show "block_of (BBLOCK (of_nat c) (sb s)) t = ?B (BBLOCK (of_nat c) (sb s))" if "c < 2 ^ 32" "c div BPB \<noteq> b div BPB" for c
        using that BBLOCK_inj [OF that(1), of b] assms(5) sz by (simp add: T(3))
    qed (use that assms(5) sz in \<open>auto simp: T(3) bitmask_clear\<close>)
    then have "\<forall>a < sz. marked (sb s) (\<lambda>c. block_of c t) a \<longleftrightarrow> a \<noteq> b \<and> marked (sb s) ?B a" using bitmask_clear by auto
    then show ?thesis using True run T sb_more [OF T(4)] by auto
  qed
qed


section \<open>Examples\<close>

text \<open>A file system of 100 blocks with the log at block 2 and the bitmap in block 45; blocks 0 to 47 are in use.\<close>

definition demo_bitmap :: "uint \<Rightarrow> bytes" where
  "demo_bitmap b = (\<lambda>i. if b = 45 \<and> i < 6 then 255 else 0)"

definition demo_alloc :: fsst where
  "demo_alloc = (demo_tx demo_bitmap)\<lparr>sb := zero_sb\<lparr>sb_size := 100, sb_bmapstart := 45\<rparr>\<rparr>"

lemma sb_upd [simp]: "block_of c (s\<lparr>sb := x\<rparr>) = block_of c s" "log_open n H (s\<lparr>sb := x\<rparr>) \<longleftrightarrow> log_open n H s" "tx_rooms r n (s\<lparr>sb := x\<rparr>) \<longleftrightarrow> tx_rooms r n s"
  by (simp_all add: block_of_def lookup_def log_open_def binv_def quiet_def mypid_def pinned_by_def cpu_ok_def lk_free_def tx_rooms_def free_bufs_def split: option.split)

lemma demo_alloc_sel: "sb demo_alloc = zero_sb\<lparr>sb_size := 100, sb_bmapstart := 45\<rparr>" "(\<lambda>c. block_of c demo_alloc) = demo_bitmap" "l_start (lg demo_alloc) = 2" "l_size (lg demo_alloc) = 30"
  "log_open 0 {} demo_alloc" "tx_rooms 2 0 demo_alloc"
proof -
  have h: "hdr_n (demo_bitmap 2) = 0" by (simp add: hdr_n_def demo_bitmap_def ld32_def ldn_zero)
  have f: "free_bufs (demo_tx demo_bitmap) = {..<NBUF}" using demo_tx_ok by (auto simp: free_bufs_def)
  show "sb demo_alloc = zero_sb\<lparr>sb_size := 100, sb_bmapstart := 45\<rparr>" by (simp add: demo_alloc_def)
  show "(\<lambda>c. block_of c demo_alloc) = demo_bitmap" "l_start (lg demo_alloc) = 2" "l_size (lg demo_alloc) = 30" using demo_tx_ok by (auto simp: demo_alloc_def demo_log_def)
  show "log_open 0 {} demo_alloc" using demo_tx_ok h by (simp add: demo_alloc_def) (simp add: log_open_def demo_log_def)
  show "tx_rooms 2 0 demo_alloc" using demo_tx_ok f by (simp add: demo_alloc_def) (simp add: tx_rooms_def demo_log_def param_defs NBUF_eq)
qed

lemma demo_marked: "b < 100 \<Longrightarrow> marked (sb demo_alloc) demo_bitmap b \<longleftrightarrow> b < 48"
proof -
  assume b: "b < 100"
  have "BBLOCK (of_nat b) (sb demo_alloc) = 45" using b by (subst BBLOCK_eq) (simp_all add: BPB_val demo_alloc_sel zero_sb_def)
  moreover have "(255 :: byte) = - 1" by simp
  then have "(255 :: byte) AND bitmask i \<noteq> 0" for i by (simp only: and.left_neutral bitmask_nonzero not_False_eq_True)
  ultimately show ?thesis using b by (auto simp: marked_def BPB_val demo_bitmap_def)
qed

lemma demo_bmap_ok: "bmap_ok 2 30 (sb demo_alloc) demo_bitmap"
proof -
  have e: "BBLOCK (of_nat b) (sb demo_alloc) = 45" if "b < 100" for b using that by (subst BBLOCK_eq) (simp_all add: BPB_val demo_alloc_sel zero_sb_def)
  have u: "unat (of_nat b :: uint) = b" if "b < 100" for b using that by (simp add: unat_of_nat32)
  have "marked (sb demo_alloc) demo_bitmap b" if "b < 100" "of_nat b \<in> logarea 2 30 \<or> of_nat b = (45 :: uint)" for b
  proof -
    have "b < 48" using that(2)
    proof
      assume "of_nat b = (45 :: uint)"
      then have "unat (of_nat b :: uint) = 45" by simp
      then show "b < 48" using u [OF that(1)] by simp
    qed (use logarea_2 u [OF that(1)] in fastforce)
    then show ?thesis using demo_marked that(1) by simp
  qed
  moreover have "(45 :: uint) \<notin> logarea 2 30" using logarea_2 [of 45] by auto
  ultimately show ?thesis unfolding bmap_ok_def using e by (auto simp: demo_alloc_sel zero_sb_def)
qed

lemma demo_alloc_ok:
  "bmap_ok (l_start (lg demo_alloc)) (l_size (lg demo_alloc)) (sb demo_alloc) (\<lambda>c. block_of c demo_alloc)" "100 = unat (sb_size (sb demo_alloc))"
  "b < 100 \<Longrightarrow> marked (sb demo_alloc) (\<lambda>c. block_of c demo_alloc) b \<longleftrightarrow> b < 48"
proof -
  show "bmap_ok (l_start (lg demo_alloc)) (l_size (lg demo_alloc)) (sb demo_alloc) (\<lambda>c. block_of c demo_alloc)" using demo_bmap_ok by (simp only: demo_alloc_sel(2-4))
  show "100 = unat (sb_size (sb demo_alloc))" by (simp add: demo_alloc_sel(1) zero_sb_def)
  show "b < 100 \<Longrightarrow> marked (sb demo_alloc) (\<lambda>c. block_of c demo_alloc) b \<longleftrightarrow> b < 48" using demo_marked by (simp only: demo_alloc_sel(2))
qed

theorem balloc_correct_witness: "\<exists>t. balloc ROOTDEV demo_alloc = Ret 48 t \<and> block_of 48 t 0 = 0 \<and> marked (sb demo_alloc) (\<lambda>c. block_of c t) 48"
proof -
  have ex: "\<exists>b < 100. \<not> marked (sb demo_alloc) (\<lambda>c. block_of c demo_alloc) b" by (intro exI [of _ 48]) (simp add: demo_alloc_ok(3))
  obtain t b where t: "b < 100" "balloc ROOTDEV demo_alloc = Ret (of_nat b) t" "\<not> marked (sb demo_alloc) (\<lambda>c. block_of c demo_alloc) b"
    "\<forall>a < b. marked (sb demo_alloc) (\<lambda>c. block_of c demo_alloc) a"
    "\<forall>a < 100. marked (sb demo_alloc) (\<lambda>c. block_of c t) a \<longleftrightarrow> a = b \<or> marked (sb demo_alloc) (\<lambda>c. block_of c demo_alloc) a"
    "\<forall>i < BSIZE. block_of (of_nat b) t i = 0"
    using balloc_correct [OF demo_alloc_sel(5,6) demo_alloc_ok(1,2)] unfolding if_P [OF ex] by (elim exE conjE) (rule that)
  have "b = 48"
  proof (rule antisym)
    show "b \<le> 48"
    proof (rule leI, rule notI)
      assume "48 < b"
      then show False using t(4) demo_alloc_ok(3) [of 48] by simp
    qed
    show "48 \<le> b" using t(3) demo_alloc_ok(3) [OF t(1)] by simp
  qed
  then show ?thesis using t(2,5,6) by (simp add: BSIZE_def)
qed

theorem bfree_correct_witness: "\<exists>t. bfree ROOTDEV 47 demo_alloc = Ret () t \<and> \<not> marked (sb demo_alloc) (\<lambda>c. block_of c t) 47"
proof -
  have r: "tx_rooms 1 0 demo_alloc" using demo_alloc_sel(6) by (auto simp: tx_rooms_def)
  have m: "marked (sb demo_alloc) (\<lambda>c. block_of c demo_alloc) 47" by (simp add: demo_alloc_ok(3))
  obtain t where t: "bfree ROOTDEV (of_nat 47) demo_alloc = Ret () t" "\<forall>a < 100. marked (sb demo_alloc) (\<lambda>c. block_of c t) a \<longleftrightarrow> a \<noteq> 47 \<and> marked (sb demo_alloc) (\<lambda>c. block_of c demo_alloc) a"
    using bfree_correct [OF demo_alloc_sel(5) r demo_alloc_ok(1,2), of 47] unfolding if_P [OF m] by fastforce
  then show ?thesis by simp
qed
end
