(* ===== verification/Xv6_Inode.thy ===== *)
theory Xv6_Inode
  imports Xv6_Alloc Xv6_Copy
begin

text \<open>
  The contents of files: what \<^verbatim>\<open>readi\<close> and \<^verbatim>\<open>writei\<close> of \<^verbatim>\<open>kernel/fs.c\<close> do, through \<^verbatim>\<open>bmap\<close>, the buffer cache, the log
  and the copying from and to user memory.
\<close>

section \<open>The bytes of a file\<close>

text \<open>The block of a file that holds its \<open>k\<close>-th piece, and the byte at an offset.\<close>

definition fblock :: "nat \<Rightarrow> 'z fsst_scheme \<Rightarrow> nat \<Rightarrow> uint" where
  "fblock ip s k = (if k < NDIRECT then i_addrs (itable s ip) k else ld32 (block_of (i_addrs (itable s ip) NDIRECT) s) (4 * (k - NDIRECT)))"

definition fbyte :: "nat \<Rightarrow> 'z fsst_scheme \<Rightarrow> nat \<Rightarrow> byte" where
  "fbyte ip s a = block_of (fblock ip s (a div 1024)) s (a mod 1024)"

text \<open>The first \<open>n\<close> bytes of the file have blocks.\<close>

definition allocated :: "nat \<Rightarrow> 'z fsst_scheme \<Rightarrow> nat \<Rightarrow> bool" where
  "allocated ip s n \<longleftrightarrow> i_dev (itable s ip) = ROOTDEV \<and> n \<le> MAXFILE * 1024 \<and> (\<forall>k. k * 1024 < n \<longrightarrow> fblock ip s k \<noteq> 0
     \<and> (NDIRECT \<le> k \<longrightarrow> i_addrs (itable s ip) NDIRECT \<noteq> 0))"

lemma allocated_mono: "allocated ip s N \<Longrightarrow> n \<le> N \<Longrightarrow> allocated ip s n"
  by (auto simp: allocated_def)

lemma more_itable: "lst.more t = lst.more s \<Longrightarrow> itable t = itable (s :: 'z fsst_scheme)"
  by (cases s, cases t) simp

lemma NDIRECT_val: "NDIRECT = 12" "NINDIRECT = 256" "MAXFILE = 268"
  by (simp_all add: fs_defs)

lemma wstep_file:
  assumes "wstep [] {} s t"
  shows "itable t = itable s" "fblock ip t = fblock ip s" "fbyte ip t = fbyte ip s" "allocated ip t n \<longleftrightarrow> allocated ip s n"
proof -
  note W = wstepD [OF assms]
  show i: "itable t = itable s" by (rule more_itable [OF lst_more(4) [OF W(2)]])
  have b: "block_of c t = block_of c s" for c using W(5) by simp
  show f: "fblock ip t = fblock ip s" by (simp add: fun_eq_iff fblock_def i b)
  show "fbyte ip t = fbyte ip s" by (simp add: fun_eq_iff fbyte_def f b)
  show "allocated ip t n \<longleftrightarrow> allocated ip s n" by (simp add: allocated_def i f)
qed

lemma bmap_mapped:
  fixes s :: "'z fsst_scheme"
  assumes "binv {} s" and "noovf s" and "free1 s" and "allocated ip s n" and "unat k * 1024 < n"
  shows "\<exists>t. bmap ip k s = Ret (fblock ip s (unat k)) t \<and> wstep [] {} s t"
proof (cases "unat k < NDIRECT")
  case True
  then have "k < of_nat NDIRECT" by (simp add: word_less_nat_alt NDIRECT_val)
  moreover have "fblock ip s (unat k) \<noteq> 0" using assms(4,5) by (auto simp: allocated_def)
  ultimately have "bmap ip k s = Ret (fblock ip s (unat k)) s" using True by (simp add: bmap_def fblock_def)
  then show ?thesis using wstep_refl [OF assms(1)] by blast
next
  case False
  have n: "n \<le> MAXFILE * 1024" "i_dev (itable s ip) = ROOTDEV" "fblock ip s (unat k) \<noteq> 0" "i_addrs (itable s ip) NDIRECT \<noteq> 0"
    using assms(4,5) False by (auto simp: allocated_def)
  have k: "12 \<le> unat k" "unat k < 268" using False n(1) assms(5) by (simp_all add: NDIRECT_val)
  have kw: "\<not> k < of_nat NDIRECT" using k by (simp add: word_less_nat_alt NDIRECT_val)
  have ks: "unat (k - of_nat NDIRECT) = unat k - NDIRECT" using k by (subst unat_sub) (simp_all add: word_le_nat_alt NDIRECT_val)
  have kb: "k - of_nat NDIRECT < of_nat NINDIRECT" unfolding word_less_nat_alt ks using k by (simp add: NDIRECT_val)
  let ?a = "i_addrs (itable s ip) NDIRECT"
  obtain i u where u: "bread ROOTDEV ?a s = Ret i u" "reads {} ?a i s u"
    using bread_spec [OF assms(1) mayread_any [OF assms(3,2)]] by blast
  obtain t where t: "brelse i u = Ret () t" "wstep [] {} s t" using reads_release [OF assms(1) u(2)] by blast
  have d: "b_data (bufs u i) = block_of ?a s" "bframe s u" using u(2) by (auto simp: reads_def)
  have "fblock ip s (unat k) = ld32 (block_of ?a s) (4 * unat (k - of_nat NDIRECT))" using False by (simp add: fblock_def ks)
  then have "bmap ip k s = Ret (fblock ip s (unat k)) t"
    using kw kb n(2-4) u(1) t(1) d(1) by (simp add: bmap_def Let_def)
  then show ?thesis using t(2) by blast
qed

section \<open>Reading\<close>

text \<open>The cache and user memory may change, but no contents of blocks and nothing of the file system.\<close>

definition rframe :: "'z fsst_scheme \<Rightarrow> 'z fsst_scheme \<Rightarrow> bool" where
  "rframe s t \<longleftrightarrow> binv {} t \<and> (\<forall>j. b_refcnt (bufs t j) = b_refcnt (bufs s j)) \<and> (\<forall>c. block_of c t = block_of c s) \<and> disk t = disk s
     \<and> lst.more t = lst.more s \<and> lg t = lg s \<and> tp t = tp s \<and> (\<forall>c. cpu_proc (cpus t c) = cpu_proc (cpus s c))
     \<and> (\<forall>p. p_pagetable (procs t p) = p_pagetable (procs s p))"

lemma rframe_trans: "rframe s t \<Longrightarrow> rframe t u \<Longrightarrow> rframe s u"
  by (simp add: rframe_def)

lemma wstep_rframe:
  fixes s t :: "'z fsst_scheme"
  assumes "wstep [] {} s t"
  shows "rframe s t" "mem t = mem s"
  using wstepD [OF assms] bframe_eqs [OF wstepD(2) [OF assms]] lst_more(4) [OF wstepD(2) [OF assms]] wstep_lg [OF assms] by (simp_all add: rframe_def)

lemma rframe_keeps:
  assumes "rframe s t"
  shows "noovf t \<longleftrightarrow> noovf s" "free1 t \<longleftrightarrow> free1 s" "itable t = itable s" "fblock ip t = fblock ip s" "fbyte ip t = fbyte ip s"
    "allocated ip t n \<longleftrightarrow> allocated ip s n"
proof -
  have R: "\<And>j. b_refcnt (bufs t j) = b_refcnt (bufs s j)" "\<And>c. block_of c t = block_of c s" "lst.more t = lst.more s"
    using assms by (auto simp: rframe_def)
  show "noovf t \<longleftrightarrow> noovf s" "free1 t \<longleftrightarrow> free1 s" by (simp_all add: noovf_def free1_def R)
  show i: "itable t = itable s" by (rule more_itable [OF R(3)])
  show f: "fblock ip t = fblock ip s" by (simp add: fun_eq_iff fblock_def i R)
  show "fbyte ip t = fbyte ip s" by (simp add: fun_eq_iff fbyte_def f R)
  show "allocated ip t n \<longleftrightarrow> allocated ip s n" by (simp add: allocated_def i f)
qed

lemma mem_upd_cache [simp]:
  fixes s :: "'z bst_scheme"
  shows "lookup b (s\<lparr>mem := m\<rparr>) = lookup b s" "block_of b (s\<lparr>mem := m\<rparr>) = block_of b s" "binv H (s\<lparr>mem := m\<rparr>) \<longleftrightarrow> binv H s"
  by (simp_all add: lookup_def block_of_def binv_def quiet_def mypid_def split: option.split)

lemma reads_mem:
  fixes s u :: "'z bst_scheme"
  assumes "reads H b i s u"
  shows "reads H b i (s\<lparr>mem := m\<rparr>) ((touch u)\<lparr>mem := m\<rparr>)"
proof -
  have "bframe s u" using assms by (simp add: reads_def)
  then obtain B L P d tr where t: "touch u = touch (s\<lparr>bufs := B, slocks := L, procs := P, disk := d, dtrace := tr\<rparr>)"
    "\<forall>p. \<exists>st. P p = (procs s p)\<lparr>p_state := st\<rparr>" "\<forall>i. L (SL_inode i) = slocks s (SL_inode i)" by (auto simp: bframe_def)
  have "bframe (s\<lparr>mem := m\<rparr>) ((touch u)\<lparr>mem := m\<rparr>)"
  proof (rule bframeI)
    show "touch ((touch u)\<lparr>mem := m\<rparr>) = touch ((s\<lparr>mem := m\<rparr>)\<lparr>bufs := B, slocks := L, procs := P, disk := d, dtrace := tr\<rparr>)"
    proof -
      have "(s\<lparr>bufs := B, slocks := L, procs := P, disk := d, dtrace := tr\<rparr>)\<lparr>mem := m\<rparr> = (s\<lparr>mem := m\<rparr>)\<lparr>bufs := B, slocks := L, procs := P, disk := d, dtrace := tr\<rparr>"
        by (cases s) simp
      moreover have "touch ((touch X)\<lparr>mem := m\<rparr>) = touch (X\<lparr>mem := m\<rparr>)" for X :: "'z bst_scheme" by (simp add: locksimp)
      ultimately show ?thesis unfolding t(1) by (simp only:)
    qed
  qed (use t(2,3) in auto)
  then show ?thesis using assms by (simp add: reads_def)
qed

lemma wrote_cong: "wrote pt a n f m m' \<Longrightarrow> (\<And>i. i < n \<Longrightarrow> f i = g i) \<Longrightarrow> wrote pt a n g m m'"
  unfolding wrote_def by (auto simp: less_diff_conv2)

lemma read_block:
  fixes s :: "'z fsst_scheme"
  assumes "binv {} s" and "noovf s" and "free1 s" and "cpu_proc (cpus s (tp s)) = Some p" and "p_pagetable (procs s p) = pt"
    and "ptwf (mem s) 2 pt" and "user_ok (mem s) pt" and "umapped (mem s) pt (unat dst) (unat len)"
  shows "\<exists>i u v t. bread ROOTDEV b s = Ret i u \<and> either_copyout (User dst) (\<lambda>j. b_data (bufs u i) (o1 + j)) len u = Ret 0 v \<and> brelse i v = Ret () t
    \<and> rframe s t \<and> itable u = itable s \<and> wrote pt (unat dst) (unat len) (\<lambda>j. block_of b s (o1 + j)) (mem s) (mem t)"
proof -
  obtain i u where u: "bread ROOTDEV b s = Ret i u" "reads {} b i s u"
    using bread_spec [OF assms(1) mayread_any [OF assms(3,2)]] by blast
  have R: "bframe s u" "b_data (bufs u i) = block_of b s" "binv {i} u" using u(2) by (auto simp: reads_def)
  note F = bframe_eqs [OF R(1)]
  have cpu: "cpu_ok u" "cpu_proc (cpus u (tp u)) = Some p" "p_pagetable (procs u p) = pt" "mem u = mem s"
    using binvD(1) [OF R(3)] F assms(4,5) by (simp_all add: quiet_def)
  obtain m where m: "copyout pt dst (\<lambda>j. block_of b s (o1 + j)) len (touch u) = Ret 0 ((touch u)\<lparr>mem := m\<rparr>)"
    "wrote pt (unat dst) (unat len) (\<lambda>j. block_of b s (o1 + j)) (mem s) m"
    using copyout_wrote [of "touch u" pt dst len] assms(6-8) cpu(4) by auto
  have e: "either_copyout (User dst) (\<lambda>j. b_data (bufs u i) (o1 + j)) len u = Ret 0 ((touch u)\<lparr>mem := m\<rparr>)"
    using cpu m(1) R(2) by (simp add: either_copyout_def)
  obtain t where t: "brelse i ((touch u)\<lparr>mem := m\<rparr>) = Ret () t" "wstep [] {} (s\<lparr>mem := m\<rparr>) t"
    using reads_release [OF _ reads_mem [OF u(2)], of m] assms(1) by auto
  have "lst.more (s\<lparr>mem := m\<rparr>) = lst.more s" by (cases s) simp
  then have "rframe s (s\<lparr>mem := m\<rparr>)" using assms(1) by (simp add: rframe_def)
  then have "rframe s t" using rframe_trans wstep_rframe(1) [OF t(2)] by blast
  moreover have "mem t = m" using wstep_rframe(2) [OF t(2)] by simp
  moreover have "itable u = itable s" by (rule more_itable [OF lst_more(4) [OF R(1)]])
  ultimately show ?thesis using u(1) e t(1) m(2) by blast
qed

lemma unat_chunk1024:
  fixes off tot n :: uint
  assumes "tot < n" and "m = min (n - tot) (1024 - off mod 1024)"
  shows "unat m = min (unat n - unat tot) (1024 - unat off mod 1024)" "unat (ucast m :: uint64) = unat m" "unat (off mod 1024) = unat off mod 1024"
    "unat (off div 1024) = unat off div 1024" "0 < unat m" "unat m + unat off mod 1024 \<le> 1024" "unat m \<le> unat n - unat tot"
proof -
  show o: "unat (off mod 1024) = unat off mod 1024" "unat (off div 1024) = unat off div 1024" by (simp_all add: unat_mod unat_div)
  have a: "unat (n - tot) = unat n - unat tot" using assms(1) by (simp add: unat_sub word_le_nat_alt word_less_nat_alt)
  have b: "unat (1024 - off mod 1024) = 1024 - unat off mod 1024" by (subst unat_sub) (simp_all add: word_le_nat_alt o)
  show u: "unat m = min (unat n - unat tot) (1024 - unat off mod 1024)" unfolding assms(2) by (simp add: min_def word_le_nat_alt a b)
  have "unat m < 2 ^ LENGTH(32)" by (rule unsigned_less)
  then show "unat (ucast m :: uint64) = unat m" by (simp add: unsigned_ucast_eq take_bit_eq_mod)
  have "unat tot < unat n" using assms(1) by (simp add: word_less_nat_alt)
  moreover have "unat off mod 1024 < 1024" by simp
  ultimately show "0 < unat m" "unat m + unat off mod 1024 \<le> 1024" "unat m \<le> unat n - unat tot" unfolding u min_def by (auto split: if_splits)
qed

lemma fbyte_chunk: "a mod 1024 + j < 1024 \<Longrightarrow> fbyte ip s (a + j) = block_of (fblock ip s (a div 1024)) s (a mod 1024 + j)"
proof -
  assume l: "a mod 1024 + j < 1024"
  have "a + j = (a div 1024) * 1024 + (a mod 1024 + j)" by simp
  then have "(a + j) div 1024 = a div 1024" "(a + j) mod 1024 = a mod 1024 + j" using l by (metis div_mult_self3 div_less add_0_right mult.commute nat_arith.rule0 zero_neq_numeral, metis mod_mult_self3 mod_less)
  then show ?thesis by (simp add: fbyte_def)
qed

lemma readi_loop_spec:
  fixes s :: "'z fsst_scheme"
  assumes "binv {} s" and "noovf s" and "free1 s" and "cpu_proc (cpus s (tp s)) = Some p" and "p_pagetable (procs s p) = pt"
    and "ptwf (mem s) 2 pt" and "user_ok (mem s) pt" and "allocated ip s N" and "tot \<le> n" and "unat off + (unat n - unat tot) \<le> N"
    and "umapped (mem s) pt (unat dst) (unat n - unat tot)"
  shows "\<exists>t. readi_loop ip (User dst) off tot n s = Ret n t \<and> rframe s t
    \<and> wrote pt (unat dst) (unat n - unat tot) (\<lambda>j. fbyte ip s (unat off + j)) (mem s) (mem t)"
  using assms
proof (induction "unat n - unat tot" arbitrary: tot off dst s rule: less_induct)
  case less
  show ?case
  proof (cases "tot < n")
    case False
    then have "tot = n" using less.prems(9) by simp
    moreover have "rframe s s" using less.prems(1) by (simp add: rframe_def)
    ultimately show ?thesis by (subst readi_loop.simps) (auto simp: wrote_none)
  next
    case True
    define m where "m = min (n - tot) (1024 - off mod 1024)"
    note M = unat_chunk1024 [OF True m_def]
    let ?k = "off div 1024" and ?r = "unat n - unat tot"
    have k: "unat ?k * 1024 < N" using M(4,5,7) less.prems(10) div_times_less_eq_dividend [of "unat off" 1024] by simp
    obtain s1 where s1: "bmap ip ?k s = Ret (fblock ip s (unat ?k)) s1" "wstep [] {} s s1"
      using bmap_mapped [OF less.prems(1-3,8) k] by blast
    note W = wstep_rframe [OF s1(2)] and K = rframe_keeps [OF wstep_rframe(1) [OF s1(2)]]
    let ?b = "fblock ip s (unat ?k)"
    have nz: "?b \<noteq> 0" "i_dev (itable s ip) = ROOTDEV" using less.prems(8) k by (auto simp: allocated_def)
    have pre: "binv {} s1" "noovf s1" "free1 s1" "cpu_proc (cpus s1 (tp s1)) = Some p" "p_pagetable (procs s1 p) = pt" "ptwf (mem s1) 2 pt" "user_ok (mem s1) pt"
      using W K less.prems(2-7) by (auto simp: rframe_def)
    have u1: "umapped (mem s1) pt (unat dst) (unat (ucast m :: uint64))" unfolding W(2) M(2) by (rule umapped_sub [OF less.prems(11)]) (use M(7) in simp_all)
    obtain i u v t where r: "bread ROOTDEV ?b s1 = Ret i u" "either_copyout (User dst) (\<lambda>j. b_data (bufs u i) (unat (off mod 1024) + j)) (ucast m) u = Ret 0 v"
      "brelse i v = Ret () t" "rframe s1 t" "itable u = itable s1" "wrote pt (unat dst) (unat (ucast m :: uint64)) (\<lambda>j. block_of ?b s1 (unat (off mod 1024) + j)) (mem s1) (mem t)"
      using read_block [OF pre u1] by blast
    have st: "rframe s t" by (rule rframe_trans [OF W(1) r(4)])
    have bl: "block_of ?b s1 = block_of ?b s" using W(1) by (simp add: rframe_def)
    have w1: "wrote pt (unat dst) (unat m) (\<lambda>j. fbyte ip s (unat off + j)) (mem s) (mem t)"
      using r(6) unfolding M(2) W(2) bl by (rule wrote_cong) (use M(3,4,6) in \<open>subst fbyte_chunk, simp_all\<close>)
    note S = wrote_space [OF w1 less.prems(6,7)] and T = rframe_keeps [OF st]
    have N: "N < 2 ^ 32" using less.prems(8) by (simp add: allocated_def NDIRECT_val)
    have uo: "unat (off + m) = unat off + unat m" using M(7) less.prems(10) N by (intro unat_add32) simp
    have ut: "unat (tot + m) = unat tot + unat m" using M(7) True unsigned_less [of n, where ?'a = nat] by (intro unat_add32) (simp add: word_less_nat_alt)
    have ud: "unat (dst + ucast m) = unat dst + unat m"
    proof -
      have "unat dst + ?r \<le> 2 ^ 38" using umapped_bound [OF less.prems(11)] M(5,7) by simp
      then show ?thesis using M(2,7) by (subst unat_add64) simp_all
    qed
    have rest: "unat n - unat (tot + m) = ?r - unat m" using ut by simp
    have "\<exists>t'. readi_loop ip (User (dst + ucast m)) (off + m) (tot + m) n t = Ret n t' \<and> rframe t t'
      \<and> wrote pt (unat (dst + ucast m)) (unat n - unat (tot + m)) (\<lambda>j. fbyte ip t (unat (off + m) + j)) (mem t) (mem t')"
    proof (rule less.hyps)
      show "unat n - unat (tot + m) < ?r" unfolding rest using M(5,7) by simp
      show "tot + m \<le> n" unfolding word_le_nat_alt ut using M(7) True by (simp add: word_less_nat_alt)
      show "unat (off + m) + (unat n - unat (tot + m)) \<le> N" unfolding uo rest using M(7) less.prems(10) by simp
      show "umapped (mem t) pt (unat (dst + ucast m)) (unat n - unat (tot + m))"
        unfolding ud rest using S umapped_sub [OF less.prems(11)] M(7) by simp
    qed (use st T S less.prems(2-5,8) in \<open>auto simp: rframe_def\<close>)
    then obtain t' where t': "readi_loop ip (User (dst + ucast m)) (off + m) (tot + m) n t = Ret n t'" "rframe t t'"
      "wrote pt (unat dst + unat m) (?r - unat m) (\<lambda>j. fbyte ip s (unat off + unat m + j)) (mem t) (mem t')"
      unfolding ud rest uo T(5) by blast
    have "wrote pt (unat dst) (unat m + (?r - unat m)) (\<lambda>j. if j < unat m then fbyte ip s (unat off + j) else fbyte ip s (unat off + unat m + (j - unat m))) (mem s) (mem t')"
      by (rule wrote_append [OF w1 t'(3) less.prems(6,7)])
    moreover have "unat m + (?r - unat m) = ?r" using M(7) by simp
    ultimately have "wrote pt (unat dst) ?r (\<lambda>j. fbyte ip s (unat off + j)) (mem s) (mem t')"
      by (simp only:) (erule wrote_cong, simp add: add.assoc)
    moreover have "readi_loop ip (User dst) off tot n s = Ret n t'"
      using True s1(1) nz r(1-3,5) K(3) t'(1) by (subst readi_loop.simps) (simp add: Let_def m_def [symmetric])
    ultimately show ?thesis using rframe_trans [OF st t'(2)] by blast
  qed
qed

section \<open>Writing\<close>

lemma log_write_touch: "quiet s \<Longrightarrow> log_write i (touch s) = log_write i s"
  using quietD [of s] by (simp add: log_write_def)

lemma write_block:
  fixes s :: "'z fsst_scheme"
  assumes open_: "log_open n {} s" and room: "tx_rooms (Suc r) n s" and b: "b \<notin> logarea (l_start (lg s)) (l_size (lg s))"
    and p: "cpu_proc (cpus s (tp s)) = Some p" "p_pagetable (procs s p) = pt" "ptwf (mem s) 2 pt" "umapped (mem s) pt (unat src) (unat len)"
    and d: "d = blit o1 (unat len) (\<lambda>j. uview (mem s) pt (unat src + j)) (block_of b s)"
  shows "\<exists>i u m t. bread ROOTDEV b s = Ret i u \<and> itable u = itable s \<and> either_copyin (b_data (bufs u i)) o1 (User src) len u = Ret (0, d) (touch u)
    \<and> seq (log_write i (upd_buf i (\<lambda>x. x\<lparr>b_data := d\<rparr>) (touch u))) (\<lambda>s. brelse i s) = Ret () t \<and> tx_step n b d s m t"
proof -
  have no: "noovf s" "free1 s" using tx_rooms_room [OF room] by (auto simp: tx_room_def noovf_def)
  obtain i u m t where u: "bread ROOTDEV b s = Ret i u" "b_data (bufs u i) = block_of b s"
    "seq (log_write i (upd_buf i (\<lambda>x. x\<lparr>b_data := d\<rparr>) u)) (\<lambda>s. brelse i s) = Ret () t" "tx_step n b d s m t"
    using tx_update [OF open_ tx_rooms_room [OF room] b, of d] by blast
  have rd: "reads {} b i s u" using bread_spec [OF log_openD(1) [OF open_] mayread_any [OF no(2,1)], of b] u(1) by auto
  have R: "bframe s u" "binv {i} u" using rd by (auto simp: reads_def)
  note F = bframe_eqs [OF R(1)]
  have cpu: "cpu_ok u" "cpu_proc (cpus u (tp u)) = Some p" "p_pagetable (procs u p) = pt" "mem u = mem s" "quiet u"
    using binvD(1) [OF R(2)] F p(1,2) by (simp_all add: quiet_def)
  have "copyin pt (block_of b s) o1 src len (touch u) = Ret (0, d) (touch u)"
    using copyin_mapped [of "touch u" pt src len "block_of b s" o1] p(3,4) cpu(4) by (simp add: d uview_def)
  then have "either_copyin (b_data (bufs u i)) o1 (User src) len u = Ret (0, d) (touch u)" using cpu u(2) by (simp add: either_copyin_def)
  moreover have "log_write i (upd_buf i (\<lambda>x. x\<lparr>b_data := d\<rparr>) (touch u)) = log_write i (upd_buf i (\<lambda>x. x\<lparr>b_data := d\<rparr>) u)"
    using log_write_touch [of "upd_buf i (\<lambda>x. x\<lparr>b_data := d\<rparr>) u"] cpu(5) by (simp add: locksimp quiet_def)
  moreover have "itable u = itable s" by (rule more_itable [OF lst_more(4) [OF R(1)]])
  ultimately show ?thesis using u by metis
qed

text \<open>
  A file whose first \<open>N\<close> bytes lie in blocks of their own: outside the log, no block holds two pieces, and the
  block of addresses is none of them.
\<close>

definition file_ok :: "nat \<Rightarrow> 'z fsst_scheme \<Rightarrow> nat \<Rightarrow> bool" where
  "file_ok ip s N \<longleftrightarrow> allocated ip s N \<and> inj_on (fblock ip s) {k. k * 1024 < N}
     \<and> (\<forall>k. k * 1024 < N \<longrightarrow> fblock ip s k \<notin> logarea (l_start (lg s)) (l_size (lg s)) \<and> fblock ip s k \<noteq> i_addrs (itable s ip) NDIRECT)"

text \<open>What a write of \<open>len\<close> bytes \<open>f\<close> at offset \<open>a\<close> leaves.\<close>

definition fwrote :: "nat \<Rightarrow> nat \<Rightarrow> nat \<Rightarrow> nat \<Rightarrow> bytes \<Rightarrow> 'z fsst_scheme \<Rightarrow> 'z fsst_scheme \<Rightarrow> bool" where
  "fwrote ip N a len f s t \<longleftrightarrow> lst.more t = lst.more s \<and> same_user s t \<and> l_start (lg t) = l_start (lg s) \<and> l_size (lg t) = l_size (lg s) \<and> fblock ip t = fblock ip s
     \<and> (\<forall>c. c \<notin> fblock ip s ` {k. k * 1024 < N} \<longrightarrow> block_of c t = block_of c s)
     \<and> (\<forall>o1 < N. fbyte ip t o1 = (if a \<le> o1 \<and> o1 < a + len then f (o1 - a) else fbyte ip s o1))"

lemma fwrote_ok: "fwrote ip N a len f s t \<Longrightarrow> file_ok ip t N \<longleftrightarrow> file_ok ip s N"
  using more_itable [of t s] by (auto simp: fwrote_def file_ok_def allocated_def)

lemma fwrote_none: "fwrote ip N a 0 f s s"
  by (auto simp: fwrote_def)

lemma fwrote_append:
  assumes "fwrote ip N a n f s t" and "fwrote ip N (a + n) k g t u" and "\<And>i. i < n \<Longrightarrow> h i = f i" and "\<And>i. i < k \<Longrightarrow> h (n + i) = g i"
  shows "fwrote ip N a (n + k) h s u"
proof -
  have "fbyte ip u o1 = (if a \<le> o1 \<and> o1 < a + (n + k) then h (o1 - a) else fbyte ip s o1)" if "o1 < N" for o1
  proof (cases "a + n \<le> o1 \<and> o1 < a + n + k")
    case True
    then have "fbyte ip u o1 = g (o1 - (a + n))" using assms(2) that by (simp add: fwrote_def)
    also have "\<dots> = h (o1 - a)" using assms(4) [of "o1 - (a + n)"] True by auto
    finally show ?thesis using True by simp
  next
    case False
    then have "fbyte ip u o1 = fbyte ip t o1" using assms(2) that by (auto simp: fwrote_def)
    also have "\<dots> = (if a \<le> o1 \<and> o1 < a + n then f (o1 - a) else fbyte ip s o1)" using assms(1) that by (simp add: fwrote_def)
    finally show ?thesis using assms(3) [of "o1 - a"] False by auto
  qed
  then show ?thesis using assms(1,2) same_user_trans [of s t u] by (simp add: fwrote_def)
qed

lemma tx_fwrote:
  fixes s s1 t :: "'z fsst_scheme"
  assumes "file_ok ip s N" and "rframe s s1" and "same_user s s1" and "k * 1024 < N" and "tx_step n (fblock ip s k) d s1 m t"
    and "d = blit o1 len f (block_of (fblock ip s k) s)" and "o1 + len \<le> 1024"
  shows "fwrote ip N (k * 1024 + o1) len f s t"
proof -
  let ?b = "fblock ip s k"
  have T: "\<And>c. block_of c t = (if c = ?b then d else block_of c s)" "lst.more t = lst.more s" "same_user s1 t" "l_start (lg t) = l_start (lg s)" "l_size (lg t) = l_size (lg s)"
    using assms(2,5) by (auto simp: tx_step_def rframe_def)
  have it: "itable t = itable s" by (rule more_itable [OF T(2)])
  have ni: "?b \<noteq> i_addrs (itable s ip) NDIRECT" using assms(1,4) by (simp add: file_ok_def)
  have fb: "fblock ip t = fblock ip s" using ni by (auto simp: fun_eq_iff fblock_def it T(1))
  have "fbyte ip t x = (if k * 1024 + o1 \<le> x \<and> x < k * 1024 + o1 + len then f (x - (k * 1024 + o1)) else fbyte ip s x)" if x: "x < N" for x
  proof (cases "x div 1024 = k")
    case True
    have e: "x = k * 1024 + x mod 1024" using True by (metis div_mult_mod_eq)
    have "fbyte ip t x = d (x mod 1024)" using True by (simp add: fbyte_def fb T(1))
    also have "\<dots> = (if o1 \<le> x mod 1024 \<and> x mod 1024 < o1 + len then f (x mod 1024 - o1) else fbyte ip s x)"
      using True by (simp add: assms(6) blit_def fbyte_def)
    finally show ?thesis using e by (smt (verit) add.assoc add_diff_cancel_left nat_add_left_cancel_le nat_add_left_cancel_less)
  next
    case False
    have "(x div 1024) * 1024 < N" using x div_times_less_eq_dividend [of x 1024] by simp
    then have "fblock ip s (x div 1024) \<noteq> ?b" using assms(1,4) False by (auto simp: file_ok_def dest!: inj_onD)
    moreover have "\<not> (k * 1024 + o1 \<le> x \<and> x < k * 1024 + o1 + len)" using False assms(7) by auto
    ultimately show ?thesis by (auto simp: fbyte_def fb T(1))
  qed
  moreover have "\<forall>c. c \<notin> fblock ip s ` {k. k * 1024 < N} \<longrightarrow> block_of c t = block_of c s" using T(1) assms(4) by auto
  ultimately show ?thesis unfolding fwrote_def using T(2,4,5) same_user_trans [OF assms(3) T(3)] fb by blast
qed

text \<open>The number of blocks that a write of \<open>len\<close> bytes at offset \<open>a\<close> touches.\<close>

definition nblocks :: "nat \<Rightarrow> nat \<Rightarrow> nat" where
  "nblocks a len = (if len = 0 then 0 else (a mod 1024 + len + 1023) div 1024)"

lemma nblocks_step:
  assumes "0 < len" and "m = min len (1024 - a mod 1024)"
  shows "nblocks a len = Suc (nblocks (a + m) (len - m))"
proof -
  define x where "x = a mod 1024"
  have x: "x < 1024" by (simp add: x_def)
  show ?thesis
  proof (cases "len \<le> 1024 - x")
    case True
    then have "x + len + 1023 = 1024 + (x + len - 1)" "x + len - 1 < 1024" using assms(1) x by simp_all
    then have "(x + len + 1023) div 1024 = 1" by simp
    then show ?thesis using True assms by (simp add: nblocks_def x_def [symmetric])
  next
    case False
    then have m: "m = 1024 - x" using assms(2) by (simp add: x_def)
    have "a = a div 1024 * 1024 + x" unfolding x_def by (rule div_mult_mod_eq [symmetric])
    then have "a + m = a div 1024 * 1024 + 1024" using m x by linarith
    then have z: "(a + m) mod 1024 = 0" by simp
    have e: "x + len + 1023 = len - m + 1023 + 1024" using False m x by simp
    have "nblocks (a + m) (len - m) = (len - m + 1023) div 1024" unfolding nblocks_def z using False m by simp
    moreover have "nblocks a len = (len - m + 1023 + 1024) div 1024" unfolding nblocks_def x_def [symmetric] e using assms(1) by simp
    ultimately show ?thesis by simp
  qed
qed

lemma tx_rooms_rframe: "rframe s t \<Longrightarrow> tx_rooms r n t \<longleftrightarrow> tx_rooms r n s"
  by (simp add: rframe_def tx_rooms_def free_bufs_def)

lemma writei_loop_spec:
  fixes s :: "'z fsst_scheme"
  assumes "log_open c {} s" and "tx_rooms (nblocks (unat off) (unat n - unat tot) + q) c s" and "file_ok ip s N"
    and "cpu_proc (cpus s (tp s)) = Some p" and "p_pagetable (procs s p) = pt" and "ptwf (mem s) 2 pt"
    and "tot \<le> n" and "unat off + (unat n - unat tot) \<le> N" and "umapped (mem s) pt (unat src) (unat n - unat tot)"
  shows "\<exists>t c'. writei_loop ip (User src) off tot n s = Ret (n, off + (n - tot)) t \<and> log_open c' {} t \<and> tx_rooms q c' t
    \<and> fwrote ip N (unat off) (unat n - unat tot) (\<lambda>j. uview (mem s) pt (unat src + j)) s t"
  using assms
proof (induction "unat n - unat tot" arbitrary: tot off src s c rule: less_induct)
  case less
  let ?r = "unat n - unat tot"
  show ?case
  proof (cases "tot < n")
    case False
    then have "tot = n" using less.prems(7) by simp
    then show ?thesis using less.prems(1,2) by (subst writei_loop.simps) (auto simp: fwrote_none nblocks_def)
  next
    case True
    define m where "m = min (n - tot) (1024 - off mod 1024)"
    note M = unat_chunk1024 [OF True m_def]
    let ?k = "off div 1024" and ?q = "nblocks (unat off + unat m) (?r - unat m) + q"
    have rm: "tx_rooms (Suc ?q) c s" using less.prems(2) nblocks_step [of ?r "unat m" "unat off"] M(1,5,7) by simp
    have al: "allocated ip s N" using less.prems(3) by (simp add: file_ok_def)
    have k: "unat ?k * 1024 < N" using M(4,5,7) less.prems(8) div_times_less_eq_dividend [of "unat off" 1024] by simp
    have no: "noovf s" "free1 s" "binv {} s" using tx_rooms_room [OF rm] log_openD(1) [OF less.prems(1)] by (auto simp: tx_room_def noovf_def)
    obtain s1 where s1: "bmap ip ?k s = Ret (fblock ip s (unat ?k)) s1" "wstep [] {} s s1" using bmap_mapped [OF no(3,1,2) al k] by blast
    note W = wstep_rframe [OF s1(2)] and K = rframe_keeps [OF wstep_rframe(1) [OF s1(2)]]
    let ?b = "fblock ip s (unat ?k)" and ?o = "unat (off mod 1024)"
    have nz: "?b \<noteq> 0" "i_dev (itable s ip) = ROOTDEV" "?b \<notin> logarea (l_start (lg s1)) (l_size (lg s1))" using less.prems(3) k W(1) by (auto simp: allocated_def file_ok_def rframe_def)
    have su: "same_user s s1" by (rule same_user_bframe [OF wstepD(2) [OF s1(2)]])
    have pre: "tx_rooms (Suc ?q) c s1" "cpu_proc (cpus s1 (tp s1)) = Some p" "p_pagetable (procs s1 p) = pt" "ptwf (mem s1) 2 pt"
      "umapped (mem s1) pt (unat src) (unat (ucast m :: uint64))"
      using su rm tx_rooms_rframe [OF W(1)] less.prems(4-6) umapped_sub [OF less.prems(9), of "unat src" "unat m"] M(2,7) by (simp_all add: same_user_def)
    define d where "d = blit ?o (unat (ucast m :: uint64)) (\<lambda>j. uview (mem s1) pt (unat src + j)) (block_of ?b s1)"
    obtain i u c1 t where w: "bread ROOTDEV ?b s1 = Ret i u" "itable u = itable s1" "either_copyin (b_data (bufs u i)) ?o (User src) (ucast m) u = Ret (0, d) (touch u)"
      "seq (log_write i (upd_buf i (\<lambda>x. x\<lparr>b_data := d\<rparr>) (touch u))) (\<lambda>s. brelse i s) = Ret () t" "tx_step c ?b d s1 c1 t"
      using write_block [OF log_open_wstep [OF less.prems(1) s1(2)] pre(1) nz(3) pre(2-5) d_def] by blast
    have "fwrote ip N (unat ?k * 1024 + ?o) (unat m) (\<lambda>j. uview (mem s) pt (unat src + j)) s t"
    proof (rule tx_fwrote [OF less.prems(3) W(1) su k w(5)])
      show "d = blit ?o (unat m) (\<lambda>j. uview (mem s) pt (unat src + j)) (block_of ?b s)" using W by (simp add: d_def M(2) rframe_def)
      show "?o + unat m \<le> 1024" using M(3,6) by simp
    qed
    then have f1: "fwrote ip N (unat off) (unat m) (\<lambda>j. uview (mem s) pt (unat src + j)) s t" unfolding M(3,4) by simp
    then have T: "same_user s t" "file_ok ip t N" "lst.more t = lst.more s" using fwrote_ok [OF f1] less.prems(3) by (simp_all add: fwrote_def)
    have N: "N < 2 ^ 32" using al by (simp add: allocated_def NDIRECT_val)
    have uo: "unat (off + m) = unat off + unat m" using M(7) less.prems(8) N by (intro unat_add32) simp
    have ut: "unat (tot + m) = unat tot + unat m" using M(7) True unsigned_less [of n, where ?'a = nat] by (intro unat_add32) (simp add: word_less_nat_alt)
    have ud: "unat (src + ucast m) = unat src + unat m"
    proof -
      have "unat src + ?r \<le> 2 ^ 38" using umapped_bound [OF less.prems(9)] M(5,7) by simp
      then show ?thesis using M(2,7) by (subst unat_add64) simp_all
    qed
    have rest: "unat n - unat (tot + m) = ?r - unat m" using ut by simp
    have ofs: "off + m + (n - (tot + m)) = off + (n - tot)" by simp
    have "\<exists>t' c'. writei_loop ip (User (src + ucast m)) (off + m) (tot + m) n t = Ret (n, off + m + (n - (tot + m))) t' \<and> log_open c' {} t' \<and> tx_rooms q c' t'
      \<and> fwrote ip N (unat (off + m)) (unat n - unat (tot + m)) (\<lambda>j. uview (mem t) pt (unat (src + ucast m) + j)) t t'"
    proof (rule less.hyps)
      show "unat n - unat (tot + m) < ?r" unfolding rest using M(5,7) by simp
      show "log_open c1 {} t" using w(5) unfolding tx_step_def by (elim conjE)
      show "tx_rooms (nblocks (unat (off + m)) (unat n - unat (tot + m)) + q) c1 t" unfolding uo rest by (rule tx_rooms_step [OF pre(1) w(5)])
      show "tot + m \<le> n" unfolding word_le_nat_alt ut using M(7) True by (simp add: word_less_nat_alt)
      show "unat (off + m) + (unat n - unat (tot + m)) \<le> N" unfolding uo rest using M(7) less.prems(8) by simp
      show "umapped (mem t) pt (unat (src + ucast m)) (unat n - unat (tot + m))"
        unfolding ud rest using T(1) umapped_sub [OF less.prems(9)] M(7) by (simp add: same_user_def)
    qed (use T less.prems(4-6) in \<open>simp_all add: same_user_def\<close>)
    then obtain t' c' where t': "writei_loop ip (User (src + ucast m)) (off + m) (tot + m) n t = Ret (n, off + (n - tot)) t'" "log_open c' {} t'" "tx_rooms q c' t'"
      "fwrote ip N (unat off + unat m) (?r - unat m) (\<lambda>j. uview (mem s) pt (unat src + unat m + j)) t t'"
      unfolding ofs ud rest uo using T(1) by (auto simp: same_user_def)
    have "fwrote ip N (unat off) (unat m + (?r - unat m)) (\<lambda>j. uview (mem s) pt (unat src + j)) s t'"
      by (rule fwrote_append [OF f1 t'(4)]) (simp_all add: add.assoc)
    then have "fwrote ip N (unat off) ?r (\<lambda>j. uview (mem s) pt (unat src + j)) s t'" unfolding le_add_diff_inverse [OF M(7)] .
    moreover have "writei_loop ip (User src) off tot n s = Ret (n, off + (n - tot)) t'"
    proof -
      have "seq (log_write i (upd_buf i (\<lambda>x. x\<lparr>b_data := d\<rparr>) (touch u))) (\<lambda>s. seq (brelse i s) F) = F t" for F :: "'z fsst_scheme \<Rightarrow> ('z fsst_scheme, uint \<times> uint) res"
        unfolding seq_assoc [symmetric] w(4) by simp
      then show ?thesis using True s1(1) nz(1,2) w(1-3) K(3) t'(1) by (subst writei_loop.simps) (simp add: Let_def m_def [symmetric])
    qed
    ultimately show ?thesis using t'(2,3) by blast
  qed
qed

section \<open>The inode on disk\<close>

lemma st32s_other: "(\<And>i. i \<in> set is \<Longrightarrow> b < a + 4 * i \<or> a + 4 * i + 4 \<le> b) \<Longrightarrow> st32s is A d a b = d b"
  by (induction "is" arbitrary: d) (simp_all add: st32_other)

lemma ldn_st32s_before: "b + k \<le> a \<Longrightarrow> ldn k (st32s is A d a) b = ldn k d b"
  by (rule ldn_cong) (simp add: st32s_other)

lemma ld32_st32s: "distinct is \<Longrightarrow> ld32 (st32s is A d a) (a + 4 * i) = (if i \<in> set is then A i else ld32 d (a + 4 * i))"
proof (induction "is" arbitrary: d)
  case (Cons j js)
  have "ld32 (st32 (A j) d (a + 4 * j)) (a + 4 * i) = (if i = j then A j else ld32 d (a + 4 * i))"
    by (cases i j rule: linorder_cases) (simp_all add: ld_st_other)
  then show ?case using Cons by auto
qed simp

lemma get_put_dinode: "get_dinode (put_dinode x o1 d) o1 x = x"
proof -
  have "ldn 2 (put_dinode x o1 d) o1 = i_type x" "ldn 2 (put_dinode x o1 d) (o1 + 2) = i_major x" "ldn 2 (put_dinode x o1 d) (o1 + 4) = i_minor x"
    "ldn 2 (put_dinode x o1 d) (o1 + 6) = i_nlink x" "ldn 4 (put_dinode x o1 d) (o1 + 8) = i_size x"
    by (simp_all add: put_dinode_def ldn_st32s_before ldst_defs ldn_stn_other ldn_stn_same take_bit_word_eq_self)
  moreover have "ld32 (put_dinode x o1 d) (o1 + 12 + 4 * i) = i_addrs x i" if "i \<le> NDIRECT" for i
    using that by (auto simp: put_dinode_def ld32_st32s)
  ultimately show ?thesis by (simp add: get_dinode_def ldst_defs [symmetric] fun_eq_iff)
qed

lemma put_dinode_other: "j < o1 \<or> o1 + 64 \<le> j \<Longrightarrow> put_dinode x o1 d j = d j"
proof -
  assume j: "j < o1 \<or> o1 + 64 \<le> j"
  have "st32s [0..<NDIRECT + 1] A e (o1 + 12) j = e j" for A e using j by (intro st32s_other) (auto simp: NDIRECT_val)
  then show ?thesis using j by (simp only: put_dinode_def Let_def) (auto simp: st16_def st32_def stn_other)
qed

lemma dinode_off_bound: "dinode_off n + 64 \<le> 1024"
proof -
  have "unat n mod 16 < 16" by simp
  then show ?thesis by (simp add: dinode_off_def fs_defs)
qed

lemma iupdate_tx:
  fixes s :: "'z fsst_scheme"
  assumes "log_open c {} s" and "tx_rooms (Suc q) c s" and "i_dev (itable s ip) = ROOTDEV"
    and "b = IBLOCK (i_inum (itable s ip)) (sb s)" and "b \<notin> logarea (l_start (lg s)) (l_size (lg s))"
  shows "\<exists>t m. iupdate ip s = Ret () t \<and> tx_step c b (put_dinode (itable s ip) (dinode_off (i_inum (itable s ip))) (block_of b s)) s m t"
proof -
  let ?d = "put_dinode (itable s ip) (dinode_off (i_inum (itable s ip))) (block_of b s)"
  obtain i u m t where u: "bread ROOTDEV b s = Ret i u" "b_data (bufs u i) = block_of b s"
    "seq (log_write i (upd_buf i (\<lambda>x. x\<lparr>b_data := ?d\<rparr>) u)) (\<lambda>s. brelse i s) = Ret () t" "tx_step c b ?d s m t"
    using tx_update [OF assms(1) tx_rooms_room [OF assms(2)] assms(5), of ?d] by blast
  have no: "noovf s" "free1 s" using tx_rooms_room [OF assms(2)] by (auto simp: tx_room_def noovf_def)
  have "reads {} b i s u" using bread_spec [OF log_openD(1) [OF assms(1)] mayread_any [OF no(2,1)], of b] u(1) by auto
  then have "itable u = itable s" by (intro more_itable lst_more(4)) (auto simp: reads_def)
  moreover from this have "upd_buf i (\<lambda>x. x\<lparr>b_data := put_dinode (itable s ip) (dinode_off (i_inum (itable s ip))) (b_data x)\<rparr>) u = upd_buf i (\<lambda>x. x\<lparr>b_data := ?d\<rparr>) u"
    using u(2) by (simp add: upd_buf_def)
  ultimately show ?thesis using u assms(3,4) by (auto simp: iupdate_def Let_def)
qed

section \<open>The whole operations\<close>

lemma sint_small: "unat (x :: uint) < 2 ^ 31 \<Longrightarrow> sint x = int (unat x)"
proof -
  assume "unat x < 2 ^ 31"
  then have "int (unat x) < int (2 ^ 31)" by (simp only: of_nat_less_iff)
  then have "uint x < 2 ^ 31" by simp
  then have "signed_take_bit 31 (uint x) = uint x" by (intro signed_take_bit_int_eq_self) (auto intro: order_trans [OF _ uint_ge_0])
  then show ?thesis by (simp add: sint_uint)
qed

lemma add_wraps32: "off + n < off \<longleftrightarrow> 2 ^ 32 \<le> unat off + unat (n :: uint)"
proof -
  have b: "unat off < 2 ^ LENGTH(32)" "unat n < 2 ^ LENGTH(32)" by (rule unsigned_less)+
  show ?thesis
  proof (cases "2 ^ 32 \<le> unat off + unat n")
    case True
    then have "(unat off + unat n) mod 2 ^ 32 = unat off + unat n - 2 ^ 32" using b by (subst le_mod_geq) simp_all
    then show ?thesis using True b by (simp add: word_less_nat_alt unat_word_ariths)
  next
    case False
    then have "unat (off + n) = unat off + unat n" by (intro unat_add32) simp
    then show ?thesis using False by (simp add: word_less_nat_alt)
  qed
qed

lemma readi_spec:
  fixes s :: "'z fsst_scheme"
  assumes "binv {} s" and "noovf s" and "free1 s" and "cpu_proc (cpus s (tp s)) = Some p" and "p_pagetable (procs s p) = pt"
    and "ptwf (mem s) 2 pt" and "user_ok (mem s) pt"
    and r: "r = (if i_size (itable s ip) < off \<or> 2 ^ 32 \<le> unat off + unat n then 0 else min (unat n) (unat (i_size (itable s ip)) - unat off))"
    and al: "allocated ip s (unat off + r)" and um: "umapped (mem s) pt (unat dst) r"
  shows "\<exists>t. readi ip (User dst) off n s = Ret (int r) t \<and> rframe s t
    \<and> wrote pt (unat dst) r (\<lambda>j. fbyte ip s (unat off + j)) (mem s) (mem t)"
proof -
  let ?z = "i_size (itable s ip)"
  have ov: "off + n < off \<longleftrightarrow> 2 ^ 32 \<le> unat off + unat n" by (rule add_wraps32)
  show ?thesis
  proof (cases "?z < off \<or> off + n < off")
    case True
    then have "readi ip (User dst) off n s = Ret 0 s" "r = 0" using r ov by (auto simp: readi_def)
    moreover have "rframe s s" using assms(1) by (simp add: rframe_def)
    ultimately show ?thesis using wrote_none by fastforce
  next
    case False
    define m where "m = (if off + n > ?z then ?z - off else n)"
    have f: "unat off + unat n < 2 ^ 32" "unat off \<le> unat ?z" using False ov by (auto simp: word_less_nat_alt)
    have "unat (off + n) = unat off + unat n" by (rule unat_add32 [OF f(1)])
    then have m: "unat m = r" using f r False by (auto simp: m_def word_less_nat_alt unat_sub word_le_nat_alt ov)
    have "unat m < 2 ^ 31" using al m by (simp add: allocated_def NDIRECT_val)
    then have si: "sint m = int r" using m by (simp add: sint_small)
    obtain t where t: "readi_loop ip (User dst) off 0 m s = Ret m t" "rframe s t" "wrote pt (unat dst) r (\<lambda>j. fbyte ip s (unat off + j)) (mem s) (mem t)"
      using readi_loop_spec [OF assms(1-7) al, of 0 m off dst] m um by auto
    have "readi ip (User dst) off n s = Ret (int r) t" using False t(1) si by (simp add: readi_def m_def [symmetric] Let_def)
    then show ?thesis using t by blast
  qed
qed

lemma upd_inode_inv [simp]:
  "block_of c (upd_inode ip f s) = block_of c s" "log_open n H (upd_inode ip f s) \<longleftrightarrow> log_open n H s" "tx_rooms r n (upd_inode ip f s) \<longleftrightarrow> tx_rooms r n s"
  "same_user s' (upd_inode ip f s) \<longleftrightarrow> same_user s' s" "lg (upd_inode ip f s) = lg s" "sb (upd_inode ip f s) = sb s"
  "itable (upd_inode ip f s) = (itable s)(ip := f (itable s ip))"
  by (simp_all add: upd_inode_def block_of_def lookup_def log_open_def binv_def quiet_def mypid_def pinned_by_def cpu_ok_def lk_free_def tx_rooms_def
      free_bufs_def same_user_def split: option.split)

text \<open>
  What \<^verbatim>\<open>writei\<close> leaves: the size in the inode and in its image on disk, the bytes written, and everything else as it was.
\<close>

definition written :: "nat \<Rightarrow> nat \<Rightarrow> nat \<Rightarrow> nat \<Rightarrow> bytes \<Rightarrow> 'z fsst_scheme \<Rightarrow> 'z fsst_scheme \<Rightarrow> bool" where
  "written ip N a len f s t \<longleftrightarrow> (let x = itable s ip; ib = IBLOCK (i_inum x) (sb s); o1 = dinode_off (i_inum x) in
     itable t = (itable s)(ip := x\<lparr>i_size := max (i_size x) (of_nat (a + len))\<rparr>) \<and> sb t = sb s \<and> same_user s t
     \<and> (\<forall>y < N. fbyte ip t y = (if a \<le> y \<and> y < a + len then f (y - a) else fbyte ip s y))
     \<and> get_dinode (block_of ib t) o1 (itable t ip) = itable t ip
     \<and> (\<forall>j. j < o1 \<or> o1 + 64 \<le> j \<longrightarrow> block_of ib t j = block_of ib s j)
     \<and> (\<forall>b. b \<noteq> ib \<and> b \<notin> fblock ip s ` {k. k * 1024 < N} \<longrightarrow> block_of b t = block_of b s))"

text \<open>The block with the inode is no block of the log, of the file or of its addresses.\<close>

definition iblock_ok :: "nat \<Rightarrow> 'z fsst_scheme \<Rightarrow> nat \<Rightarrow> bool" where
  "iblock_ok ip s N \<longleftrightarrow> (let ib = IBLOCK (i_inum (itable s ip)) (sb s) in ib \<notin> logarea (l_start (lg s)) (l_size (lg s))
     \<and> ib \<notin> fblock ip s ` {k. k * 1024 < N} \<and> ib \<noteq> i_addrs (itable s ip) NDIRECT)"

lemma sb_fwrote: "fwrote ip N a len f s t \<Longrightarrow> sb t = sb s \<and> itable t = itable s"
  using sb_more [of t s] more_itable [of t s] by (simp add: fwrote_def)

lemma writei_spec:
  fixes s :: "'z fsst_scheme"
  assumes "log_open c {} s" and rm: "tx_rooms (nblocks (unat off) (unat n) + Suc q) c s" and fk: "file_ok ip s N" and ik: "iblock_ok ip s N"
    and "cpu_proc (cpus s (tp s)) = Some p" and "p_pagetable (procs s p) = pt" and "ptwf (mem s) 2 pt"
    and le: "off \<le> i_size (itable s ip)" "unat off + unat n \<le> N" and um: "umapped (mem s) pt (unat src) (unat n)"
  shows "\<exists>t c'. writei ip (User src) off n s = Ret (int (unat n)) t \<and> log_open c' {} t \<and> tx_rooms q c' t \<and> fblock ip t = fblock ip s
    \<and> written ip N (unat off) (unat n) (\<lambda>j. uview (mem s) pt (unat src + j)) s t"
proof -
  let ?x = "itable s ip" and ?f = "\<lambda>j. uview (mem s) pt (unat src + j)"
  let ?ib = "IBLOCK (i_inum ?x) (sb s)" and ?o = "dinode_off (i_inum ?x)"
  have N: "N \<le> 268 * 1024" "i_dev ?x = ROOTDEV" using fk by (auto simp: file_ok_def allocated_def NDIRECT_val)
  have w: "unat (off + n) = unat off + unat n" using le(2) N(1) by (intro unat_add32) simp
  have on: "of_nat (unat off + unat n) = off + n" by simp
  obtain t c1 where t: "writei_loop ip (User src) off 0 n s = Ret (n, off + n) t" "log_open c1 {} t" "tx_rooms (Suc q) c1 t" "fwrote ip N (unat off) (unat n) ?f s t"
    using writei_loop_spec [OF assms(1) _ fk assms(5-7), of off n 0 "Suc q" src] rm le(2) um by auto
  note T = sb_fwrote [OF t(4)]
  define u where "u = (if off + n > i_size ?x then upd_inode ip (\<lambda>x. x\<lparr>i_size := off + n\<rparr>) t else t)"
  have U: "log_open c1 {} u" "tx_rooms (Suc q) c1 u" "\<And>c. block_of c u = block_of c t" "sb u = sb s" "lg u = lg t" "same_user s u"
    "itable u = (itable s)(ip := ?x\<lparr>i_size := max (i_size ?x) (off + n)\<rparr>)"
    using t T by (auto simp: u_def max_def fwrote_def)
  have ib: "?ib \<notin> logarea (l_start (lg u)) (l_size (lg u))" using ik t(4) U(5) by (simp add: iblock_ok_def fwrote_def Let_def)
  obtain v m where v: "iupdate ip u = Ret () v" "tx_step c1 ?ib (put_dinode (itable u ip) ?o (block_of ?ib u)) u m v"
    using iupdate_tx [OF U(1,2), of ip ?ib] ib N(2) U(4,7) by auto
  have V: "log_open m {} v" "tx_rooms q m v" "same_user s v" "sb v = sb s" "itable v = itable u"
    "\<And>c. block_of c v = (if c = ?ib then put_dinode (itable u ip) ?o (block_of ?ib t) else block_of c t)"
    using v(2) tx_rooms_step [OF U(2) v(2)] same_user_trans [OF U(6)] U(3,4) sb_more [of v u] more_itable [of v u] by (auto simp: tx_step_def)
  have "block_of (i_addrs ?x NDIRECT) v = block_of (i_addrs ?x NDIRECT) t" using ik V(6) by (auto simp: iblock_ok_def Let_def)
  moreover have "i_addrs (itable v ip) = i_addrs ?x" "i_addrs (itable t ip) = i_addrs ?x" using V(5) U(7) T by simp_all
  ultimately have "fblock ip v = fblock ip t" by (intro ext) (simp add: fblock_def)
  then have fb: "fblock ip v = fblock ip s" using t(4) by (simp add: fwrote_def)
  have "fbyte ip v y = fbyte ip t y" if "y < N" for y
  proof -
    have "y div 1024 * 1024 < N" using that div_times_less_eq_dividend [of y 1024] by simp
    then have "fblock ip s (y div 1024) \<in> fblock ip s ` {k. k * 1024 < N}" by simp
    then have "fblock ip s (y div 1024) \<noteq> ?ib" using ik unfolding iblock_ok_def Let_def by metis
    then show ?thesis using V(6) fb t(4) by (simp add: fbyte_def fwrote_def)
  qed
  moreover have "block_of ?ib t = block_of ?ib s" using ik t(4) by (simp add: iblock_ok_def fwrote_def Let_def)
  ultimately have "written ip N (unat off) (unat n) ?f s v"
    using t(4) V U(7) unfolding written_def Let_def on by (auto simp: fwrote_def get_put_dinode put_dinode_other)
  moreover have "writei ip (User src) off n s = Ret (int (unat n)) v"
  proof -
    have "sint n = int (unat n)" using le(2) N(1) by (intro sint_small) simp
    moreover have "\<not> off + n < off" "\<not> i_size ?x < off" unfolding add_wraps32 using le N(1) by simp_all
    moreover have "\<not> off + n > of_nat (MAXFILE * BSIZE)" using w le(2) N(1) by (simp add: word_less_nat_alt fs_defs)
    ultimately show ?thesis using t(1) v(1) T by (simp add: writei_def Let_def u_def)
  qed
  ultimately show ?thesis using V(1,2) fb by blast
qed

text \<open>
  C34. \<^verbatim>\<open>readi\<close> of a file whose blocks are allocated copies the bytes of the file at the offset into the user buffer,
  cut off at the end of the file, and returns their number. An offset behind the end of the file, or a range whose
  end does not fit 32 bits, reads nothing. Besides the user buffer only the cache changes, and no contents of a block.
\<close>

theorem readi_correct:
  fixes s :: "'z fsst_scheme"
  assumes "binv {} s" and "noovf s" and "free1 s" and "cpu_proc (cpus s (tp s)) = Some p" and "p_pagetable (procs s p) = pt"
    and "ptwf (mem s) 2 pt" and "user_ok (mem s) pt"
    and "r = (if i_size (itable s ip) < off \<or> 2 ^ 32 \<le> unat off + unat n then 0 else min (unat n) (unat (i_size (itable s ip)) - unat off))"
    and "allocated ip s (unat off + r)" and "umapped (mem s) pt (unat dst) r"
  shows "\<exists>t. readi ip (User dst) off n s = Ret (int r) t \<and> rframe s t
    \<and> wrote pt (unat dst) r (\<lambda>j. fbyte ip s (unat off + j)) (mem s) (mem t)"
  by (rule readi_spec [OF assms])

text \<open>
  C33. What \<^verbatim>\<open>writei\<close> stores \<^verbatim>\<open>readi\<close> returns. In a transaction with room for the blocks touched, \<^verbatim>\<open>writei\<close> of \<open>n\<close> bytes
  over blocks that the file has, across any number of blocks, direct and indirect, returns \<open>n\<close>; the bytes of the
  file are then those of the user buffer in the range and the old ones elsewhere, the size grows to the end of the
  range when it was smaller, the inode on disk says what the inode in memory says, no other block changes, and the
  transaction stays open. A \<^verbatim>\<open>readi\<close> of the same range then puts the bytes of the source buffer into the destination.
\<close>

theorem writei_readi_roundtrip:
  fixes s :: "'z fsst_scheme"
  assumes "log_open c {} s" and "tx_rooms (nblocks (unat off) (unat n) + 2) c s" and "file_ok ip s N" and "iblock_ok ip s N"
    and "cpu_proc (cpus s (tp s)) = Some p" and "p_pagetable (procs s p) = pt" and "ptwf (mem s) 2 pt" and "user_ok (mem s) pt"
    and "off \<le> i_size (itable s ip)" and "unat off + unat n \<le> N"
    and "umapped (mem s) pt (unat src) (unat n)" and "umapped (mem s) pt (unat dst) (unat n)"
  shows "\<exists>t c' u. writei ip (User src) off n s = Ret (int (unat n)) t \<and> log_open c' {} t
    \<and> written ip N (unat off) (unat n) (\<lambda>j. uview (mem s) pt (unat src + j)) s t
    \<and> readi ip (User dst) off n t = Ret (int (unat n)) u \<and> rframe t u
    \<and> wrote pt (unat dst) (unat n) (\<lambda>j. uview (mem s) pt (unat src + j)) (mem s) (mem u)"
proof -
  let ?f = "\<lambda>j. uview (mem s) pt (unat src + j)"
  obtain t c' where t: "writei ip (User src) off n s = Ret (int (unat n)) t" "log_open c' {} t" "tx_rooms (Suc 0) c' t" "fblock ip t = fblock ip s"
    "written ip N (unat off) (unat n) ?f s t"
    using writei_spec [OF assms(1) _ assms(3-7,9-11), of "Suc 0"] assms(2) by (auto simp: numeral_2_eq_2)
  have al: "allocated ip s N" using assms(3) by (simp add: file_ok_def)
  then have N: "N < 2 ^ 32" by (simp add: allocated_def NDIRECT_val)
  have w: "unat (off + n) = unat off + unat n" using assms(10) N by (intro unat_add32) simp
  have T: "itable t ip = (itable s ip)\<lparr>i_size := max (i_size (itable s ip)) (off + n)\<rparr>" "same_user s t"
    "\<And>y. y < N \<Longrightarrow> fbyte ip t y = (if unat off \<le> y \<and> y < unat off + unat n then ?f (y - unat off) else fbyte ip s y)"
    using t(5) by (simp_all add: written_def Let_def)
  have r: "unat n = (if i_size (itable t ip) < off \<or> 2 ^ 32 \<le> unat off + unat n then 0 else min (unat n) (unat (i_size (itable t ip)) - unat off))"
  proof -
    have "off + n \<le> i_size (itable t ip)" using T(1) by simp
    then have "unat off + unat n \<le> unat (i_size (itable t ip))" by (simp add: word_le_nat_alt w)
    then show ?thesis using assms(10) N by (simp add: word_less_nat_alt)
  qed
  have a: "allocated ip t (unat off + unat n)" using al assms(10) T(1) t(4) by (fastforce simp: allocated_def)
  have no: "noovf t" "free1 t" using tx_rooms_room [OF t(3)] by (auto simp: tx_room_def noovf_def)
  have S: "cpu_proc (cpus t (tp t)) = Some p" "p_pagetable (procs t p) = pt" "ptwf (mem t) 2 pt" "user_ok (mem t) pt" "mem t = mem s"
    using T(2) assms(5-8) by (simp_all add: same_user_def)
  obtain u where u: "readi ip (User dst) off n t = Ret (int (unat n)) u" "rframe t u"
    "wrote pt (unat dst) (unat n) (\<lambda>j. fbyte ip t (unat off + j)) (mem t) (mem u)"
    using readi_spec [OF log_openD(1) [OF t(2)] no S(1-4) r a] assms(12) S(5) by auto
  have "wrote pt (unat dst) (unat n) ?f (mem s) (mem u)"
    using u(3) unfolding S(5) by (rule wrote_cong) (use T(3) assms(10) in simp)
  then show ?thesis using t(1,2,5) u(1,2) by blast
qed

section \<open>A file of five bytes\<close>

definition demo_file :: fsst where
  "demo_file = (demo_tx demo_disk)\<lparr>mem := demo_mem, procs := (\<lambda>p. (procs (demo_tx demo_disk) p)\<lparr>p_pagetable := 0x1000\<rparr>),
     sb := zero_sb\<lparr>sb_inodestart := 32\<rparr>, itable := (\<lambda>_. zero_inode\<lparr>i_dev := ROOTDEV, i_inum := 1, i_size := 5, i_addrs := (\<lambda>k. if k = 0 then 40 else 0)\<rparr>)\<rparr>"

lemma demo_file_cache:
  "lookup b demo_file = lookup b (demo_tx demo_disk)" "binv H demo_file \<longleftrightarrow> binv H (demo_tx demo_disk)"
  "bufs demo_file = bufs (demo_tx demo_disk)" "disk demo_file = disk (demo_tx demo_disk)" "lg demo_file = lg (demo_tx demo_disk)"
  by (simp_all add: demo_file_def lookup_def binv_def quiet_def mypid_def cpu_ok_def lk_free_def)

lemma demo_file_sel:
  "mem demo_file = demo_mem" "p_pagetable (procs demo_file p) = 0x1000" "sb demo_file = zero_sb\<lparr>sb_inodestart := 32\<rparr>" "lg demo_file = demo_log"
  "itable demo_file ip = zero_inode\<lparr>i_dev := ROOTDEV, i_inum := 1, i_size := 5, i_addrs := (\<lambda>k. if k = 0 then 40 else 0)\<rparr>"
  "\<exists>p. cpu_proc (cpus demo_file (tp demo_file)) = Some p" "block_of c demo_file = demo_disk c" "log_open 0 {} demo_file" "tx_rooms 3 0 demo_file"
proof -
  let ?t = "demo_tx demo_disk"
  show "block_of c demo_file = demo_disk c" for c using demo_tx_ok(5) [of c demo_disk] unfolding block_of_def demo_file_cache .
  show "log_open 0 {} demo_file" using demo_tx_room(1) by (simp add: log_open_def demo_file_cache)
  then show "\<exists>p. cpu_proc (cpus demo_file (tp demo_file)) = Some p" by (auto simp: log_open_def binv_def quiet_def)
  have f: "free_bufs ?t = {..<NBUF}" using demo_tx_ok by (auto simp: free_bufs_def)
  have "tx_rooms 3 0 ?t" using demo_tx_ok f by (simp add: tx_rooms_def demo_log_def param_defs NBUF_eq)
  then show "tx_rooms 3 0 demo_file" by (simp add: tx_rooms_def free_bufs_def demo_file_cache)
  show "lg demo_file = demo_log" using demo_tx_ok(2) by (simp add: demo_file_cache)
qed (simp_all add: demo_file_def)

lemma demo_file_ok: "file_ok 0 demo_file 1024" "iblock_ok 0 demo_file 1024" "\<And>y. y < 1024 \<Longrightarrow> fbyte 0 demo_file y = 7"
proof -
  have b: "fblock 0 demo_file 0 = 40" by (simp add: fblock_def demo_file_sel NDIRECT_val)
  have k: "{k. k * 1024 < (1024 :: nat)} = {0}" by auto
  have "k = 0" if "k * 1024 < (1024 :: nat)" for k using that by simp
  then show "file_ok 0 demo_file 1024" using b demo_logarea
    by (auto simp: file_ok_def allocated_def k demo_file_sel demo_log_def NDIRECT_val)
  have "IBLOCK 1 (zero_sb\<lparr>sb_inodestart := 32\<rparr>) = 32" by (simp add: IBLOCK_def fs_defs)
  then show "iblock_ok 0 demo_file 1024" using b logarea_2 [of 32] by (auto simp: iblock_ok_def k demo_file_sel demo_log_def NDIRECT_val)
  show "fbyte 0 demo_file y = 7" if "y < 1024" for y using b that by (simp add: fbyte_def demo_file_sel demo_disk_def)
qed

lemma demo_page: "umapped demo_mem 0x1000 a 4" if "a + 4 \<le> 4096"
  using umapped_sub [OF demo_user(2), of a 4] that by simp

lemma demo_wrote: "wrote 0x1000 a n f demo_mem m \<Longrightarrow> b < 4096 \<Longrightarrow> uview m 0x1000 b = (if a \<le> b \<and> b < a + n then f (b - a) else uview demo_mem 0x1000 b)"
proof -
  assume w: "wrote 0x1000 a n f demo_mem m" and b: "b < 4096"
  have "upa demo_mem 0x1000 (pageof (0 + b)) \<noteq> 0" using demo_user(2) b unfolding umapped_def by blast
  then show ?thesis using w b by (simp add: wrote_def)
qed

theorem readi_correct_witness: "\<exists>t. readi 0 (User 16) 1 100 demo_file = Ret 4 t \<and> uview (mem t) 0x1000 16 = 7 \<and> uview (mem t) 0x1000 20 = uview demo_mem 0x1000 20"
proof -
  obtain p where p: "cpu_proc (cpus demo_file (tp demo_file)) = Some p" using demo_file_sel(6) by blast
  have "tx_rooms (Suc 2) 0 demo_file" using demo_file_sel(9) by simp
  from tx_rooms_room [OF this] have no: "noovf demo_file" "free1 demo_file" by (auto simp: tx_room_def noovf_def)
  have r: "4 = (if i_size (itable demo_file 0) < 1 \<or> 2 ^ 32 \<le> unat (1 :: uint) + unat (100 :: uint) then 0
    else min (unat (100 :: uint)) (unat (i_size (itable demo_file 0)) - unat (1 :: uint)))" by (simp add: demo_file_sel)
  have a: "allocated 0 demo_file (unat (1 :: uint) + 4)" using demo_file_ok(1) allocated_mono [of 0 demo_file 1024] by (simp add: file_ok_def)
  have m: "ptwf (mem demo_file) 2 0x1000" "user_ok (mem demo_file) 0x1000" "umapped (mem demo_file) 0x1000 (unat (16 :: uint64)) 4"
    using demo_tree(1) demo_user(1) demo_page [of 16] by (simp_all add: demo_file_sel)
  obtain t where t: "readi 0 (User 16) 1 100 demo_file = Ret (int 4) t" "wrote 0x1000 (unat (16 :: uint64)) 4 (\<lambda>j. fbyte 0 demo_file (unat (1 :: uint) + j)) demo_mem (mem t)"
    using readi_correct [OF log_openD(1) [OF demo_file_sel(8)] no p demo_file_sel(2) m(1,2) r a m(3)] by (auto simp: demo_file_sel)
  have "uview (mem t) 0x1000 16 = fbyte 0 demo_file 1" "uview (mem t) 0x1000 20 = uview demo_mem 0x1000 20"
    using demo_wrote [OF t(2), of 16] demo_wrote [OF t(2), of 20] by simp_all
  then show ?thesis using t(1) demo_file_ok(3) by simp
qed

theorem writei_readi_roundtrip_witness:
  "\<exists>t u. writei 0 (User 0) 3 4 demo_file = Ret 4 t \<and> i_size (itable t 0) = 7 \<and> fbyte 0 t 2 = 7 \<and> fbyte 0 t 3 = uview demo_mem 0x1000 0
    \<and> readi 0 (User 16) 3 4 t = Ret 4 u \<and> uview (mem u) 0x1000 19 = uview demo_mem 0x1000 3"
proof -
  obtain p where p: "cpu_proc (cpus demo_file (tp demo_file)) = Some p" using demo_file_sel(6) by blast
  have rm: "tx_rooms (nblocks (unat (3 :: uint)) (unat (4 :: uint)) + 2) 0 demo_file" using demo_file_sel(9) by (simp add: nblocks_def flip: numeral_3_eq_3)
  have m: "ptwf (mem demo_file) 2 0x1000" "user_ok (mem demo_file) 0x1000" "umapped (mem demo_file) 0x1000 (unat (0 :: uint64)) (unat (4 :: uint))"
    "umapped (mem demo_file) 0x1000 (unat (16 :: uint64)) (unat (4 :: uint))"
    using demo_tree(1) demo_user(1) demo_page [of 16] demo_page [of 0] by (simp_all add: demo_file_sel)
  have l: "3 \<le> i_size (itable demo_file 0)" "unat (3 :: uint) + unat (4 :: uint) \<le> 1024" by (simp_all add: demo_file_sel)
  obtain t u where t: "writei 0 (User 0) 3 4 demo_file = Ret (int (unat (4 :: uint))) t" "written 0 1024 (unat (3 :: uint)) (unat (4 :: uint)) (\<lambda>j. uview demo_mem 0x1000 (unat (0 :: uint64) + j)) demo_file t"
    "readi 0 (User 16) 3 4 t = Ret (int (unat (4 :: uint))) u" "wrote 0x1000 (unat (16 :: uint64)) (unat (4 :: uint)) (\<lambda>j. uview demo_mem 0x1000 (unat (0 :: uint64) + j)) demo_mem (mem u)"
    using writei_readi_roundtrip [OF demo_file_sel(8) rm demo_file_ok(1,2) p demo_file_sel(2) m(1,2) l m(3,4)] unfolding demo_file_sel(1) by blast
  have "itable t 0 = (itable demo_file 0)\<lparr>i_size := 7\<rparr>" "fbyte 0 t 2 = fbyte 0 demo_file 2" "fbyte 0 t 3 = uview demo_mem 0x1000 0"
    using t(2) by (simp_all add: written_def Let_def demo_file_sel max_def)
  moreover have "uview (mem u) 0x1000 19 = uview demo_mem 0x1000 3" using demo_wrote [OF t(4), of 19] by simp
  ultimately show ?thesis using t(1,3) demo_file_ok(3) [of 2] by simp
qed

end
