(* ===== verification/Xv6_Disk.thy ===== *)
theory Xv6_Disk
  imports Xv6_Virtio Xv6_Pipe
begin

text \<open>
  The disk driver gives the buffer cache the service \<open>disk_rw\<close> it is built on: a request that goes through the ring of
  descriptors, the device, the interrupt handler and the scheduler transfers the block and leaves the driver as it was.
\<close>

section \<open>The fields of the driver and the locks\<close>

lemma vst_sel [simp]:
  "vd (push_off s) = vd s" "vd (acq lk s) = vd s" "vd (touch s) = vd s" "vd (upd_proc p f s) = vd s" "vd (upd_buf i g s) = vd s" "vd (upd_cpu c h s) = vd s" "vd (intr_on s) = vd s"
  "vdev_seen (push_off s) = vdev_seen s" "vdev_seen (acq lk s) = vdev_seen s" "vdev_seen (touch s) = vdev_seen s" "vdev_seen (upd_proc p f s) = vdev_seen s" "vdev_seen (upd_buf i g s) = vdev_seen s"
  "vdev_seen (upd_cpu c h s) = vdev_seen s" "vdev_seen (intr_on s) = vdev_seen s"
  by (simp_all add: acq_def touch_def push_off_def Let_def intr_defs upd_proc_def upd_buf_def upd_cpu_def)

lemma vst_upd [locksimp]:
  "(acq lk s)\<lparr>vd := a\<rparr> = acq lk (s\<lparr>vd := a\<rparr>)" "(touch s)\<lparr>vd := a\<rparr> = touch (s\<lparr>vd := a\<rparr>)"
  "(acq lk s)\<lparr>vreg := b\<rparr> = acq lk (s\<lparr>vreg := b\<rparr>)" "(touch s)\<lparr>vreg := b\<rparr> = touch (s\<lparr>vreg := b\<rparr>)"
  by (simp_all add: acq_def touch_def push_off_def Let_def intr_defs)

lemma vst_lock [simp]:
  "upd_vd f (acq lk s) = acq lk (upd_vd f s)" "upd_vd f (touch s) = touch (upd_vd f s)"
  "vreg (acq lk s) = vreg s" "vreg (touch s) = vreg s" "wreg r v (acq lk s) = acq lk (wreg r v s)" "wreg r v (touch s) = touch (wreg r v s)"
proof -
  show v: "vreg (acq lk s) = vreg s" "vreg (touch s) = vreg s" by (simp_all add: acq_def touch_def push_off_def Let_def intr_defs)
  show "upd_vd f (acq lk s) = acq lk (upd_vd f s)" "upd_vd f (touch s) = touch (upd_vd f s)" by (simp_all add: upd_vd_def locksimp)
  show "wreg r v (acq lk s) = acq lk (wreg r v s)" "wreg r v (touch s) = touch (wreg r v s)" by (simp_all add: wreg_def v locksimp)
qed

lemma upd_vd_sel [simp]:
  "vd (upd_vd f s) = f (vd s)" "vdev_seen (upd_vd f s) = vdev_seen s" "vreg (upd_vd f s) = vreg s" "bufs (upd_vd f s) = bufs s" "disk (upd_vd f s) = disk s" "dtrace (upd_vd f s) = dtrace s"
  "procs (upd_vd f s) = procs s" "cpus (upd_vd f s) = cpus s" "tp (upd_vd f s) = tp s" "locks (upd_vd f s) = locks s" "intr (upd_vd f s) = intr s"
  "cpu_ok (upd_vd f s) \<longleftrightarrow> cpu_ok s" "lk_free lk (upd_vd f s) \<longleftrightarrow> lk_free lk s" "plocks_free (upd_vd f s) \<longleftrightarrow> plocks_free s"
  by (simp_all add: upd_vd_def cpu_ok_def lk_free_def plocks_free_def)

lemma wreg_sel [simp]:
  "vd (wreg r v s) = vd s" "vdev_seen (wreg r v s) = vdev_seen s" "bufs (wreg r v s) = bufs s" "disk (wreg r v s) = disk s" "dtrace (wreg r v s) = dtrace s"
  "procs (wreg r v s) = procs s" "cpus (wreg r v s) = cpus s" "tp (wreg r v s) = tp s" "locks (wreg r v s) = locks s" "intr (wreg r v s) = intr s"
  "cpu_ok (wreg r v s) \<longleftrightarrow> cpu_ok s" "lk_free lk (wreg r v s) \<longleftrightarrow> lk_free lk s" "plocks_free (wreg r v s) \<longleftrightarrow> plocks_free s"
  by (simp_all add: wreg_def cpu_ok_def lk_free_def plocks_free_def)


section \<open>The stages of a request\<close>

definition took3 :: "vdisk \<Rightarrow> vdisk" where
  "took3 v = v\<lparr>v_free := (v_free v)(0 := False, 1 := False, 2 := False)\<rparr>"





definition submitted :: "nat \<Rightarrow> bool \<Rightarrow> 'z vst_scheme \<Rightarrow> 'z vst_scheme" where
  "submitted b w s = virtio_submit b w [0, 1, 2] (upd_vd took3 s)"

lemma submitted_mach [simp]:
  "procs (submitted b w s) = procs s" "cpus (submitted b w s) = cpus s" "tp (submitted b w s) = tp s" "locks (submitted b w s) = locks s" "intr (submitted b w s) = intr s"
  "disk (submitted b w s) = disk s" "dtrace (submitted b w s) = dtrace s" "vdev_seen (submitted b w s) = vdev_seen s"
  "bufs (submitted b w s) = (bufs s)(b := (bufs s b)\<lparr>b_disk := True\<rparr>)"
  "cpu_ok (submitted b w s) \<longleftrightarrow> cpu_ok s" "lk_free lk (submitted b w s) \<longleftrightarrow> lk_free lk s"
  by (simp_all add: submitted_def virtio_submit_def Let_def upd_buf_def cpu_ok_def lk_free_def)












section \<open>The end of the request\<close>






section \<open>A request from beginning to end\<close>





section \<open>An example\<close>




end
